(* ===== verification/Prelude.thy ===== *)
theory Prelude
  imports Main "HOL-Library.AList"
begin

text \<open>
  Shared vocabulary of the development.

  \<^item> Rust's \<open>HashMap\<close> and \<open>BTreeMap\<close> are association lists with distinct keys
    (\<open>'k \<rightharpoonup>\<close> lookups by \<open>map_of\<close>, updates by \<open>AList.update\<close>); the order of the list
    stands for the iteration order, which Rust leaves unspecified for a \<open>HashMap\<close>, so a
    theorem about every such list is a theorem about every iteration order.  Rust's
    \<open>HashSet\<close> is a list without repetition where the code iterates over it and a set
    where the code only tests membership.
  \<^item> \<open>Result<T, E>\<close> is the sum \<open>'e + 'a\<close> with \<open>Inl\<close> the error; a panic (a failed
    \<open>assert!\<close>, an \<open>unwrap\<close> of nothing, an index out of range) is an outer \<open>None\<close>.
\<close>

named_theorems alist_simps "laws of lookups after updates and removals"

section \<open>Results\<close>

text \<open>The \<open>?\<close> operator: stop at the first error.\<close>

definition bindE :: "'e + 'a \<Rightarrow> ('a \<Rightarrow> 'e + 'b) \<Rightarrow> 'e + 'b" where
  "bindE r f = (case r of Inl e \<Rightarrow> Inl e | Inr a \<Rightarrow> f a)"

lemma bindE_simps [simp]:
  "bindE (Inl e) f = Inl e"
  "bindE (Inr a) f = f a"
  by (simp_all add: bindE_def)

lemma bindE_eq_Inr [simp]: "bindE r f = Inr b \<longleftrightarrow> (\<exists>a. r = Inr a \<and> f a = Inr b)"
  by (cases r) auto

lemma bindE_eq_Inl: "bindE r f = Inl e \<longleftrightarrow> r = Inl e \<or> (\<exists>a. r = Inr a \<and> f a = Inl e)"
  by (cases r) auto

text \<open>\<open>iter.map(f).collect::<Result<Vec<_>, _>>()\<close>.\<close>

fun collectE :: "('a \<Rightarrow> 'e + 'b) \<Rightarrow> 'a list \<Rightarrow> 'e + 'b list" where
  "collectE f [] = Inr []"
| "collectE f (x # xs) = bindE (f x) (\<lambda>y. bindE (collectE f xs) (\<lambda>ys. Inr (y # ys)))"

lemma collectE_Inr_iff:
  "collectE f xs = Inr ys \<longleftrightarrow> list_all2 (\<lambda>x y. f x = Inr y) xs ys"
proof (induction xs arbitrary: ys)
  case Nil
  then show ?case by auto
next
  case (Cons x xs)
  then show ?case by (cases ys) auto
qed

text \<open>A \<open>for\<close> loop whose body may bail out.\<close>

fun foldE :: "('a \<Rightarrow> 's \<Rightarrow> 'e + 's) \<Rightarrow> 'a list \<Rightarrow> 's \<Rightarrow> 'e + 's" where
  "foldE f [] s = Inr s"
| "foldE f (x # xs) s = bindE (f x s) (foldE f xs)"

lemma foldE_invariant:
  assumes "foldE f xs s = Inr s'" and "P s"
    and "\<And>x s s'. x \<in> set xs \<Longrightarrow> P s \<Longrightarrow> f x s = Inr s' \<Longrightarrow> P s'"
  shows "P s'"
  using assms
proof (induction xs arbitrary: s)
  case Nil
  then show ?case by simp
next
  case (Cons x xs)
  from Cons.prems(1) obtain s1 where s1: "f x s = Inr s1" and rest: "foldE f xs s1 = Inr s'"
    by auto
  have "P s1" by (rule Cons.prems(3) [OF _ Cons.prems(2) s1]) simp
  with rest show ?case
    by (rule Cons.IH) (use Cons.prems(3) in auto)
qed

text \<open>
  A computation that may also panic or, in a loop written with fuel, not come back:
  \<open>None\<close> for those, \<open>Some (Inl e)\<close> for an error, \<open>Some (Inr a)\<close> for a value.
\<close>

type_synonym ('e, 'a) run = "('e + 'a) option"

definition bindR :: "('e, 'a) run \<Rightarrow> ('a \<Rightarrow> ('e, 'b) run) \<Rightarrow> ('e, 'b) run" where
  "bindR r f = (case r of None \<Rightarrow> None | Some (Inl e) \<Rightarrow> Some (Inl e) | Some (Inr a) \<Rightarrow> f a)"

lemma bindR_simps [simp]:
  "bindR None f = None"
  "bindR (Some (Inl e)) f = Some (Inl e)"
  "bindR (Some (Inr a)) f = f a"
  by (simp_all add: bindR_def)

lemma bindR_eq_Inr [simp]:
  "bindR r f = Some (Inr b) \<longleftrightarrow> (\<exists>a. r = Some (Inr a) \<and> f a = Some (Inr b))"
  by (auto simp: bindR_def split: option.splits sum.splits)

text \<open>The \<open>for\<close> loop over such a computation: an invariant holds at the end, and at the step that
  fails.\<close>

fun foldR :: "('a \<Rightarrow> 's \<Rightarrow> ('e, 's) run) \<Rightarrow> 'a list \<Rightarrow> 's \<Rightarrow> ('e, 's) run" where
  "foldR f [] s = Some (Inr s)"
| "foldR f (x # xs) s = bindR (f x s) (foldR f xs)"

lemma foldR_invariant:
  assumes "foldR f xs s = Some (Inr s')" and "P s"
    and "\<And>x s s'. x \<in> set xs \<Longrightarrow> P s \<Longrightarrow> f x s = Some (Inr s') \<Longrightarrow> P s'"
  shows "P s'"
  using assms by (induction xs arbitrary: s) auto

lemma bindR_eq_Inl: "bindR r f = Some (Inl e) \<longleftrightarrow> r = Some (Inl e) \<or> (\<exists>a. r = Some (Inr a) \<and> f a = Some (Inl e))"
  by (auto simp: bindR_def split: option.splits sum.splits)

lemma bindR_eq_None: "bindR r f = None \<longleftrightarrow> r = None \<or> (\<exists>a. r = Some (Inr a) \<and> f a = None)"
  by (auto simp: bindR_def split: option.splits sum.splits)

lemma foldR_stops:
  assumes "foldR f xs s = r" "\<forall>s'. r \<noteq> Some (Inr s')" and "P s"
    and "\<And>x s s'. x \<in> set xs \<Longrightarrow> P s \<Longrightarrow> f x s = Some (Inr s') \<Longrightarrow> P s'"
  shows "\<exists>x\<in>set xs. \<exists>s. P s \<and> f x s = r"
  using assms
proof (induction xs arbitrary: s)
  case (Cons x xs)
  show ?case
  proof (cases "f x s")
    case None
    with Cons.prems show ?thesis by auto
  next
    case (Some y)
    then show ?thesis
    proof (cases y)
      case (Inl e)
      with Some Cons.prems show ?thesis by auto
    next
      case (Inr s1)
      with Some Cons.prems have 1: "foldR f xs s1 = r" and 2: "P s1" by auto
      have "\<exists>x\<in>set xs. \<exists>s. P s \<and> f x s = r"
        by (rule Cons.IH [OF 1 Cons.prems(2) 2]) (use Cons.prems(4) in auto)
      then show ?thesis by auto
    qed
  qed
qed auto

text \<open>\<open>unwrap\<close>, and an \<open>Option\<close> made into a \<open>Result\<close>.\<close>

definition unwrap :: "'a option \<Rightarrow> ('e, 'a) run" where
  "unwrap x = (case x of None \<Rightarrow> None | Some a \<Rightarrow> Some (Inr a))"

definition ok_or :: "'e \<Rightarrow> 'a option \<Rightarrow> 'e + 'a" where
  "ok_or e x = (case x of None \<Rightarrow> Inl e | Some a \<Rightarrow> Inr a)"

lemma unwrap_simps [simp]: "unwrap None = None" "unwrap (Some a) = Some (Inr a)"
  by (simp_all add: unwrap_def)

lemma ok_or_simps [simp]: "ok_or e None = Inl e" "ok_or e (Some a) = Inr a"
  by (simp_all add: ok_or_def)

lemma ok_or_eq_Inr [simp]: "ok_or e x = Inr a \<longleftrightarrow> x = Some a"
  by (cases x) auto

section \<open>Comparison\<close>

text \<open>\<open>std::cmp::Ordering\<close>, and the comparison of a type with a linear order.\<close>

datatype ordering = Less | Equal | Greater

definition cmp :: "'a::linorder \<Rightarrow> 'a \<Rightarrow> ordering" where
  "cmp a b = (if a < b then Less else if a = b then Equal else Greater)"

lemma cmp_eq_Equal [simp]: "cmp a b = Equal \<longleftrightarrow> a = b"
  by (auto simp: cmp_def)

lemma cmp_refl [simp]: "cmp a a = Equal"
  by simp

fun reverse :: "ordering \<Rightarrow> ordering" where
  "reverse Less = Greater"
| "reverse Equal = Equal"
| "reverse Greater = Less"

lemma cmp_swap: "cmp b a = reverse (cmp a b)"
  by (auto simp: cmp_def)

section \<open>Strings\<close>

text \<open>\<open>s.splitn(2, c)\<close>: the part before the first \<open>c\<close>, and the part after it if there is one.\<close>

definition splitn2 :: "char \<Rightarrow> string \<Rightarrow> string \<times> string option" where
  "splitn2 c s =
     (takeWhile (\<lambda>x. x \<noteq> c) s,
      case dropWhile (\<lambda>x. x \<noteq> c) s of [] \<Rightarrow> None | _ # rest \<Rightarrow> Some rest)"

lemma splitn2_append [simp]: "c \<notin> set a \<Longrightarrow> splitn2 c (a @ c # b) = (a, Some b)"
  by (simp add: splitn2_def takeWhile_append dropWhile_append)

lemma splitn2_Some: "splitn2 c s = (a, Some b) \<Longrightarrow> s = a @ c # b"
  by (auto simp: splitn2_def dropWhile_eq_Cons_conv split: list.splits)

lemma splitn2_none [simp]: "c \<notin> set a \<Longrightarrow> splitn2 c a = (a, None)"
  by (induction a) (auto simp: splitn2_def)

definition starts_with :: "string \<Rightarrow> string \<Rightarrow> bool" where
  "starts_with p s \<longleftrightarrow> take (length p) s = p"

definition ends_with_char :: "char \<Rightarrow> string \<Rightarrow> bool" where
  "ends_with_char c s \<longleftrightarrow> s \<noteq> [] \<and> last s = c"

definition ends_with :: "string \<Rightarrow> string \<Rightarrow> bool" where
  "ends_with p s \<longleftrightarrow> length p \<le> length s \<and> drop (length s - length p) s = p"

section \<open>Association lists\<close>

abbreviation keys :: "('k \<times> 'v) list \<Rightarrow> 'k list" where
  "keys m \<equiv> map fst m"

abbreviation wf_alist :: "('k \<times> 'v) list \<Rightarrow> bool" where
  "wf_alist m \<equiv> distinct (keys m)"

lemma wf_alist_update [simp, intro]: "wf_alist m \<Longrightarrow> wf_alist (AList.update k v m)"
  by (rule distinct_update)

lemma wf_alist_delete [simp, intro]: "wf_alist m \<Longrightarrow> wf_alist (AList.delete k m)"
  by (rule distinct_delete)

lemma map_of_update [simp, alist_simps]:
  "map_of (AList.update k v m) x = (if x = k then Some v else map_of m x)"
  by (simp add: update_conv')

lemma map_of_delete [simp, alist_simps]:
  "map_of (AList.delete k m) x = (if x = k then None else map_of m x)"
  by (simp add: delete_conv')

lemma set_keys_update [simp, alist_simps]:
  "fst ` set (AList.update k v m) = insert k (fst ` set m)"
  by (simp add: dom_update)

lemma set_keys_delete [simp, alist_simps]:
  "fst ` set (AList.delete k m) = fst ` set m - {k}"
  by (auto simp: dom_map_of_conv_image_fst [symmetric] delete_conv')

lemma in_keys_iff: "k \<in> fst ` set m \<longleftrightarrow> map_of m k \<noteq> None"
  by (metis map_of_eq_None_iff)

lemma map_of_in_set_iff: "wf_alist m \<Longrightarrow> (k, v) \<in> set m \<longleftrightarrow> map_of m k = Some v"
  by (rule map_of_eq_Some_iff [symmetric])

lemma set_alist_update_subset: "set (AList.update k v m) \<subseteq> insert (k, v) (set m)"
  by (induction m) auto

lemma length_alist_update: "length (AList.update k v m) \<le> Suc (length m)"
  by (induction m) auto

lemma length_delete_Suc:
  "wf_alist m \<Longrightarrow> k \<in> fst ` set m \<Longrightarrow> Suc (length (AList.delete k m)) = length m"
proof (induction m)
  case Nil
  then show ?case by simp
next
  case (Cons p m)
  show ?case
  proof (cases "fst p = k")
    case True
    with Cons.prems have "k \<notin> fst ` set m" by auto
    then have "AList.delete k m = m"
      by (simp add: delete_id)
    with True show ?thesis by (cases p) simp
  next
    case False
    with Cons show ?thesis by (cases p) auto
  qed
qed

section \<open>Choosing a maximum\<close>

text \<open>
  \<open>Iterator::max_by_key\<close>: the element with the greatest key, the last one where several
  are equally great; nothing for an empty iterator.
\<close>

fun max_by_key :: "('a \<Rightarrow> nat) \<Rightarrow> 'a list \<Rightarrow> 'a option" where
  "max_by_key f [] = None"
| "max_by_key f (x # xs) =
     (case max_by_key f xs of
        None \<Rightarrow> Some x
      | Some y \<Rightarrow> if f x \<le> f y then Some y else Some x)"

lemma max_by_key_eq_None [simp]: "max_by_key f xs = None \<longleftrightarrow> xs = []"
  by (cases xs) (auto split: option.splits if_splits)

lemma max_by_key_in_set: "max_by_key f xs = Some x \<Longrightarrow> x \<in> set xs"
  by (induction xs arbitrary: x) (auto split: option.splits if_splits)

lemma max_by_key_greatest: "max_by_key f xs = Some x \<Longrightarrow> y \<in> set xs \<Longrightarrow> f y \<le> f x"
proof (induction xs arbitrary: x y)
  case Nil
  then show ?case by simp
next
  case (Cons z zs)
  show ?case
  proof (cases "max_by_key f zs")
    case None
    with Cons.prems show ?thesis by simp
  next
    case (Some w)
    with Cons.IH [OF Some] Cons.prems show ?thesis
      by (force split: if_splits)
  qed
qed

section \<open>Sorting by a comparison\<close>

fun insert_by :: "('a \<Rightarrow> 'a \<Rightarrow> ordering) \<Rightarrow> 'a \<Rightarrow> 'a list \<Rightarrow> 'a list" where
  "insert_by c x [] = [x]"
| "insert_by c x (y # ys) = (if c x y = Greater then y # insert_by c x ys else x # y # ys)"

definition sort_by :: "('a \<Rightarrow> 'a \<Rightarrow> ordering) \<Rightarrow> 'a list \<Rightarrow> 'a list" where
  "sort_by c xs = foldr (insert_by c) xs []"

lemma set_insert_by [simp]: "set (insert_by c x ys) = insert x (set ys)"
  by (induction ys) auto

lemma length_insert_by [simp]: "length (insert_by c x ys) = Suc (length ys)"
  by (induction ys) auto

lemma sort_by_simps [simp]: "sort_by c [] = []" "sort_by c (x # xs) = insert_by c x (sort_by c xs)"
  by (simp_all add: sort_by_def)

lemma set_sort_by [simp]: "set (sort_by c xs) = set xs"
  by (induction xs) auto

lemma length_sort_by [simp]: "length (sort_by c xs) = length xs"
  by (induction xs) auto

lemma sort_by_eq_Nil [simp]: "sort_by c xs = [] \<longleftrightarrow> xs = []"
  by (metis length_0_conv length_sort_by)

text \<open>A comparison that is a total preorder.\<close>

definition preorder_cmp :: "('a \<Rightarrow> 'a \<Rightarrow> ordering) \<Rightarrow> bool" where
  "preorder_cmp c \<longleftrightarrow>
     (\<forall>a b. c b a = reverse (c a b)) \<and>
     (\<forall>a b d. c a b \<noteq> Greater \<and> c b d \<noteq> Greater \<longrightarrow> c a d \<noteq> Greater)"

lemma insert_by_sorted:
  assumes c: "preorder_cmp c" and "sorted_wrt (\<lambda>a b. c a b \<noteq> Greater) ys"
  shows "sorted_wrt (\<lambda>a b. c a b \<noteq> Greater) (insert_by c x ys)"
  using assms(2)
proof (induction ys)
  case (Cons y ys)
  show ?case
  proof (cases "c x y = Greater")
    case True
    have "c y x = reverse (c x y)" using c unfolding preorder_cmp_def by blast
    with True have "c y x \<noteq> Greater" by simp
    with True Cons show ?thesis by auto
  next
    case False
    then have "c x z \<noteq> Greater" if "z \<in> set ys" for z
    proof -
      have "c y z \<noteq> Greater" using Cons.prems that by simp
      with False c show ?thesis unfolding preorder_cmp_def by blast
    qed
    with False Cons.prems show ?thesis by auto
  qed
qed simp

lemma sort_by_sorted: "preorder_cmp c \<Longrightarrow> sorted_wrt (\<lambda>a b. c a b \<noteq> Greater) (sort_by c xs)"
  by (induction xs) (auto intro: insert_by_sorted)

end
