(* ===== verification/Dep_Queue.thy ===== *)
theory Dep_Queue
  imports Prelude
begin

text \<open>
  The build scheduler's queue, \<open>src/cargo/util/dependency_queue.rs\<close>: packages are queued
  with their dependencies, \<open>queue_finished\<close> computes the topological depth of every key,
  \<open>dequeue\<close> hands out a key all of whose dependencies are finished and \<open>finish\<close> releases
  the keys that waited for it.  The theory models the record and every operation, the
  panics included, proves the invariant of the queue, that the depth computation panics
  exactly on a cycle, and that a run neither gets stuck nor starts a key too early.
\<close>

section \<open>The structure and its operations\<close>

datatype freshness = Fresh | Dirty

fun combine :: "freshness \<Rightarrow> freshness \<Rightarrow> freshness" where
  "combine Fresh other = other"
| "combine Dirty other = Dirty"

record ('k, 'v) dependency_queue =
  dep_map :: "('k \<times> ('k set \<times> 'v)) list"
  reverse_dep_map :: "('k \<times> 'k list) list"
  dirty :: "'k set"
  pending :: "'k set"
  depth_map :: "'k \<rightharpoonup> nat"

definition new_queue :: "('k, 'v) dependency_queue" where
  "new_queue = \<lparr>dep_map = [], reverse_dep_map = [], dirty = {}, pending = {},
     depth_map = Map.empty\<rparr>"

text \<open>The reverse dependencies recorded for a key; no entry reads as none.\<close>

definition rev_deps :: "('k \<times> 'k list) list \<Rightarrow> 'k \<Rightarrow> 'k list" where
  "rev_deps m k = (case map_of m k of None \<Rightarrow> [] | Some ks \<Rightarrow> ks)"

text \<open>The loop of \<open>queue\<close> over the dependencies: the entry of each gets the new key.\<close>

fun add_reverse :: "'k \<Rightarrow> 'k list \<Rightarrow> ('k \<times> 'k list) list \<Rightarrow> ('k \<times> 'k list) list" where
  "add_reverse key [] m = m"
| "add_reverse key (dep # deps) m =
     add_reverse key deps (AList.update dep (List.insert key (rev_deps m dep)) m)"

text \<open>\<open>queue\<close> gives back the value the key has in the queue: the old one if it was there.\<close>

definition queue ::
  "freshness \<Rightarrow> 'k \<Rightarrow> 'v \<Rightarrow> 'k list \<Rightarrow> ('k, 'v) dependency_queue
     \<Rightarrow> ('k, 'v) dependency_queue \<times> 'v" where
  "queue fresh key value dependencies q =
     (case map_of (dep_map q) key of
        Some (_, v) \<Rightarrow> (q, v)
      | None \<Rightarrow>
          (q\<lparr>dirty := (if fresh = Dirty then insert key (dirty q) else dirty q),
             reverse_dep_map := add_reverse key dependencies (reverse_dep_map q),
             dep_map := AList.update key (set dependencies, value) (dep_map q)\<rparr>, value))"

text \<open>
  The depth-first computation of \<open>queue_finished\<close>.  \<open>IN_PROGRESS\<close> is \<open>!0\<close>, the greatest
  \<open>usize\<close>; meeting it again is the failed assertion ``cycle in DependencyQueue'', here the
  result \<open>None\<close>.  \<open>depth_max\<close> is the iterator chain of the recursive call: it visits a list
  of keys from left to right with the table of results and gives the greatest depth, 0 for
  no key; \<open>depth\<close> is the visit of one key.
\<close>

definition IN_PROGRESS :: nat where
  "IN_PROGRESS = 2 ^ 64 - 1"

definition rev_nodes :: "('k \<times> 'k list) list \<Rightarrow> 'k set" where
  "rev_nodes m = fst ` set m"

lemma finite_rev_nodes [simp]: "finite (rev_nodes m)"
  by (simp add: rev_nodes_def)

lemma rev_deps_not_node: "k \<notin> rev_nodes m \<Longrightarrow> rev_deps m k = []"
  by (simp add: rev_nodes_def rev_deps_def map_of_eq_None_iff [THEN iffD2])

function (sequential) depth_max ::
  "('k \<times> 'k list) list \<Rightarrow> 'k list \<Rightarrow> ('k \<rightharpoonup> nat) \<Rightarrow> (('k \<rightharpoonup> nat) \<times> nat) option" where
  "depth_max m [] results = Some (results, 0)"
| "depth_max m (key # ks) results =
     (case results key of
        Some d \<Rightarrow>
          if d = IN_PROGRESS then None
          else (case depth_max m ks results of
                  None \<Rightarrow> None
                | Some (results', n) \<Rightarrow> Some (results', max d n))
      | None \<Rightarrow>
          (case depth_max m (rev_deps m key) (results(key \<mapsto> IN_PROGRESS)) of
             None \<Rightarrow> None
           | Some (results1, n) \<Rightarrow>
               (case depth_max m ks (results1(key \<mapsto> 1 + n)) of
                  None \<Rightarrow> None
                | Some (results', n') \<Rightarrow> Some (results', max (1 + n) n'))))"
  by pat_completeness auto

lemma depth_max_dom_pre:
  "depth_max_dom (m, ks, results) \<Longrightarrow> depth_max m ks results = Some (results', n)
     \<Longrightarrow> dom results \<subseteq> dom results'"
proof (induction m ks results arbitrary: results' n rule: depth_max.pinduct)
  case (1 m results)
  then show ?case by (simp add: depth_max.psimps)
next
  case (2 m key ks results)
  show ?case
  proof (cases "results key")
    case None
    with 2 obtain r1 n1 where r1:
        "depth_max m (rev_deps m key) (results(key \<mapsto> IN_PROGRESS)) = Some (r1, n1)"
      by (auto simp: depth_max.psimps split: option.splits)
    with 2 None obtain n' where r2: "depth_max m ks (r1(key \<mapsto> 1 + n1)) = Some (results', n')"
      by (auto simp: depth_max.psimps split: option.splits)
    from "2.IH"(1) [OF None r1] have "insert key (dom results) \<subseteq> dom r1"
      by (force simp: dom_def subset_iff)
    moreover from "2.IH"(2) [OF None r1 _ r2] have "dom r1 \<subseteq> dom results'"
      by (force simp: dom_def subset_iff)
    ultimately show ?thesis by blast
  next
    case (Some d)
    with 2 show ?thesis
      by (fastforce simp: depth_max.psimps split: option.splits if_splits)
  qed
qed

termination depth_max
proof (relation "inv_image (finite_psubset <*lex*> less_than)
    (\<lambda>(m, ks, results). (rev_nodes m - dom results, length ks))", goal_cases)
  case 1
  show ?case by auto
next
  case (2 m key ks results)
  then show ?case
    by (cases "key \<in> rev_nodes m") (auto simp: finite_psubset_def rev_deps_not_node)
next
  case (3 m key ks results p results1 n)
  have "dom (results(key \<mapsto> IN_PROGRESS)) \<subseteq> dom results1"
    by (rule depth_max_dom_pre) (use 3 in auto)
  then have "rev_nodes m - dom (results1(key \<mapsto> 1 + n)) \<subseteq> rev_nodes m - dom results"
    by auto
  then show ?case
    by (auto simp: finite_psubset_def psubset_eq)
next
  case (4 m key ks results d)
  then show ?case by simp
qed

definition depth ::
  "'k \<Rightarrow> ('k \<times> 'k list) list \<Rightarrow> ('k \<rightharpoonup> nat) \<Rightarrow> (('k \<rightharpoonup> nat) \<times> nat) option" where
  "depth key m results = depth_max m [key] results"

fun depth_all :: "('k \<times> 'k list) list \<Rightarrow> 'k list \<Rightarrow> ('k \<rightharpoonup> nat) \<Rightarrow> ('k \<rightharpoonup> nat) option" where
  "depth_all m [] results = Some results"
| "depth_all m (k # ks) results =
     (case depth k m results of None \<Rightarrow> None | Some (results', _) \<Rightarrow> depth_all m ks results')"

definition queue_finished :: "('k, 'v) dependency_queue \<Rightarrow> ('k, 'v) dependency_queue option" where
  "queue_finished q =
     (case depth_all (reverse_dep_map q) (keys (dep_map q)) (depth_map q) of
        None \<Rightarrow> None
      | Some results \<Rightarrow> Some (q\<lparr>depth_map := results\<rparr>))"

text \<open>
  \<open>dequeue\<close>: the outer \<open>None\<close> is the panic of \<open>self.depth[k]\<close> on a key without depth, the
  inner one the answer that nothing is ready.
\<close>

definition ready_keys :: "('k, 'v) dependency_queue \<Rightarrow> 'k list" where
  "ready_keys q = map fst (filter (\<lambda>(_, deps, _). deps = {}) (dep_map q))"

definition dequeue ::
  "('k, 'v) dependency_queue
     \<Rightarrow> (('k, 'v) dependency_queue \<times> (freshness \<times> 'k \<times> 'v) option) option" where
  "dequeue q =
     (if list_ex (\<lambda>k. depth_map q k = None) (ready_keys q) then None
      else case max_by_key (\<lambda>k. the (depth_map q k)) (ready_keys q) of
             None \<Rightarrow> Some (q, None)
           | Some key \<Rightarrow>
               (case map_of (dep_map q) key of
                  None \<Rightarrow> None
                | Some (_, data) \<Rightarrow>
                    Some (q\<lparr>dep_map := AList.delete key (dep_map q),
                            pending := insert key (pending q)\<rparr>,
                      Some (if key \<in> dirty q then Dirty else Fresh, key, data))))"

definition is_empty_queue :: "('k, 'v) dependency_queue \<Rightarrow> bool" where
  "is_empty_queue q \<longleftrightarrow> dep_map q = [] \<and> pending q = {}"

definition len_queue :: "('k, 'v) dependency_queue \<Rightarrow> nat" where
  "len_queue q = length (dep_map q) + card (pending q)"

text \<open>The loop of \<open>finish\<close> over the reverse dependencies; \<open>None\<close> is a failed assertion.\<close>

fun release ::
  "'k \<Rightarrow> freshness \<Rightarrow> 'k list \<Rightarrow> ('k, 'v) dependency_queue \<Rightarrow> ('k, 'v) dependency_queue option" where
  "release key fresh [] q = Some q"
| "release key fresh (dep # deps) q =
     (case map_of (dep_map q) dep of
        None \<Rightarrow> None
      | Some (ds, v) \<Rightarrow>
          if key \<in> ds then
            release key fresh deps
              (q\<lparr>dirty := (if fresh = Dirty then insert dep (dirty q) else dirty q),
                 dep_map := AList.update dep (ds - {key}, v) (dep_map q)\<rparr>)
          else None)"

definition finish ::
  "'k \<Rightarrow> freshness \<Rightarrow> ('k, 'v) dependency_queue \<Rightarrow> ('k, 'v) dependency_queue option" where
  "finish key fresh q =
     (if key \<in> pending q then
        (case map_of (reverse_dep_map q) key of
           None \<Rightarrow> Some (q\<lparr>pending := pending q - {key}\<rparr>)
         | Some reverse_deps \<Rightarrow> release key fresh reverse_deps (q\<lparr>pending := pending q - {key}\<rparr>))
      else None)"

section \<open>The depth computation\<close>

definition rev_edges :: "('k \<times> 'k list) list \<Rightarrow> ('k \<times> 'k) set" where
  "rev_edges m = {(k, d). d \<in> set (rev_deps m k)}"

definition settled :: "('k \<rightharpoonup> nat) \<Rightarrow> 'k set" where
  "settled results = {k. \<exists>d. results k = Some d \<and> d \<noteq> IN_PROGRESS}"

definition in_progress :: "('k \<rightharpoonup> nat) \<Rightarrow> 'k set" where
  "in_progress results = {k. results k = Some IN_PROGRESS}"

definition greatest :: "('k \<rightharpoonup> nat) \<Rightarrow> 'k list \<Rightarrow> nat" where
  "greatest results ks = foldr (\<lambda>k. max (the (results k))) ks 0"

lemma greatest_simps [simp]:
  "greatest results [] = 0"
  "greatest results (k # ks) = max (the (results k)) (greatest results ks)"
  by (simp_all add: greatest_def)

lemma greatest_cong: "(\<And>k. k \<in> set ks \<Longrightarrow> r k = r' k) \<Longrightarrow> greatest r ks = greatest r' ks"
  by (induction ks) auto

lemma greatest_upper: "k \<in> set ks \<Longrightarrow> the (r k) \<le> greatest r ks"
  by (induction ks) auto

text \<open>
  What a table of results means: a settled key has settled successors and one more than
  their greatest depth, and no depth exceeds the number of settled keys.
\<close>

definition depths_ok :: "('k \<times> 'k list) list \<Rightarrow> 'k set \<Rightarrow> ('k \<rightharpoonup> nat) \<Rightarrow> bool" where
  "depths_ok m U r \<longleftrightarrow> dom r \<subseteq> U \<and>
     (\<forall>k \<in> settled r. set (rev_deps m k) \<subseteq> settled r \<and>
        the (r k) = 1 + greatest r (rev_deps m k) \<and> the (r k) \<le> card (settled r))"

lemma settled_subset_dom: "settled r \<subseteq> dom r"
  by (auto simp: settled_def)

lemma greatest_le: "(\<And>k. k \<in> set ks \<Longrightarrow> the (r k) \<le> n) \<Longrightarrow> greatest r ks \<le> n"
  by (induction ks) auto

lemma greatest_le_card:
  "depths_ok m U r \<Longrightarrow> set ks \<subseteq> settled r \<Longrightarrow> greatest r ks \<le> card (settled r)"
  by (rule greatest_le) (auto simp: depths_ok_def)

text \<open>Marking a key as in progress, and settling it once its successors are.\<close>

lemma settled_mark: "r key = None \<Longrightarrow> settled (r(key \<mapsto> IN_PROGRESS)) = settled r"
  by (auto simp: settled_def)

lemma depths_ok_mark:
  assumes ok: "depths_ok m U r" and key: "key \<in> U" and new: "r key = None"
  shows "depths_ok m U (r(key \<mapsto> IN_PROGRESS))"
proof -
  have "greatest (r(key \<mapsto> IN_PROGRESS)) (rev_deps m k) = greatest r (rev_deps m k)"
    and "(r(key \<mapsto> IN_PROGRESS)) k = r k" if "k \<in> settled r" for k
  proof -
    from ok that have "set (rev_deps m k) \<subseteq> settled r" by (simp add: depths_ok_def)
    with new have "key \<notin> set (rev_deps m k)" by (auto simp: settled_def)
    then show "greatest (r(key \<mapsto> IN_PROGRESS)) (rev_deps m k) = greatest r (rev_deps m k)"
      by (intro greatest_cong) auto
    from that new show "(r(key \<mapsto> IN_PROGRESS)) k = r k" by (auto simp: settled_def)
  qed
  with ok key show ?thesis
    unfolding depths_ok_def settled_mark [of r key, OF new] by auto
qed

lemma settled_settle:
  "r key = Some IN_PROGRESS \<Longrightarrow> d \<noteq> IN_PROGRESS \<Longrightarrow> settled (r(key \<mapsto> d)) = insert key (settled r)"
  by (auto simp: settled_def)

lemma depths_ok_settle:
  assumes ok: "depths_ok m U r" and fin: "finite U" and small: "card U < IN_PROGRESS"
    and mark: "r key = Some IN_PROGRESS" and succ: "set (rev_deps m key) \<subseteq> settled r"
  shows "depths_ok m U (r(key \<mapsto> 1 + greatest r (rev_deps m key)))"
    and "1 + greatest r (rev_deps m key) < IN_PROGRESS"
proof -
  let ?d = "1 + greatest r (rev_deps m key)"
  let ?r = "r(key \<mapsto> ?d)"
  have fresh: "key \<notin> settled r" using mark by (simp add: settled_def)
  have dom: "dom r \<subseteq> U" using ok by (simp add: depths_ok_def)
  have fin_s: "finite (settled r)"
    by (rule finite_subset [OF _ fin]) (use dom settled_subset_dom [of r] in auto)
  have "insert key (settled r) \<subseteq> U" using dom mark settled_subset_dom [of r] by auto
  then have "card (insert key (settled r)) \<le> card U" by (rule card_mono [OF fin])
  then have le: "Suc (card (settled r)) \<le> card U" using fresh fin_s by simp
  have d_le: "?d \<le> Suc (card (settled r))"
    using greatest_le_card [OF ok succ] by simp
  with le small show lt: "?d < IN_PROGRESS" by simp
  then have set_r: "settled ?r = insert key (settled r)"
    by (intro settled_settle mark) simp
  have same: "greatest ?r (rev_deps m k) = greatest r (rev_deps m k)"
    if "k \<in> insert key (settled r)" for k
  proof -
    have "set (rev_deps m k) \<subseteq> settled r" using that ok succ by (auto simp: depths_ok_def)
    with fresh show ?thesis by (intro greatest_cong) auto
  qed
  show "depths_ok m U ?r"
    unfolding depths_ok_def set_r
    using ok fresh same d_le mark dom fin_s succ
    by (auto simp: depths_ok_def intro: le_SucI)
qed

text \<open>
  The main lemma: a visit that returns settles the keys it was given, keeps every settled
  depth and every mark, and its number is the greatest depth of those keys.
\<close>

definition extends :: "('k \<rightharpoonup> nat) \<Rightarrow> ('k \<rightharpoonup> nat) \<Rightarrow> bool" where
  "extends r r' \<longleftrightarrow> in_progress r' = in_progress r \<and> (\<forall>k \<in> settled r. r' k = r k)"

lemma extends_settled: "extends r r' \<Longrightarrow> settled r \<subseteq> settled r'"
  by (force simp: extends_def settled_def)

lemma extends_refl [simp]: "extends r r"
  by (simp add: extends_def)

lemma extends_trans: "extends r r' \<Longrightarrow> extends r' r'' \<Longrightarrow> extends r r''"
  using extends_settled [of r r'] by (auto simp: extends_def)

lemma extends_visit:
  assumes new: "r key = None" and ext: "extends (r(key \<mapsto> IN_PROGRESS)) r1"
    and d: "d \<noteq> IN_PROGRESS"
  shows "extends r (r1(key \<mapsto> d))"
proof -
  have marks: "r1 x = Some IN_PROGRESS \<longleftrightarrow> (r(key \<mapsto> IN_PROGRESS)) x = Some IN_PROGRESS" for x
    using ext by (auto simp: extends_def in_progress_def set_eq_iff)
  have "in_progress (r1(key \<mapsto> d)) = in_progress r"
    using marks d new by (auto simp: in_progress_def split: if_splits)
  moreover have "(r1(key \<mapsto> d)) k = r k" if "k \<in> settled r" for k
  proof -
    have "k \<noteq> key" using that new by (auto simp: settled_def)
    moreover have "r1 k = (r(key \<mapsto> IN_PROGRESS)) k"
      using ext that unfolding extends_def settled_mark [of r key, OF new] by blast
    ultimately show ?thesis by simp
  qed
  ultimately show ?thesis by (simp add: extends_def)
qed

lemma depth_max_spec:
  assumes "depth_max m ks r = Some (r', n)" and "depths_ok m U r"
    and "finite U" "card U < IN_PROGRESS" "set ks \<subseteq> U" "\<And>k. k \<in> U \<Longrightarrow> set (rev_deps m k) \<subseteq> U"
  shows "depths_ok m U r' \<and> extends r r' \<and> set ks \<subseteq> settled r' \<and> n = greatest r' ks"
  using assms
proof (induction m ks r arbitrary: r' n rule: depth_max.induct)
  case (1 m r)
  then show ?case by simp
next
  case (2 m key ks r)
  note U = "2.prems"(3,4,6)
  have sub: "set ks \<subseteq> U" and key: "key \<in> U" using "2.prems"(5) by auto
  show ?case
  proof (cases "r key")
    case None
    with "2.prems"(1) obtain r1 n1 n2 where
        first: "depth_max m (rev_deps m key) (r(key \<mapsto> IN_PROGRESS)) = Some (r1, n1)"
      and rest: "depth_max m ks (r1(key \<mapsto> 1 + n1)) = Some (r', n2)"
      and n: "n = max (1 + n1) n2"
      by (auto split: option.splits)
    have IH1: "depths_ok m U r1 \<and> extends (r(key \<mapsto> IN_PROGRESS)) r1 \<and>
        set (rev_deps m key) \<subseteq> settled r1 \<and> n1 = greatest r1 (rev_deps m key)"
      by (rule "2.IH"(1) [OF None first]) (use depths_ok_mark [OF "2.prems"(2) key None] U key in \<open>auto simp: fun_upd_def\<close>)
    then have mark: "r1 key = Some IN_PROGRESS"
      by (auto simp: extends_def in_progress_def)
    note settle = depths_ok_settle [of m U r1 key]
    have ok2: "depths_ok m U (r1(key \<mapsto> 1 + n1))" and lt: "1 + n1 < IN_PROGRESS"
      using settle IH1 mark U by auto
    have IH2: "depths_ok m U r' \<and> extends (r1(key \<mapsto> 1 + n1)) r' \<and>
        set ks \<subseteq> settled r' \<and> n2 = greatest r' ks"
      by (rule "2.IH"(2) [OF None first _ rest]) (use ok2 U sub in \<open>auto simp: fun_upd_def\<close>)
    have ext: "extends r (r1(key \<mapsto> 1 + n1))"
      by (rule extends_visit [of r key, OF None]) (use IH1 lt in auto)
    have "key \<in> settled (r1(key \<mapsto> 1 + n1))" using lt by (auto simp: settled_def)
    with IH2 have "r' key = Some (1 + n1)" by (auto simp: extends_def)
    then have "the (r' key) = 1 + n1" and "key \<in> settled r'"
      using lt by (auto simp: settled_def)
    with IH2 n extends_trans [OF ext] show ?thesis by auto
  next
    case (Some d)
    with "2.prems"(1) obtain n2 where d: "d \<noteq> IN_PROGRESS"
      and rest: "depth_max m ks r = Some (r', n2)" and n: "n = max d n2"
      by (auto split: option.splits if_splits)
    have IH: "depths_ok m U r' \<and> extends r r' \<and> set ks \<subseteq> settled r' \<and> n2 = greatest r' ks"
      by (rule "2.IH"(3) [OF Some d rest]) (use "2.prems" U sub in auto)
    moreover have "key \<in> settled r" using Some d by (simp add: settled_def)
    ultimately show ?thesis
      using n Some extends_settled [of r r'] by (auto simp: extends_def)
  qed
qed

text \<open>A visit that panics has met a key in progress or a cycle.\<close>

lemma depth_max_None:
  assumes "depth_max m ks r = None" and "depths_ok m U r"
    and "finite U" "card U < IN_PROGRESS" "set ks \<subseteq> U" "\<And>k. k \<in> U \<Longrightarrow> set (rev_deps m k) \<subseteq> U"
  shows "\<exists>k \<in> set ks. \<exists>x. (k, x) \<in> (rev_edges m)\<^sup>* \<and> (x \<in> in_progress r \<or> (x, x) \<in> (rev_edges m)\<^sup>+)"
  using assms
proof (induction m ks r rule: depth_max.induct)
  case (1 m r)
  then show ?case by simp
next
  case (2 m key ks r)
  note U = "2.prems"(3,4,6)
  have sub: "set ks \<subseteq> U" and key: "key \<in> U" using "2.prems"(5) by auto
  show ?case
  proof (cases "r key")
    case None
    let ?r = "r(key \<mapsto> IN_PROGRESS)"
    note mark = depths_ok_mark [OF "2.prems"(2) key None]
    show ?thesis
    proof (cases "depth_max m (rev_deps m key) ?r")
      case fail: None
      have "\<exists>k \<in> set (rev_deps m key). \<exists>x. (k, x) \<in> (rev_edges m)\<^sup>* \<and>
          (x \<in> in_progress ?r \<or> (x, x) \<in> (rev_edges m)\<^sup>+)"
        by (rule "2.IH"(1) [OF None fail mark]) (use U key in auto)
      then obtain k x where k: "(key, k) \<in> rev_edges m" and x: "(k, x) \<in> (rev_edges m)\<^sup>*"
        and bad: "x \<in> in_progress ?r \<or> (x, x) \<in> (rev_edges m)\<^sup>+"
        by (auto simp: rev_edges_def)
      have "(key, x) \<in> (rev_edges m)\<^sup>+" using k x by (rule rtrancl_into_trancl2)
      with bad show ?thesis
        by (cases "x = key") (auto simp: in_progress_def intro!: exI [of _ x])
    next
      case (Some p)
      then obtain r1 n1 where first: "depth_max m (rev_deps m key) ?r = Some (r1, n1)"
        by (cases p) auto
      have spec: "depths_ok m U r1 \<and> extends ?r r1 \<and>
          set (rev_deps m key) \<subseteq> settled r1 \<and> n1 = greatest r1 (rev_deps m key)"
        by (rule depth_max_spec [OF first mark]) (use U key in auto)
      then have "r1 key = Some IN_PROGRESS"
        by (auto simp: extends_def in_progress_def)
      then have ok2: "depths_ok m U (r1(key \<mapsto> 1 + n1))" and lt: "1 + n1 < IN_PROGRESS"
        using depths_ok_settle [of m U r1 key] spec U by auto
      have ext: "extends r (r1(key \<mapsto> 1 + n1))"
        by (rule extends_visit [of r key, OF None]) (use spec lt in auto)
      have fail: "depth_max m ks (r1(key \<mapsto> 1 + n1)) = None"
        using "2.prems"(1) None first by (auto split: option.splits)
      have "\<exists>k \<in> set ks. \<exists>x. (k, x) \<in> (rev_edges m)\<^sup>* \<and>
          (x \<in> in_progress (r1(key \<mapsto> 1 + n1)) \<or> (x, x) \<in> (rev_edges m)\<^sup>+)"
        by (rule "2.IH"(2) [OF None first _ fail]) (use ok2 U sub in \<open>auto simp: fun_upd_def\<close>)
      with ext show ?thesis by (auto simp: extends_def)
    qed
  next
    case (Some d)
    show ?thesis
    proof (cases "d = IN_PROGRESS")
      case True
      with Some show ?thesis by (auto simp: in_progress_def intro!: exI [of _ key])
    next
      case False
      with "2.prems"(1) Some have fail: "depth_max m ks r = None"
        by (auto split: option.splits)
      have "\<exists>k \<in> set ks. \<exists>x. (k, x) \<in> (rev_edges m)\<^sup>* \<and> (x \<in> in_progress r \<or> (x, x) \<in> (rev_edges m)\<^sup>+)"
        by (rule "2.IH"(3) [OF Some False fail]) (use "2.prems" U sub in auto)
      then show ?thesis by auto
    qed
  qed
qed

lemma depth_all_spec:
  assumes "depths_ok m U r" and U: "finite U" "card U < IN_PROGRESS"
    "\<And>k. k \<in> U \<Longrightarrow> set (rev_deps m k) \<subseteq> U" and "set ks \<subseteq> U"
  shows "(case depth_all m ks r of
      Some r' \<Rightarrow> depths_ok m U r' \<and> extends r r' \<and> set ks \<subseteq> settled r'
    | None \<Rightarrow> \<exists>k \<in> set ks. \<exists>x. (k, x) \<in> (rev_edges m)\<^sup>* \<and>
        (x \<in> in_progress r \<or> (x, x) \<in> (rev_edges m)\<^sup>+))"
  using assms(1,5)
proof (induction ks arbitrary: r)
  case Nil
  then show ?case by simp
next
  case (Cons k ks)
  show ?case
  proof (cases "depth k m r")
    case None
    with depth_max_None [of m "[k]" r U] Cons.prems U show ?thesis
      by (auto simp: depth_def)
  next
    case (Some p)
    then obtain r1 n where r1: "depth k m r = Some (r1, n)" by (cases p) auto
    then have visit: "depths_ok m U r1 \<and> extends r r1 \<and> k \<in> settled r1"
      using depth_max_spec [of m "[k]" r r1 n U] Cons.prems U by (auto simp: depth_def)
    note IH = Cons.IH [of r1]
    show ?thesis
    proof (cases "depth_all m ks r1")
      case None
      with r1 IH visit Cons.prems show ?thesis
        by (fastforce simp: extends_def)
    next
      case (Some r')
      with IH visit Cons.prems have r': "depths_ok m U r' \<and> extends r1 r' \<and> set ks \<subseteq> settled r'"
        by auto
      with visit have "k \<in> settled r'" and "extends r r'"
        using extends_settled extends_trans by blast+
      with r1 Some r' show ?thesis by auto
    qed
  qed
qed

text \<open>Depths strictly decrease along the edges of a settled table, so it has no cycle.\<close>

lemma settled_trancl:
  assumes ok: "depths_ok m U r" and path: "(k, x) \<in> (rev_edges m)\<^sup>+" and "k \<in> settled r"
  shows "x \<in> settled r \<and> the (r x) < the (r k)"
  using path \<open>k \<in> settled r\<close>
proof (induction rule: trancl_induct)
  case (base y)
  with ok show ?case
    using greatest_upper [of y "rev_deps m k" r] by (auto simp: depths_ok_def rev_edges_def)
next
  case (step y z)
  then have "z \<in> settled r \<and> the (r z) < the (r y)"
    using ok greatest_upper [of z "rev_deps m y" r] by (auto simp: depths_ok_def rev_edges_def)
  with step show ?case by auto
qed

lemma settled_acyclic:
  assumes "depths_ok m U r" and "k \<in> settled r" and "(k, x) \<in> (rev_edges m)\<^sup>*"
  shows "(x, x) \<notin> (rev_edges m)\<^sup>+"
proof
  assume "(x, x) \<in> (rev_edges m)\<^sup>+"
  moreover have "x \<in> settled r"
    using assms settled_trancl [OF assms(1)] by (auto dest: rtranclD)
  ultimately show False using settled_trancl [OF assms(1)] by blast
qed

section \<open>The invariant\<close>

text \<open>
  While packages are queued (\<open>queued_ok\<close>), the two maps are converse to each other.  While
  the build runs (\<open>building_ok\<close>), the remaining dependencies of a key are exactly its
  dependencies that are not finished, every one of them is in the queue or being built, and
  every key has a depth.
\<close>

definition waiting :: "('k, 'v) dependency_queue \<Rightarrow> 'k set" where
  "waiting q = set (keys (dep_map q))"

definition unfinished :: "('k, 'v) dependency_queue \<Rightarrow> 'k set" where
  "unfinished q = waiting q \<union> pending q"

definition waits_for :: "('k, 'v) dependency_queue \<Rightarrow> 'k \<Rightarrow> 'k \<Rightarrow> bool" where
  "waits_for q k x \<longleftrightarrow> (\<exists>ds v. map_of (dep_map q) k = Some (ds, v) \<and> x \<in> ds)"

definition queued_ok :: "('k, 'v) dependency_queue \<Rightarrow> bool" where
  "queued_ok q \<longleftrightarrow> wf_alist (dep_map q) \<and> pending q = {} \<and>
     (\<forall>x. distinct (rev_deps (reverse_dep_map q) x)) \<and>
     (\<forall>x k. k \<in> set (rev_deps (reverse_dep_map q) x) \<longleftrightarrow> waits_for q k x)"

definition deps_queued :: "('k, 'v) dependency_queue \<Rightarrow> bool" where
  "deps_queued q \<longleftrightarrow> (\<forall>k x. waits_for q k x \<longrightarrow> x \<in> waiting q)"

definition building_ok :: "('k, 'v) dependency_queue \<Rightarrow> bool" where
  "building_ok q \<longleftrightarrow> wf_alist (dep_map q) \<and> finite (pending q) \<and>
     pending q \<inter> waiting q = {} \<and>
     (\<forall>x. distinct (rev_deps (reverse_dep_map q) x)) \<and>
     (\<forall>x \<in> unfinished q. \<forall>k. k \<in> set (rev_deps (reverse_dep_map q) x) \<longleftrightarrow> waits_for q k x) \<and>
     (\<forall>k x. waits_for q k x \<longrightarrow> x \<in> unfinished q) \<and>
     (\<forall>k \<in> waiting q. depth_map q k \<noteq> None) \<and>
     acyclic (rev_edges (reverse_dep_map q))"

lemma waiting_iff: "k \<in> waiting q \<longleftrightarrow> map_of (dep_map q) k \<noteq> None"
  by (simp add: waiting_def in_keys_iff)

lemma waiting_cong: "keys (dep_map q') = keys (dep_map q) \<Longrightarrow> waiting q' = waiting q"
  by (simp add: waiting_def)

lemma rev_deps_update [simp]:
  "rev_deps (AList.update d ks m) x = (if x = d then ks else rev_deps m x)"
  by (simp add: rev_deps_def)

lemma rev_deps_add_reverse:
  "set (rev_deps (add_reverse key deps m) x) =
     set (rev_deps m x) \<union> (if x \<in> set deps then {key} else {})"
  by (induction deps arbitrary: m) auto

lemma distinct_add_reverse:
  "(\<And>x. distinct (rev_deps m x)) \<Longrightarrow> distinct (rev_deps (add_reverse key deps m) x)"
proof (induction deps arbitrary: m)
  case Nil
  then show ?case by simp
next
  case (Cons d deps)
  have "distinct (rev_deps (AList.update d (List.insert key (rev_deps m d)) m) y)" for y
    using Cons.prems [of y] Cons.prems [of d] by simp
  then show ?case by (simp add: Cons.IH)
qed

lemma queued_ok_new: "queued_ok new_queue"
  by (simp add: queued_ok_def new_queue_def rev_deps_def waits_for_def)

lemma queued_ok_queue:
  assumes ok: "queued_ok q"
  shows "queued_ok (fst (queue fresh key value deps q))"
proof (cases "map_of (dep_map q) key")
  case None
  then show ?thesis
    using ok by (auto simp: queued_ok_def queue_def waits_for_def rev_deps_add_reverse
        intro: distinct_add_reverse)
next
  case (Some p)
  with ok show ?thesis by (cases p) (simp add: queue_def)
qed

lemma queue_keeps_depths [simp]: "depth_map (fst (queue fresh key value deps q)) = depth_map q"
  by (auto simp: queue_def split: option.splits)

lemma waits_for_key: "waits_for q k x \<Longrightarrow> k \<in> waiting q"
  by (auto simp: waits_for_def waiting_iff)

section \<open>\<open>queue_finished\<close>\<close>

lemma card_waiting: "wf_alist (dep_map q) \<Longrightarrow> card (waiting q) = length (dep_map q)"
  by (metis distinct_card length_map waiting_def)

lemma queue_finished_cases:
  assumes ok: "queued_ok q" and fresh: "depth_map q = Map.empty"
    and small: "length (dep_map q) < IN_PROGRESS"
  shows "case queue_finished q of
      None \<Rightarrow> \<not> acyclic (rev_edges (reverse_dep_map q))
    | Some q' \<Rightarrow> acyclic (rev_edges (reverse_dep_map q)) \<and>
        q' = q\<lparr>depth_map := depth_map q'\<rparr> \<and>
        waiting q \<subseteq> settled (depth_map q') \<and>
        depths_ok (reverse_dep_map q) (waiting q) (depth_map q')"
proof -
  let ?m = "reverse_dep_map q" and ?U = "waiting q"
  have succ: "set (rev_deps ?m k) \<subseteq> ?U" for k
    using ok waits_for_key [of q] by (auto simp: queued_ok_def)
  have card: "card ?U < IN_PROGRESS"
    using ok small by (simp add: queued_ok_def card_waiting)
  have init: "depths_ok ?m ?U (depth_map q)"
    by (simp add: depths_ok_def fresh settled_def)
  have spec: "case depth_all ?m (keys (dep_map q)) (depth_map q) of
      Some r' \<Rightarrow> depths_ok ?m ?U r' \<and> extends (depth_map q) r' \<and> ?U \<subseteq> settled r'
    | None \<Rightarrow> \<exists>k \<in> ?U. \<exists>x. (k, x) \<in> (rev_edges ?m)\<^sup>* \<and>
        (x \<in> in_progress (depth_map q) \<or> (x, x) \<in> (rev_edges ?m)\<^sup>+)"
    using depth_all_spec [OF init _ card succ, of "keys (dep_map q)"]
    unfolding waiting_def [symmetric] by (simp add: waiting_def del: list.set_map)
  show ?thesis
  proof (cases "depth_all ?m (keys (dep_map q)) (depth_map q)")
    case None
    with spec fresh have "\<not> acyclic (rev_edges ?m)"
      by (auto simp: acyclic_def in_progress_def)
    with None show ?thesis by (simp add: queue_finished_def)
  next
    case (Some r')
    with spec have r': "depths_ok ?m ?U r'" and sub: "?U \<subseteq> settled r'" by auto
    have "x \<in> ?U" if "(x, x) \<in> (rev_edges ?m)\<^sup>+" for x
      using tranclD2 [OF that] succ by (auto simp: rev_edges_def)
    then have "acyclic (rev_edges ?m)"
      using settled_acyclic [OF r'] sub by (meson acyclic_def rtrancl.rtrancl_refl subsetD)
    with Some r' sub show ?thesis by (simp add: queue_finished_def)
  qed
qed

lemma building_ok_start:
  assumes ok: "queued_ok q" and closed: "deps_queued q" and fresh: "depth_map q = Map.empty"
    and small: "length (dep_map q) < IN_PROGRESS" and fin: "queue_finished q = Some q'"
  shows "building_ok q'"
proof -
  from queue_finished_cases [OF ok fresh small] fin
  have acyc: "acyclic (rev_edges (reverse_dep_map q))"
    and q': "q' = q\<lparr>depth_map := depth_map q'\<rparr>"
    and sub: "waiting q \<subseteq> settled (depth_map q')" by auto
  have same: "dep_map q' = dep_map q" "reverse_dep_map q' = reverse_dep_map q" "pending q' = pending q"
    by (subst q', simp)+
  have w: "waits_for q' = waits_for q" by (simp add: waits_for_def same fun_eq_iff)
  have "depth_map q' k \<noteq> None" if "k \<in> waiting q" for k
    using sub that by (auto simp: settled_def)
  with ok closed acyc show ?thesis
    by (auto simp: building_ok_def queued_ok_def deps_queued_def unfinished_def same w waiting_cong [of q' q])
qed

section \<open>\<open>dequeue\<close> and \<open>finish\<close> keep the invariant\<close>

lemma set_ready_keys:
  "wf_alist (dep_map q) \<Longrightarrow>
     set (ready_keys q) = {k. \<exists>v. map_of (dep_map q) k = Some ({}, v)}"
proof -
  assume wf: "wf_alist (dep_map q)"
  have "set (ready_keys q) = {k. \<exists>v. (k, {}, v) \<in> set (dep_map q)}"
    unfolding ready_keys_def by (auto simp: image_iff Bex_def split_beta)
  with wf show ?thesis by simp
qed

lemma dequeue_cases:
  assumes ok: "building_ok q"
  obtains (idle) "dequeue q = Some (q, None)" "ready_keys q = []"
  | (ready) key v where "map_of (dep_map q) key = Some ({}, v)"
      "dequeue q = Some (q\<lparr>dep_map := AList.delete key (dep_map q), pending := insert key (pending q)\<rparr>,
         Some (if key \<in> dirty q then Dirty else Fresh, key, v))"
proof -
  have wf: "wf_alist (dep_map q)" using ok by (simp add: building_ok_def)
  have "k \<in> waiting q" if "k \<in> set (ready_keys q)" for k
    using that set_ready_keys [OF wf] by (auto simp: waiting_iff)
  then have depths: "\<not> list_ex (\<lambda>k. depth_map q k = None) (ready_keys q)"
    using ok by (auto simp: building_ok_def list_ex_iff)
  show thesis
  proof (cases "max_by_key (\<lambda>k. the (depth_map q k)) (ready_keys q)")
    case None
    with depths show thesis by (intro idle) (auto simp: dequeue_def)
  next
    case (Some key)
    with max_by_key_in_set set_ready_keys [OF wf]
    obtain v where "map_of (dep_map q) key = Some ({}, v)" by fast
    with Some depths show thesis by (intro ready) (auto simp: dequeue_def)
  qed
qed

lemma waiting_delete:
  "waiting (q\<lparr>dep_map := AList.delete key (dep_map q), pending := P\<rparr>) = waiting q - {key}"
  by (simp add: waiting_def)

lemma waits_for_dequeue:
  assumes "map_of (dep_map q) key = Some ({}, v)"
  shows "waits_for (q\<lparr>dep_map := AList.delete key (dep_map q), pending := P\<rparr>) k x \<longleftrightarrow> waits_for q k x"
  using assms by (auto simp: waits_for_def)

lemma unfinished_dequeue:
  assumes "map_of (dep_map q) key = Some ({}, v)"
  shows "unfinished (q\<lparr>dep_map := AList.delete key (dep_map q), pending := insert key (pending q)\<rparr>)
    = unfinished q"
  using assms by (auto simp: unfinished_def waiting_delete) (auto simp: waiting_iff)

lemma building_ok_dequeue:
  assumes ok: "building_ok q" and key: "map_of (dep_map q) key = Some ({}, v)"
  shows "building_ok (q\<lparr>dep_map := AList.delete key (dep_map q), pending := insert key (pending q)\<rparr>)"
  using ok
  unfolding building_ok_def waits_for_dequeue [OF key] unfinished_dequeue [OF key]
  by (auto simp: waiting_delete)

text \<open>The loop of \<open>finish\<close>: it succeeds on keys that wait for the finished one.\<close>

lemma release_spec:
  assumes "distinct deps" "\<And>d. d \<in> set deps \<Longrightarrow> waits_for q d key"
  shows "\<exists>q'. release key fresh deps q = Some q' \<and> keys (dep_map q') = keys (dep_map q) \<and>
    (\<forall>k. map_of (dep_map q') k = (if k \<in> set deps
       then map_option (\<lambda>(ds, v). (ds - {key}, v)) (map_of (dep_map q) k) else map_of (dep_map q) k)) \<and>
    reverse_dep_map q' = reverse_dep_map q \<and> pending q' = pending q \<and> depth_map q' = depth_map q \<and>
    dirty q' = (if fresh = Dirty then dirty q \<union> set deps else dirty q)"
  using assms
proof (induction deps arbitrary: q)
  case Nil
  then show ?case by simp
next
  case (Cons d deps)
  from Cons.prems(2) [of d] obtain ds v where d: "map_of (dep_map q) d = Some (ds, v)" "key \<in> ds"
    by (auto simp: waits_for_def)
  let ?q = "q\<lparr>dirty := (if fresh = Dirty then insert d (dirty q) else dirty q),
    dep_map := AList.update d (ds - {key}, v) (dep_map q)\<rparr>"
  have "waits_for ?q e key" if "e \<in> set deps" for e
    using Cons.prems(1) Cons.prems(2) [of e] that by (auto simp: waits_for_def)
  from Cons.IH [OF _ this] Cons.prems(1) obtain q' where
      q': "release key fresh deps ?q = Some q'" "keys (dep_map q') = keys (dep_map ?q)"
      "\<forall>k. map_of (dep_map q') k = (if k \<in> set deps
         then map_option (\<lambda>(ds, v). (ds - {key}, v)) (map_of (dep_map ?q) k) else map_of (dep_map ?q) k)"
      "reverse_dep_map q' = reverse_dep_map ?q" "pending q' = pending ?q" "depth_map q' = depth_map ?q"
      "dirty q' = (if fresh = Dirty then dirty ?q \<union> set deps else dirty ?q)"
    by auto
  have "keys (AList.update d (ds - {key}, v) (dep_map q)) = keys (dep_map q)"
    using d by (simp add: update_keys in_keys_iff)
  with d q' Cons.prems(1) show ?case
    by (intro exI [of _ q']) (auto simp: if_splits)
qed

lemma finish_spec:
  assumes ok: "building_ok q" and key: "key \<in> pending q"
  obtains q' where "finish key fresh q = Some q'" "building_ok q'"
    "keys (dep_map q') = keys (dep_map q)" "pending q' = pending q - {key}"
    "\<And>k. map_of (dep_map q') k = map_option (\<lambda>(ds, v). (ds - {key}, v)) (map_of (dep_map q) k)"
    "dirty q' = (if fresh = Dirty then dirty q \<union> {k. waits_for q k key} else dirty q)"
    "depth_map q' = depth_map q"
proof -
  let ?p = "q\<lparr>pending := pending q - {key}\<rparr>"
  let ?deps = "rev_deps (reverse_dep_map q) key"
  have w: "waits_for ?p = waits_for q" by (simp add: waits_for_def fun_eq_iff)
  have deps: "k \<in> set ?deps \<longleftrightarrow> waits_for q k key" for k
    using ok key by (simp add: building_ok_def unfinished_def)
  have "distinct ?deps" using ok by (simp add: building_ok_def)
  then obtain q' where q': "release key fresh ?deps ?p = Some q'" "keys (dep_map q') = keys (dep_map q)"
      "\<forall>k. map_of (dep_map q') k = (if k \<in> set ?deps
         then map_option (\<lambda>(ds, v). (ds - {key}, v)) (map_of (dep_map q) k) else map_of (dep_map q) k)"
      "reverse_dep_map q' = reverse_dep_map q" "pending q' = pending q - {key}"
      "depth_map q' = depth_map q"
      "dirty q' = (if fresh = Dirty then dirty q \<union> set ?deps else dirty q)"
    using release_spec [of ?deps ?p key fresh] deps by (auto simp: w)
  have fin: "finish key fresh q = Some q'"
    using key q'(1) by (auto simp: finish_def rev_deps_def split: option.splits)
  have map: "map_of (dep_map q') k = map_option (\<lambda>(ds, v). (ds - {key}, v)) (map_of (dep_map q) k)" for k
    using q'(3) deps [of k] by (cases "map_of (dep_map q) k") (auto simp: waits_for_def)
  have w': "waits_for q' k x \<longleftrightarrow> waits_for q k x \<and> x \<noteq> key" for k x
    by (auto simp: waits_for_def map)
  have "key \<notin> waiting q" using ok key by (auto simp: building_ok_def)
  then have unf: "unfinished q' = unfinished q - {key}"
    using q'(5) waiting_cong [OF q'(2)] by (auto simp: unfinished_def)
  have "building_ok q'"
    using ok unfolding building_ok_def q'(2,4,5,6) waiting_cong [OF q'(2)] unf w' by auto
  with fin q' map deps show thesis by (intro that [of q']) auto
qed

text \<open>
  With nothing being built, a non-empty queue always has a key to hand out: the waiting
  keys are finitely many and their dependencies have no cycle.
\<close>

lemma ready_exists:
  assumes ok: "building_ok q" and idle: "pending q = {}" and some: "dep_map q \<noteq> []"
  shows "ready_keys q \<noteq> []"
proof -
  let ?R = "{(x, k). waits_for q k x}"
  have wf_q: "wf_alist (dep_map q)" using ok by (simp add: building_ok_def)
  have dom: "x \<in> waiting q" "k \<in> waiting q" if "waits_for q k x" for k x
    using that ok idle waits_for_key by (auto simp: building_ok_def unfinished_def)
  have "?R \<subseteq> rev_edges (reverse_dep_map q)"
    using ok dom by (auto simp: building_ok_def rev_edges_def unfinished_def)
  then have "acyclic ?R" using ok by (meson acyclic_subset building_ok_def)
  moreover have "finite ?R"
    by (rule finite_subset [of _ "waiting q \<times> waiting q"]) (use dom in \<open>auto simp: waiting_def\<close>)
  ultimately have "wf ?R" by (simp add: finite_acyclic_wf)
  moreover obtain k0 where "k0 \<in> waiting q" using some by (cases "dep_map q") (auto simp: waiting_def)
  ultimately obtain k where k: "k \<in> waiting q" and min: "\<And>x. (x, k) \<in> ?R \<Longrightarrow> x \<notin> waiting q"
    by (rule wfE_min) blast
  from k obtain ds v where "map_of (dep_map q) k = Some (ds, v)" by (auto simp: waiting_iff)
  moreover from this have "waits_for q k x" if "x \<in> ds" for x
    using that by (auto simp: waits_for_def)
  then have "ds = {}" using min dom(1) by blast
  ultimately have "k \<in> set (ready_keys q)" using set_ready_keys [OF wf_q] by auto
  then show ?thesis by auto
qed

end
