(* ===== verification/Scheduler.thy ===== *)
theory Scheduler
  imports Dep_Queue
begin

text \<open>
  What a client of the queue (the job queue of the compiler) relies on: an interface of a
  scheduler, with the runs a client can make of it, and the facts every such run has.  The
  interface is interpreted on the dependency queue of \<open>Dep_Queue\<close>; the properties of the
  queue's runs are instances of the facts proved here once.
\<close>

section \<open>Runs of a scheduler\<close>

datatype 'k event = Started 'k | Finished 'k

inductive sched_run ::
  "('q \<Rightarrow> 'k \<Rightarrow> 'q \<Rightarrow> bool) \<Rightarrow> ('q \<Rightarrow> 'k \<Rightarrow> 'q \<Rightarrow> bool) \<Rightarrow> 'q \<Rightarrow> 'k event list \<Rightarrow> 'q \<Rightarrow> bool"
  for start stop where
  none: "sched_run start stop q [] q"
| started: "sched_run start stop q es q1 \<Longrightarrow> start q1 k q2 \<Longrightarrow>
     sched_run start stop q (es @ [Started k]) q2"
| finished: "sched_run start stop q es q1 \<Longrightarrow> stop q1 k q2 \<Longrightarrow>
     sched_run start stop q (es @ [Finished k]) q2"

definition started_keys :: "'k event list \<Rightarrow> 'k list" where
  "started_keys es = List.map_filter (\<lambda>e. case e of Started k \<Rightarrow> Some k | Finished _ \<Rightarrow> None) es"

definition finished_keys :: "'k event list \<Rightarrow> 'k list" where
  "finished_keys es = List.map_filter (\<lambda>e. case e of Started _ \<Rightarrow> None | Finished k \<Rightarrow> Some k) es"

lemma started_keys_simps [simp]:
  "started_keys [] = []"
  "started_keys (es @ [Started k]) = started_keys es @ [k]"
  "started_keys (es @ [Finished k]) = started_keys es"
  by (simp_all add: started_keys_def List.map_filter_def)

lemma finished_keys_simps [simp]:
  "finished_keys [] = []"
  "finished_keys (es @ [Started k]) = finished_keys es"
  "finished_keys (es @ [Finished k]) = finished_keys es @ [k]"
  by (simp_all add: finished_keys_def List.map_filter_def)

text \<open>Every key starts after all of its dependencies finished.\<close>

definition deps_first :: "('k \<Rightarrow> 'k set) \<Rightarrow> 'k event list \<Rightarrow> bool" where
  "deps_first D es \<longleftrightarrow>
     (\<forall>es1 k es2. es = es1 @ Started k # es2 \<longrightarrow> D k \<subseteq> set (finished_keys es1))"

lemma deps_first_Nil [simp]: "deps_first D []"
  by (simp add: deps_first_def)

lemma deps_first_snoc:
  "deps_first D (es @ [e]) \<longleftrightarrow> deps_first D es \<and>
     (case e of Started k \<Rightarrow> D k \<subseteq> set (finished_keys es) | Finished _ \<Rightarrow> True)"
proof -
  have split: "es @ [e] = es1 @ Started k # es2 \<longleftrightarrow>
      (es2 = [] \<and> es1 = es \<and> e = Started k) \<or> (\<exists>es3. es2 = es3 @ [e] \<and> es = es1 @ Started k # es3)"
    for es1 k es2
    by (cases es2 rule: rev_cases) auto
  show ?thesis
    unfolding deps_first_def split by (cases e) (simp_all, blast+)
qed

section \<open>The interface\<close>

locale scheduler =
  fixes inv :: "'q \<Rightarrow> bool"
    and rem :: "'q \<Rightarrow> 'k \<Rightarrow> 'k set option"
    and running :: "'q \<Rightarrow> 'k set"
    and start :: "'q \<Rightarrow> 'k \<Rightarrow> 'q \<Rightarrow> bool"
    and stop :: "'q \<Rightarrow> 'k \<Rightarrow> 'q \<Rightarrow> bool"
  assumes start_inv: "inv q \<Longrightarrow> start q k q' \<Longrightarrow> inv q'"
    and start_rem: "inv q \<Longrightarrow> start q k q' \<Longrightarrow> rem q k = Some {} \<and> rem q' = (rem q)(k := None)"
    and start_running: "inv q \<Longrightarrow> start q k q' \<Longrightarrow> running q' = insert k (running q)"
    and stop_inv: "inv q \<Longrightarrow> stop q k q' \<Longrightarrow> inv q'"
    and stop_rem: "inv q \<Longrightarrow> stop q k q' \<Longrightarrow>
      rem q' = (\<lambda>j. map_option (\<lambda>ds. ds - {k}) (rem q j))"
    and stop_running: "inv q \<Longrightarrow> stop q k q' \<Longrightarrow> k \<in> running q \<and> running q' = running q - {k}"
    and finite_rem: "inv q \<Longrightarrow> finite (dom (rem q))"
    and disjoint: "inv q \<Longrightarrow> dom (rem q) \<inter> running q = {}"
    and progress: "inv q \<Longrightarrow> running q = {} \<Longrightarrow> dom (rem q) \<noteq> {} \<Longrightarrow> \<exists>k q'. start q k q'"
    and stop_enabled: "inv q \<Longrightarrow> k \<in> running q \<Longrightarrow> \<exists>q'. stop q k q'"
begin

lemma run_inv: "sched_run start stop q es q' \<Longrightarrow> inv q \<Longrightarrow> inv q'"
  by (induction rule: sched_run.induct) (auto intro: start_inv stop_inv)

text \<open>A dependency that is no longer waited for has finished.\<close>

lemma run_rem:
  "sched_run start stop q es q' \<Longrightarrow> inv q \<Longrightarrow> rem q' k = Some ds \<Longrightarrow>
     \<exists>D. rem q k = Some D \<and> D \<subseteq> ds \<union> set (finished_keys es)"
proof (induction arbitrary: ds rule: sched_run.induct)
  case (none q)
  then show ?case by auto
next
  case (started q es q1 j q2)
  with start_rem [OF run_inv] have "rem q1 k = Some ds" by (fastforce split: if_splits)
  with started show ?case by simp
next
  case (finished q es q1 j q2)
  with stop_rem [OF run_inv] obtain ds' where "rem q1 k = Some ds'" "ds = ds' - {j}" by fastforce
  with finished show ?case by fastforce
qed

lemma run_deps_first:
  assumes "sched_run start stop q es q'" and "inv q"
  shows "deps_first (\<lambda>k. case rem q k of None \<Rightarrow> {} | Some D \<Rightarrow> D) es"
  using assms
proof (induction rule: sched_run.induct)
  case (none q)
  then show ?case by simp
next
  case (started q es q1 k q2)
  then have "rem q1 k = Some {}" using start_rem [OF run_inv] by blast
  from run_rem [OF started.hyps(1) started.prems this] started
  show ?case by (auto simp: deps_first_snoc)
next
  case (finished q es q1 k q2)
  then show ?case by (simp add: deps_first_snoc)
qed

text \<open>Where the keys are during a run: each waits, runs or has finished.\<close>

lemma run_partition:
  "sched_run start stop q es q' \<Longrightarrow> inv q \<Longrightarrow> running q = {} \<Longrightarrow>
     distinct (started_keys es) \<and> distinct (finished_keys es) \<and>
     set (started_keys es) = running q' \<union> set (finished_keys es) \<and>
     running q' \<inter> set (finished_keys es) = {} \<and>
     dom (rem q') = dom (rem q) - set (started_keys es) \<and>
     set (started_keys es) \<subseteq> dom (rem q)"
proof (induction rule: sched_run.induct)
  case (none q)
  then show ?case by simp
next
  case (started q es q1 k q2)
  have inv1: "inv q1" by (rule run_inv [OF started.hyps(1) started.prems(1)])
  note facts = start_rem [OF inv1 started.hyps(2)] start_running [OF inv1 started.hyps(2)]
  have "k \<in> dom (rem q1)" and "dom (rem q2) = dom (rem q1) - {k}" using facts by auto
  with started.IH [OF started.prems] facts(2) show ?case by auto
next
  case (finished q es q1 k q2)
  have inv1: "inv q1" by (rule run_inv [OF finished.hyps(1) finished.prems(1)])
  note facts = stop_rem [OF inv1 finished.hyps(2)] stop_running [OF inv1 finished.hyps(2)]
  have "dom (rem q2) = dom (rem q1)" using facts by (auto simp: dom_def)
  with finished.IH [OF finished.prems] facts(2) show ?case by auto
qed

lemma length_run: "length es = length (started_keys es) + length (finished_keys es)"
proof (induction es rule: rev_induct)
  case Nil
  then show ?case by simp
next
  case (snoc e es)
  then show ?case by (cases e) auto
qed

lemma run_bounded:
  assumes "sched_run start stop q es q'" and "inv q" and "running q = {}"
  shows "length es \<le> 2 * card (dom (rem q))"
proof -
  note part = run_partition [OF assms]
  have fin: "finite (dom (rem q))" by (rule finite_rem [OF assms(2)])
  have "length (started_keys es) \<le> card (dom (rem q))"
    using part card_mono [OF fin] by (metis distinct_card)
  moreover have "length (finished_keys es) \<le> card (dom (rem q))"
    using part card_mono [OF fin, of "set (finished_keys es)"] by (metis distinct_card le_sup_iff)
  ultimately show ?thesis using length_run [of es] by simp
qed

text \<open>A run that cannot be continued has started and finished every key exactly once.\<close>

lemma run_complete:
  assumes run: "sched_run start stop q es q'" and inv: "inv q" and idle: "running q = {}"
    and stuck: "\<nexists>k q''. start q' k q'' \<or> stop q' k q''"
  shows "distinct (started_keys es)" "distinct (finished_keys es)"
    "set (started_keys es) = dom (rem q)" "set (finished_keys es) = dom (rem q)"
proof -
  note part = run_partition [OF run inv idle]
  have inv': "inv q'" by (rule run_inv [OF run inv])
  have none: "running q' = {}" using stop_enabled [OF inv'] stuck by blast
  have all: "dom (rem q') = {}" using progress [OF inv' none] stuck by blast
  show "distinct (started_keys es)" "distinct (finished_keys es)" using part by auto
  show "set (started_keys es) = dom (rem q)" using part all by auto
  with part none show "set (finished_keys es) = dom (rem q)" by auto
qed

end

section \<open>The dependency queue is a scheduler\<close>

definition remaining_deps :: "('k, 'v) dependency_queue \<Rightarrow> 'k \<Rightarrow> 'k set option" where
  "remaining_deps q k = map_option fst (map_of (dep_map q) k)"

definition dequeues :: "('k, 'v) dependency_queue \<Rightarrow> 'k \<Rightarrow> ('k, 'v) dependency_queue \<Rightarrow> bool" where
  "dequeues q k q' \<longleftrightarrow> (\<exists>fresh v. dequeue q = Some (q', Some (fresh, k, v)))"

definition finishes :: "('k, 'v) dependency_queue \<Rightarrow> 'k \<Rightarrow> ('k, 'v) dependency_queue \<Rightarrow> bool" where
  "finishes q k q' \<longleftrightarrow> (\<exists>fresh. finish k fresh q = Some q')"

lemma dom_remaining_deps: "dom (remaining_deps q) = waiting q"
  by (auto simp: remaining_deps_def waiting_iff dom_def)

lemma dequeuesE:
  assumes "dequeues q k q'" and "building_ok q"
  obtains v where "map_of (dep_map q) k = Some ({}, v)"
    "q' = q\<lparr>dep_map := AList.delete k (dep_map q), pending := insert k (pending q)\<rparr>"
  using assms by (cases rule: dequeue_cases [OF assms(2)]) (auto simp: dequeues_def)

lemma finishesE:
  assumes "finishes q k q'" and "building_ok q"
  obtains "k \<in> pending q" "building_ok q'" "pending q' = pending q - {k}"
    "\<And>j. map_of (dep_map q') j = map_option (\<lambda>(ds, v). (ds - {k}, v)) (map_of (dep_map q) j)"
proof -
  from assms(1) obtain fresh where fin: "finish k fresh q = Some q'" by (auto simp: finishes_def)
  then have "k \<in> pending q" by (auto simp: finish_def split: if_splits)
  then show thesis
    by (rule finish_spec [OF assms(2), of k fresh]) (use fin that \<open>k \<in> pending q\<close> in auto)
qed

interpretation dq: scheduler building_ok remaining_deps pending dequeues finishes
proof
  fix q q' :: "('k, 'v) dependency_queue" and k
  assume ok: "building_ok q"
  show "dequeues q k q' \<Longrightarrow> building_ok q'"
    using ok by (auto elim: dequeuesE intro: building_ok_dequeue)
  show "dequeues q k q' \<Longrightarrow> remaining_deps q k = Some {} \<and> remaining_deps q' = (remaining_deps q)(k := None)"
    using ok by (auto elim!: dequeuesE simp: remaining_deps_def fun_eq_iff)
  show "dequeues q k q' \<Longrightarrow> pending q' = insert k (pending q)"
    using ok by (auto elim: dequeuesE)
  show "finishes q k q' \<Longrightarrow> building_ok q'"
    using ok by (auto elim: finishesE)
  show "finishes q k q' \<Longrightarrow> remaining_deps q' = (\<lambda>j. map_option (\<lambda>ds. ds - {k}) (remaining_deps q j))"
    using ok by (auto elim!: finishesE simp: remaining_deps_def fun_eq_iff option.map_comp comp_def split_beta)
  show "finishes q k q' \<Longrightarrow> k \<in> pending q \<and> pending q' = pending q - {k}"
    using ok by (auto elim: finishesE)
  show "finite (dom (remaining_deps q))"
    by (simp add: dom_remaining_deps waiting_def)
  show "dom (remaining_deps q) \<inter> pending q = {}"
    using ok by (auto simp: dom_remaining_deps building_ok_def)
  show "\<exists>k q'. dequeues q k q'" if "pending q = {}" and "dom (remaining_deps q) \<noteq> {}"
  proof -
    have "dep_map q \<noteq> []" using that(2) by (auto simp: remaining_deps_def)
    from ready_exists [OF ok that(1) this] show ?thesis
      by (cases rule: dequeue_cases [OF ok]) (auto simp: dequeues_def)
  qed
  show "k \<in> pending q \<Longrightarrow> \<exists>q'. finishes q k q'"
    by (erule finish_spec [OF ok, of k Fresh]) (auto simp: finishes_def)
qed

section \<open>Properties of the queue's runs\<close>

text \<open>A queue as its client builds it: one \<open>queue\<close> call per job, on an empty queue.\<close>

definition queue_all :: "(freshness \<times> 'k \<times> 'v \<times> 'k list) list \<Rightarrow> ('k, 'v) dependency_queue" where
  "queue_all jobs = fold (\<lambda>(fresh, key, value, deps) q. fst (queue fresh key value deps q)) jobs new_queue"

text \<open>The equations that evaluate a concrete queue.\<close>

lemmas queue_eval = queue_all_def queue_def new_queue_def rev_deps_def queue_finished_def depth_def
  IN_PROGRESS_def dequeue_def ready_keys_def finish_def

lemma fold_queue_ok:
  assumes "queued_ok q" and "depth_map q = Map.empty"
  shows "queued_ok (fold (\<lambda>(fresh, key, value, deps) q. fst (queue fresh key value deps q)) jobs q) \<and>
    depth_map (fold (\<lambda>(fresh, key, value, deps) q. fst (queue fresh key value deps q)) jobs q) = Map.empty \<and>
    length (dep_map (fold (\<lambda>(fresh, key, value, deps) q. fst (queue fresh key value deps q)) jobs q))
      \<le> length (dep_map q) + length jobs"
  using assms
proof (induction jobs arbitrary: q)
  case Nil
  then show ?case by simp
next
  case (Cons job jobs)
  obtain fresh key v deps where job: "job = (fresh, key, v, deps)" by (cases job) auto
  have "length (dep_map (fst (queue fresh key v deps q))) \<le> Suc (length (dep_map q))"
    by (auto simp: queue_def length_alist_update split: option.splits)
  moreover note Cons.IH [OF queued_ok_queue [OF Cons.prems(1), of fresh key v deps]]
  ultimately show ?case using Cons.prems job by auto
qed

lemma queue_all_ok:
  "queued_ok (queue_all jobs)" "depth_map (queue_all jobs) = Map.empty"
  "length (dep_map (queue_all jobs)) \<le> length jobs"
  using fold_queue_ok [OF queued_ok_new, of jobs]
  by (auto simp: queue_all_def new_queue_def)

lemma building_ok_queue_all:
  assumes "length jobs < 2 ^ 64 - 1" and "deps_queued (queue_all jobs)"
    and "queue_finished (queue_all jobs) = Some q"
  shows "building_ok q"
  by (rule building_ok_start [OF queue_all_ok(1) assms(2) queue_all_ok(2) _ assms(3)])
    (use queue_all_ok(3) [of jobs] assms(1) in \<open>simp add: IN_PROGRESS_def\<close>)

lemma remaining_deps_queue_finished:
  "queue_finished q = Some q' \<Longrightarrow> remaining_deps q' = remaining_deps q \<and> pending q' = pending q"
  by (auto simp: queue_finished_def remaining_deps_def fun_eq_iff split: option.splits)

text \<open>C36: \<open>queue_finished\<close> fails its assertion ``cycle in DependencyQueue'' exactly when the
  dependencies of the queued jobs have a cycle; otherwise it gives every queued key a depth
  one greater than the greatest depth of the keys that depend on it.\<close>

theorem queue_finished_panics_iff_cycle:
  assumes "length jobs < 2 ^ 64 - 1"
  shows "(queue_finished (queue_all jobs) = None \<longleftrightarrow>
      \<not> acyclic (rev_edges (reverse_dep_map (queue_all jobs)))) \<and>
    (\<forall>q'. queue_finished (queue_all jobs) = Some q' \<longrightarrow>
      (\<forall>k \<in> waiting (queue_all jobs). depth_map q' k =
         Some (1 + greatest (depth_map q') (rev_deps (reverse_dep_map (queue_all jobs)) k))))"
proof -
  have "length (dep_map (queue_all jobs)) < IN_PROGRESS"
    using queue_all_ok(3) [of jobs] assms by (simp add: IN_PROGRESS_def)
  note cases = queue_finished_cases [OF queue_all_ok(1,2) this]
  show ?thesis
  proof (cases "queue_finished (queue_all jobs)")
    case None
    with cases show ?thesis by simp
  next
    case (Some q')
    with cases have "depth_map q' k = Some (1 + greatest (depth_map q')
        (rev_deps (reverse_dep_map (queue_all jobs)) k))" if "k \<in> waiting (queue_all jobs)" for k
      using that by (fastforce simp: depths_ok_def settled_def)
    with Some cases show ?thesis by auto
  qed
qed

theorem queue_finished_panics_iff_cycle_witness:
  "queue_finished (queue_all [(Fresh, 1 :: nat, (), [2]), (Fresh, 2, (), [1])]) = None \<and>
   \<not> acyclic (rev_edges (reverse_dep_map (queue_all [(Fresh, 1 :: nat, (), [2]), (Fresh, 2, (), [1])])))"
proof -
  let ?jobs = "[(Fresh, 1 :: nat, (), [2]), (Fresh, 2, (), [1])]"
  have "queue_finished (queue_all ?jobs) = None" by (simp add: queue_eval)
  with queue_finished_panics_iff_cycle [of ?jobs] show ?thesis by simp
qed

text \<open>In every run of \<open>dequeue\<close> and \<open>finish\<close> calls on a queue whose dependencies are all
  queued, a key is handed out only after every one of its dependencies was finished, and no
  key is handed out twice.\<close>

theorem queue_starts_after_deps:
  assumes "length jobs < 2 ^ 64 - 1" and "deps_queued (queue_all jobs)"
    and "queue_finished (queue_all jobs) = Some q"
    and "sched_run dequeues finishes q es q'"
  shows "deps_first (\<lambda>k. {x. waits_for (queue_all jobs) k x}) es \<and> distinct (started_keys es)"
proof -
  have ok: "building_ok q" by (rule building_ok_queue_all [OF assms(1-3)])
  have "(\<lambda>k. case remaining_deps q k of None \<Rightarrow> {} | Some D \<Rightarrow> D)
      = (\<lambda>k. {x. waits_for (queue_all jobs) k x})"
    using remaining_deps_queue_finished [OF assms(3)]
    by (auto simp: remaining_deps_def waits_for_def fun_eq_iff split: option.splits)
  moreover have "pending q = {}"
    using remaining_deps_queue_finished [OF assms(3)] queue_all_ok(1) [of jobs]
    by (simp add: queued_ok_def)
  ultimately show ?thesis
    using dq.run_deps_first [OF assms(4) ok] dq.run_partition [OF assms(4) ok] by simp
qed

definition example_jobs :: "(freshness \<times> nat \<times> unit \<times> nat list) list" where
  "example_jobs = [(Fresh, 1, (), []), (Fresh, 2, (), [1]), (Fresh, 3, (), [])]"

definition example_q0 :: "(nat, unit) dependency_queue" where
  "example_q0 = \<lparr>dep_map = [(1, {}, ()), (2, {1}, ()), (3, {}, ())], reverse_dep_map = [(1, [2])],
     dirty = {}, pending = {}, depth_map = [1 \<mapsto> 2, 2 \<mapsto> 1, 3 \<mapsto> 1]\<rparr>"

definition example_q1 :: "(nat, unit) dependency_queue" where
  "example_q1 = example_q0\<lparr>dep_map := [(2, {1}, ()), (3, {}, ())], pending := {1}\<rparr>"

definition example_q2 :: "(nat, unit) dependency_queue" where
  "example_q2 = example_q0\<lparr>dep_map := [(2, {}, ()), (3, {}, ())], dirty := {2}\<rparr>"

lemma example_run:
  "queue_finished (queue_all example_jobs) = Some example_q0"
  "dequeue example_q0 = Some (example_q1, Some (Fresh, 1, ()))"
  "finish 1 Dirty example_q1 = Some example_q2"
  by (simp_all add: queue_eval example_jobs_def example_q0_def example_q1_def example_q2_def fun_eq_iff)

lemma example_small: "length example_jobs < 2 ^ 64 - 1"
  by (simp add: example_jobs_def)

lemma example_deps_queued: "deps_queued (queue_all example_jobs)"
proof -
  have m: "dep_map (queue_all example_jobs) = [(1, {}, ()), (2, {1}, ()), (3, {}, ())]"
    by (simp add: queue_eval example_jobs_def)
  show ?thesis by (auto simp: deps_queued_def waits_for_def waiting_def m split: if_splits)
qed

lemma example_sched_run: "sched_run dequeues finishes example_q0 [Started 1, Finished 1] example_q2"
proof -
  have "dequeues example_q0 1 example_q1" "finishes example_q1 1 example_q2"
    using example_run(2,3) by (auto simp: dequeues_def finishes_def)
  then have "sched_run dequeues finishes example_q0 (([] @ [Started 1]) @ [Finished 1]) example_q2"
    by (blast intro: sched_run.intros)
  then show ?thesis by simp
qed

theorem queue_starts_after_deps_witness:
  "deps_first (\<lambda>k. {x. waits_for (queue_all example_jobs) k x}) [Started 1, Finished 1]"
  using queue_starts_after_deps [OF example_small example_deps_queued example_run(1) example_sched_run]
  by blast

text \<open>The queue never gets stuck.  Every run from a finished queue has at most two events
  per queued key, and a run that no call can continue has started and finished every queued
  key exactly once.\<close>

theorem queue_run_completes:
  assumes "length jobs < 2 ^ 64 - 1" and "deps_queued (queue_all jobs)"
    and "queue_finished (queue_all jobs) = Some q"
    and "sched_run dequeues finishes q es q'"
  shows "length es \<le> 2 * length (dep_map (queue_all jobs)) \<and>
    ((\<nexists>k q''. dequeues q' k q'' \<or> finishes q' k q'') \<longrightarrow>
      distinct (started_keys es) \<and> set (started_keys es) = waiting (queue_all jobs) \<and>
      distinct (finished_keys es) \<and> set (finished_keys es) = waiting (queue_all jobs))"
proof -
  have ok: "building_ok q" by (rule building_ok_queue_all [OF assms(1-3)])
  have idle: "pending q = {}" and dom: "dom (remaining_deps q) = waiting (queue_all jobs)"
    using remaining_deps_queue_finished [OF assms(3)] queue_all_ok(1) [of jobs]
    by (auto simp: queued_ok_def dom_remaining_deps)
  have "card (waiting (queue_all jobs)) = length (dep_map (queue_all jobs))"
    using queue_all_ok(1) [of jobs] by (simp add: queued_ok_def card_waiting)
  with dq.run_bounded [OF assms(4) ok idle] dq.run_complete [OF assms(4) ok idle] dom
  show ?thesis by auto
qed

theorem queue_run_completes_witness:
  "length [Started (1 :: nat), Finished 1] \<le> 2 * length (dep_map (queue_all example_jobs))"
  using queue_run_completes [OF example_small example_deps_queued example_run(1) example_sched_run]
  by blast

section \<open>Freshness\<close>

lemma run_keeps_dirty:
  "sched_run dequeues finishes q es q' \<Longrightarrow> building_ok q \<Longrightarrow> dirty q \<subseteq> dirty q'"
proof (induction rule: sched_run.induct)
  case (none q)
  then show ?case by simp
next
  case (started q es q1 k q2)
  have "building_ok q1" by (rule dq.run_inv [OF started.hyps(1) started.prems])
  with started.hyps(2) have "dirty q2 = dirty q1" by (auto elim: dequeuesE)
  with started show ?case by simp
next
  case (finished q es q1 k q2)
  have ok: "building_ok q1" by (rule dq.run_inv [OF finished.hyps(1) finished.prems])
  from finished.hyps(2) obtain fresh where fin: "finish k fresh q1 = Some q2" by (auto simp: finishes_def)
  then have "k \<in> pending q1" by (auto simp: finish_def split: if_splits)
  then have "dirty q1 \<subseteq> dirty q2"
    by (rule finish_spec [OF ok, of k fresh]) (use fin in \<open>simp split: if_splits\<close>)
  with finished show ?case by blast
qed

text \<open>Once a dependency was finished as dirty, every key that waited for it is handed out
  as dirty, whatever happens in between.\<close>

theorem dirty_propagates:
  assumes "building_ok q" and "finish key Dirty q = Some q1" and "waits_for q k key"
    and "sched_run dequeues finishes q1 es q2" and "dequeue q2 = Some (q3, Some (fresh, k, v))"
  shows "fresh = Dirty"
proof -
  from assms(2) have "key \<in> pending q" by (auto simp: finish_def split: if_splits)
  then have ok: "building_ok q1" and "k \<in> dirty q1"
    by (rule finish_spec [OF assms(1), of key Dirty], use assms(2,3) in simp)+
  then have "k \<in> dirty q2" using run_keeps_dirty [OF assms(4)] by blast
  with assms(5) show ?thesis
    by (cases rule: dequeue_cases [OF dq.run_inv [OF assms(4) ok]]) auto
qed

lemma example_dequeue_2:
  "dequeue example_q2 = Some (example_q2\<lparr>dep_map := [(2, {}, ())], pending := {3}\<rparr>, Some (Fresh, 3, ()))"
  "dequeue (example_q2\<lparr>dep_map := [(2, {}, ())], pending := {3}\<rparr>) =
     Some (example_q2\<lparr>dep_map := [], pending := {2, 3}\<rparr>, Some (Dirty, 2, ()))"
  by (simp_all add: queue_eval example_q0_def example_q2_def)

theorem dirty_propagates_witness:
  "\<exists>fresh. dequeue (example_q2\<lparr>dep_map := [(2, {}, ())], pending := {3}\<rparr>) =
     Some (example_q2\<lparr>dep_map := [], pending := {2, 3}\<rparr>, Some (fresh, 2, ())) \<and> fresh = Dirty"
proof -
  have "building_ok example_q0"
    by (rule building_ok_queue_all [OF example_small example_deps_queued example_run(1)])
  moreover have "dequeues example_q0 1 example_q1" using example_run(2) by (auto simp: dequeues_def)
  ultimately have ok: "building_ok example_q1" by (rule dq.start_inv)
  have wait: "waits_for example_q1 2 1" by (simp add: waits_for_def example_q1_def)
  have "sched_run dequeues finishes example_q2 ([] @ [Started 3])
      (example_q2\<lparr>dep_map := [(2, {}, ())], pending := {3}\<rparr>)"
    by (rule sched_run.started [OF sched_run.none]) (use example_dequeue_2(1) in \<open>auto simp: dequeues_def\<close>)
  from dirty_propagates [OF ok example_run(3) wait this] example_dequeue_2(2) show ?thesis by blast
qed

end
