(* ===== verification/Lev_Distance.thy ===== *)
theory Lev_Distance
  imports Prelude
begin

text \<open>
  The edit distance cargo uses to suggest a subcommand or a target name,
  \<open>src/cargo/util/lev_distance.rs\<close>: a dynamic program that keeps one column.  A \<open>str\<close> is the
  list of its Unicode scalar values; \<open>len\<close> counts bytes of its UTF-8 encoding, \<open>chars().count()\<close>
  scalar values.  Indexing a \<open>Vec\<close> out of range panics (\<open>None\<close>).  The theory proves that the
  function never panics and returns the least number of single-character insertions, removals
  and replacements that turn one string into the other.
\<close>

section \<open>The function\<close>

type_synonym ustring = "nat list"

definition utf8_len :: "nat \<Rightarrow> nat" where
  "utf8_len c = (if c < 128 then 1 else if c < 2048 then 2 else if c < 65536 then 3 else 4)"

definition byte_len :: "ustring \<Rightarrow> nat" where
  "byte_len s = sum_list (map utf8_len s)"

definition vec_get :: "'a list \<Rightarrow> nat \<Rightarrow> 'a option" where
  "vec_get xs i = (if i < length xs then Some (xs ! i) else None)"

definition vec_set :: "'a list \<Rightarrow> nat \<Rightarrow> 'a \<Rightarrow> 'a list option" where
  "vec_set xs i x = (if i < length xs then Some (xs[i := x]) else None)"

text \<open>
  The inner loop over \<open>t.chars().enumerate()\<close>; its state is \<open>(dcol, current, t_last)\<close>.
\<close>

fun lev_inner ::
  "nat \<Rightarrow> ustring \<Rightarrow> nat \<Rightarrow> nat list \<times> nat \<times> nat \<Rightarrow> (nat list \<times> nat \<times> nat) option" where
  "lev_inner sc [] j st = Some st"
| "lev_inner sc (tc # ts) j (dcol, current, t_last) =
     Option.bind (vec_get dcol (j + 1)) (\<lambda>next.
     Option.bind
       (if sc = tc then vec_set dcol (j + 1) current
        else
          Option.bind (vec_set dcol (j + 1) (min current next)) (\<lambda>dcol1.
          Option.bind (vec_get dcol1 (j + 1)) (\<lambda>here.
          Option.bind (vec_get dcol1 j) (\<lambda>above.
          vec_set dcol1 (j + 1) (min here above + 1)))))
       (\<lambda>dcol'. lev_inner sc ts (j + 1) (dcol', next, j)))"

fun lev_outer :: "ustring \<Rightarrow> ustring \<Rightarrow> nat \<Rightarrow> nat list \<times> nat \<Rightarrow> (nat list \<times> nat) option" where
  "lev_outer t [] i st = Some st"
| "lev_outer t (sc # me) i (dcol, t_last) =
     Option.bind (vec_set dcol 0 (i + 1)) (\<lambda>dcol0.
     Option.bind (lev_inner sc t 0 (dcol0, i, t_last)) (\<lambda>(dcol', _, t_last').
     lev_outer t me (i + 1) (dcol', t_last')))"

definition lev_distance :: "ustring \<Rightarrow> ustring \<Rightarrow> nat option" where
  "lev_distance me t =
     (if me = [] then Some (length t)
      else if t = [] then Some (length me)
      else Option.bind (lev_outer t me 0 ([0..<byte_len t + 1], 0))
        (\<lambda>(dcol, t_last). vec_get dcol (t_last + 1)))"

section \<open>Edit distance\<close>

text \<open>The specification: one edit changes a single position.\<close>

definition edit1 :: "'a list \<Rightarrow> 'a list \<Rightarrow> bool" where
  "edit1 xs ys \<longleftrightarrow> (\<exists>a b x y. xs = a @ x # b \<and> ys = a @ b \<or> xs = a @ b \<and> ys = a @ y # b \<or>
     xs = a @ x # b \<and> ys = a @ y # b)"

fun lev :: "'a list \<Rightarrow> 'a list \<Rightarrow> nat" where
  "lev [] ys = length ys"
| "lev (x # xs) [] = Suc (length xs)"
| "lev (x # xs) (y # ys) =
     min (min (Suc (lev xs (y # ys))) (Suc (lev (x # xs) ys)))
       ((if x = y then 0 else 1) + lev xs ys)"

lemma lev_Nil2 [simp]: "lev xs [] = length xs"
  by (cases xs) auto

text \<open>Adding or removing a character at the front changes the distance by at most one.\<close>

lemma lev_Cons1_le: "lev (x # xs) ys \<le> Suc (lev xs ys)"
  by (cases ys) auto

lemma lev_Cons2_le: "lev xs (y # ys) \<le> Suc (lev xs ys)"
  by (cases xs) auto

lemma lev_le_Cons1: "lev xs ys \<le> Suc (lev (x # xs) ys)"
proof (induction ys)
  case Nil
  then show ?case by simp
next
  case (Cons y ys)
  then show ?case using lev_Cons2_le [of xs y ys] by (auto simp: min_def)
qed

lemma lev_le_Cons2: "lev xs ys \<le> Suc (lev xs (y # ys))"
proof (induction xs)
  case Nil
  then show ?case by simp
next
  case (Cons x xs)
  then show ?case using lev_Cons1_le [of x xs ys] by (auto simp: min_def)
qed

text \<open>Equal characters in front cost nothing, so the code need not look at the other cells.\<close>

lemma lev_same [simp]: "lev (x # xs) (x # ys) = lev xs ys"
  using lev_le_Cons1 [of xs ys x] lev_le_Cons2 [of xs ys x] by simp

lemma lev_refl [simp]: "lev xs xs = 0"
  by (induction xs) (simp_all del: lev.simps(3))

lemma lev_diff: "x \<noteq> y \<Longrightarrow>
    lev (x # xs) (y # ys) = Suc (min (min (lev xs ys) (lev (x # xs) ys)) (lev xs (y # ys)))"
  by (auto simp: min_def)

lemma lev_diff_cases: "x \<noteq> y \<Longrightarrow> lev (x # xs) (y # ys) = Suc (lev xs (y # ys)) \<or>
    lev (x # xs) (y # ys) = Suc (lev (x # xs) ys) \<or> lev (x # xs) (y # ys) = Suc (lev xs ys)"
  by (simp add: min_def)

declare lev.simps(3) [simp del]

text \<open>An edit anywhere changes the distance to a third string by at most one.\<close>

lemma lev_front:
  assumes "\<And>zs. lev xs zs \<le> Suc (lev ys zs)"
  shows "lev (c # xs) zs \<le> Suc (lev (c # ys) zs)"
proof (induction zs)
  case Nil
  then show ?case using assms [of "[]"] by simp
next
  case (Cons z zs)
  then show ?case
    using assms [of "z # zs"] assms [of zs] by (auto simp: lev.simps(3) min_def)
qed

lemma lev_prefix:
  assumes "\<And>zs. lev xs zs \<le> Suc (lev ys zs)"
  shows "lev (a @ xs) zs \<le> Suc (lev (a @ ys) zs)"
  by (induction a arbitrary: zs) (auto intro: assms lev_front)

lemma lev_edit1:
  assumes "edit1 xs ys"
  shows "lev xs zs \<le> Suc (lev ys zs)"
proof -
  have "lev (x # b) zs \<le> Suc (lev (y # b) zs)" for x y :: 'a and b zs
  proof (induction zs)
    case Nil
    then show ?case by simp
  next
    case (Cons z zs)
    then show ?case by (auto simp: lev.simps(3) min_def)
  qed
  then show ?thesis
    using assms lev_Cons1_le lev_le_Cons1 by (auto simp: edit1_def intro!: lev_prefix)
qed

lemma lev_lower: "(edit1 ^^ n) xs ys \<Longrightarrow> lev xs ys \<le> n"
proof (induction n arbitrary: xs)
  case 0
  then show ?case by simp
next
  case (Suc n)
  then obtain ws where "edit1 xs ws" and "(edit1 ^^ n) ws ys"
    by (meson relpowp_Suc_D2)
  with Suc.IH [of ws] lev_edit1 [of xs ws ys] show ?case by simp
qed

lemma edit1_Cons: "edit1 xs ys \<Longrightarrow> edit1 (c # xs) (c # ys)"
  unfolding edit1_def by (metis append_Cons)

lemma edits_Cons: "(edit1 ^^ n) xs ys \<Longrightarrow> (edit1 ^^ n) (c # xs) (c # ys)"
proof (induction n arbitrary: xs)
  case 0
  then show ?case by simp
next
  case (Suc n)
  then obtain ws where "edit1 xs ws" and "(edit1 ^^ n) ws ys"
    by (meson relpowp_Suc_D2)
  then show ?case
    by (meson Suc.IH edit1_Cons relpowp_Suc_I2)
qed

lemma edit1_intros:
  "edit1 (x # xs) xs" "edit1 xs (y # xs)" "edit1 (x # xs) (y # xs)"
  unfolding edit1_def by (metis append_Nil)+

lemma edits_front:
  "(edit1 ^^ n) xs zs \<Longrightarrow> (edit1 ^^ Suc n) (x # xs) zs"
  "(edit1 ^^ n) xs ys \<Longrightarrow> (edit1 ^^ Suc n) xs (y # ys)"
  "(edit1 ^^ n) (y # xs) zs \<Longrightarrow> (edit1 ^^ Suc n) (x # xs) zs"
  by (meson edit1_intros relpowp_Suc_I relpowp_Suc_I2)+

lemma lev_upper: "(edit1 ^^ lev xs ys) xs ys"
proof (induction xs ys rule: lev.induct)
  case (1 ys)
  show ?case
  proof (induction ys)
    case (Cons y ys)
    from edits_front(2) [OF this, of y] show ?case by simp
  qed simp
next
  case (2 x xs)
  have "(edit1 ^^ length xs) xs []" for xs :: "'a list"
  proof (induction xs)
    case (Cons x xs)
    from edits_front(1) [OF this, of x] show ?case by simp
  qed simp
  from this [of "x # xs"] show ?case by simp
next
  case (3 x xs y ys)
  consider (del) "lev (x # xs) (y # ys) = Suc (lev xs (y # ys))"
    | (ins) "lev (x # xs) (y # ys) = Suc (lev (x # xs) ys)"
    | (rep) "x \<noteq> y" "lev (x # xs) (y # ys) = Suc (lev xs ys)"
    | (same) "x = y"
    using lev_diff_cases [of x y xs ys] by argo
  then show ?case
  proof cases
    case del
    with edits_front(1) [OF 3(1)] show ?thesis by simp
  next
    case ins
    with edits_front(2) [OF 3(2)] show ?thesis by simp
  next
    case rep
    with edits_front(3) [OF edits_Cons [OF 3(3)]] show ?thesis by simp
  next
    case same
    with 3(3) show ?thesis by (simp add: edits_Cons)
  qed
qed

lemma lev_is_least: "lev xs ys = (LEAST n. (edit1 ^^ n) xs ys)"
  by (rule Least_equality [where P = "\<lambda>n. (edit1 ^^ n) xs ys", symmetric]) (rule lev_upper, rule lev_lower)

text \<open>Reversing both strings does not change the distance.\<close>

lemma edit1_rev: "edit1 xs ys \<Longrightarrow> edit1 (rev xs) (rev ys)"
proof -
  assume "edit1 xs ys"
  then obtain a b x y where "xs = a @ x # b \<and> ys = a @ b \<or> xs = a @ b \<and> ys = a @ y # b \<or>
      xs = a @ x # b \<and> ys = a @ y # b"
    by (auto simp: edit1_def)
  then show ?thesis
    unfolding edit1_def by (intro exI [of _ "rev b"] exI [of _ "rev a"] exI [of _ x] exI [of _ y]) auto
qed

lemma edits_rev: "(edit1 ^^ n) xs ys \<Longrightarrow> (edit1 ^^ n) (rev xs) (rev ys)"
proof (induction n arbitrary: xs)
  case 0
  then show ?case by simp
next
  case (Suc n)
  then obtain ws where "edit1 xs ws" and "(edit1 ^^ n) ws ys"
    by (meson relpowp_Suc_D2)
  from relpowp_Suc_I2 [OF edit1_rev [OF this(1)] Suc.IH [OF this(2)]] show ?case .
qed

lemma lev_rev: "lev (rev xs) (rev ys) = lev xs ys"
proof (rule antisym)
  show "lev (rev xs) (rev ys) \<le> lev xs ys" by (intro lev_lower edits_rev lev_upper)
  show "lev xs ys \<le> lev (rev xs) (rev ys)"
    using lev_lower [OF edits_rev [OF lev_upper [of "rev xs" "rev ys"]]] by simp
qed

section \<open>The column holds distances of prefixes\<close>

definition cell :: "'a list \<Rightarrow> 'a list \<Rightarrow> nat \<Rightarrow> nat \<Rightarrow> nat" where
  "cell me t i j = lev (rev (take i me)) (rev (take j t))"

lemma cell_0 [simp]: "j \<le> length t \<Longrightarrow> cell me t 0 j = j"
  by (simp add: cell_def)

lemma cell_left: "i \<le> length me \<Longrightarrow> cell me t i 0 = i"
  by (simp add: cell_def)

lemma cell_Suc:
  assumes "i < length me" and "j < length t"
  shows "cell me t (Suc i) (Suc j) =
    (if me ! i = t ! j then cell me t i j
     else min (min (cell me t i j) (cell me t i (Suc j))) (cell me t (Suc i) j) + 1)"
  using assms by (auto simp: cell_def take_Suc_conv_app_nth lev_diff min_def)

text \<open>The state of the inner loop before column \<open>j\<close>: the new row up to \<open>j\<close>, the old row after it.\<close>

definition inner_ok :: "ustring \<Rightarrow> ustring \<Rightarrow> nat \<Rightarrow> nat \<Rightarrow> nat list \<Rightarrow> nat \<Rightarrow> bool" where
  "inner_ok me t i j dcol current \<longleftrightarrow> length t < length dcol \<and>
     (\<forall>k \<le> j. dcol ! k = cell me t (Suc i) k) \<and>
     (\<forall>k. j < k \<and> k \<le> length t \<longrightarrow> dcol ! k = cell me t i k) \<and> current = cell me t i j"

lemma lev_inner_step:
  assumes ok: "inner_ok me t i j dcol current" and i: "i < length me" and j: "j < length t"
  shows "\<exists>dcol'. lev_inner (me ! i) (t ! j # ts) j (dcol, current, t_last) =
      lev_inner (me ! i) ts (Suc j) (dcol', cell me t i (Suc j), j) \<and>
    inner_ok me t i (Suc j) dcol' (cell me t i (Suc j))"
proof -
  let ?dcol = "dcol[Suc j := cell me t (Suc i) (Suc j)]"
  have len: "Suc j < length dcol" "j < length dcol" using ok j by (auto simp: inner_ok_def)
  have vals: "dcol ! Suc j = cell me t i (Suc j)" "dcol ! j = cell me t (Suc i) j"
    "current = cell me t i j" using ok j by (auto simp: inner_ok_def)
  have "lev_inner (me ! i) (t ! j # ts) j (dcol, current, t_last) =
      lev_inner (me ! i) ts (Suc j) (?dcol, cell me t i (Suc j), j)"
    using len by (simp add: vec_get_def vec_set_def vals cell_Suc [OF i j] min.assoc)
  moreover have "inner_ok me t i (Suc j) ?dcol (cell me t i (Suc j))"
    using ok len by (auto simp: inner_ok_def nth_list_update le_Suc_eq)
  ultimately show ?thesis by blast
qed

lemma lev_inner_ok:
  assumes "inner_ok me t i j dcol current" and "i < length me" and "ts = drop j t"
  shows "\<exists>dcol' current' t_last'. lev_inner (me ! i) ts j (dcol, current, t_last) =
      Some (dcol', current', t_last') \<and> inner_ok me t i (max j (length t)) dcol' current' \<and>
      (if ts = [] then t_last' = t_last else Suc t_last' = length t)"
  using assms
proof (induction ts arbitrary: j dcol current t_last)
  case Nil
  then show ?case by (auto simp: max_def)
next
  case (Cons tc ts)
  from Cons.prems(3) have j: "j < length t" by (metis drop_eq_Nil linorder_not_le list.distinct(1))
  with Cons.prems(3) have tc: "tc = t ! j" and ts: "ts = drop (Suc j) t"
    by (simp_all add: Cons_nth_drop_Suc [symmetric])
  from lev_inner_step [OF Cons.prems(1,2) j, of ts t_last] obtain dcol' where
      step: "lev_inner (me ! i) (tc # ts) j (dcol, current, t_last) =
        lev_inner (me ! i) ts (Suc j) (dcol', cell me t i (Suc j), j)"
      and ok: "inner_ok me t i (Suc j) dcol' (cell me t i (Suc j))"
    unfolding tc by blast
  from Cons.IH [OF ok Cons.prems(2) ts, of j] step j ts show ?case
    by (auto simp: max_def split: if_splits)
qed

definition outer_ok :: "ustring \<Rightarrow> ustring \<Rightarrow> nat \<Rightarrow> nat list \<Rightarrow> bool" where
  "outer_ok me t i dcol \<longleftrightarrow> length t < length dcol \<and> (\<forall>k \<le> length t. dcol ! k = cell me t i k)"

lemma lev_outer_ok:
  assumes "outer_ok me t i dcol" and "t \<noteq> []" and "rest = drop i me"
    and "rest = [] \<Longrightarrow> Suc t_last = length t"
  shows "\<exists>dcol' t_last'. lev_outer t rest i (dcol, t_last) = Some (dcol', t_last') \<and>
    outer_ok me t (max i (length me)) dcol' \<and> Suc t_last' = length t"
  using assms
proof (induction rest arbitrary: i dcol t_last)
  case Nil
  then show ?case by (auto simp: max_def)
next
  case (Cons sc rest)
  from Cons.prems(3) have i: "i < length me" by (metis drop_eq_Nil linorder_not_le list.distinct(1))
  with Cons.prems(3) have sc: "sc = me ! i" and rest: "rest = drop (Suc i) me"
    by (simp_all add: Cons_nth_drop_Suc [symmetric])
  let ?dcol = "dcol[0 := Suc i]"
  have set: "vec_set dcol 0 (i + 1) = Some ?dcol"
    using Cons.prems(1) by (auto simp: vec_set_def outer_ok_def)
  have "inner_ok me t i 0 ?dcol i"
    using Cons.prems(1) i by (cases dcol) (auto simp: inner_ok_def outer_ok_def cell_left nth_Cons')
  from lev_inner_ok [OF this i, of t t_last] Cons.prems(2) obtain dcol' c t' where
      inner: "lev_inner (me ! i) t 0 (?dcol, i, t_last) = Some (dcol', c, t')"
      and ok: "inner_ok me t i (length t) dcol' c" and t': "Suc t' = length t"
    by auto
  have "outer_ok me t (Suc i) dcol'" using ok by (auto simp: inner_ok_def outer_ok_def)
  from Cons.IH [OF this Cons.prems(2) rest t'] set inner sc i show ?case
    by (auto simp: max_def split: if_splits)
qed

lemma length_le_byte_len: "length s \<le> byte_len s"
  by (induction s) (auto simp: byte_len_def utf8_len_def)

lemma lev_distance_lev: "lev_distance me t = Some (lev me t)"
proof (cases "me = [] \<or> t = []")
  case True
  then show ?thesis
    by (auto simp: lev_distance_def)
next
  case False
  have "outer_ok me t 0 [0..<byte_len t + 1]"
    using length_le_byte_len [of t] by (auto simp: outer_ok_def nth_append less_Suc_eq_le)
  from lev_outer_ok [OF this, of me 0] False obtain dcol t_last where
      run: "lev_outer t me 0 ([0..<byte_len t + 1], 0) = Some (dcol, t_last)"
      and ok: "outer_ok me t (length me) dcol" and last: "Suc t_last = length t"
    by auto
  from ok last have "vec_get dcol (t_last + 1) = Some (lev me t)"
    by (simp add: vec_get_def outer_ok_def cell_def lev_rev)
  with False run show ?thesis
    by (simp add: lev_distance_def)
qed

text \<open>C38: \<open>lev_distance\<close> never indexes its column out of range and returns the least number
  of single-character insertions, removals and replacements that turn \<open>me\<close> into \<open>t\<close>.\<close>

theorem lev_distance_correct:
  "lev_distance me t = Some (LEAST n. (edit1 ^^ n) me t)"
  by (simp add: lev_distance_lev lev_is_least)

end
