(* ===== verification/Source_Id.thy ===== *)
theory Source_Id
  imports Prelude "HOL-Library.Char_ord" "HOL-Library.List_Lexorder" "HOL-Library.Product_Lexorder"
begin

text \<open>
  Identifiers of package sources, \<open>src/cargo/core/source/source_id.rs\<close>, with
  \<open>canonicalize_url\<close> of \<open>src/cargo/sources/git/source.rs\<close>.  The crate \<open>url\<close> is a parameter: a
  record of the operations the code calls on a \<open>Url\<close>.  What the theorems use of it is stated
  as hypotheses on that record.
\<close>

section \<open>The url crate\<close>

record 'u url_ops =
  url_parse :: "string \<Rightarrow> 'u option"
  as_str :: "'u \<Rightarrow> string"
  from_file_path :: "string \<Rightarrow> 'u option"
  to_file_path :: "'u \<Rightarrow> string option"
  scheme :: "'u \<Rightarrow> string"
  host_str :: "'u \<Rightarrow> string option"
  url_path :: "'u \<Rightarrow> string"
  path_segments :: "'u \<Rightarrow> string list option"
  url_query :: "'u \<Rightarrow> string option"
  query_pairs :: "'u \<Rightarrow> (string \<times> string) list"
  fragment :: "'u \<Rightarrow> string option"
  clear_fragment :: "'u \<Rightarrow> 'u"
  clear_query :: "'u \<Rightarrow> 'u"
  cannot_be_a_base :: "'u \<Rightarrow> bool"
  pop_if_empty :: "'u \<Rightarrow> 'u option"
  set_scheme :: "string \<Rightarrow> 'u \<Rightarrow> 'u option"
  set_path :: "string \<Rightarrow> 'u \<Rightarrow> 'u"
  pop_push :: "string \<Rightarrow> 'u \<Rightarrow> 'u option"

datatype source_error =
    InvalidSource string
  | InvalidUrl string
  | InvalidPathUrl string
  | CannotBeABase string
  | UnsupportedProtocol string
  | RegistryIndexNotConfigured string

definition str_to_url :: "'u url_ops \<Rightarrow> string \<Rightarrow> source_error + 'u" where
  "str_to_url U s = ok_or (InvalidUrl s) (url_parse U s)"

definition path_to_url :: "'u url_ops \<Rightarrow> string \<Rightarrow> source_error + 'u" where
  "path_to_url U p = ok_or (InvalidPathUrl p) (from_file_path U p)"

text \<open>\<open>str::to_lowercase\<close> on the ASCII text of a url path.\<close>

definition to_lowercase :: "string \<Rightarrow> string" where
  "to_lowercase s =
     map (\<lambda>c. let n = of_char c :: nat in if 65 \<le> n \<and> n \<le> 90 then char_of (n + 32) else c) s"

text \<open>\<open>git::canonicalize_url\<close>; \<open>None\<close> where one of its \<open>unwrap\<close>s fails.\<close>

definition canonicalize_url :: "'u url_ops \<Rightarrow> 'u \<Rightarrow> (source_error, 'u) run" where
  "canonicalize_url U url =
     (if cannot_be_a_base U url then Some (Inl (CannotBeABase (as_str U url)))
      else
        bindR (if ends_with_char CHR ''/'' (url_path U url) then unwrap (pop_if_empty U url)
               else Some (Inr url)) (\<lambda>url1.
        bindR (if host_str U url1 = Some ''github.com'' then
                 bindR (unwrap (set_scheme U ''https'' url1)) (\<lambda>u.
                   Some (Inr (set_path U (to_lowercase (url_path U u)) u)))
               else Some (Inr url1)) (\<lambda>url2.
        if ends_with ''.git'' (url_path U url2) then
          bindR (unwrap (path_segments U url2)) (\<lambda>segs.
            if segs = [] then None
            else unwrap (pop_push U (take (length (last segs) - 4) (last segs)) url2))
        else Some (Inr url2))))"

section \<open>Source ids\<close>

datatype git_reference = Tag string | Branch string | Rev string

datatype kind = KGit git_reference | KPath | KRegistry | KLocalRegistry | KDirectory

text \<open>The derived \<open>Ord\<close>: variants in the order of their declaration, then their fields.\<close>

fun git_reference_rank :: "git_reference \<Rightarrow> nat \<times> string" where
  "git_reference_rank (Tag s) = (0, s)"
| "git_reference_rank (Branch s) = (1, s)"
| "git_reference_rank (Rev s) = (2, s)"

fun kind_rank :: "kind \<Rightarrow> nat \<times> nat \<times> string" where
  "kind_rank (KGit r) = (0, git_reference_rank r)"
| "kind_rank KPath = (1, 0, '''')"
| "kind_rank KRegistry = (2, 0, '''')"
| "kind_rank KLocalRegistry = (3, 0, '''')"
| "kind_rank KDirectory = (4, 0, '''')"

lemma git_reference_rank_inj [simp]: "git_reference_rank a = git_reference_rank b \<longleftrightarrow> a = b"
  by (cases a; cases b) auto

lemma kind_rank_inj [simp]: "kind_rank a = kind_rank b \<longleftrightarrow> a = b"
  by (cases a; cases b) auto

instantiation git_reference :: linorder
begin

definition less_eq_git_reference :: "git_reference \<Rightarrow> git_reference \<Rightarrow> bool" where
  "a \<le> b \<longleftrightarrow> git_reference_rank a \<le> git_reference_rank b"

definition less_git_reference :: "git_reference \<Rightarrow> git_reference \<Rightarrow> bool" where
  "a < b \<longleftrightarrow> git_reference_rank a < git_reference_rank b"

instance
  by standard
    (auto simp: less_eq_git_reference_def less_git_reference_def order.strict_iff_order simp del: less_eq_prod_simp less_prod_simp
      intro: antisym elim: order_trans)

end

instantiation kind :: linorder
begin

definition less_eq_kind :: "kind \<Rightarrow> kind \<Rightarrow> bool" where
  "a \<le> b \<longleftrightarrow> kind_rank a \<le> kind_rank b"

definition less_kind :: "kind \<Rightarrow> kind \<Rightarrow> bool" where
  "a < b \<longleftrightarrow> kind_rank a < kind_rank b"

instance
  by standard
    (auto simp: less_eq_kind_def less_kind_def order.strict_iff_order simp del: less_eq_prod_simp less_prod_simp
      intro: antisym elim: order_trans)

end

record 'u source_id =
  sid_url :: 'u
  canonical_url :: 'u
  kind :: kind
  precise :: "string option"
  sid_name :: "string option"

definition new_source_id :: "'u url_ops \<Rightarrow> kind \<Rightarrow> 'u \<Rightarrow> (source_error, 'u source_id) run" where
  "new_source_id U k url =
     bindR (canonicalize_url U url) (\<lambda>c.
       Some (Inr \<lparr>sid_url = url, canonical_url = c, kind = k, precise = None, sid_name = None\<rparr>))"

definition with_precise :: "string option \<Rightarrow> 'u source_id \<Rightarrow> 'u source_id" where
  "with_precise v sid = sid\<lparr>precise := v\<rparr>"

definition for_git :: "'u url_ops \<Rightarrow> 'u \<Rightarrow> git_reference \<Rightarrow> (source_error, 'u source_id) run" where
  "for_git U url reference = new_source_id U (KGit reference) url"

definition for_registry :: "'u url_ops \<Rightarrow> 'u \<Rightarrow> (source_error, 'u source_id) run" where
  "for_registry U url = new_source_id U KRegistry url"

definition for_path :: "'u url_ops \<Rightarrow> string \<Rightarrow> (source_error, 'u source_id) run" where
  "for_path U p = bindR (Some (path_to_url U p)) (new_source_id U KPath)"

definition for_local_registry :: "'u url_ops \<Rightarrow> string \<Rightarrow> (source_error, 'u source_id) run" where
  "for_local_registry U p = bindR (Some (path_to_url U p)) (new_source_id U KLocalRegistry)"

definition for_directory :: "'u url_ops \<Rightarrow> string \<Rightarrow> (source_error, 'u source_id) run" where
  "for_directory U p = bindR (Some (path_to_url U p)) (new_source_id U KDirectory)"

text \<open>The loop over the query pairs of a git url; a later pair overrides an earlier one.\<close>

definition reference_step :: "string \<times> string \<Rightarrow> git_reference \<Rightarrow> git_reference" where
  "reference_step kv reference =
     (case kv of (k, v) \<Rightarrow>
        if k = ''branch'' \<or> k = ''ref'' then Branch v
        else if k = ''rev'' then Rev v
        else if k = ''tag'' then Tag v
        else reference)"

definition from_url :: "'u url_ops \<Rightarrow> string \<Rightarrow> (source_error, 'u source_id) run" where
  "from_url U s =
     (case splitn2 CHR ''+'' s of
        (_, None) \<Rightarrow> Some (Inl (InvalidSource s))
      | (k, Some u) \<Rightarrow>
          if k = ''git'' then
            bindR (Some (str_to_url U u)) (\<lambda>url.
              let reference = fold reference_step (query_pairs U url) (Branch ''master'');
                  prec = fragment U url
              in bindR (for_git U (clear_query U (clear_fragment U url)) reference) (\<lambda>sid.
                   Some (Inr (with_precise prec sid))))
          else if k = ''registry'' then
            bindR (Some (str_to_url U u)) (\<lambda>url.
              bindR (new_source_id U KRegistry url) (\<lambda>sid.
                Some (Inr (with_precise (Some ''locked'') sid))))
          else if k = ''path'' then
            bindR (Some (str_to_url U u)) (new_source_id U KPath)
          else Some (Inl (UnsupportedProtocol k)))"

definition CRATES_IO_INDEX :: string where
  "CRATES_IO_INDEX = ''https://github.com/rust-lang/crates.io-index''"

text \<open>\<open>crates_io\<close>, given the index set in the configuration, if any; \<open>alt_registry\<close>, given the
  index configured for the key.  \<open>Config::crates_io_source_id\<close> computes the former once and keeps it, and \<open>crates_io\<close>
  may print a warning about the configured index before it; both are left out.\<close>

definition crates_io :: "'u url_ops \<Rightarrow> string option \<Rightarrow> (source_error, 'u source_id) run" where
  "crates_io U index =
     bindR (Some (str_to_url U (case index of Some i \<Rightarrow> i | None \<Rightarrow> CRATES_IO_INDEX)))
       (for_registry U)"

definition alt_registry ::
    "'u url_ops \<Rightarrow> (string \<Rightarrow> source_error + 'u) \<Rightarrow> string \<Rightarrow> (source_error, 'u source_id) run" where
  "alt_registry U get_registry_index key =
     bindR (Some (get_registry_index key)) (\<lambda>url.
       bindR (canonicalize_url U url) (\<lambda>c.
         Some (Inr \<lparr>sid_url = url, canonical_url = c, kind = KRegistry, precise = None,
                    sid_name = Some key\<rparr>)))"

definition is_path :: "'u source_id \<Rightarrow> bool" where
  "is_path sid \<longleftrightarrow> kind sid = KPath"

fun is_registry_kind :: "kind \<Rightarrow> bool" where
  "is_registry_kind KRegistry \<longleftrightarrow> True"
| "is_registry_kind KLocalRegistry \<longleftrightarrow> True"
| "is_registry_kind _ \<longleftrightarrow> False"

definition is_registry :: "'u source_id \<Rightarrow> bool" where
  "is_registry sid \<longleftrightarrow> is_registry_kind (kind sid)"

definition is_alt_registry :: "'u source_id \<Rightarrow> bool" where
  "is_alt_registry sid \<longleftrightarrow> is_registry sid \<and> sid_name sid \<noteq> None"

definition sid_git_reference :: "'u source_id \<Rightarrow> git_reference option" where
  "sid_git_reference sid = (case kind sid of KGit r \<Rightarrow> Some r | _ \<Rightarrow> None)"

definition is_git :: "'u source_id \<Rightarrow> bool" where
  "is_git sid \<longleftrightarrow> (case kind sid of KGit _ \<Rightarrow> True | _ \<Rightarrow> False)"

definition is_default_registry :: "'u url_ops \<Rightarrow> 'u source_id \<Rightarrow> bool" where
  "is_default_registry U sid \<longleftrightarrow>
     (case kind sid of KRegistry \<Rightarrow> as_str U (sid_url sid) = CRATES_IO_INDEX | _ \<Rightarrow> False)"

text \<open>The source a source id is loaded as; \<open>None\<close> is the panic on a remote path source.\<close>

datatype 'u source_impl =
    GitSource "'u source_id"
  | PathSource string "'u source_id"
  | RemoteRegistry "'u source_id"
  | LocalRegistry "'u source_id" string
  | DirectorySource string "'u source_id"

definition load :: "'u url_ops \<Rightarrow> 'u source_id \<Rightarrow> 'u source_impl option" where
  "load U sid =
     (case kind sid of
        KGit _ \<Rightarrow> Some (GitSource sid)
      | KPath \<Rightarrow> map_option (\<lambda>p. PathSource p sid) (to_file_path U (sid_url sid))
      | KRegistry \<Rightarrow> Some (RemoteRegistry sid)
      | KLocalRegistry \<Rightarrow> map_option (LocalRegistry sid) (to_file_path U (sid_url sid))
      | KDirectory \<Rightarrow> map_option (\<lambda>p. DirectorySource p sid) (to_file_path U (sid_url sid)))"

section \<open>Equality, order, hash\<close>

definition sid_eq :: "'u source_id \<Rightarrow> 'u source_id \<Rightarrow> bool" where
  "sid_eq a b =
     (if kind a \<noteq> kind b then False
      else if sid_url a = sid_url b then True
      else (case (kind a, kind b) of
              (KGit ref1, KGit ref2) \<Rightarrow> ref1 = ref2 \<and> canonical_url a = canonical_url b
            | _ \<Rightarrow> False))"

text \<open>A \<open>Url\<close> compares as its serialization does.\<close>

definition sid_cmp :: "'u url_ops \<Rightarrow> 'u source_id \<Rightarrow> 'u source_id \<Rightarrow> ordering" where
  "sid_cmp U a b =
     (case cmp (kind a) (kind b) of
        Equal \<Rightarrow>
          (case cmp (as_str U (sid_url a)) (as_str U (sid_url b)) of
             Equal \<Rightarrow>
               (case (kind a, kind b) of
                  (KGit ref1, KGit ref2) \<Rightarrow>
                    cmp (ref1, as_str U (canonical_url a)) (ref2, as_str U (canonical_url b))
                | _ \<Rightarrow> cmp (kind a) (kind b))
           | ord \<Rightarrow> ord)
      | ord \<Rightarrow> ord)"

text \<open>What \<open>Hash::hash\<close> feeds to the hasher.\<close>

definition sid_hash :: "'u url_ops \<Rightarrow> 'u source_id \<Rightarrow> kind \<times> string" where
  "sid_hash U sid =
     (kind sid,
      case kind sid of KGit _ \<Rightarrow> as_str U (canonical_url sid) | _ \<Rightarrow> as_str U (sid_url sid))"

section \<open>Display\<close>

definition pretty_ref :: "git_reference \<Rightarrow> git_reference option" where
  "pretty_ref r = (case r of Branch s \<Rightarrow> if s = ''master'' then None else Some r | _ \<Rightarrow> Some r)"

fun pretty_ref_to_string :: "git_reference \<Rightarrow> string" where
  "pretty_ref_to_string (Branch b) = ''branch='' @ b"
| "pretty_ref_to_string (Tag s) = ''tag='' @ s"
| "pretty_ref_to_string (Rev s) = ''rev='' @ s"

definition url_display :: "'u url_ops \<Rightarrow> 'u \<Rightarrow> string" where
  "url_display U url =
     (if scheme U url = ''file'' then
        (case to_file_path U url of Some p \<Rightarrow> p | None \<Rightarrow> as_str U url)
      else as_str U url)"

definition display_registry :: "'u url_ops \<Rightarrow> 'u source_id \<Rightarrow> string" where
  "display_registry U sid =
     (if is_default_registry U sid then ''crates.io index''
      else ''`'' @ url_display U (sid_url sid) @ ''` index'')"

definition reference_suffix :: "git_reference \<Rightarrow> string" where
  "reference_suffix r = (case pretty_ref r of Some p \<Rightarrow> ''?'' @ pretty_ref_to_string p | None \<Rightarrow> '''')"

definition sid_display :: "'u url_ops \<Rightarrow> 'u source_id \<Rightarrow> string" where
  "sid_display U sid =
     (case kind sid of
        KPath \<Rightarrow> url_display U (sid_url sid)
      | KGit r \<Rightarrow>
          as_str U (sid_url sid) @ reference_suffix r @
          (case precise sid of Some s \<Rightarrow> ''#'' @ take (min (length s) 8) s | None \<Rightarrow> '''')
      | KRegistry \<Rightarrow> ''registry `'' @ url_display U (sid_url sid) @ ''`''
      | KLocalRegistry \<Rightarrow> ''registry `'' @ url_display U (sid_url sid) @ ''`''
      | KDirectory \<Rightarrow> ''dir '' @ url_display U (sid_url sid))"

definition sid_to_url :: "'u url_ops \<Rightarrow> 'u source_id \<Rightarrow> string" where
  "sid_to_url U sid =
     (case kind sid of
        KPath \<Rightarrow> ''path+'' @ as_str U (sid_url sid)
      | KGit r \<Rightarrow>
          ''git+'' @ as_str U (sid_url sid) @ reference_suffix r @
          (case precise sid of Some s \<Rightarrow> ''#'' @ s | None \<Rightarrow> '''')
      | KRegistry \<Rightarrow> ''registry+'' @ as_str U (sid_url sid)
      | KLocalRegistry \<Rightarrow> ''local-registry+'' @ as_str U (sid_url sid)
      | KDirectory \<Rightarrow> ''directory+'' @ as_str U (sid_url sid))"

text \<open>\<open>Serialize\<close>: nothing for a path source, else the url form.\<close>

definition sid_serialize :: "'u url_ops \<Rightarrow> 'u source_id \<Rightarrow> string option" where
  "sid_serialize U sid = (if is_path sid then None else Some (sid_to_url U sid))"

section \<open>Well-formed ids\<close>

text \<open>The canonical url of an id is that of its url, as every constructor computes it.\<close>

definition sid_wf :: "'u url_ops \<Rightarrow> 'u source_id \<Rightarrow> bool" where
  "sid_wf U sid \<longleftrightarrow> canonicalize_url U (sid_url sid) = Some (Inr (canonical_url sid))"

lemma new_source_id_Inr:
  "new_source_id U k url = Some (Inr sid) \<longleftrightarrow>
     (\<exists>c. canonicalize_url U url = Some (Inr c) \<and>
          sid = \<lparr>sid_url = url, canonical_url = c, kind = k, precise = None, sid_name = None\<rparr>)"
  by (auto simp: new_source_id_def)

lemma new_source_id_wf: "new_source_id U k url = Some (Inr sid) \<Longrightarrow> sid_wf U sid"
  by (auto simp: new_source_id_Inr sid_wf_def)

lemma with_precise_wf [simp]: "sid_wf U (with_precise v sid) = sid_wf U sid"
  by (simp add: with_precise_def sid_wf_def)

lemma from_url_wf: "from_url U s = Some (Inr sid) \<Longrightarrow> sid_wf U sid"
  by (auto simp: from_url_def for_git_def Let_def split: prod.splits option.splits if_splits
      dest: new_source_id_wf)

lemma alt_registry_wf: "alt_registry U get key = Some (Inr sid) \<Longrightarrow> sid_wf U sid"
  by (auto simp: alt_registry_def sid_wf_def)

lemma sid_eq_iff:
  assumes "sid_wf U a" "sid_wf U b"
  shows "sid_eq a b \<longleftrightarrow> kind a = kind b \<and>
    (if is_git a then canonical_url a = canonical_url b else sid_url a = sid_url b)"
  using assms by (auto simp: sid_eq_def sid_wf_def is_git_def split: kind.splits)

lemma sid_cmp_Equal:
  "sid_cmp U a b = Equal \<longleftrightarrow> kind a = kind b \<and> as_str U (sid_url a) = as_str U (sid_url b) \<and>
     (is_git a \<longrightarrow> as_str U (canonical_url a) = as_str U (canonical_url b))"
  using cmp_eq_Equal [of "kind a" "kind b"]
    cmp_eq_Equal [of "as_str U (sid_url a)" "as_str U (sid_url b)"]
  by (auto simp: sid_cmp_def is_git_def split: ordering.splits kind.splits simp del: cmp_eq_Equal)
     (simp_all add: cmp_def split: if_splits)

section \<open>A small instance of the url operations\<close>

text \<open>
  Urls as plain text, with what follows a question mark as the query and what follows a hash
  sign as the fragment: an instance in which the hypotheses on the url operations hold.
\<close>

definition query_part :: "string \<Rightarrow> string option" where
  "query_part u = snd (splitn2 CHR ''?'' (fst (splitn2 CHR ''#'' u)))"

definition plain_ops :: "string url_ops" where
  "plain_ops =
     \<lparr>url_parse = Some, as_str = id, from_file_path = Some, to_file_path = Some,
      scheme = (\<lambda>_. ''file''), host_str = (\<lambda>_. None), url_path = id, path_segments = (\<lambda>u. Some [u]),
      url_query = query_part,
      query_pairs = (\<lambda>u. case query_part u of
                           None \<Rightarrow> []
                         | Some q \<Rightarrow> (case splitn2 CHR ''='' q of
                             (k, Some v) \<Rightarrow> [(k, v)] | (k, None) \<Rightarrow> [(k, [])])),
      fragment = (\<lambda>u. snd (splitn2 CHR ''#'' u)), clear_fragment = (\<lambda>u. fst (splitn2 CHR ''#'' u)),
      clear_query = (\<lambda>u. fst (splitn2 CHR ''?'' u)), cannot_be_a_base = (\<lambda>_. False),
      pop_if_empty = Some, set_scheme = (\<lambda>_. Some), set_path = (\<lambda>p _. p),
      pop_push = (\<lambda>p _. Some p)\<rparr>"

lemmas plain_eval = plain_ops_def query_part_def splitn2_def canonicalize_url_def
  ends_with_char_def ends_with_def unwrap_def

definition git_id :: "string \<Rightarrow> string \<Rightarrow> string source_id" where
  "git_id u c = \<lparr>sid_url = u, canonical_url = c, kind = KGit (Branch ''dev''),
                 precise = Some ''abc'', sid_name = None\<rparr>"

section \<open>Properties\<close>

text \<open>
  For ids the constructors build, equality is the equality of what \<open>Hash\<close> feeds to the
  hasher: equal ids hash alike, as a \<open>HashMap\<close> keyed by them needs, and ids that hash
  the same text are equal.  So \<open>==\<close> is an equivalence although git urls are compared up to
  canonicalization, and neither \<open>precise\<close> nor the registry name takes part in it.
\<close>

theorem source_id_eq_iff_hash:
  assumes "inj (as_str U)" "sid_wf U a" "sid_wf U b"
  shows "sid_eq a b \<longleftrightarrow> sid_hash U a = sid_hash U b"
  using sid_eq_iff [OF assms(2,3)] assms(1)
  by (auto simp: sid_hash_def is_git_def inj_eq split: kind.splits)

theorem source_id_eq_iff_hash_witness:
  "sid_wf plain_ops (git_id ''x.git'' ''x'') \<and> sid_wf plain_ops (git_id ''x'' ''x'') \<and>
   sid_eq (git_id ''x.git'' ''x'') (git_id ''x'' ''x'') \<and>
   sid_hash plain_ops (git_id ''x.git'' ''x'') = sid_hash plain_ops (git_id ''x'' ''x'')"
proof -
  have inj: "inj (as_str plain_ops)" by (simp add: plain_ops_def)
  have a: "sid_wf plain_ops (git_id ''x.git'' ''x'')" "sid_wf plain_ops (git_id ''x'' ''x'')"
    by (simp_all add: sid_wf_def git_id_def plain_eval)
  have "sid_hash plain_ops (git_id ''x.git'' ''x'') = sid_hash plain_ops (git_id ''x'' ''x'')"
    by (simp add: sid_hash_def git_id_def)
  with source_id_eq_iff_hash [OF inj a] a show ?thesis by simp
qed

text \<open>
  The order of source ids is antisymmetric and only calls ids equal that \<open>==\<close> calls
  equal.  The converse fails for git sources: two ids with different urls and one canonical
  url are \<open>==\<close> but not \<open>Ordering::Equal\<close>.
\<close>

theorem source_id_cmp:
  "(\<forall>U :: 'u url_ops. \<forall>a b.
      sid_cmp U b a = reverse (sid_cmp U a b) \<and>
      (inj (as_str U) \<and> sid_cmp U a b = Equal \<longrightarrow> sid_eq a b)) \<and>
   (\<exists>a b. sid_wf plain_ops a \<and> sid_wf plain_ops b \<and> sid_eq a b \<and> sid_cmp plain_ops a b \<noteq> Equal)"
proof (intro conjI allI)
  fix U :: "'u url_ops" and a b
  show "sid_cmp U b a = reverse (sid_cmp U a b)"
    by (auto simp: sid_cmp_def cmp_swap [of "kind b"] cmp_swap [of "as_str U (sid_url b)"]
        cmp_swap [of "(_, as_str U (canonical_url b))"] split: ordering.splits kind.splits)
  show "inj (as_str U) \<and> sid_cmp U a b = Equal \<longrightarrow> sid_eq a b"
    by (auto simp: sid_cmp_Equal sid_eq_def inj_eq)
next
  have "sid_wf plain_ops (git_id ''x.git'' ''x'')" "sid_wf plain_ops (git_id ''x'' ''x'')"
    "sid_eq (git_id ''x.git'' ''x'') (git_id ''x'' ''x'')"
    "sid_cmp plain_ops (git_id ''x.git'' ''x'') (git_id ''x'' ''x'') \<noteq> Equal"
    by (simp_all add: sid_wf_def sid_cmp_Equal sid_eq_def git_id_def plain_eval)
  then show "\<exists>a b. sid_wf plain_ops a \<and> sid_wf plain_ops b \<and> sid_eq a b \<and> sid_cmp plain_ops a b \<noteq> Equal"
    by blast
qed

theorem source_id_cmp_witness:
  "sid_cmp plain_ops (git_id ''x'' ''x'') (git_id ''x'' ''x'') = Equal \<and>
   sid_eq (git_id ''x'' ''x'') (git_id ''x'' ''x'')"
proof -
  have "inj (as_str plain_ops)" by (simp add: plain_ops_def)
  moreover have "sid_cmp plain_ops (git_id ''x'' ''x'') (git_id ''x'' ''x'') = Equal"
    by (simp add: sid_cmp_Equal)
  ultimately show ?thesis using source_id_cmp by blast
qed

section \<open>Source ids as text\<close>

text \<open>
  What the round trip needs of the url crate: a url without query and fragment, printed with a
  query pair or a fragment behind it, parses to a url with that pair and fragment, which cleared
  gives the url back.  \<open>plain\<close> are the texts that need no escape in a url.
\<close>

definition url_suffix :: "(string \<times> string) option \<Rightarrow> string option \<Rightarrow> string" where
  "url_suffix q f =
     (case q of Some (k, v) \<Rightarrow> ''?'' @ k @ ''='' @ v | None \<Rightarrow> []) @
     (case f of Some f \<Rightarrow> ''#'' @ f | None \<Rightarrow> [])"

definition url_text_ok :: "'u url_ops \<Rightarrow> (string \<Rightarrow> bool) \<Rightarrow> 'u \<Rightarrow> bool" where
  "url_text_ok U plain u \<longleftrightarrow>
     (\<forall>q f. pred_option (\<lambda>(k, v). k \<in> {''branch'', ''tag'', ''rev''} \<and> plain v) q \<and> pred_option plain f \<longrightarrow>
        (\<exists>u'. url_parse U (as_str U u @ url_suffix q f) = Some u' \<and>
              query_pairs U u' = (case q of Some kv \<Rightarrow> [kv] | None \<Rightarrow> []) \<and>
              fragment U u' = f \<and> clear_query U (clear_fragment U u') = u))"

fun reference_pair :: "git_reference \<Rightarrow> string \<times> string" where
  "reference_pair (Branch b) = (''branch'', b)"
| "reference_pair (Tag s) = (''tag'', s)"
| "reference_pair (Rev s) = (''rev'', s)"

definition url_pair :: "git_reference \<Rightarrow> (string \<times> string) option" where
  "url_pair r = (if r = Branch ''master'' then None else Some (reference_pair r))"

lemma reference_suffix_pair: "reference_suffix r @ (case p of Some s \<Rightarrow> ''#'' @ s | None \<Rightarrow> []) = url_suffix (url_pair r) p"
  by (cases r) (auto simp: reference_suffix_def pretty_ref_def url_suffix_def url_pair_def split: option.splits)

lemma reference_of_pair:
  "fold reference_step (case url_pair r of Some kv \<Rightarrow> [kv] | None \<Rightarrow> []) (Branch ''master'') = r"
  by (cases r) (auto simp: url_pair_def reference_step_def)

lemma from_url_git:
  "from_url U (''git+'' @ u) = bindR (Some (str_to_url U u)) (\<lambda>url.
     bindR (for_git U (clear_query U (clear_fragment U url))
              (fold reference_step (query_pairs U url) (Branch ''master''))) (\<lambda>sid.
       Some (Inr (with_precise (fragment U url) sid))))"
  using splitn2_append [of "CHR ''+''" "''git''" u] by (simp add: from_url_def Let_def)

lemma from_url_registry:
  "from_url U (''registry+'' @ u) = bindR (Some (str_to_url U u)) (\<lambda>url.
     bindR (new_source_id U KRegistry url) (\<lambda>sid. Some (Inr (with_precise (Some ''locked'') sid))))"
  using splitn2_append [of "CHR ''+''" "''registry''" u] by (simp add: from_url_def)

lemma from_url_path: "from_url U (''path+'' @ u) = bindR (Some (str_to_url U u)) (new_source_id U KPath)"
  using splitn2_append [of "CHR ''+''" "''path''" u] by (simp add: from_url_def)

lemma from_url_unsupported:
  "from_url U (''local-registry+'' @ u) = Some (Inl (UnsupportedProtocol ''local-registry''))"
  "from_url U (''directory+'' @ u) = Some (Inl (UnsupportedProtocol ''directory''))"
  using splitn2_append [of "CHR ''+''" "''local-registry''" u]
    splitn2_append [of "CHR ''+''" "''directory''" u] by (simp_all add: from_url_def)

lemma source_id_text:
  assumes url: "url_text_ok U plain (sid_url sid)" "url_parse U (as_str U (sid_url sid)) = Some (sid_url sid)"
    and wf: "sid_wf U sid"
    and plain: "pred_option (\<lambda>r. plain (snd (reference_pair r))) (sid_git_reference sid)"
      "is_git sid \<longrightarrow> pred_option plain (precise sid)"
  shows "from_url U (sid_to_url U sid) =
    (case kind sid of
       KGit r \<Rightarrow> Some (Inr (sid\<lparr>sid_name := None\<rparr>))
     | KRegistry \<Rightarrow> Some (Inr (sid\<lparr>precise := Some ''locked'', sid_name := None\<rparr>))
     | KPath \<Rightarrow> Some (Inr (sid\<lparr>precise := None, sid_name := None\<rparr>))
     | KLocalRegistry \<Rightarrow> Some (Inl (UnsupportedProtocol ''local-registry''))
     | KDirectory \<Rightarrow> Some (Inl (UnsupportedProtocol ''directory'')))"
proof (cases "kind sid")
  case (KGit r)
  with plain(1) have "pred_option (\<lambda>(k, v). k \<in> {''branch'', ''tag'', ''rev''} \<and> plain v) (url_pair r)"
    by (cases r) (auto simp: url_pair_def sid_git_reference_def)
  moreover have "pred_option plain (precise sid)" using plain(2) KGit by (simp add: is_git_def)
  ultimately obtain u' where
    "url_parse U (as_str U (sid_url sid) @ url_suffix (url_pair r) (precise sid)) = Some u'"
    "query_pairs U u' = (case url_pair r of Some kv \<Rightarrow> [kv] | None \<Rightarrow> [])"
    "fragment U u' = precise sid" "clear_query U (clear_fragment U u') = sid_url sid"
    using url(1) unfolding url_text_ok_def by blast
  moreover have "sid_to_url U sid = ''git+'' @ as_str U (sid_url sid) @ url_suffix (url_pair r) (precise sid)"
    using KGit reference_suffix_pair [of r "precise sid"] by (simp add: sid_to_url_def)
  ultimately show ?thesis
    using KGit wf
    by (simp only: from_url_git) (simp add: str_to_url_def for_git_def reference_of_pair
        new_source_id_def sid_wf_def with_precise_def)
next
  case KRegistry
  with wf url(2) show ?thesis
    by (simp only: sid_to_url_def from_url_registry kind.case)
       (simp add: str_to_url_def new_source_id_def sid_wf_def with_precise_def)
next
  case KPath
  with wf url(2) show ?thesis
    by (simp only: sid_to_url_def from_url_path kind.case)
       (simp add: str_to_url_def new_source_id_def sid_wf_def)
qed (simp_all only: sid_to_url_def from_url_unsupported kind.case)

text \<open>
  C28: what becomes of a source id printed as a url and read back, for every kind of source.  A git id keeps its
  url, its reference and its precise revision; a registry id keeps its url and comes back with the precise version
  \<open>locked\<close>; a path id keeps its url and loses its precise version; each of these loses its registry name, which
  together with the precise version is what \<open>==\<close> does not compare.  The printed forms of local registries and of
  directories are refused by the reader.
\<close>

theorem source_id_url_roundtrip:
  assumes url: "url_text_ok U plain (sid_url sid)" "url_parse U (as_str U (sid_url sid)) = Some (sid_url sid)"
    and wf: "sid_wf U sid"
    and plain: "pred_option (\<lambda>r. plain (snd (reference_pair r))) (sid_git_reference sid)"
      "is_git sid \<longrightarrow> pred_option plain (precise sid)"
  shows "from_url U (sid_to_url U sid) =
    (case kind sid of
       KGit r \<Rightarrow> Some (Inr (sid\<lparr>sid_name := None\<rparr>))
     | KRegistry \<Rightarrow> Some (Inr (sid\<lparr>precise := Some ''locked'', sid_name := None\<rparr>))
     | KPath \<Rightarrow> Some (Inr (sid\<lparr>precise := None, sid_name := None\<rparr>))
     | KLocalRegistry \<Rightarrow> Some (Inl (UnsupportedProtocol ''local-registry''))
     | KDirectory \<Rightarrow> Some (Inl (UnsupportedProtocol ''directory'')))"
  using assms by (rule source_id_text)

definition unreserved :: "string \<Rightarrow> bool" where
  "unreserved s \<longleftrightarrow> CHR ''#'' \<notin> set s \<and> CHR ''?'' \<notin> set s \<and> CHR ''='' \<notin> set s"

lemma splitn2_plain: "CHR ''#'' \<notin> set b \<Longrightarrow> splitn2 CHR ''#'' (b @ url_suffix None f) = (b, f)"
  by (cases f) (simp_all add: url_suffix_def)

lemma url_text_ok_plain:
  assumes "unreserved u"
  shows "url_text_ok plain_ops unreserved u"
  unfolding url_text_ok_def
proof (intro allI impI)
  fix q f
  assume qf: "pred_option (\<lambda>(k, v). k \<in> {''branch'', ''tag'', ''rev''} \<and> unreserved v) q \<and> pred_option unreserved f"
  have split_f: "splitn2 CHR ''#'' (u @ url_suffix q f) = (u @ url_suffix q None, f)"
  proof -
    have "CHR ''#'' \<notin> set (u @ url_suffix q None)"
      using qf assms by (cases q) (auto simp: url_suffix_def unreserved_def)
    from splitn2_plain [OF this, of f] show ?thesis by (simp add: url_suffix_def)
  qed
  have split_q: "splitn2 CHR ''?'' (u @ url_suffix q None) = (u, map_option (\<lambda>(k, v). k @ ''='' @ v) q)"
    using assms by (cases q) (auto simp: url_suffix_def unreserved_def)
  have split_kv: "splitn2 CHR ''='' (k @ CHR ''='' # v) = (k, Some v)" if "q = Some (k, v)" for k v
    by (rule splitn2_append) (use qf that in auto)
  show "\<exists>u'. url_parse plain_ops (as_str plain_ops u @ url_suffix q f) = Some u' \<and>
      query_pairs plain_ops u' = (case q of Some kv \<Rightarrow> [kv] | None \<Rightarrow> []) \<and>
      fragment plain_ops u' = f \<and> clear_query plain_ops (clear_fragment plain_ops u') = u"
    by (simp add: plain_ops_def query_part_def split_f split_q) (auto simp: split_kv split: option.splits)
qed

theorem source_id_url_roundtrip_witness:
  "sid_to_url plain_ops (git_id ''x'' ''x'') = ''git+x?branch=dev#abc'' \<and>
   from_url plain_ops ''git+x?branch=dev#abc'' = Some (Inr (git_id ''x'' ''x''))"
proof -
  let ?sid = "git_id ''x'' ''x''"
  have "url_text_ok plain_ops unreserved (sid_url ?sid)"
    by (intro url_text_ok_plain) (simp add: unreserved_def git_id_def)
  moreover have "url_parse plain_ops (as_str plain_ops (sid_url ?sid)) = Some (sid_url ?sid)"
    by (simp add: plain_ops_def)
  moreover have "sid_wf plain_ops ?sid" by (simp add: sid_wf_def git_id_def plain_eval)
  moreover have "pred_option (\<lambda>r. unreserved (snd (reference_pair r))) (sid_git_reference ?sid)"
    "is_git ?sid \<longrightarrow> pred_option unreserved (precise ?sid)"
    by (simp_all add: unreserved_def git_id_def sid_git_reference_def)
  ultimately have "from_url plain_ops (sid_to_url plain_ops ?sid) = Some (Inr ?sid)"
    using source_id_url_roundtrip [of plain_ops unreserved ?sid] by (simp add: git_id_def)
  moreover have "sid_to_url plain_ops ?sid = ''git+x?branch=dev#abc''"
    by (simp add: sid_to_url_def git_id_def reference_suffix_def pretty_ref_def plain_ops_def)
  ultimately show ?thesis by simp
qed

text \<open>What \<open>==\<close> on source ids looks at: ids made by the constructors are \<open>==\<close> exactly when their keys
  are equal, so that maps keyed by source ids are maps keyed by this.\<close>

definition sid_key :: "'u source_id \<Rightarrow> kind \<times> 'u" where
  "sid_key s = (kind s, case kind s of KGit _ \<Rightarrow> canonical_url s | _ \<Rightarrow> sid_url s)"

lemma sid_key_precise [simp]: "sid_key (with_precise v s) = sid_key s"
  by (cases "kind s") (simp_all add: sid_key_def with_precise_def)

lemma sid_eq_key: "sid_wf U a \<Longrightarrow> sid_wf U b \<Longrightarrow> sid_eq a b \<longleftrightarrow> sid_key a = sid_key b"
  by (auto simp: sid_eq_iff sid_key_def is_git_def split: kind.splits)

section \<open>The ids a program can hold\<close>

text \<open>Every way the code has to make a source id; \<open>alt_index\<close> is the registry index of the
  configuration.\<close>

inductive made_source_id :: "'u url_ops \<Rightarrow> (string \<Rightarrow> source_error + 'u) \<Rightarrow> 'u source_id \<Rightarrow> bool"
  for U :: "'u url_ops" and alt_index :: "string \<Rightarrow> source_error + 'u" where
  by_git: "for_git U url r = Some (Inr sid) \<Longrightarrow> made_source_id U alt_index sid"
| by_registry: "for_registry U url = Some (Inr sid) \<Longrightarrow> made_source_id U alt_index sid"
| by_path: "for_path U p = Some (Inr sid) \<Longrightarrow> made_source_id U alt_index sid"
| by_local_registry: "for_local_registry U p = Some (Inr sid) \<Longrightarrow> made_source_id U alt_index sid"
| by_directory: "for_directory U p = Some (Inr sid) \<Longrightarrow> made_source_id U alt_index sid"
| by_url: "from_url U s = Some (Inr sid) \<Longrightarrow> made_source_id U alt_index sid"
| by_crates_io: "crates_io U index = Some (Inr sid) \<Longrightarrow> made_source_id U alt_index sid"
| by_alt_registry: "alt_registry U alt_index key = Some (Inr sid) \<Longrightarrow> made_source_id U alt_index sid"
| by_precise: "made_source_id U alt_index sid \<Longrightarrow> made_source_id U alt_index (with_precise v sid)"

lemma new_source_id_unnamed: "new_source_id U k url = Some (Inr sid) \<Longrightarrow> kind sid = k \<and> sid_name sid = None"
  by (auto simp: new_source_id_Inr)

lemma from_url_unnamed: "from_url U s = Some (Inr sid) \<Longrightarrow> sid_name sid = None"
  by (auto simp: from_url_def for_git_def Let_def with_precise_def split: prod.splits option.splits if_splits
      dest: new_source_id_unnamed)

lemma made_source_id_wf:
  "made_source_id U alt_index sid \<Longrightarrow> sid_wf U sid \<and> (sid_name sid \<noteq> None \<longrightarrow> kind sid = KRegistry)"
proof (induction rule: made_source_id.induct)
  case (by_url s sid)
  then show ?case by (simp add: from_url_wf from_url_unnamed)
next
  case (by_alt_registry key sid)
  then show ?case by (auto simp: alt_registry_wf alt_registry_def)
next
  case (by_precise sid v)
  then show ?case by (auto simp: with_precise_def sid_wf_def)
qed (auto simp: for_git_def for_registry_def for_path_def for_local_registry_def for_directory_def crates_io_def
    dest: new_source_id_wf new_source_id_unnamed)

text \<open>
  C27: whatever constructors and precise versions an id was made with, its canonical url is the
  canonicalization of its url and only a registry carries a name; so the ids a program can hold satisfy what
  equality and hashing rely on, and on them \<open>==\<close> is an equivalence that a change of the
  precise version does not affect, with \<open>sid_key\<close> as its canonical form.
\<close>

theorem source_ids_well_formed:
  assumes "made_source_id U alt_index a" "made_source_id U alt_index b" "made_source_id U alt_index c"
  shows "sid_wf U a \<and> (is_alt_registry a \<longleftrightarrow> sid_name a \<noteq> None) \<and>
    sid_eq a a \<and> (sid_eq a b \<longleftrightarrow> sid_eq b a) \<and> (sid_eq a b \<and> sid_eq b c \<longrightarrow> sid_eq a c) \<and>
    sid_eq a (with_precise v a) \<and> (sid_eq a b \<longleftrightarrow> sid_key a = sid_key b)"
proof -
  note wf = conjunct1 [OF made_source_id_wf]
  note eq = sid_eq_iff [OF wf wf, OF assms(1) assms(2)] sid_eq_iff [OF wf wf, OF assms(2) assms(1)]
    sid_eq_iff [OF wf wf, OF assms(2) assms(3)] sid_eq_iff [OF wf wf, OF assms(1) assms(3)]
  have "is_alt_registry a \<longleftrightarrow> sid_name a \<noteq> None"
    using made_source_id_wf [OF assms(1)] by (auto simp: is_alt_registry_def is_registry_def)
  moreover have "sid_eq a a" "sid_eq a (with_precise v a)" by (simp_all add: sid_eq_def with_precise_def)
  ultimately show ?thesis
    using wf [OF assms(1)] eq sid_eq_key [OF wf wf, OF assms(1,2)] by (auto simp: is_git_def split: kind.splits)
qed

theorem source_ids_well_formed_witness:
  "for_git plain_ops ''x.git'' (Branch ''dev'') = Some (Inr \<lparr>sid_url = ''x.git'', canonical_url = ''x'',
     kind = KGit (Branch ''dev''), precise = None, sid_name = None\<rparr>) \<and>
   sid_wf plain_ops \<lparr>sid_url = ''x.git'', canonical_url = ''x'', kind = KGit (Branch ''dev''), precise = None, sid_name = None\<rparr>"
proof -
  have mk: "for_git plain_ops ''x.git'' (Branch ''dev'') = Some (Inr \<lparr>sid_url = ''x.git'', canonical_url = ''x'',
     kind = KGit (Branch ''dev''), precise = None, sid_name = None\<rparr>)"
    by (simp add: for_git_def new_source_id_def plain_eval)
  note m = made_source_id.by_git [OF mk, of "\<lambda>_. Inr ''x''"]
  from source_ids_well_formed [OF m m m] mk show ?thesis by blast
qed

end
