(* ===== verification/Package_Id.thy ===== *)
theory Package_Id
  imports Source_Id
begin

text \<open>
  Package ids, \<open>src/cargo/core/package_id.rs\<close>, and the specifications that select them,
  \<open>src/cargo/core/package_id_spec.rs\<close>.  Versions are the public fields of \<open>semver::Version\<close>
  that its equality looks at (build metadata does not take part in it); parsing, printing and
  comparing versions, and version requirements, are operations of the crate \<open>semver\<close> and
  parameters of the model.  A package id is polymorphic in the type of its source: this theory
  uses the source ids of \<open>Source_Id\<close>, the resolver any type whose equality is \<open>==\<close>.  Names are
  ASCII text.
\<close>

section \<open>The semver crate\<close>

datatype pre_identifier = Numeric nat | AlphaNumeric string

record version =
  major :: nat
  minor :: nat
  patch :: nat
  pre :: "pre_identifier list"

datatype 'r req_result = ReqOk 'r | ReqDeprecated 'r | ReqError

record 'r semver_ops =
  version_parse :: "string \<Rightarrow> version option"
  version_str :: "version \<Rightarrow> string"
  version_cmp :: "version \<Rightarrow> version \<Rightarrow> ordering"
  req_parse :: "string \<Rightarrow> 'r req_result"
  req_str :: "'r \<Rightarrow> string"
  req_any :: 'r
  req_exact :: "version \<Rightarrow> 'r"
  req_matches :: "'r \<Rightarrow> version \<Rightarrow> bool"

section \<open>Package ids\<close>

record 's package_id =
  pid_name :: string
  pid_version :: version
  pid_source :: 's

datatype package_error =
    InvalidSerializedPackageId
  | InvalidSemver string
  | BadSource source_error

definition new_package_id :: "'r semver_ops \<Rightarrow> string \<Rightarrow> string \<Rightarrow> 's \<Rightarrow> package_error + 's package_id" where
  "new_package_id S n v sid =
     bindE (ok_or (InvalidSemver v) (version_parse S v)) (\<lambda>ver.
       Inr \<lparr>pid_name = n, pid_version = ver, pid_source = sid\<rparr>)"

definition pid_with_precise :: "string option \<Rightarrow> 'u source_id package_id \<Rightarrow> 'u source_id package_id" where
  "pid_with_precise v p = p\<lparr>pid_source := with_precise v (pid_source p)\<rparr>"

definition with_source_id :: "'s \<Rightarrow> 's package_id \<Rightarrow> 's package_id" where
  "with_source_id s p = p\<lparr>pid_source := s\<rparr>"

definition pid_eq :: "'u source_id package_id \<Rightarrow> 'u source_id package_id \<Rightarrow> bool" where
  "pid_eq a b \<longleftrightarrow> pid_name a = pid_name b \<and> pid_version a = pid_version b \<and> sid_eq (pid_source a) (pid_source b)"

text \<open>The derived lexicographic \<open>Ord\<close> of name, version, source.\<close>

definition pid_cmp ::
    "'r semver_ops \<Rightarrow> 'u url_ops \<Rightarrow> 'u source_id package_id \<Rightarrow> 'u source_id package_id \<Rightarrow> ordering" where
  "pid_cmp S U a b =
     (case cmp (pid_name a) (pid_name b) of
        Equal \<Rightarrow>
          (case version_cmp S (pid_version a) (pid_version b) of
             Equal \<Rightarrow> sid_cmp U (pid_source a) (pid_source b)
           | ord \<Rightarrow> ord)
      | ord \<Rightarrow> ord)"

definition pid_hash :: "'u url_ops \<Rightarrow> 'u source_id package_id \<Rightarrow> string \<times> version \<times> kind \<times> string" where
  "pid_hash U p = (pid_name p, pid_version p, sid_hash U (pid_source p))"

definition pid_serialize :: "'r semver_ops \<Rightarrow> 'u url_ops \<Rightarrow> 'u source_id package_id \<Rightarrow> string" where
  "pid_serialize S U p =
     pid_name p @ '' '' @ version_str S (pid_version p) @ '' ('' @ sid_to_url U (pid_source p) @ '')''"

definition pid_deserialize ::
    "'r semver_ops \<Rightarrow> 'u url_ops \<Rightarrow> string \<Rightarrow> (package_error, 'u source_id package_id) run" where
  "pid_deserialize S U s =
     (case splitn2 CHR '' '' s of (n, rest) \<Rightarrow>
        (case rest of
           None \<Rightarrow> Some (Inl InvalidSerializedPackageId)
         | Some rest1 \<Rightarrow>
             (case splitn2 CHR '' '' rest1 of (v, url) \<Rightarrow>
                bindR (Some (ok_or (InvalidSemver v) (version_parse S v))) (\<lambda>ver.
                  (case url of
                     None \<Rightarrow> Some (Inl InvalidSerializedPackageId)
                   | Some u \<Rightarrow>
                       if starts_with ''('' u \<and> ends_with_char CHR '')'' u then
                         (case from_url U (drop 1 (take (length u - 1) u)) of
                            None \<Rightarrow> None
                          | Some (Inl e) \<Rightarrow> Some (Inl (BadSource e))
                          | Some (Inr sid) \<Rightarrow>
                              Some (Inr \<lparr>pid_name = n, pid_version = ver, pid_source = sid\<rparr>))
                       else Some (Inl InvalidSerializedPackageId))))))"

definition pid_display :: "'r semver_ops \<Rightarrow> 'u url_ops \<Rightarrow> 'u source_id package_id \<Rightarrow> string" where
  "pid_display S U p =
     pid_name p @ '' v'' @ version_str S (pid_version p) @
     (if is_default_registry U (pid_source p) then []
      else '' ('' @ sid_display U (pid_source p) @ '')'')"

section \<open>Package id specifications\<close>

record 'u package_id_spec =
  spec_name :: string
  spec_version :: "version option"
  spec_url :: "'u option"

datatype spec_error =
    BadVersion string
  | InvalidPkgidChar string char
  | PkgidQuery
  | PkgidNoPath
  | PkgidNoComponent
  | InvalidSpec string spec_error
  | MatchedNoPackages
  | AmbiguousSpec "string list"

definition is_alphabetic :: "char \<Rightarrow> bool" where
  "is_alphabetic c \<longleftrightarrow> (let n = of_char c :: nat in 65 \<le> n \<and> n \<le> 90 \<or> 97 \<le> n \<and> n \<le> 122)"

definition is_alphanumeric :: "char \<Rightarrow> bool" where
  "is_alphanumeric c \<longleftrightarrow> is_alphabetic c \<or> (let n = of_char c :: nat in 48 \<le> n \<and> n \<le> 57)"

definition parse_version :: "'r semver_ops \<Rightarrow> string \<Rightarrow> spec_error + version" where
  "parse_version S v = ok_or (BadVersion v) (version_parse S v)"

definition spec_from_url ::
    "'r semver_ops \<Rightarrow> 'u url_ops \<Rightarrow> 'u \<Rightarrow> (spec_error, 'u package_id_spec) run" where
  "spec_from_url S U url0 =
     (if url_query U url0 \<noteq> None then Some (Inl PkgidQuery)
      else let frag = fragment U url0; url = clear_fragment U url0 in
        bindR (Some (ok_or PkgidNoPath (path_segments U url))) (\<lambda>segs.
          if segs = [] then Some (Inl PkgidNoComponent)
          else let path_name = last segs in
            bindR (case frag of
                     None \<Rightarrow> Some (Inr (path_name, None))
                   | Some fr \<Rightarrow>
                       (case splitn2 CHR '':'' fr of
                          (nv, Some part) \<Rightarrow>
                            bindR (Some (parse_version S part)) (\<lambda>v. Some (Inr (nv, Some v)))
                        | (nv, None) \<Rightarrow>
                            if nv = [] then None
                            else if is_alphabetic (hd nv) then Some (Inr (nv, None))
                            else bindR (Some (parse_version S nv)) (\<lambda>v. Some (Inr (path_name, Some v)))))
              (\<lambda>(n, v). Some (Inr \<lparr>spec_name = n, spec_version = v, spec_url = Some url\<rparr>))))"

definition contains_scheme :: "string \<Rightarrow> bool" where
  "contains_scheme s \<longleftrightarrow> (\<exists>i \<in> set [0..<length s]. take 3 (drop i s) = ''://'')"

definition is_pkgid_char :: "char \<Rightarrow> bool" where
  "is_pkgid_char c \<longleftrightarrow> is_alphanumeric c \<or> c = CHR ''_'' \<or> c = CHR ''-''"

definition parse_plain_spec :: "'r semver_ops \<Rightarrow> string \<Rightarrow> spec_error + 'u package_id_spec" where
  "parse_plain_spec S spec =
     (case splitn2 CHR '':'' spec of (n, v) \<Rightarrow>
        bindE (case v of None \<Rightarrow> Inr None | Some v \<Rightarrow> bindE (parse_version S v) (\<lambda>ver. Inr (Some ver))) (\<lambda>ver.
          (case find (\<lambda>c. \<not> is_pkgid_char c) n of
             Some c \<Rightarrow> Inl (InvalidPkgidChar spec c)
           | None \<Rightarrow> Inr \<lparr>spec_name = n, spec_version = ver, spec_url = None\<rparr>)))"

definition spec_parse ::
    "'r semver_ops \<Rightarrow> 'u url_ops \<Rightarrow> string \<Rightarrow> (spec_error, 'u package_id_spec) run" where
  "spec_parse S U spec =
     (if CHR ''/'' \<in> set spec then
        (case url_parse U spec of
           Some url \<Rightarrow> spec_from_url S U url
         | None \<Rightarrow>
             if \<not> contains_scheme spec then
               (case url_parse U (''cargo://'' @ spec) of
                  Some url \<Rightarrow> spec_from_url S U url
                | None \<Rightarrow> Some (parse_plain_spec S spec))
             else Some (parse_plain_spec S spec))
      else Some (parse_plain_spec S spec))"

definition from_package_id :: "'u source_id package_id \<Rightarrow> 'u package_id_spec" where
  "from_package_id p =
     \<lparr>spec_name = pid_name p, spec_version = Some (pid_version p), spec_url = Some (sid_url (pid_source p))\<rparr>"

definition spec_set_url :: "'u \<Rightarrow> 'u package_id_spec \<Rightarrow> 'u package_id_spec" where
  "spec_set_url u spec = spec\<lparr>spec_url := Some u\<rparr>"

definition spec_matches :: "'u package_id_spec \<Rightarrow> 'u source_id package_id \<Rightarrow> bool" where
  "spec_matches spec p =
     (if spec_name spec \<noteq> pid_name p then False
      else if (case spec_version spec of Some v \<Rightarrow> v \<noteq> pid_version p | None \<Rightarrow> False) then False
      else (case spec_url spec of Some u \<Rightarrow> u = sid_url (pid_source p) | None \<Rightarrow> True))"

text \<open>\<open>Display\<close>; \<open>None\<close> where an \<open>unwrap\<close> fails.\<close>

definition spec_display :: "'r semver_ops \<Rightarrow> 'u url_ops \<Rightarrow> 'u package_id_spec \<Rightarrow> string option" where
  "spec_display S U spec =
     (let base = (case spec_url spec of
          Some url \<Rightarrow>
            (case (if scheme U url = ''cargo'' then map_option (\<lambda>h. h @ url_path U url) (host_str U url)
                   else Some (as_str U url), path_segments U url) of
               (Some txt, Some segs) \<Rightarrow>
                 if segs = [] then None
                 else if last segs \<noteq> spec_name spec then Some (txt @ ''#'' @ spec_name spec, True)
                 else Some (txt, False)
             | _ \<Rightarrow> None)
        | None \<Rightarrow> Some (spec_name spec, True))
      in map_option (\<lambda>(txt, printed_name).
           txt @ (case spec_version spec of
                    Some v \<Rightarrow> (if printed_name then '':'' else ''#'') @ version_str S v
                  | None \<Rightarrow> [])) base)"

definition version_count :: "'u source_id package_id list \<Rightarrow> version \<Rightarrow> nat" where
  "version_count ids v = length (filter (\<lambda>p. pid_version p = v) ids)"

text \<open>\<open>minimize\<close>: one line of the message per id.\<close>

definition suggestion ::
    "'r semver_ops \<Rightarrow> 'u url_ops \<Rightarrow> 'u source_id package_id list \<Rightarrow> 'u package_id_spec \<Rightarrow>
       'u source_id package_id \<Rightarrow> string option" where
  "suggestion S U ids spec p =
     (if version_count ids (pid_version p) = 1
      then Some (spec_name spec @ '':'' @ version_str S (pid_version p))
      else spec_display S U (from_package_id p))"

definition minimize ::
    "'r semver_ops \<Rightarrow> 'u url_ops \<Rightarrow> 'u source_id package_id list \<Rightarrow> 'u package_id_spec \<Rightarrow> string list option" where
  "minimize S U ids spec = those (map (suggestion S U ids spec) ids)"

definition spec_query ::
    "'r semver_ops \<Rightarrow> 'u url_ops \<Rightarrow> 'u package_id_spec \<Rightarrow> 'u source_id package_id list \<Rightarrow>
       (spec_error, 'u source_id package_id) run" where
  "spec_query S U spec i =
     (case filter (spec_matches spec) i of
        [] \<Rightarrow> Some (Inl MatchedNoPackages)
      | [ret] \<Rightarrow> Some (Inr ret)
      | ids \<Rightarrow> (case minimize S U ids spec of
                  None \<Rightarrow> None
                | Some ls \<Rightarrow> Some (Inl (AmbiguousSpec ls))))"

definition query_str ::
    "'r semver_ops \<Rightarrow> 'u url_ops \<Rightarrow> string \<Rightarrow> 'u source_id package_id list \<Rightarrow>
       (spec_error, 'u source_id package_id) run" where
  "query_str S U spec i =
     bindR (case spec_parse S U spec of
              None \<Rightarrow> None
            | Some (Inl e) \<Rightarrow> Some (Inl (InvalidSpec spec e))
            | Some (Inr sp) \<Rightarrow> Some (Inr sp))
       (\<lambda>sp. spec_query S U sp i)"

section \<open>Package ids as text\<close>

lemma pid_deserialize_text:
  assumes "CHR '' '' \<notin> set n" "CHR '' '' \<notin> set v"
  shows "pid_deserialize S U (n @ '' '' @ v @ '' ('' @ u @ '')'') =
    bindR (Some (ok_or (InvalidSemver v) (version_parse S v))) (\<lambda>ver.
      case from_url U u of
        None \<Rightarrow> None
      | Some (Inl e) \<Rightarrow> Some (Inl (BadSource e))
      | Some (Inr sid) \<Rightarrow> Some (Inr \<lparr>pid_name = n, pid_version = ver, pid_source = sid\<rparr>))"
  using splitn2_append [OF assms(1), of "v @ '' ('' @ u @ '')''"]
    splitn2_append [OF assms(2), of "''('' @ u @ '')''"]
  by (simp add: pid_deserialize_def starts_with_def ends_with_char_def)

text \<open>
  A package id of a git, registry or path source, written as in a lock file and read
  back, is the same package id.
\<close>

theorem package_id_roundtrip:
  assumes "url_text_ok U plain (sid_url sid)" "url_parse U (as_str U (sid_url sid)) = Some (sid_url sid)"
    and "sid_wf U sid"
    and "pred_option (\<lambda>r. plain (snd (reference_pair r))) (sid_git_reference sid)"
      "is_git sid \<longrightarrow> pred_option plain (precise sid)"
    and kind: "kind sid \<notin> {KLocalRegistry, KDirectory}"
    and pid: "pid_source p = sid" "CHR '' '' \<notin> set (pid_name p)"
    and version: "version_parse S (version_str S (pid_version p)) = Some (pid_version p)"
      "CHR '' '' \<notin> set (version_str S (pid_version p))"
  shows "\<exists>q. pid_deserialize S U (pid_serialize S U p) = Some (Inr q) \<and> pid_eq p q \<and>
    (is_git sid \<longrightarrow> precise (pid_source q) = precise sid)"
proof -
  have "pid_deserialize S U (pid_serialize S U p) =
    (case from_url U (sid_to_url U sid) of
        None \<Rightarrow> None
      | Some (Inl e) \<Rightarrow> Some (Inl (BadSource e))
      | Some (Inr sid) \<Rightarrow> Some (Inr \<lparr>pid_name = pid_name p, pid_version = pid_version p, pid_source = sid\<rparr>))"
    using pid_deserialize_text [OF pid(2) version(2), of S U "sid_to_url U sid"] version(1) pid(1)
    by (simp add: pid_serialize_def)
  moreover obtain sid' where "from_url U (sid_to_url U sid) = Some (Inr sid')" "sid_eq sid sid'"
    "is_git sid \<longrightarrow> precise sid' = precise sid"
    using source_id_text [OF assms(1-5)] kind by (cases "kind sid") (auto simp: sid_eq_def is_git_def)
  ultimately show ?thesis using pid(1) by (simp add: pid_eq_def)
qed

section \<open>Selecting packages\<close>

definition suggested :: "'u source_id package_id list \<Rightarrow> 'u package_id_spec \<Rightarrow> 'u source_id package_id \<Rightarrow> 'u package_id_spec" where
  "suggested ids spec p =
     (if version_count ids (pid_version p) = 1
      then \<lparr>spec_name = spec_name spec, spec_version = Some (pid_version p), spec_url = None\<rparr>
      else from_package_id p)"

lemma suggestion_display: "suggestion S U ids spec p = spec_display S U (suggested ids spec p)"
  by (simp add: suggestion_def suggested_def spec_display_def)

lemma spec_matches_iff:
  "spec_matches spec p \<longleftrightarrow> spec_name spec = pid_name p \<and>
     (\<forall>v. spec_version spec = Some v \<longrightarrow> v = pid_version p) \<and>
     (\<forall>u. spec_url spec = Some u \<longrightarrow> u = sid_url (pid_source p))"
  by (auto simp: spec_matches_def split: option.splits)

lemma filter_singleton: "length (filter P xs) = 1 \<Longrightarrow> x \<in> set xs \<Longrightarrow> P x \<Longrightarrow> filter P xs = [x]"
proof -
  assume "length (filter P xs) = 1" "x \<in> set xs" "P x"
  moreover from this have "x \<in> set (filter P xs)" by simp
  ultimately show ?thesis by (cases "filter P xs") (simp_all del: set_filter)
qed

lemma filter_key: "distinct (map f xs) \<Longrightarrow> x \<in> set xs \<Longrightarrow> filter (\<lambda>y. f y = f x) xs = [x]"
proof (induction xs)
  case (Cons a xs)
  have a: "f a \<notin> f ` set xs" using Cons.prems(1) by simp
  show ?case
  proof (cases "x = a")
    case True
    with a have "f y \<noteq> f x" if "y \<in> set xs" for y using that by (metis imageI)
    with True show ?thesis by (simp add: filter_empty_conv)
  next
    case False
    with a Cons.prems have "f a \<noteq> f x" by (metis imageI set_ConsD)
    with False Cons show ?thesis by simp
  qed
qed simp

text \<open>
  A query that matches several packages fails with one suggestion per match, and each
  suggestion, used as a specification without a url was, selects exactly that package: a
  \<open>name:version\<close> where the version is unique among the matches, the full form otherwise.
\<close>

theorem spec_suggestions_unambiguous:
  assumes "ids = filter (spec_matches spec) i" "spec_url spec = None"
    and "distinct (map (\<lambda>p. (pid_version p, sid_url (pid_source p))) ids)" "p \<in> set ids"
  shows "suggestion S U ids spec p = spec_display S U (suggested ids spec p) \<and>
    spec_query S U (suggested ids spec p) i = Some (Inr p)"
proof -
  let ?P = "spec_matches (suggested ids spec p)"
  have p: "spec_matches spec p" using assms(1,4) by auto
  have "?P x \<Longrightarrow> spec_matches spec x" for x
    using p assms(2) by (auto simp: spec_matches_iff suggested_def from_package_id_def split: if_splits)
  then have "filter ?P i = filter ?P ids"
    unfolding assms(1) filter_filter by (intro filter_cong) blast+
  also have "\<dots> = [p]"
  proof (cases "version_count ids (pid_version p) = 1")
    case True
    have "filter ?P ids = filter (\<lambda>x. pid_version x = pid_version p) ids"
      using assms(1) p True by (intro filter_cong) (auto simp: spec_matches_iff suggested_def)
    with True assms(4) show ?thesis by (simp add: version_count_def filter_singleton)
  next
    case False
    have "filter ?P ids =
      filter (\<lambda>x. (pid_version x, sid_url (pid_source x)) = (pid_version p, sid_url (pid_source p))) ids"
      using assms(1) p False
      by (intro filter_cong refl) (auto simp: spec_matches_iff suggested_def from_package_id_def)
    then show ?thesis using filter_key [OF assms(3,4)] by simp
  qed
  finally show ?thesis by (simp add: suggestion_display spec_query_def)
qed

section \<open>Concrete packages\<close>

text \<open>Versions written as their three numbers in unary: an instance of the semver operations.\<close>

definition unary_str :: "version \<Rightarrow> string" where
  "unary_str v = replicate (major v) CHR ''x'' @ ''.'' @ replicate (minor v) CHR ''x'' @ ''.'' @
     replicate (patch v) CHR ''x''"

definition unary_parse :: "string \<Rightarrow> version option" where
  "unary_parse s =
     (case splitn2 CHR ''.'' s of
        (a, Some r) \<Rightarrow>
          (case splitn2 CHR ''.'' r of
             (b, Some c) \<Rightarrow> Some \<lparr>major = length a, minor = length b, patch = length c, pre = []\<rparr>
           | _ \<Rightarrow> None)
      | _ \<Rightarrow> None)"

definition vers :: "nat \<Rightarrow> nat \<Rightarrow> nat \<Rightarrow> version" where
  "vers a b c = \<lparr>major = a, minor = b, patch = c, pre = []\<rparr>"

definition version_key :: "version \<Rightarrow> nat \<times> nat \<times> nat" where
  "version_key v = (major v, minor v, patch v)"

text \<open>Requirements of this instance: any version, exactly a version, or a caret requirement.\<close>

definition unary_semver :: "(bool \<times> version) option semver_ops" where
  "unary_semver =
     \<lparr>version_parse = unary_parse, version_str = unary_str,
      version_cmp = (\<lambda>a b. cmp (version_key a) (version_key b)),
      req_parse = (\<lambda>s. case unary_parse s of Some v \<Rightarrow> ReqOk (Some (False, v)) | None \<Rightarrow> ReqError),
      req_str = (\<lambda>r. case r of None \<Rightarrow> ''*''
                   | Some (exact, v) \<Rightarrow> (if exact then ''='' else ''^'') @ unary_str v),
      req_any = None, req_exact = (\<lambda>v. Some (True, v)),
      req_matches = (\<lambda>r v. case r of None \<Rightarrow> True
                        | Some (True, w) \<Rightarrow> v = w
                        | Some (False, w) \<Rightarrow> major v = major w \<and> version_key w \<le> version_key v)\<rparr>"

definition pkg :: "string \<Rightarrow> version \<Rightarrow> string source_id package_id" where
  "pkg n v = \<lparr>pid_name = n, pid_version = v, pid_source = git_id ''x'' ''x''\<rparr>"

lemmas unary_eval = unary_semver_def unary_parse_def unary_str_def vers_def version_key_def

theorem spec_suggestions_unambiguous_witness:
  "spec_query unary_semver plain_ops
     (suggested [pkg ''a'' (vers 1 0 0), pkg ''a'' (vers 2 0 0)]
        \<lparr>spec_name = ''a'', spec_version = None, spec_url = None\<rparr> (pkg ''a'' (vers 2 0 0)))
     [pkg ''b'' (vers 1 0 0), pkg ''a'' (vers 1 0 0), pkg ''a'' (vers 2 0 0)] =
   Some (Inr (pkg ''a'' (vers 2 0 0)))"
proof -
  let ?spec = "\<lparr>spec_name = ''a'', spec_version = None, spec_url = None\<rparr> :: string package_id_spec"
  let ?i = "[pkg ''b'' (vers 1 0 0), pkg ''a'' (vers 1 0 0), pkg ''a'' (vers 2 0 0)]"
  let ?ids = "[pkg ''a'' (vers 1 0 0), pkg ''a'' (vers 2 0 0)]"
  have "?ids = filter (spec_matches ?spec) ?i" by (simp add: spec_matches_def pkg_def)
  moreover have "distinct (map (\<lambda>p. (pid_version p, sid_url (pid_source p))) ?ids)"
    by (simp add: pkg_def vers_def)
  ultimately show ?thesis
    using spec_suggestions_unambiguous [of ?ids ?spec ?i "pkg ''a'' (vers 2 0 0)" unary_semver plain_ops]
    by simp
qed

theorem package_id_roundtrip_witness:
  "\<exists>q. pid_deserialize unary_semver plain_ops (pid_serialize unary_semver plain_ops (pkg ''a'' (vers 1 2 0))) =
     Some (Inr q) \<and> pid_eq (pkg ''a'' (vers 1 2 0)) q"
proof -
  let ?p = "pkg ''a'' (vers 1 2 0)" and ?sid = "git_id ''x'' ''x''"
  have "url_text_ok plain_ops unreserved (sid_url ?sid)"
    by (intro url_text_ok_plain) (simp add: unreserved_def git_id_def)
  moreover have "url_parse plain_ops (as_str plain_ops (sid_url ?sid)) = Some (sid_url ?sid)"
    by (simp add: plain_ops_def)
  moreover have "sid_wf plain_ops ?sid" by (simp add: sid_wf_def git_id_def plain_eval)
  moreover have "pred_option (\<lambda>r. unreserved (snd (reference_pair r))) (sid_git_reference ?sid)"
    "pred_option unreserved (precise ?sid)" "kind ?sid \<notin> {KLocalRegistry, KDirectory}"
    by (simp_all add: unreserved_def git_id_def sid_git_reference_def)
  moreover have "pid_source ?p = ?sid" "CHR '' '' \<notin> set (pid_name ?p)"
    "version_parse unary_semver (version_str unary_semver (pid_version ?p)) = Some (pid_version ?p)"
    "CHR '' '' \<notin> set (version_str unary_semver (pid_version ?p))"
    by (simp_all add: pkg_def unary_eval splitn2_def eval_nat_numeral)
  ultimately show ?thesis
    using package_id_roundtrip [of plain_ops unreserved ?sid ?p unary_semver] by blast
qed

text \<open>
  A specification without a url prints to a text that parses to it, when its name has only
  the characters the parser allows and the version prints to what the semver parser reads.
\<close>

theorem spec_roundtrip:
  assumes "spec_url spec = None" "\<forall>c\<in>set (spec_name spec). is_pkgid_char c"
    and "\<And>v. spec_version spec = Some v \<Longrightarrow>
      version_parse S (version_str S v) = Some v \<and> CHR ''/'' \<notin> set (version_str S v)"
  shows "\<exists>txt. spec_display S U spec = Some txt \<and> spec_parse S U txt = Some (Inr spec)"
proof -
  have chars: "CHR '':'' \<notin> set (spec_name spec)" "CHR ''/'' \<notin> set (spec_name spec)"
    using assms(2) by (auto simp: is_pkgid_char_def is_alphanumeric_def is_alphabetic_def)
  have name: "find (\<lambda>c. \<not> is_pkgid_char c) (spec_name spec) = None"
    using assms(2) by (auto simp: find_None_iff)
  show ?thesis
  proof (cases "spec_version spec")
    case None
    with assms(1) chars name show ?thesis
      by (simp add: spec_display_def spec_parse_def parse_plain_spec_def)
  next
    case (Some v)
    with assms(1,3) chars name show ?thesis
      by (simp add: spec_display_def spec_parse_def parse_plain_spec_def parse_version_def)
  qed
qed

theorem spec_roundtrip_witness:
  "spec_parse unary_semver plain_ops ''a:x..x'' =
     Some (Inr \<lparr>spec_name = ''a'', spec_version = Some (vers 1 0 1), spec_url = None\<rparr>)"
proof -
  let ?spec = "\<lparr>spec_name = ''a'', spec_version = Some (vers 1 0 1), spec_url = None\<rparr> :: string package_id_spec"
  have "\<forall>c\<in>set (spec_name ?spec). is_pkgid_char c"
    by (simp add: is_pkgid_char_def is_alphanumeric_def is_alphabetic_def)
  moreover have "version_parse unary_semver (version_str unary_semver v) = Some v \<and>
      CHR ''/'' \<notin> set (version_str unary_semver v)" if "spec_version ?spec = Some v" for v
    using that by (auto simp: unary_eval splitn2_def)
  ultimately have "\<exists>txt. spec_display unary_semver plain_ops ?spec = Some txt \<and>
      spec_parse unary_semver plain_ops txt = Some (Inr ?spec)"
    by (intro spec_roundtrip) auto
  moreover have "spec_display unary_semver plain_ops ?spec = Some ''a:x..x''"
    by (simp add: spec_display_def unary_eval)
  ultimately show ?thesis by simp
qed

text \<open>
  The parser of specifications panics on a url with an empty fragment, such as
  \<open>http://crates.io/foo#\<close>: it takes the first character of the fragment without a check.
\<close>

theorem spec_parse_panics_on_empty_fragment:
  assumes "CHR ''/'' \<in> set s" "url_parse U s = Some url" "url_query U url = None"
    and "fragment U url = Some []" "path_segments U (clear_fragment U url) = Some segs" "segs \<noteq> []"
  shows "spec_parse S U s = None"
  using assms by (simp add: spec_parse_def spec_from_url_def Let_def splitn2_def)

theorem spec_parse_panics_on_empty_fragment_witness:
  "spec_parse unary_semver plain_ops ''h/foo#'' = None"
  by (rule spec_parse_panics_on_empty_fragment [of _ _ "''h/foo#''" "[''h/foo'']"])
     (simp_all add: plain_ops_def query_part_def splitn2_def)

end
