(* ===== verification/Cfg.thy ===== *)
theory Cfg
  imports Prelude
begin

text \<open>
  Conditional-compilation expressions, \<open>src/cargo/util/cfg.rs\<close>, and the platforms of
  \<open>src/cargo/core/dependency.rs\<close> built on them: the tokenizer, the recursive-descent parser,
  the printer and the evaluation of \<open>cfg(..)\<close>.  A Rust \<open>char\<close> is HOL's \<open>char\<close>.  The parser's
  peekable token stream is the rest of the input: \<open>peek\<close> looks at the next token without
  moving.  The parser is written with fuel (\<open>None\<close> when it runs out); \<open>2 * length s + 1\<close> units
  are proved enough for every input, and printing followed by parsing is proved the identity
  on the expressions the parser can produce.
\<close>

section \<open>Expressions and tokens\<close>

datatype cfg = Name string | KeyPair string string

datatype cfg_expr = CNot cfg_expr | CAll "cfg_expr list" | CAny "cfg_expr list" | CValue cfg

datatype token = LeftParen | RightParen | Ident string | Comma | Equals | StringTok string

datatype cfg_error =
    UnterminatedString
  | UnexpectedChar char
  | ExpectedString "token option"
  | ExpectedIdent "token option"
  | ExpectedToken token "token option"
  | ExpectedStart
  | MalformedCfg string
  | OneExprOnly

definition is_ident_start :: "char \<Rightarrow> bool" where
  "is_ident_start ch \<longleftrightarrow> ch = CHR ''_'' \<or>
     (of_char CHR ''a'' \<le> (of_char ch :: nat) \<and> of_char ch \<le> (of_char CHR ''z'' :: nat)) \<or>
     (of_char CHR ''A'' \<le> (of_char ch :: nat) \<and> of_char ch \<le> (of_char CHR ''Z'' :: nat))"

definition is_ident_rest :: "char \<Rightarrow> bool" where
  "is_ident_rest ch \<longleftrightarrow> is_ident_start ch \<or>
     (of_char CHR ''0'' \<le> (of_char ch :: nat) \<and> of_char ch \<le> (of_char CHR ''9'' :: nat))"

abbreviation quote :: char where
  "quote \<equiv> CHR 0x22"

text \<open>\<open>Tokenizer::next\<close>: the next token or error, and the input that is left.\<close>

fun next_token :: "string \<Rightarrow> ((cfg_error + token) \<times> string) option" where
  "next_token [] = None"
| "next_token (c # s) =
     (if c = CHR '' '' then next_token s
      else if c = CHR ''('' then Some (Inr LeftParen, s)
      else if c = CHR '')'' then Some (Inr RightParen, s)
      else if c = CHR '','' then Some (Inr Comma, s)
      else if c = CHR ''='' then Some (Inr Equals, s)
      else if c = quote then
        (case dropWhile (\<lambda>x. x \<noteq> quote) s of
           [] \<Rightarrow> Some (Inl UnterminatedString, [])
         | _ # rest \<Rightarrow> Some (Inr (StringTok (takeWhile (\<lambda>x. x \<noteq> quote) s)), rest))
      else if is_ident_start c then
        Some (Inr (Ident (c # takeWhile is_ident_rest s)), dropWhile is_ident_rest s)
      else Some (Inl (UnexpectedChar c), s))"

text \<open>\<open>Parser::try\<close>: the input after the token if it comes next.\<close>

definition try_token :: "token \<Rightarrow> string \<Rightarrow> string option" where
  "try_token t s =
     (case next_token s of
        Some (Inr t', rest) \<Rightarrow> if t = t' then Some rest else None
      | _ \<Rightarrow> None)"

definition eat :: "token \<Rightarrow> string \<Rightarrow> cfg_error + string" where
  "eat t s =
     (case next_token s of
        Some (Inr t', rest) \<Rightarrow> if t = t' then Inr rest else Inl (ExpectedToken t (Some t'))
      | Some (Inl e, _) \<Rightarrow> Inl e
      | None \<Rightarrow> Inl (ExpectedToken t None))"

definition parse_cfg :: "string \<Rightarrow> cfg_error + cfg \<times> string" where
  "parse_cfg s =
     (case next_token s of
        Some (Inr (Ident name), rest) \<Rightarrow>
          (case try_token Equals rest of
             Some rest' \<Rightarrow>
               (case next_token rest' of
                  Some (Inr (StringTok v), rest'') \<Rightarrow> Inr (KeyPair name v, rest'')
                | Some (Inr t, _) \<Rightarrow> Inl (ExpectedString (Some t))
                | Some (Inl e, _) \<Rightarrow> Inl e
                | None \<Rightarrow> Inl (ExpectedString None))
           | None \<Rightarrow> Inr (Name name, rest))
      | Some (Inr t, _) \<Rightarrow> Inl (ExpectedIdent (Some t))
      | Some (Inl e, _) \<Rightarrow> Inl e
      | None \<Rightarrow> Inl (ExpectedIdent None))"

text \<open>\<open>Parser::expr\<close> and its loop over the members of \<open>all(..)\<close> and \<open>any(..)\<close>.\<close>

definition map_value :: "cfg_error + cfg \<times> string \<Rightarrow> cfg_error + cfg_expr \<times> string" where
  "map_value r = (case r of Inl e \<Rightarrow> Inl e | Inr (c, rest) \<Rightarrow> Inr (CValue c, rest))"

fun parse_expr :: "nat \<Rightarrow> string \<Rightarrow> (cfg_error + cfg_expr \<times> string) option"
and parse_members :: "nat \<Rightarrow> string \<Rightarrow> cfg_expr list \<Rightarrow> (cfg_error + cfg_expr list \<times> string) option" where
  "parse_expr 0 s = None"
| "parse_expr (Suc n) s =
     (case next_token s of
        Some (Inr (Ident op), rest) \<Rightarrow>
          if op = ''all'' \<or> op = ''any'' then
            (case eat LeftParen rest of
               Inl e \<Rightarrow> Some (Inl e)
             | Inr rest1 \<Rightarrow>
                 (case parse_members n rest1 [] of
                    None \<Rightarrow> None
                  | Some (Inl e) \<Rightarrow> Some (Inl e)
                  | Some (Inr (es, rest2)) \<Rightarrow>
                      Some (Inr (if op = ''all'' then CAll es else CAny es, rest2))))
          else if op = ''not'' then
            (case eat LeftParen rest of
               Inl e \<Rightarrow> Some (Inl e)
             | Inr rest1 \<Rightarrow>
                 (case parse_expr n rest1 of
                    None \<Rightarrow> None
                  | Some (Inl e) \<Rightarrow> Some (Inl e)
                  | Some (Inr (ex, rest2)) \<Rightarrow>
                      (case eat RightParen rest2 of
                         Inl e \<Rightarrow> Some (Inl e)
                       | Inr rest3 \<Rightarrow> Some (Inr (CNot ex, rest3)))))
          else Some (map_value (parse_cfg s))
      | Some (Inr _, _) \<Rightarrow> Some (map_value (parse_cfg s))
      | Some (Inl e, _) \<Rightarrow> Some (Inl e)
      | None \<Rightarrow> Some (Inl ExpectedStart))"
| "parse_members 0 s es = None"
| "parse_members (Suc n) s es =
     (case try_token RightParen s of
        Some rest \<Rightarrow> Some (Inr (es, rest))
      | None \<Rightarrow>
          (case parse_expr n s of
             None \<Rightarrow> None
           | Some (Inl e) \<Rightarrow> Some (Inl e)
           | Some (Inr (ex, rest)) \<Rightarrow>
               (case try_token Comma rest of
                  Some rest' \<Rightarrow> parse_members n rest' (es @ [ex])
                | None \<Rightarrow>
                    (case eat RightParen rest of
                       Inl e \<Rightarrow> Some (Inl e)
                     | Inr rest' \<Rightarrow> Some (Inr (es @ [ex], rest'))))))"

definition cfg_from_str :: "string \<Rightarrow> cfg_error + cfg" where
  "cfg_from_str s =
     (case parse_cfg s of
        Inl e \<Rightarrow> Inl e
      | Inr (c, rest) \<Rightarrow> if next_token rest \<noteq> None then Inl (MalformedCfg s) else Inr c)"

definition cfg_expr_from_str :: "string \<Rightarrow> (cfg_error + cfg_expr) option" where
  "cfg_expr_from_str s =
     (case parse_expr (2 * length s + 1) s of
        None \<Rightarrow> None
      | Some (Inl e) \<Rightarrow> Some (Inl e)
      | Some (Inr (ex, rest)) \<Rightarrow>
          Some (if next_token rest \<noteq> None then Inl OneExprOnly else Inr ex))"

text \<open>Printing, \<open>fmt::Display\<close> for \<open>Cfg\<close>, \<open>CfgExpr\<close> and \<open>CommaSep\<close>.\<close>

fun cfg_to_string :: "cfg \<Rightarrow> string" where
  "cfg_to_string (Name s) = s"
| "cfg_to_string (KeyPair k v) = k @ '' = '' @ [quote] @ v @ [quote]"

fun comma_sep :: "string list \<Rightarrow> string" where
  "comma_sep [] = []"
| "comma_sep [v] = v"
| "comma_sep (v # vs) = v @ '', '' @ comma_sep vs"

fun cfg_expr_to_string :: "cfg_expr \<Rightarrow> string" where
  "cfg_expr_to_string (CNot e) = ''not('' @ cfg_expr_to_string e @ '')''"
| "cfg_expr_to_string (CAll es) = ''all('' @ comma_sep (map cfg_expr_to_string es) @ '')''"
| "cfg_expr_to_string (CAny es) = ''any('' @ comma_sep (map cfg_expr_to_string es) @ '')''"
| "cfg_expr_to_string (CValue c) = cfg_to_string c"

text \<open>Evaluation against the configuration of a target.\<close>

fun cfg_matches :: "cfg_expr \<Rightarrow> cfg list \<Rightarrow> bool" where
  "cfg_matches (CNot e) cfgs \<longleftrightarrow> \<not> cfg_matches e cfgs"
| "cfg_matches (CAll es) cfgs \<longleftrightarrow> list_all (\<lambda>e. cfg_matches e cfgs) es"
| "cfg_matches (CAny es) cfgs \<longleftrightarrow> list_ex (\<lambda>e. cfg_matches e cfgs) es"
| "cfg_matches (CValue c) cfgs \<longleftrightarrow> c \<in> set cfgs"

text \<open>The slice \<open>&key[4..key.len() - 1]\<close>.\<close>

definition cfg_inner :: "string \<Rightarrow> string" where
  "cfg_inner key = drop 4 (take (length key - 1) key)"

definition matches_key :: "string \<Rightarrow> cfg list \<Rightarrow> bool" where
  "matches_key key target_cfg =
     (if starts_with ''cfg('' key \<and> ends_with_char CHR '')'' key
      then (case cfg_expr_from_str (cfg_inner key) of
              Some (Inr ce) \<Rightarrow> cfg_matches ce target_cfg
            | _ \<Rightarrow> False)
      else False)"

section \<open>Platforms\<close>

datatype platform = PName string | PCfg cfg_expr

definition platform_matches :: "platform \<Rightarrow> string \<Rightarrow> cfg list option \<Rightarrow> bool" where
  "platform_matches p name cfgs =
     (case p of
        PName n \<Rightarrow> n = name
      | PCfg e \<Rightarrow> (case cfgs of Some c \<Rightarrow> cfg_matches e c | None \<Rightarrow> False))"

definition platform_from_str :: "string \<Rightarrow> (cfg_error + platform) option" where
  "platform_from_str s =
     (if starts_with ''cfg('' s \<and> ends_with_char CHR '')'' s
      then (case cfg_expr_from_str (cfg_inner s) of
              None \<Rightarrow> None
            | Some (Inl e) \<Rightarrow> Some (Inl e)
            | Some (Inr ce) \<Rightarrow> Some (Inr (PCfg ce)))
      else Some (Inr (PName s)))"

fun platform_to_string :: "platform \<Rightarrow> string" where
  "platform_to_string (PName n) = n"
| "platform_to_string (PCfg e) = ''cfg('' @ cfg_expr_to_string e @ '')''"


section \<open>The parser consumes its input\<close>

text \<open>What the parser can have read: identifiers, and strings without a quote.\<close>

definition ident :: "string \<Rightarrow> bool" where
  "ident s \<longleftrightarrow> s \<noteq> [] \<and> is_ident_start (hd s) \<and> list_all is_ident_rest (tl s)"

fun valid_cfg :: "cfg \<Rightarrow> bool" where
  "valid_cfg (Name s) \<longleftrightarrow> ident s"
| "valid_cfg (KeyPair k v) \<longleftrightarrow> ident k \<and> quote \<notin> set v"

fun cfg_head :: "cfg \<Rightarrow> string" where
  "cfg_head (Name s) = s"
| "cfg_head (KeyPair k v) = k"

fun valid_expr :: "cfg_expr \<Rightarrow> bool" where
  "valid_expr (CNot e) \<longleftrightarrow> valid_expr e"
| "valid_expr (CAll es) \<longleftrightarrow> list_all valid_expr es"
| "valid_expr (CAny es) \<longleftrightarrow> list_all valid_expr es"
| "valid_expr (CValue c) \<longleftrightarrow> valid_cfg c \<and> cfg_head c \<notin> {''all'', ''any'', ''not''}"

fun valid_token :: "token \<Rightarrow> bool" where
  "valid_token (Ident s) \<longleftrightarrow> ident s"
| "valid_token (StringTok v) \<longleftrightarrow> quote \<notin> set v"
| "valid_token t \<longleftrightarrow> True"

lemma length_dropWhile_Cons:
  "dropWhile P s = x # rest \<Longrightarrow> length rest < length s"
  by (metis length_Cons length_dropWhile_le less_eq_Suc_le)

lemma next_token_shrinks: "next_token s = Some (r, rest) \<Longrightarrow> length rest < length s"
proof (induction s rule: next_token.induct)
  case 1
  then show ?case by simp
next
  case (2 c s)
  then show ?case
    using length_dropWhile_Cons [of _ s] length_dropWhile_le [of is_ident_rest s]
    by (auto split: if_splits list.splits simp: less_Suc_eq less_Suc_eq_le)
qed

lemma next_token_valid: "next_token s = Some (Inr t, rest) \<Longrightarrow> valid_token t"
proof (induction s rule: next_token.induct)
  case 1
  then show ?case by simp
next
  case (2 c s)
  then show ?case
    by (auto split: if_splits list.splits simp: ident_def list_all_iff dest: set_takeWhileD)
qed

lemma try_token_Some: "try_token t s = Some rest \<longleftrightarrow> next_token s = Some (Inr t, rest)"
  by (auto simp: try_token_def split: option.splits sum.splits if_splits)

lemma eat_Inr: "eat t s = Inr rest \<longleftrightarrow> next_token s = Some (Inr t, rest)"
  by (auto simp: eat_def split: option.splits sum.splits if_splits)

lemma parse_cfg_Inr:
  assumes "parse_cfg s = Inr (c, rest)"
  shows "length rest < length s \<and> valid_cfg c \<and> (\<exists>r. next_token s = Some (Inr (Ident (cfg_head c)), r))"
proof -
  from assms obtain name r1 where nt: "next_token s = Some (Inr (Ident name), r1)"
    by (auto simp: parse_cfg_def split: option.splits sum.splits token.splits)
  note s1 = next_token_shrinks [OF nt] and v1 = next_token_valid [OF nt]
  show ?thesis
  proof (cases "try_token Equals r1")
    case None
    with assms nt s1 v1 show ?thesis by (auto simp: parse_cfg_def)
  next
    case (Some r2)
    with assms nt obtain v where nt2: "next_token r2 = Some (Inr (StringTok v), rest)"
      and c: "c = KeyPair name v"
      by (auto simp: parse_cfg_def split: option.splits sum.splits token.splits)
    from Some have "length r2 < length r1"
      by (auto simp: try_token_Some dest: next_token_shrinks)
    with c nt s1 v1 next_token_shrinks [OF nt2] next_token_valid [OF nt2] show ?thesis by simp
  qed
qed

lemma map_value_Inr: "map_value r = Inr (e, rest) \<longleftrightarrow> (\<exists>c. r = Inr (c, rest) \<and> e = CValue c)"
  by (auto simp: map_value_def split: sum.splits)

lemma token_kinds [case_names group neg val]:
  assumes "\<And>op. t = Ident op \<Longrightarrow> op = ''all'' \<or> op = ''any'' \<Longrightarrow> P"
    and "t = Ident ''not'' \<Longrightarrow> P"
    and "(\<And>op. t = Ident op \<Longrightarrow> op \<notin> {''all'', ''any'', ''not''}) \<Longrightarrow> P"
  shows P
  using assms by (cases t) auto

lemma parse_shrinks:
  "parse_expr n s = Some (Inr (e, rest)) \<Longrightarrow> length rest < length s \<and> valid_expr e"
  "parse_members n s acc = Some (Inr (es, rest)) \<Longrightarrow> list_all valid_expr acc \<Longrightarrow>
     length rest < length s \<and> list_all valid_expr es"
proof (induction n s and n s acc arbitrary: e rest and es rest rule: parse_expr_parse_members.induct)
  case (1 s)
  then show ?case by simp
next
  case (2 n s)
  from 2(3) obtain t r1 where nt: "next_token s = Some (Inr t, r1)"
    by (auto split: option.splits sum.splits)
  note s1 = next_token_shrinks [OF nt]
  show ?case
  proof (cases t rule: token_kinds)
    case (group op)
    with 2(3) nt obtain r2 es where eat: "eat LeftParen r1 = Inr r2"
      and ms: "parse_members n r2 [] = Some (Inr (es, rest))"
      and e: "e = (if op = ''all'' then CAll es else CAny es)"
      by (auto split: sum.splits option.splits)
    have "length rest < length r2 \<and> list_all valid_expr es"
      using 2(1) [OF nt refl refl group(1) group(2) eat ms] by simp
    with s1 eat e show ?thesis
      by (auto simp: eat_Inr dest: next_token_shrinks)
  next
    case neg
    with 2(3) nt obtain r2 r3 ex where eat: "eat LeftParen r1 = Inr r2"
      and ex: "parse_expr n r2 = Some (Inr (ex, r3))" and eat2: "eat RightParen r3 = Inr rest"
      and e: "e = CNot ex"
      by (auto split: sum.splits option.splits)
    have "length r3 < length r2 \<and> valid_expr ex"
      using 2(2) [OF nt refl refl neg _ refl eat ex] by simp
    with s1 eat eat2 e show ?thesis
      by (auto simp: eat_Inr dest!: next_token_shrinks)
  next
    case val
    with 2(3) nt have "map_value (parse_cfg s) = Inr (e, rest)"
      by (auto split: token.splits if_splits)
    with nt val show ?thesis
      by (auto simp: map_value_Inr dest: parse_cfg_Inr)
  qed
next
  case (3 s es)
  then show ?case by simp
next
  case (4 n s acc)
  show ?case
  proof (cases "try_token RightParen s")
    case (Some r1)
    with 4(3,4) show ?thesis
      by (auto simp: try_token_Some dest: next_token_shrinks)
  next
    case None
    with 4(3) obtain ex r1 where ex: "parse_expr n s = Some (Inr (ex, r1))"
      by (auto split: option.splits sum.splits)
    from 4(1) [OF None ex] have s1: "length r1 < length s" "valid_expr ex" by auto
    show ?thesis
    proof (cases "try_token Comma r1")
      case (Some r2)
      with 4(3) None ex have "parse_members n r2 (acc @ [ex]) = Some (Inr (es, rest))" by simp
      from 4(2) [OF None ex refl refl Some this] 4(4) s1 Some show ?thesis
        by (auto simp: try_token_Some dest!: next_token_shrinks)
    next
      case no_comma: None
      with 4(3) None ex have "eat RightParen r1 = Inr rest" "es = acc @ [ex]"
        by (auto split: sum.splits)
      with s1 4(4) show ?thesis by (auto simp: eat_Inr dest!: next_token_shrinks)
    qed
  qed
qed


section \<open>Enough fuel\<close>

lemma parse_fuel:
  "2 * length s < n \<Longrightarrow> parse_expr n s \<noteq> None"
  "2 * length s + 1 < n \<Longrightarrow> parse_members n s acc \<noteq> None"
proof (induction n s and n s acc rule: parse_expr_parse_members.induct)
  case (1 s)
  then show ?case by simp
next
  case (2 n s)
  have shrink: "length r2 + 2 \<le> length s"
    if "next_token s = Some (Inr t, r1)" "eat LeftParen r1 = Inr r2" for t r1 r2
    using that by (auto simp: eat_Inr dest!: next_token_shrinks)
  show ?case
  proof (cases "next_token s")
    case (Some p)
    obtain x r1 where p: "p = (x, r1)" by (cases p)
    show ?thesis
    proof (cases x)
      case (Inr t)
      then have nt: "next_token s = Some (Inr t, r1)" using Some p by simp
      show ?thesis
      proof (cases t rule: token_kinds)
        case (group op)
        have "parse_members n r2 [] \<noteq> None" if "eat LeftParen r1 = Inr r2" for r2
          using 2(1) [OF nt refl refl group that] shrink [OF nt that] 2(3) by simp
        with group nt show ?thesis by (cases "eat LeftParen r1") (fastforce split: sum.splits)+
      next
        case neg
        have "parse_expr n r2 \<noteq> None" if "eat LeftParen r1 = Inr r2" for r2
          using 2(2) [OF nt refl refl neg _ refl that] shrink [OF nt that] 2(3) by simp
        with neg nt show ?thesis by (cases "eat LeftParen r1") (fastforce split: sum.splits)+
      next
        case val
        with nt show ?thesis by (cases t) auto
      qed
    qed (simp add: Some p)
  qed simp
next
  case (3 s es)
  then show ?case by simp
next
  case (4 n s acc)
  show ?case
  proof (cases "try_token RightParen s")
    case None
    from 4(1) [OF None] 4(3) obtain x where x: "parse_expr n s = Some x" by auto
    show ?thesis
    proof (cases x)
      case (Inr p)
      obtain e r1 where p: "p = (e, r1)" by (cases p)
      then have ex: "parse_expr n s = Some (Inr (e, r1))" using x Inr by simp
      have "parse_members n r2 (acc @ [e]) \<noteq> None" if "try_token Comma r1 = Some r2" for r2
      proof -
        have "length r2 + 2 \<le> length s"
          using ex that by (auto simp: try_token_Some dest!: next_token_shrinks parse_shrinks(1))
        then show ?thesis using 4(2) [OF None ex refl refl that] 4(3) by simp
      qed
      then show ?thesis using None ex
        by (cases "try_token Comma r1") (auto split: sum.splits)
    qed (simp add: None x)
  qed simp
qed

section \<open>Printing and parsing\<close>

definition stops :: "string \<Rightarrow> bool" where
  "stops r \<longleftrightarrow> r = [] \<or> hd r = CHR '','' \<or> hd r = CHR '')''"

lemma stops_simps [simp]: "stops []" "stops (CHR '','' # r)" "stops (CHR '')'' # r)"
  by (simp_all add: stops_def)

lemma ident_start_not_special:
  assumes "is_ident_start c"
  shows "c \<noteq> CHR '' ''" "c \<noteq> CHR ''(''" "c \<noteq> CHR '')''" "c \<noteq> CHR '',''" "c \<noteq> CHR ''=''" "c \<noteq> quote"
  using assms by (auto simp: is_ident_start_def)

lemma next_token_ident:
  assumes "ident s" "r = [] \<or> \<not> is_ident_rest (hd r)"
  shows "next_token (s @ r) = Some (Inr (Ident s), r)"
proof -
  from assms(1) obtain c cs where s: "s = c # cs" and c: "is_ident_start c"
    and cs: "\<forall>x\<in>set cs. is_ident_rest x"
    by (cases s) (auto simp: ident_def list_all_iff)
  have "takeWhile is_ident_rest (cs @ r) = cs @ takeWhile is_ident_rest r"
    "dropWhile is_ident_rest (cs @ r) = dropWhile is_ident_rest r"
    using cs by (simp_all add: takeWhile_append dropWhile_append)
  moreover have "takeWhile is_ident_rest r = [] \<and> dropWhile is_ident_rest r = r"
    using assms(2) by (cases r) auto
  ultimately show ?thesis
    using c ident_start_not_special [OF c] by (simp add: s)
qed

lemma not_ident_rest [simp]:
  "\<not> is_ident_rest CHR '' ''" "\<not> is_ident_rest CHR ''(''"
  "\<not> is_ident_rest CHR '')''" "\<not> is_ident_rest CHR '',''"
  by (simp_all add: is_ident_rest_def is_ident_start_def)

lemma stops_not_ident: "stops r \<Longrightarrow> r = [] \<or> \<not> is_ident_rest (hd r)"
  by (auto simp: stops_def)

lemma next_token_string: "quote \<notin> set v \<Longrightarrow> next_token (quote # v @ quote # r) = Some (Inr (StringTok v), r)"
  by (simp add: takeWhile_append dropWhile_append)

lemma ident_keywords [simp]: "ident ''all''" "ident ''any''" "ident ''not''"
  by (simp_all add: ident_def is_ident_rest_def is_ident_start_def)

lemma parse_cfg_print:
  assumes "valid_cfg c" "stops r"
  shows "parse_cfg (cfg_to_string c @ r) = Inr (c, r) \<and>
    (\<exists>r'. next_token (cfg_to_string c @ r) = Some (Inr (Ident (cfg_head c)), r'))"
proof (cases c)
  case (Name s)
  with assms have nt: "next_token (s @ r) = Some (Inr (Ident s), r)"
    by (simp add: next_token_ident stops_not_ident)
  have "try_token Equals r = None"
    using assms(2) by (cases r) (auto simp: stops_def try_token_def)
  with nt Name show ?thesis by (simp add: parse_cfg_def)
next
  case (KeyPair k v)
  with assms have v: "quote \<notin> set v" and "ident k" by auto
  then have nt: "next_token (k @ '' = '' @ quote # v @ quote # r) =
      Some (Inr (Ident k), '' = '' @ quote # v @ quote # r)"
    by (intro next_token_ident) auto
  have eq: "try_token Equals ('' = '' @ quote # v @ quote # r) = Some (CHR '' '' # quote # v @ quote # r)"
    by (simp add: try_token_def)
  have "next_token (CHR '' '' # quote # v @ quote # r) = Some (Inr (StringTok v), r)"
    using next_token_string [OF v, of r] by simp
  with nt eq KeyPair show ?thesis by (simp add: parse_cfg_def)
qed

lemma parse_expr_space [simp]: "parse_expr n (CHR '' '' # s) = parse_expr n s"
proof (cases n)
  case (Suc m)
  have nt: "next_token (CHR '' '' # s) = next_token s" by simp
  then have "parse_cfg (CHR '' '' # s) = parse_cfg s" by (simp only: parse_cfg_def)
  with nt show ?thesis by (simp only: Suc parse_expr.simps)
qed simp

lemma parse_members_space [simp]: "parse_members n (CHR '' '' # s) acc = parse_members n s acc"
proof (cases n)
  case (Suc m)
  have "try_token t (CHR '' '' # s) = try_token t s" for t by (simp add: try_token_def)
  then show ?thesis by (simp only: Suc parse_members.simps parse_expr_space)
qed simp

lemma next_token_keyword:
  "next_token (CHR ''n'' # CHR ''o'' # CHR ''t'' # CHR ''('' # s) = Some (Inr (Ident ''not''), CHR ''('' # s)"
  "next_token (CHR ''a'' # CHR ''l'' # CHR ''l'' # CHR ''('' # s) = Some (Inr (Ident ''all''), CHR ''('' # s)"
  "next_token (CHR ''a'' # CHR ''n'' # CHR ''y'' # CHR ''('' # s) = Some (Inr (Ident ''any''), CHR ''('' # s)"
  using next_token_ident [of "''not''" "CHR ''('' # s"] next_token_ident [of "''all''" "CHR ''('' # s"]
    next_token_ident [of "''any''" "CHR ''('' # s"] by simp_all

lemma next_token_expr:
  assumes "valid_expr e" "stops r"
  shows "\<exists>i r'. next_token (cfg_expr_to_string e @ r) = Some (Inr (Ident i), r')"
proof (cases e)
  case (CValue c)
  then show ?thesis using parse_cfg_print [of c r] assms by auto
qed (simp_all add: next_token_keyword del: next_token.simps)

lemma parse_members_print:
  assumes IH: "\<And>e n r. e \<in> set es \<Longrightarrow> stops r \<Longrightarrow> 2 * length (cfg_expr_to_string e) < n \<Longrightarrow>
      parse_expr n (cfg_expr_to_string e @ r) = Some (Inr (e, r))"
    and valid: "list_all valid_expr es"
    and fuel: "2 * length (comma_sep (map cfg_expr_to_string es)) + 1 < n"
  shows "parse_members n (comma_sep (map cfg_expr_to_string es) @ CHR '')'' # r) acc = Some (Inr (acc @ es, r))"
  using assms
proof (induction es arbitrary: n acc)
  case Nil
  then show ?case by (cases n) (auto simp: try_token_def)
next
  case (Cons e es)
  from Cons.prems(3) obtain m where n: "n = Suc m" by (cases n) auto
  let ?s = "cfg_expr_to_string e"
  show ?case
  proof (cases es)
    case Nil
    have "parse_expr m (?s @ CHR '')'' # r) = Some (Inr (e, CHR '')'' # r))"
      using Cons.prems Nil by (intro Cons.prems(1)) (auto simp: n)
    moreover obtain i r' where "next_token (?s @ CHR '')'' # r) = Some (Inr (Ident i), r')"
      using next_token_expr [of e "CHR '')'' # r"] Cons.prems(2) by auto
    ultimately show ?thesis
      by (simp add: n Nil try_token_def eat_def)
  next
    case (Cons e' es')
    let ?t = "comma_sep (map cfg_expr_to_string es) @ CHR '')'' # r"
    have len: "2 * length ?s + 2 * length (comma_sep (map cfg_expr_to_string es)) + 5 < n"
      using Cons.prems(3) by (simp add: Cons)
    have "parse_expr m (?s @ '', '' @ ?t) = Some (Inr (e, '', '' @ ?t))"
      using len by (intro Cons.prems(1)) (auto simp: n)
    moreover obtain i r' where "next_token (?s @ '', '' @ ?t) = Some (Inr (Ident i), r')"
      using next_token_expr [of e "'', '' @ ?t"] Cons.prems(2) by auto
    moreover have "parse_members m ?t (acc @ [e]) = Some (Inr (acc @ e # es, r))"
      using Cons.IH [of m "acc @ [e]"] Cons.prems len by (simp add: n)
    ultimately show ?thesis
      by (simp add: n Cons try_token_def)
  qed
qed

lemma parse_expr_print:
  "valid_expr e \<Longrightarrow> stops r \<Longrightarrow> 2 * length (cfg_expr_to_string e) < n \<Longrightarrow>
    parse_expr n (cfg_expr_to_string e @ r) = Some (Inr (e, r))"
proof (induction e arbitrary: n r rule: cfg_expr_to_string.induct)
  case (1 e)
  from "1.prems"(3) obtain m where n: "n = Suc m" by (cases n) auto
  have "parse_expr m (cfg_expr_to_string e @ CHR '')'' # r) = Some (Inr (e, CHR '')'' # r))"
    using "1.prems" by (intro "1.IH") (auto simp: n)
  with next_token_keyword(1) [of "cfg_expr_to_string e @ CHR '')'' # r"] show ?case
    by (simp add: n eat_def)
next
  case (2 es)
  from "2.prems"(3) obtain m where n: "n = Suc m" by (cases n) auto
  have "parse_members m (comma_sep (map cfg_expr_to_string es) @ CHR '')'' # r) [] = Some (Inr ([] @ es, r))"
    using "2.prems" by (intro parse_members_print "2.IH") (auto simp: n list_all_iff)
  with next_token_keyword(2) [of "comma_sep (map cfg_expr_to_string es) @ CHR '')'' # r"] show ?case
    by (simp add: n eat_def)
next
  case (3 es)
  from "3.prems"(3) obtain m where n: "n = Suc m" by (cases n) auto
  have "parse_members m (comma_sep (map cfg_expr_to_string es) @ CHR '')'' # r) [] = Some (Inr ([] @ es, r))"
    using "3.prems" by (intro parse_members_print "3.IH") (auto simp: n list_all_iff)
  with next_token_keyword(3) [of "comma_sep (map cfg_expr_to_string es) @ CHR '')'' # r"] show ?case
    by (simp add: n eat_def)
next
  case (4 c)
  from "4.prems"(3) obtain m where n: "n = Suc m" by (cases n) auto
  have "valid_cfg c" "cfg_head c \<notin> {''all'', ''any'', ''not''}" using "4.prems" by auto
  with parse_cfg_print [of c r] "4.prems"(2) show ?case
    by (auto simp: n map_value_def)
qed


section \<open>Properties\<close>

lemma cfg_expr_from_str_valid: "cfg_expr_from_str s = Some (Inr e) \<Longrightarrow> valid_expr e"
  by (auto simp: cfg_expr_from_str_def simp del: parse_expr.simps dest: parse_shrinks(1) split: option.splits sum.splits if_splits)

lemma cfg_expr_from_str_print: "valid_expr e \<Longrightarrow> cfg_expr_from_str (cfg_expr_to_string e) = Some (Inr e)"
  using parse_expr_print [of e "[]" "2 * length (cfg_expr_to_string e) + 1"]
  by (simp add: cfg_expr_from_str_def)

text \<open>
  The parser of \<open>cfg(..)\<close> expressions returns on every input, with an error or with an
  expression whose names are identifiers and whose strings hold no quote.
\<close>

theorem cfg_parser_returns:
  "\<exists>r. cfg_expr_from_str s = Some r \<and> (case r of Inl e \<Rightarrow> True | Inr e \<Rightarrow> valid_expr e)"
proof -
  have "parse_expr (2 * length s + 1) s \<noteq> None" by (rule parse_fuel) simp
  then have "cfg_expr_from_str s \<noteq> None"
    by (auto simp: cfg_expr_from_str_def simp del: parse_expr.simps split: sum.splits)
  then obtain r where "cfg_expr_from_str s = Some r" by blast
  then show ?thesis by (auto split: sum.splits dest: cfg_expr_from_str_valid)
qed

text \<open>
  C39: printing an expression the parser accepted and parsing it again gives the same
  expression.
\<close>

theorem cfg_print_parse:
  assumes "cfg_expr_from_str s = Some (Inr e)"
  shows "cfg_expr_from_str (cfg_expr_to_string e) = Some (Inr e)"
  using assms by (intro cfg_expr_from_str_print cfg_expr_from_str_valid)

lemmas cfg_eval = cfg_expr_from_str_def try_token_def eat_def parse_cfg_def map_value_def
  is_ident_rest_def is_ident_start_def eval_nat_numeral

theorem cfg_print_parse_witness:
  "cfg_expr_from_str ''not( a)'' = Some (Inr (CNot (CValue (Name ''a'')))) \<and>
   cfg_expr_from_str ''not(a)'' = Some (Inr (CNot (CValue (Name ''a''))))"
proof -
  have a: "cfg_expr_from_str ''not( a)'' = Some (Inr (CNot (CValue (Name ''a''))))"
    by (simp add: cfg_eval)
  from cfg_print_parse [OF a] a show ?thesis by simp
qed

text \<open>
  A platform the code parsed, a target triple or a \<open>cfg(..)\<close> expression, prints to a
  string that parses to the same platform.
\<close>

theorem platform_print_parse:
  assumes "platform_from_str s = Some (Inr p)"
  shows "platform_from_str (platform_to_string p) = Some (Inr p)"
proof (cases p)
  case (PName n)
  with assms show ?thesis
    by (auto simp: platform_from_str_def split: if_splits option.splits sum.splits)
next
  case (PCfg e)
  with assms have "valid_expr e"
    by (auto simp: platform_from_str_def split: if_splits option.splits sum.splits
        dest: cfg_expr_from_str_valid)
  moreover have "cfg_inner (platform_to_string p) = cfg_expr_to_string e"
    by (simp add: PCfg cfg_inner_def take_Cons')
  ultimately show ?thesis
    by (simp add: PCfg platform_from_str_def cfg_expr_from_str_print starts_with_def ends_with_char_def)
qed

theorem platform_print_parse_witness:
  "platform_from_str ''cfg(a)'' = Some (Inr (PCfg (CValue (Name ''a'')))) \<and>
   platform_from_str (platform_to_string (PCfg (CValue (Name ''a'')))) = Some (Inr (PCfg (CValue (Name ''a''))))"
proof -
  have a: "platform_from_str ''cfg(a)'' = Some (Inr (PCfg (CValue (Name ''a''))))"
    by (simp add: platform_from_str_def starts_with_def ends_with_char_def cfg_inner_def cfg_eval)
  from platform_print_parse [OF a] a show ?thesis by blast
qed

text \<open>
  A \<open>target.'cfg(..)'\<close> key of the configuration matches exactly when, read as a
  platform, it is a \<open>cfg\<close> expression that holds of the target's configuration, whatever the
  target is called.
\<close>

theorem matches_key_platform:
  "matches_key key cfgs \<longleftrightarrow>
     (\<exists>e. platform_from_str key = Some (Inr (PCfg e)) \<and> platform_matches (PCfg e) name (Some cfgs))"
  by (auto simp: matches_key_def platform_from_str_def platform_matches_def
      split: option.splits sum.splits)

end
