(* ===== verification/Dependency_Model.thy ===== *)
theory Dependency_Model
  imports Package_Id Cfg
begin

text \<open>
  Dependencies of packages, \<open>src/cargo/core/dependency.rs\<close>: a record with one field per field
  of \<open>Inner\<close>, its constructors, setters and the matching of package ids.  The type of sources is
  a parameter whose equality stands for \<open>==\<close> on source ids.
\<close>

datatype dep_kind = Normal | Development | Build

record ('s, 'r) dependency =
  dep_name :: string
  dep_source_id :: 's
  registry_id :: "'s option"
  dep_req :: 'r
  specified_req :: bool
  dep_kind :: dep_kind
  only_match_name :: bool
  explicit_name_in_toml :: "string option"
  optional :: bool
  default_features :: bool
  dep_features :: "string list"
  dep_platform :: "platform option"

datatype dep_error = DeprecatedRequirement string | BadRequirement string string

text \<open>The warning for a requirement that earlier versions accepted: the requirement and the
  package whose manifest holds it.\<close>

datatype dep_warning = DeprecatedReqWarning string string version

text \<open>\<open>parse_req_with_deprecated\<close>; \<open>inside\<close> is the package of the manifest, when there is one.\<close>

definition parse_req_with_deprecated ::
    "'r semver_ops \<Rightarrow> string \<Rightarrow> string \<Rightarrow> 's package_id option \<Rightarrow> dep_error + 'r \<times> dep_warning list" where
  "parse_req_with_deprecated S name req extra =
     (case req_parse S req of
        ReqDeprecated requirement \<Rightarrow>
          (case extra of
             None \<Rightarrow> Inl (DeprecatedRequirement req)
           | Some inside \<Rightarrow>
               Inr (requirement, [DeprecatedReqWarning req (pid_name inside) (pid_version inside)]))
      | ReqError \<Rightarrow> Inl (BadRequirement req name)
      | ReqOk v \<Rightarrow> Inr (v, []))"

fun dep_kind_serialize :: "dep_kind \<Rightarrow> string option" where
  "dep_kind_serialize Normal = None"
| "dep_kind_serialize Development = Some ''dev''"
| "dep_kind_serialize Build = Some ''build''"

text \<open>\<open>None\<close> is the failed assertion that the name is not empty.\<close>

definition new_override :: "'r semver_ops \<Rightarrow> string \<Rightarrow> 's \<Rightarrow> ('s, 'r) dependency option" where
  "new_override S name sid =
     (if name = [] then None
      else Some \<lparr>dep_name = name, dep_source_id = sid, registry_id = None, dep_req = req_any S,
                 specified_req = False, dep_kind = Normal, only_match_name = True,
                 explicit_name_in_toml = None, optional = False, default_features = True,
                 dep_features = [], dep_platform = None\<rparr>)"

definition dep_parse_with ::
    "'r semver_ops \<Rightarrow> string \<Rightarrow> string option \<Rightarrow> 's \<Rightarrow> 's package_id option \<Rightarrow>
       (dep_error, ('s, 'r) dependency \<times> dep_warning list) run" where
  "dep_parse_with S name ver sid extra =
     bindR (Some (case ver of
              Some v \<Rightarrow> bindE (parse_req_with_deprecated S name v extra) (\<lambda>(r, ws). Inr (True, r, ws))
            | None \<Rightarrow> Inr (False, req_any S, [])))
       (\<lambda>(spec, r, ws).
          bindR (unwrap (new_override S name sid)) (\<lambda>ret.
            Some (Inr (ret\<lparr>only_match_name := False, dep_req := r, specified_req := spec\<rparr>, ws))))"

definition dep_parse ::
    "'r semver_ops \<Rightarrow> string \<Rightarrow> string option \<Rightarrow> 's \<Rightarrow> 's package_id \<Rightarrow>
       (dep_error, ('s, 'r) dependency \<times> dep_warning list) run" where
  "dep_parse S name ver sid inside = dep_parse_with S name ver sid (Some inside)"

definition parse_no_deprecated ::
    "'r semver_ops \<Rightarrow> string \<Rightarrow> string option \<Rightarrow> 's \<Rightarrow> (dep_error, ('s, 'r) dependency \<times> dep_warning list) run" where
  "parse_no_deprecated S name ver sid = dep_parse_with S name ver sid None"

definition name_in_toml :: "('s, 'r) dependency \<Rightarrow> string" where
  "name_in_toml d = (case explicit_name_in_toml d of Some n \<Rightarrow> n | None \<Rightarrow> dep_name d)"

definition set_registry_id :: "'s \<Rightarrow> ('s, 'r) dependency \<Rightarrow> ('s, 'r) dependency" where
  "set_registry_id s d = d\<lparr>registry_id := Some s\<rparr>"

definition set_kind :: "dep_kind \<Rightarrow> ('s, 'r) dependency \<Rightarrow> ('s, 'r) dependency" where
  "set_kind k d = d\<lparr>dep_kind := k\<rparr>"

definition set_features :: "string list \<Rightarrow> ('s, 'r) dependency \<Rightarrow> ('s, 'r) dependency" where
  "set_features fs d = d\<lparr>dep_features := fs\<rparr>"

definition set_default_features :: "bool \<Rightarrow> ('s, 'r) dependency \<Rightarrow> ('s, 'r) dependency" where
  "set_default_features b d = d\<lparr>default_features := b\<rparr>"

definition set_optional :: "bool \<Rightarrow> ('s, 'r) dependency \<Rightarrow> ('s, 'r) dependency" where
  "set_optional b d = d\<lparr>optional := b\<rparr>"

definition set_source_id :: "'s \<Rightarrow> ('s, 'r) dependency \<Rightarrow> ('s, 'r) dependency" where
  "set_source_id s d = d\<lparr>dep_source_id := s\<rparr>"

definition set_version_req :: "'r \<Rightarrow> ('s, 'r) dependency \<Rightarrow> ('s, 'r) dependency" where
  "set_version_req r d = d\<lparr>dep_req := r\<rparr>"

definition set_platform :: "platform option \<Rightarrow> ('s, 'r) dependency \<Rightarrow> ('s, 'r) dependency" where
  "set_platform p d = d\<lparr>dep_platform := p\<rparr>"

definition set_explicit_name_in_toml :: "string \<Rightarrow> ('s, 'r) dependency \<Rightarrow> ('s, 'r) dependency" where
  "set_explicit_name_in_toml n d = d\<lparr>explicit_name_in_toml := Some n\<rparr>"

text \<open>\<open>None\<close> is one of the two assertions of \<open>lock_to\<close>.\<close>

definition lock_to :: "'r semver_ops \<Rightarrow> 's package_id \<Rightarrow> ('s, 'r) dependency \<Rightarrow> ('s, 'r) dependency option" where
  "lock_to S pid d =
     (if dep_source_id d \<noteq> pid_source pid then None
      else if \<not> req_matches S (dep_req d) (pid_version pid) then None
      else Some (set_source_id (pid_source pid) (set_version_req (req_exact S (pid_version pid)) d)))"

definition is_locked :: "'r semver_ops \<Rightarrow> ('s, 'r) dependency \<Rightarrow> bool" where
  "is_locked S d \<longleftrightarrow> starts_with ''='' (req_str S (dep_req d))"

definition is_transitive :: "('s, 'r) dependency \<Rightarrow> bool" where
  "is_transitive d \<longleftrightarrow> (case dep_kind d of Normal \<Rightarrow> True | Build \<Rightarrow> True | Development \<Rightarrow> False)"

definition is_build :: "('s, 'r) dependency \<Rightarrow> bool" where
  "is_build d \<longleftrightarrow> (case dep_kind d of Build \<Rightarrow> True | _ \<Rightarrow> False)"

definition matches_ignoring_source :: "'r semver_ops \<Rightarrow> ('s, 'r) dependency \<Rightarrow> 's package_id \<Rightarrow> bool" where
  "matches_ignoring_source S d pid \<longleftrightarrow> dep_name d = pid_name pid \<and> req_matches S (dep_req d) (pid_version pid)"

definition matches_id :: "'r semver_ops \<Rightarrow> ('s, 'r) dependency \<Rightarrow> 's package_id \<Rightarrow> bool" where
  "matches_id S d pid \<longleftrightarrow>
     dep_name d = pid_name pid \<and>
     (only_match_name d \<or> (req_matches S (dep_req d) (pid_version pid) \<and> dep_source_id d = pid_source pid))"

definition dep_map_source :: "'s \<Rightarrow> 's \<Rightarrow> ('s, 'r) dependency \<Rightarrow> ('s, 'r) dependency" where
  "dep_map_source to_replace replace_with d =
     (if dep_source_id d \<noteq> to_replace then d else set_source_id replace_with d)"

section \<open>Properties\<close>

text \<open>
  Locking a dependency to a package id succeeds exactly for an id of its source that its
  requirement accepts, and the locked dependency then accepts that one id of its name and
  nothing else, nothing that it did not accept before, and reports itself as locked.  The
  hypotheses on the semver crate: an exact requirement accepts its version only, and
  prints with an equals sign.
\<close>

theorem lock_to_pins:
  assumes exact: "\<And>w. req_matches S (req_exact S (pid_version pid)) w \<longleftrightarrow> w = pid_version pid"
    and printed: "starts_with ''='' (req_str S (req_exact S (pid_version pid)))"
    and d: "\<not> only_match_name d" "dep_name d = pid_name pid"
  shows "(lock_to S pid d \<noteq> None \<longleftrightarrow> matches_id S d pid) \<and>
    (\<forall>d'. lock_to S pid d = Some d' \<longrightarrow>
       is_locked S d' \<and> (\<forall>p. matches_id S d' p \<longleftrightarrow> p = pid) \<and> (\<forall>p. matches_id S d' p \<longrightarrow> matches_id S d p))"
  using assms
  by (auto simp: lock_to_def matches_id_def set_source_id_def set_version_req_def is_locked_def
      intro: package_id.equality)

definition example_dep :: "(string source_id, (bool \<times> version) option) dependency" where
  "example_dep =
     \<lparr>dep_name = ''a'', dep_source_id = git_id ''x'' ''x'', registry_id = None, dep_req = None,
      specified_req = False, dep_kind = Normal, only_match_name = False,
      explicit_name_in_toml = None, optional = False, default_features = True,
      dep_features = [], dep_platform = None\<rparr>"

theorem lock_to_pins_witness:
  "\<exists>d'. lock_to unary_semver (pkg ''a'' (vers 1 0 0)) example_dep = Some d' \<and>
     is_locked unary_semver d' \<and> matches_id unary_semver d' (pkg ''a'' (vers 1 0 0)) \<and>
     \<not> matches_id unary_semver d' (pkg ''a'' (vers 1 0 1))"
proof -
  let ?pid = "pkg ''a'' (vers 1 0 0)"
  have a: "\<And>w. req_matches unary_semver (req_exact unary_semver (pid_version ?pid)) w \<longleftrightarrow> w = pid_version ?pid"
    and b: "starts_with ''='' (req_str unary_semver (req_exact unary_semver (pid_version ?pid)))"
    and c: "\<not> only_match_name example_dep" "dep_name example_dep = pid_name ?pid"
    by (simp_all add: unary_eval pkg_def example_dep_def starts_with_def)
  have m: "matches_id unary_semver example_dep ?pid"
    by (simp add: matches_id_def example_dep_def pkg_def unary_semver_def)
  have "pkg ''a'' (vers 1 0 1) \<noteq> ?pid" by (simp add: pkg_def vers_def)
  with lock_to_pins [of unary_semver ?pid example_dep, OF a b c] m show ?thesis by blast
qed

lemma dep_map_source_back:
  "dep_source_id d \<noteq> b \<Longrightarrow> dep_map_source b a (dep_map_source a b d) = d"
  by (auto simp: dep_map_source_def set_source_id_def)

end
