(* ===== verification/Summary_Model.thy ===== *)
theory Summary_Model
  imports Dependency_Model
begin

text \<open>
  Summaries of packages, \<open>src/cargo/core/summary.rs\<close>: the construction with its checks, the
  feature map with its error cases, and the values a feature can name.  The features of a
  manifest are an association list in the iteration order of the \<open>BTreeMap\<close>.
\<close>

datatype feature_value = Feature string | Crate string | CrateFeature string string

type_synonym feature_map = "(string \<times> feature_value list) list"

record ('s, 'r) summary =
  package_id :: "'s package_id"
  dependencies :: "('s, 'r) dependency list"
  features :: feature_map
  checksum :: "string option"
  links :: "string option"
  namespaced_features :: bool

datatype summary_error =
    FeatureDependencyClash string
  | OptionalDevDependency string
  | ImplicitNonOptional string
  | UndefinedFeatureNonOptionalDep string string
  | UndefinedFeature string string
  | CrateNotOptional bool string string
  | CrateUnknown bool string string
  | CrateFeatureUnknown string string
  | ImplicitDependency string

text \<open>\<open>FeatureValue::build\<close>.\<close>

definition build_value :: "string \<Rightarrow> (string \<Rightarrow> bool) \<Rightarrow> bool \<Rightarrow> feature_value" where
  "build_value feature is_feature namespaced =
     (case splitn2 CHR ''/'' feature of
        (dep, Some dep_feat) \<Rightarrow> CrateFeature dep dep_feat
      | (_, None) \<Rightarrow>
          if namespaced then
            if starts_with ''crate:'' feature then Crate (drop 6 feature) else Feature feature
          else if is_feature feature then Feature feature
          else Crate feature)"

definition new_feature_value :: "string \<Rightarrow> ('s, 'r) summary \<Rightarrow> feature_value" where
  "new_feature_value feature s =
     build_value feature (\<lambda>fs. map_of (features s) fs \<noteq> None) (namespaced_features s)"

fun feature_value_to_string :: "feature_value \<Rightarrow> bool \<Rightarrow> string" where
  "feature_value_to_string (Feature f) ns = f"
| "feature_value_to_string (Crate c) ns = (if ns then ''crate:'' @ c else c)"
| "feature_value_to_string (CrateFeature c f) ns = c @ ''/'' @ f"

text \<open>\<open>dep_map.get(name)\<close>: the dependencies called \<open>name\<close> in the manifest, nothing if there are none.\<close>

definition dep_data :: "('s, 'r) dependency list \<Rightarrow> string \<Rightarrow> ('s, 'r) dependency list option" where
  "dep_data deps name =
     (case filter (\<lambda>d. name_in_toml d = name) deps of [] \<Rightarrow> None | ds \<Rightarrow> Some ds)"

fun value_name :: "feature_value \<Rightarrow> string" where
  "value_name (Feature n) = n"
| "value_name (Crate n) = n"
| "value_name (CrateFeature n _) = n"

text \<open>The checks of one value of a feature, and the feature the map gains implicitly.\<close>

definition check_value ::
    "(string \<times> string list) list \<Rightarrow> bool \<Rightarrow> ('s, 'r) dependency list \<Rightarrow> string \<Rightarrow> feature_value \<Rightarrow>
       feature_map \<Rightarrow> summary_error + feature_map" where
  "check_value feats namespaced deps feature val fm =
     (let data = dep_data deps (value_name val);
          is_optional_dep = (case data of None \<Rightarrow> False | Some ds \<Rightarrow> list_ex optional ds)
      in case val of
           Feature feat \<Rightarrow>
             if is_optional_dep then
               Inr (if namespaced \<and> map_of feats feat = None then AList.update feat [Crate feat] fm else fm)
             else if namespaced \<and> map_of feats feat = None then
               (if data \<noteq> None then Inl (UndefinedFeatureNonOptionalDep feature feat)
                else Inl (UndefinedFeature feature feat))
             else Inr fm
         | Crate dep \<Rightarrow>
             if data \<noteq> None \<and> \<not> is_optional_dep then Inl (CrateNotOptional namespaced feature dep)
             else if data = None then Inl (CrateUnknown namespaced feature dep)
             else Inr fm
         | CrateFeature dep _ \<Rightarrow>
             if data = None then Inl (CrateFeatureUnknown feature dep) else Inr fm)"

text \<open>The value a text of the manifest stands for.\<close>

definition manifest_value :: "(string \<times> string list) list \<Rightarrow> bool \<Rightarrow> string \<Rightarrow> feature_value" where
  "manifest_value feats ns x = build_value x (\<lambda>fs. map_of feats fs \<noteq> None) ns"

text \<open>The loop over the values of a feature: whether the dependency of the same name was
  found, the values so far, and the map.\<close>

definition value_step ::
    "(string \<times> string list) list \<Rightarrow> bool \<Rightarrow> ('s, 'r) dependency list \<Rightarrow> string \<Rightarrow> string \<Rightarrow>
       bool \<times> feature_value list \<times> feature_map \<Rightarrow> summary_error + bool \<times> feature_value list \<times> feature_map" where
  "value_step feats namespaced deps feature dep st =
     (case st of (dependency_found, values, fm) \<Rightarrow>
        let val = manifest_value feats namespaced dep;
            found = (dependency_found \<or> (case val of Crate n \<Rightarrow> feature = n | _ \<Rightarrow> False))
        in bindE (check_value feats namespaced deps feature val fm) (\<lambda>fm'.
             Inr (found, values @ [val], fm')))"

definition feature_step ::
    "(string \<times> string list) list \<Rightarrow> bool \<Rightarrow> ('s, 'r) dependency list \<Rightarrow> string \<times> string list \<Rightarrow> feature_map \<Rightarrow>
       summary_error + feature_map" where
  "feature_step feats namespaced deps entry fm =
     (case entry of (feature, list) \<Rightarrow>
        bindE (if namespaced then
                 (case dep_data deps feature of
                    Some ds \<Rightarrow> if \<not> list_ex optional ds then Inl (ImplicitNonOptional feature) else Inr False
                  | None \<Rightarrow> Inr True)
               else Inr True) (\<lambda>dependency_found.
          bindE (foldE (value_step feats namespaced deps feature) list (dependency_found, [], fm))
            (\<lambda>(found, values, fm').
               if \<not> found then Inl (ImplicitDependency feature)
               else Inr (AList.update feature values fm'))))"

definition build_feature_map ::
    "(string \<times> string list) list \<Rightarrow> ('s, 'r) dependency list \<Rightarrow> bool \<Rightarrow> summary_error + feature_map" where
  "build_feature_map feats deps namespaced = foldE (feature_step feats namespaced deps) feats []"

definition check_dep :: "(string \<times> string list) list \<Rightarrow> bool \<Rightarrow> ('s, 'r) dependency \<Rightarrow> unit \<Rightarrow> summary_error + unit" where
  "check_dep feats namespaced dep u =
     (let feature = name_in_toml dep
      in if \<not> namespaced \<and> map_of feats feature \<noteq> None then Inl (FeatureDependencyClash feature)
         else if optional dep \<and> \<not> is_transitive dep then Inl (OptionalDevDependency feature)
         else Inr ())"

definition new_summary ::
    "'s package_id \<Rightarrow> ('s, 'r) dependency list \<Rightarrow> (string \<times> string list) list \<Rightarrow> string option \<Rightarrow> bool \<Rightarrow>
       summary_error + ('s, 'r) summary" where
  "new_summary pkg_id deps feats lnks namespaced =
     bindE (foldE (check_dep feats namespaced) deps ()) (\<lambda>_.
       bindE (build_feature_map feats deps namespaced) (\<lambda>fm.
         Inr \<lparr>package_id = pkg_id, dependencies = deps, features = fm, checksum = None,
              links = lnks, namespaced_features = namespaced\<rparr>))"

definition override_id :: "'s package_id \<Rightarrow> ('s, 'r) summary \<Rightarrow> ('s, 'r) summary" where
  "override_id p s = s\<lparr>package_id := p\<rparr>"

definition set_checksum :: "string \<Rightarrow> ('s, 'r) summary \<Rightarrow> ('s, 'r) summary" where
  "set_checksum c s = s\<lparr>checksum := Some c\<rparr>"

definition map_dependencies ::
    "(('s, 'r) dependency \<Rightarrow> ('s, 'r) dependency) \<Rightarrow> ('s, 'r) summary \<Rightarrow> ('s, 'r) summary" where
  "map_dependencies f s = s\<lparr>dependencies := map f (dependencies s)\<rparr>"

definition summary_map_source :: "'s \<Rightarrow> 's \<Rightarrow> ('s, 'r) summary \<Rightarrow> ('s, 'r) summary" where
  "summary_map_source to_replace replace_with s =
     (let me = (if pid_source (package_id s) = to_replace
                then override_id (with_source_id replace_with (package_id s)) s
                else s)
      in map_dependencies (dep_map_source to_replace replace_with) me)"

definition summary_eq :: "('s, 'r) summary \<Rightarrow> ('s, 'r) summary \<Rightarrow> bool" where
  "summary_eq a b \<longleftrightarrow> package_id a = package_id b"

definition dep_matches :: "'r semver_ops \<Rightarrow> ('s, 'r) dependency \<Rightarrow> ('s, 'r) summary \<Rightarrow> bool" where
  "dep_matches S d s = matches_id S d (package_id s)"

section \<open>The feature map is closed\<close>

text \<open>A value refers to something that exists: a feature of the map, an optional dependency, a
  dependency.\<close>

fun value_ok :: "string set \<Rightarrow> ('s, 'r) dependency list \<Rightarrow> feature_value \<Rightarrow> bool" where
  "value_ok fs deps (Feature f) \<longleftrightarrow> f \<in> fs"
| "value_ok fs deps (Crate c) \<longleftrightarrow> (\<exists>d\<in>set deps. name_in_toml d = c \<and> optional d)"
| "value_ok fs deps (CrateFeature c f) \<longleftrightarrow> (\<exists>d\<in>set deps. name_in_toml d = c)"

lemma value_ok_mono: "value_ok fs deps v \<Longrightarrow> fs \<subseteq> fs' \<Longrightarrow> value_ok fs' deps v"
  by (cases v) auto

lemma dep_data_Some: "dep_data deps n = Some ds \<longleftrightarrow> ds = filter (\<lambda>d. name_in_toml d = n) deps \<and> ds \<noteq> []"
  by (auto simp: dep_data_def split: list.splits)

lemma dep_data_optional:
  "dep_data deps n = Some ds \<Longrightarrow> list_ex optional ds \<longleftrightarrow> (\<exists>d\<in>set deps. name_in_toml d = n \<and> optional d)"
  by (auto simp: dep_data_Some list_ex_iff)

lemma dep_data_exists: "dep_data deps n = Some ds \<Longrightarrow> \<exists>d\<in>set deps. name_in_toml d = n"
  by (auto simp: dep_data_Some filter_empty_conv)

definition known :: "(string \<times> string list) list \<Rightarrow> feature_map \<Rightarrow> string set" where
  "known feats m = fst ` set feats \<union> fst ` set m"

definition entry_values :: "(string \<times> string list) list \<Rightarrow> bool \<Rightarrow> string \<Rightarrow> feature_value list" where
  "entry_values feats ns f =
     (case map_of feats f of Some xs \<Rightarrow> map (manifest_value feats ns) xs | None \<Rightarrow> [Crate f])"

text \<open>The map while it is built: entries hold the values of the manifest, or are the implicit
  feature of an optional dependency, and refer to what exists.\<close>

definition fm_ok :: "(string \<times> string list) list \<Rightarrow> bool \<Rightarrow> ('s, 'r) dependency list \<Rightarrow> feature_map \<Rightarrow> bool" where
  "fm_ok feats ns deps m \<longleftrightarrow>
     (ns \<or> fst ` set m \<subseteq> fst ` set feats) \<and>
     (\<forall>f vs. map_of m f = Some vs \<longrightarrow>
        (\<forall>v\<in>set vs. value_ok (known feats m) deps v) \<and>
        vs = entry_values feats ns f)"

lemma fm_okD:
  "fm_ok feats ns deps m \<Longrightarrow> map_of m f = Some vs \<Longrightarrow> v \<in> set vs \<Longrightarrow> known feats m \<subseteq> K \<Longrightarrow> value_ok K deps v"
  unfolding fm_ok_def by (blast intro: value_ok_mono)

lemma fm_ok_update:
  assumes "fm_ok feats ns deps m" "ns \<or> map_of feats f \<noteq> None"
    and "vs = entry_values feats ns f"
    and "\<And>v. v \<in> set vs \<Longrightarrow> value_ok (insert f (known feats m)) deps v"
  shows "fm_ok feats ns deps (AList.update f vs m)"
proof -
  let ?m = "AList.update f vs m"
  have known: "known feats ?m = insert f (known feats m)" by (auto simp: known_def)
  have "ns \<or> f \<in> fst ` set feats" using assms(2) by (metis in_keys_iff)
  then have keys: "ns \<or> fst ` set ?m \<subseteq> fst ` set feats" using assms(1) by (auto simp: fm_ok_def)
  have entry: "(\<forall>v\<in>set ws. value_ok (known feats ?m) deps v) \<and>
      ws = entry_values feats ns g"
    if "map_of ?m g = Some ws" for g ws
  proof (cases "g = f")
    case True
    with that have "ws = vs" by simp
    with True assms(3,4) known show ?thesis by simp
  next
    case False
    with that have "map_of m g = Some ws" by simp
    with assms(1) known show ?thesis unfolding fm_ok_def by (blast intro: value_ok_mono)
  qed
  with keys show ?thesis unfolding fm_ok_def by blast
qed

lemma build_value_Feature: "manifest_value feats ns x = Feature f \<Longrightarrow> ns \<or> map_of feats f \<noteq> None"
  by (auto simp: manifest_value_def build_value_def split: prod.splits option.splits if_splits)

lemma check_value_ok:
  assumes "fm_ok feats ns deps m" "check_value feats ns deps feature (manifest_value feats ns x) m = Inr m'"
  shows "fm_ok feats ns deps m' \<and> fst ` set m \<subseteq> fst ` set m' \<and>
    value_ok (known feats m') deps (manifest_value feats ns x)"
proof (cases "manifest_value feats ns x")
  case (Feature f)
  let ?opt = "case dep_data deps f of None \<Rightarrow> False | Some ds \<Rightarrow> list_ex optional ds"
  show ?thesis
  proof (cases "?opt \<and> ns \<and> map_of feats f = None")
    case True
    with Feature assms(2) have m': "m' = AList.update f [Crate f] m" by (simp add: check_value_def)
    from True have "value_ok K deps (Crate f)" for K
      by (auto split: option.splits simp: dep_data_optional)
    with True assms(1) have "fm_ok feats ns deps m'" unfolding m'
      by (intro fm_ok_update) (auto simp: entry_values_def)
    then show ?thesis by (auto simp: Feature m' known_def)
  next
    case False
    with Feature assms(2) build_value_Feature [OF Feature]
    have "m' = m" "map_of feats f \<noteq> None"
      by (auto simp: check_value_def Let_def split: if_splits option.splits)
    then show ?thesis using assms(1) Feature by (auto simp: known_def in_keys_iff)
  qed
next
  case (Crate c)
  with assms show ?thesis
    by (auto simp: check_value_def Let_def dep_data_optional split: if_splits option.splits)
next
  case (CrateFeature c f)
  with assms show ?thesis
    by (auto simp: check_value_def Let_def dest: dep_data_exists split: if_splits option.splits)
qed

lemma values_ok:
  assumes "foldE (value_step feats ns deps feature) xs (b, vs, m) = Inr (b', vs', m')" "fm_ok feats ns deps m"
  shows "fm_ok feats ns deps m' \<and> fst ` set m \<subseteq> fst ` set m' \<and>
    vs' = vs @ map (manifest_value feats ns) xs \<and>
    (\<forall>x\<in>set xs. value_ok (known feats m') deps (manifest_value feats ns x))"
  using assms
proof (induction xs arbitrary: b vs m)
  case Nil
  then show ?case by simp
next
  case (Cons x xs)
  have step: "value_step feats ns deps feature x (b, vs, m) = Inr st \<longleftrightarrow>
      (\<exists>m1. check_value feats ns deps feature (manifest_value feats ns x) m = Inr m1 \<and>
         st = (b \<or> (case manifest_value feats ns x of Crate n \<Rightarrow> feature = n | _ \<Rightarrow> False),
               vs @ [manifest_value feats ns x], m1))" for st
    by (auto simp: value_step_def Let_def)
  from Cons.prems(1) obtain b1 m1 where
    chk: "check_value feats ns deps feature (manifest_value feats ns x) m = Inr m1"
    and rest: "foldE (value_step feats ns deps feature) xs (b1, vs @ [manifest_value feats ns x], m1) = Inr (b', vs', m')"
    by (auto simp: step)
  note ok = check_value_ok [OF Cons.prems(2) chk]
  note ok' = Cons.IH [OF rest]
  have "known feats m1 \<subseteq> known feats m'" using ok ok' by (auto simp: known_def)
  moreover have "fst ` set m \<subseteq> fst ` set m'" using ok ok' by blast
  ultimately show ?case using ok ok' by (auto intro: value_ok_mono)
qed

lemma feature_step_ok:
  assumes "feature_step feats ns deps (f, xs) m = Inr m'" "fm_ok feats ns deps m" "map_of feats f = Some xs"
  shows "fm_ok feats ns deps m' \<and> insert f (fst ` set m) \<subseteq> fst ` set m'"
proof -
  from assms(1) obtain b b' vs m1 where
    loop: "foldE (value_step feats ns deps f) xs (b, [], m) = Inr (b', vs, m1)"
    and m': "m' = AList.update f vs m1"
    by (auto simp: feature_step_def split: prod.splits if_splits)
  have vs: "vs = map (manifest_value feats ns) xs" using values_ok [OF loop assms(2)] by simp
  have "fm_ok feats ns deps m'"
    unfolding m' using values_ok [OF loop assms(2)] assms(3) vs
    by (intro fm_ok_update) (auto simp: entry_values_def intro: value_ok_mono)
  moreover have "fst ` set m \<subseteq> fst ` set m1" using values_ok [OF loop assms(2)] by simp
  ultimately show ?thesis using assms(3) by (auto simp: m')
qed

lemma features_ok:
  assumes "foldE (feature_step feats ns deps) xs m0 = Inr m" "fm_ok feats ns deps m0"
    and "\<And>f l. (f, l) \<in> set xs \<Longrightarrow> map_of feats f = Some l"
  shows "fm_ok feats ns deps m \<and> fst ` set xs \<union> fst ` set m0 \<subseteq> fst ` set m"
  using assms
proof (induction xs arbitrary: m0)
  case Nil
  then show ?case by simp
next
  case (Cons e xs)
  obtain f l where e: "e = (f, l)" by (cases e)
  from Cons.prems(1) obtain m1 where
    step: "feature_step feats ns deps (f, l) m0 = Inr m1"
    and rest: "foldE (feature_step feats ns deps) xs m1 = Inr m"
    by (auto simp: e)
  have ok: "fm_ok feats ns deps m1 \<and> insert f (fst ` set m0) \<subseteq> fst ` set m1"
    using feature_step_ok [OF step Cons.prems(2)] Cons.prems(3) e by simp
  have "fm_ok feats ns deps m \<and> fst ` set xs \<union> fst ` set m1 \<subseteq> fst ` set m"
    using ok Cons.prems(3) by (intro Cons.IH [OF rest]) simp_all
  moreover have "fst ` set (e # xs) = insert f (fst ` set xs)" by (simp add: e)
  ultimately show ?case using ok by blast
qed

lemma check_deps_ok:
  "foldE (check_dep feats ns) deps () = Inr u \<Longrightarrow> d \<in> set deps \<Longrightarrow>
     (ns \<or> map_of feats (name_in_toml d) = None) \<and> (optional d \<longrightarrow> is_transitive d)"
proof (induction deps)
  case (Cons x xs)
  then have "check_dep feats ns x () = Inr ()" "foldE (check_dep feats ns) xs () = Inr u" by auto
  with Cons show ?case by (auto simp: check_dep_def Let_def split: if_splits)
qed simp

lemma value_to_string_build: "feature_value_to_string (build_value x p ns) ns = x"
proof (cases "splitn2 CHR ''/'' x")
  case (Pair dep rest)
  show ?thesis
  proof (cases rest)
    case None
    have "''crate:'' @ drop 6 x = x" if "starts_with ''crate:'' x"
      using that append_take_drop_id [of "length ''crate:''" x] by (simp add: starts_with_def eval_nat_numeral)
    then show ?thesis using Pair None by (auto simp: build_value_def)
  next
    case (Some f)
    then have "x = dep @ CHR ''/'' # f"
      using Pair by (simp add: splitn2_Some)
    then show ?thesis using Pair Some by (simp add: build_value_def)
  qed
qed

lemma new_summary_ok:
  assumes "new_summary pkg_id deps feats lnks ns = Inr s" "distinct (map fst feats)"
  shows "dependencies s = deps \<and> namespaced_features s = ns \<and>
    (ns \<or> fst ` set (features s) \<subseteq> fst ` set feats) \<and>
    (\<forall>f xs. map_of feats f = Some xs \<longrightarrow> map_of (features s) f = Some (map (manifest_value feats ns) xs)) \<and>
    (\<forall>f vs. map_of (features s) f = Some vs \<longrightarrow> (\<forall>v\<in>set vs. value_ok (fst ` set (features s)) deps v)) \<and>
    (\<forall>d\<in>set deps. (optional d \<longrightarrow> is_transitive d) \<and> (ns \<or> map_of feats (name_in_toml d) = None))"
proof -
  from assms(1) have s: "dependencies s = deps" "namespaced_features s = ns" and chk: "foldE (check_dep feats ns) deps () = Inr ()"
    and fm: "foldE (feature_step feats ns deps) feats [] = Inr (features s)"
    by (auto simp: new_summary_def build_feature_map_def)
  have "fm_ok feats ns deps []" by (simp add: fm_ok_def)
  from features_ok [OF fm this] assms(2)
  have ok: "fm_ok feats ns deps (features s)" and sub: "fst ` set feats \<subseteq> fst ` set (features s)" by auto
  then have "known feats (features s) = fst ` set (features s)" by (auto simp: known_def)
  moreover have "map_of (features s) f = Some (map (manifest_value feats ns) xs)" if "map_of feats f = Some xs" for f xs
  proof -
    from that have "f \<in> fst ` set feats" by (force dest: map_of_SomeD)
    with sub have "map_of (features s) f \<noteq> None" by (metis in_keys_iff subsetD)
    then obtain vs where vs: "map_of (features s) f = Some vs" by blast
    with ok have "vs = entry_values feats ns f"
      unfolding fm_ok_def by blast
    with that vs show ?thesis by (simp add: entry_values_def)
  qed
  ultimately show ?thesis
    using ok s check_deps_ok [OF chk] by (auto simp: fm_ok_def simp del: map_of_eq_Some_iff)
qed

section \<open>Properties\<close>

text \<open>
  C19: a summary that is built has a closed feature map.  Every feature of the manifest is in
  it with the values its texts stand for, and every value refers to something that exists: a
  feature of the map, an optional dependency, a dependency.  Optional dependencies are never
  dev-dependencies, and without namespaced features no feature is called like a dependency.
\<close>

theorem new_summary_features_closed:
  assumes "new_summary pkg_id deps feats lnks ns = Inr s" "distinct (map fst feats)"
  shows "(\<forall>f xs. map_of feats f = Some xs \<longrightarrow> map_of (features s) f = Some (map (manifest_value feats ns) xs)) \<and>
    (\<forall>f vs. map_of (features s) f = Some vs \<longrightarrow> (\<forall>v\<in>set vs. value_ok (fst ` set (features s)) deps v)) \<and>
    (\<forall>d\<in>set deps. (optional d \<longrightarrow> is_transitive d) \<and> (ns \<or> map_of feats (name_in_toml d) = None))"
  using new_summary_ok [OF assms] by (elim conjE) (intro conjI, assumption+)

definition opt_dep :: "(string source_id, (bool \<times> version) option) dependency" where
  "opt_dep = set_optional True example_dep"

lemmas summary_eval = new_summary_def check_dep_def build_feature_map_def feature_step_def value_step_def
  manifest_value_def build_value_def check_value_def dep_data_def opt_dep_def example_dep_def set_optional_def
  name_in_toml_def is_transitive_def splitn2_def starts_with_def

theorem new_summary_features_closed_witness:
  "\<exists>s. new_summary (pkg ''b'' (vers 1 0 0)) [opt_dep] [(''f'', [''a'']), (''g'', [''f'', ''a/x''])] None False = Inr s \<and>
     map_of (features s) ''g'' = Some [Feature ''f'', CrateFeature ''a'' ''x''] \<and>
     value_ok (fst ` set (features s)) [opt_dep] (Feature ''f'')"
proof -
  let ?feats = "[(''f'', [''a'']), (''g'', [''f'', ''a/x''])]"
  obtain s where s: "new_summary (pkg ''b'' (vers 1 0 0)) [opt_dep] ?feats None False = Inr s"
    by (simp add: summary_eval Let_def)
  have "distinct (map fst ?feats)" by simp
  note th = new_summary_features_closed [OF s this]
  have "map_of (features s) ''g'' = Some (map (manifest_value ?feats False) [''f'', ''a/x''])"
    using th by simp
  then have g: "map_of (features s) ''g'' = Some [Feature ''f'', CrateFeature ''a'' ''x'']"
    by (simp add: manifest_value_def build_value_def splitn2_def)
  with th have "value_ok (fst ` set (features s)) [opt_dep] (Feature ''f'')" by (metis list.set_intros(1))
  with s g show ?thesis by blast
qed

text \<open>
  The text of a feature value is the text it was built from, with and without namespaced
  features, so a feature printed into an index or a manifest reads back as the same value.
\<close>

theorem feature_value_roundtrip:
  "feature_value_to_string (new_feature_value x s) (namespaced_features s) = x"
  by (simp add: new_feature_value_def value_to_string_build)

text \<open>
  Replacing a source throughout a summary and replacing it back gives the same summary, if
  nothing in it was of the replacement before: what a replaced source does around its inner source.
\<close>

theorem summary_map_source_inverse:
  assumes "pid_source (package_id s) \<noteq> b" "\<forall>d\<in>set (dependencies s). dep_source_id d \<noteq> b"
  shows "summary_map_source b a (summary_map_source a b s) = s"
  using assms
  by (auto simp: summary_map_source_def map_dependencies_def override_id_def with_source_id_def Let_def
      dep_map_source_back o_def intro!: summary.equality package_id.equality map_idI)

theorem summary_map_source_inverse_witness:
  "\<exists>s :: (string source_id, (bool \<times> version) option) summary.
     dependencies s = [opt_dep] \<and>
     summary_map_source (git_id ''y'' ''y'') (git_id ''x'' ''x'')
       (summary_map_source (git_id ''x'' ''x'') (git_id ''y'' ''y'') s) = s"
proof -
  let ?s = "\<lparr>package_id = pkg ''b'' (vers 1 0 0), dependencies = [opt_dep], features = [], checksum = None,
    links = None, namespaced_features = False\<rparr>"
  have "summary_map_source (git_id ''y'' ''y'') (git_id ''x'' ''x'')
       (summary_map_source (git_id ''x'' ''x'') (git_id ''y'' ''y'') ?s) = ?s"
    by (rule summary_map_source_inverse)
       (simp_all add: pkg_def git_id_def opt_dep_def example_dep_def set_optional_def)
  then show ?thesis by (intro exI [of _ ?s]) simp
qed

end
