(* ===== verification/Requirements.thy ===== *)
theory Requirements
  imports Summary_Model
begin

text \<open>
  The features and dependencies a request turns on in one package: \<open>Method\<close> of
  \<open>src/cargo/core/resolver/types.rs\<close> and \<open>build_requirements\<close> with \<open>Requirements\<close> of
  \<open>src/cargo/core/resolver/context.rs\<close>.  The recursion over features is written with fuel; one
  more than the number of features is proved enough, and that the \<open>expect\<close> in it never fails.
\<close>

datatype res_method = Everything | Required bool "string list" bool bool

fun uses_default_features :: "res_method \<Rightarrow> bool" where
  "uses_default_features Everything = True"
| "uses_default_features (Required _ _ _ d) = d"

fun dev_deps :: "res_method \<Rightarrow> bool" where
  "dev_deps Everything = True"
| "dev_deps (Required dd _ _ _) = dd"

text \<open>\<open>Method::split_features\<close>: white space and commas separate features.\<close>

fun split_on :: "(char \<Rightarrow> bool) \<Rightarrow> string \<Rightarrow> string \<Rightarrow> string list" where
  "split_on p acc [] = [rev acc]"
| "split_on p acc (c # s) = (if p c then rev acc # split_on p [] s else split_on p (c # acc) s)"

definition is_whitespace :: "char \<Rightarrow> bool" where
  "is_whitespace c \<longleftrightarrow> (let n = of_char c :: nat in n = 32 \<or> 9 \<le> n \<and> n \<le> 13)"

definition split_features :: "string list \<Rightarrow> string list" where
  "split_features fs =
     filter (\<lambda>s. s \<noteq> [])
       (concat (map (split_on (\<lambda>c. c = CHR '','') [])
         (filter (\<lambda>s. s \<noteq> []) (concat (map (split_on is_whitespace []) fs)))))"

record requirements =
  req_deps :: "(string \<times> bool \<times> string list) list"
  used :: "string set"
  visited :: "string set"

definition new_requirements :: requirements where
  "new_requirements = \<lparr>req_deps = [], used = {}, visited = {}\<rparr>"

definition dep_entry :: "string \<Rightarrow> requirements \<Rightarrow> bool \<times> string list" where
  "dep_entry p r = (case map_of (req_deps r) p of Some e \<Rightarrow> e | None \<Rightarrow> (False, []))"

definition require_crate_feature :: "string \<Rightarrow> string \<Rightarrow> requirements \<Rightarrow> requirements" where
  "require_crate_feature p feat r =
     (let e = dep_entry p r
      in r\<lparr>used := insert p (used r), req_deps := AList.update p (fst e, snd e @ [feat]) (req_deps r)\<rparr>)"

definition seen :: "string \<Rightarrow> requirements \<Rightarrow> bool \<times> requirements" where
  "seen feat r =
     (if feat \<notin> visited r
      then (False, r\<lparr>visited := insert feat (visited r), used := insert feat (used r)\<rparr>)
      else (True, r))"

definition require_dependency :: "string \<Rightarrow> requirements \<Rightarrow> requirements" where
  "require_dependency p r =
     (case seen p r of
        (True, r') \<Rightarrow> r'
      | (False, r') \<Rightarrow> r'\<lparr>req_deps := AList.update p (True, snd (dep_entry p r')) (req_deps r')\<rparr>)"

datatype feature_error = CyclicFeature string

text \<open>\<open>require_feature\<close>, the loop in it and \<open>require_value\<close>; \<open>None\<close> where the \<open>expect\<close> fails or
  the fuel runs out.\<close>

function (sequential) require_feature ::
    "nat \<Rightarrow> feature_map \<Rightarrow> string \<Rightarrow> requirements \<Rightarrow> (feature_error, requirements) run"
and require_values ::
    "nat \<Rightarrow> feature_map \<Rightarrow> string \<Rightarrow> feature_value list \<Rightarrow> requirements \<Rightarrow> (feature_error, requirements) run"
and require_value ::
    "nat \<Rightarrow> feature_map \<Rightarrow> feature_value \<Rightarrow> requirements \<Rightarrow> (feature_error, requirements) run" where
  "require_feature 0 fm feat r = None"
| "require_feature (Suc n) fm feat r =
     (if feat = [] then Some (Inr r)
      else (case seen feat r of
              (True, r') \<Rightarrow> Some (Inr r')
            | (False, r') \<Rightarrow>
                (case map_of fm feat of
                   None \<Rightarrow> None
                 | Some fvs \<Rightarrow> require_values n fm feat fvs r')))"
| "require_values n fm feat [] r = Some (Inr r)"
| "require_values n fm feat (fv # fvs) r =
     (if fv = Feature feat then Some (Inl (CyclicFeature feat))
      else (case require_value n fm fv r of
              None \<Rightarrow> None
            | Some (Inl e) \<Rightarrow> Some (Inl e)
            | Some (Inr r') \<Rightarrow> require_values n fm feat fvs r'))"
| "require_value n fm (Feature feat) r = require_feature n fm feat r"
| "require_value n fm (Crate dep) r = Some (Inr (require_dependency dep r))"
| "require_value n fm (CrateFeature dep dep_feat) r = Some (Inr (require_crate_feature dep dep_feat r))"
  by pat_completeness auto

termination
  by (relation "measures
        [\<lambda>x. case x of Inl (n, _) \<Rightarrow> n | Inr (Inl (n, _)) \<Rightarrow> n | Inr (Inr (n, _)) \<Rightarrow> n,
         \<lambda>x. case x of Inl _ \<Rightarrow> 0 | Inr (Inl (_, _, _, fvs, _)) \<Rightarrow> 2 + length fvs | Inr (Inr _) \<Rightarrow> 1]") auto

definition requested :: "('s, 'r) summary \<Rightarrow> res_method \<Rightarrow> requirements \<Rightarrow> (feature_error, requirements) run" where
  "requested s m r =
     (let fuel = Suc (length (features s));
          all_of = bindR (foldR (require_feature fuel (features s)) (map fst (features s)) r) (\<lambda>r'.
            Some (Inr (fold (\<lambda>d. require_dependency (name_in_toml d)) (filter optional (dependencies s)) r')))
      in case m of
           Everything \<Rightarrow> all_of
         | Required _ fs all_features _ \<Rightarrow>
             if all_features then all_of
             else foldR (\<lambda>f. require_value fuel (features s) (new_feature_value f s)) fs r)"

definition build_requirements :: "('s, 'r) summary \<Rightarrow> res_method \<Rightarrow> (feature_error, requirements) run" where
  "build_requirements s m =
     (let fuel = Suc (length (features s));
          default_feature = (\<lambda>r. if map_of (features s) ''default'' \<noteq> None
                                 then require_feature fuel (features s) ''default'' r else Some (Inr r))
      in bindR (requested s m new_requirements) (\<lambda>r.
           if uses_default_features m then default_feature r else Some (Inr r)))"

section \<open>What the recursion keeps\<close>

text \<open>A value is satisfied: its feature was visited, its dependency asked for, the feature of its
  dependency recorded.\<close>

fun satisfied :: "requirements \<Rightarrow> feature_value \<Rightarrow> bool" where
  "satisfied r (Feature f) \<longleftrightarrow> f = [] \<or> f \<in> visited r"
| "satisfied r (Crate d) \<longleftrightarrow> fst (dep_entry d r)"
| "satisfied r (CrateFeature d f) \<longleftrightarrow> map_of (req_deps r) d \<noteq> None \<and> f \<in> set (snd (dep_entry d r))"

definition grows :: "requirements \<Rightarrow> requirements \<Rightarrow> bool" where
  "grows r r' \<longleftrightarrow> visited r \<subseteq> visited r' \<and> used r \<subseteq> used r' \<and> (\<forall>v. satisfied r v \<longrightarrow> satisfied r' v)"

text \<open>Visited names without a feature were asked for as dependencies; visited features have their
  values satisfied, except those still being worked on.\<close>

definition closed_upto :: "feature_map \<Rightarrow> string set \<Rightarrow> requirements \<Rightarrow> bool" where
  "closed_upto fm A r \<longleftrightarrow>
     visited r \<subseteq> used r \<and> fst ` set (req_deps r) \<subseteq> used r \<and>
     (\<forall>f\<in>visited r. case map_of fm f of None \<Rightarrow> fst (dep_entry f r)
                    | Some vs \<Rightarrow> f \<in> A \<or> (\<forall>v\<in>set vs. satisfied r v))"

lemma grows_refl [simp]: "grows r r"
  by (simp add: grows_def)

lemma grows_trans: "grows a b \<Longrightarrow> grows b c \<Longrightarrow> grows a c"
  unfolding grows_def by blast

lemma seen_grows: "seen f r = (b, r') \<Longrightarrow> grows r r' \<and> f \<in> visited r' \<and> (b \<longleftrightarrow> f \<in> visited r)"
proof -
  assume a: "seen f r = (b, r')"
  have "satisfied r v \<longrightarrow> satisfied r' v" for v
    using a by (cases v) (auto simp: seen_def dep_entry_def split: if_splits)
  with a show ?thesis by (auto simp: seen_def grows_def split: if_splits)
qed

lemma require_dependency_grows: "grows r (require_dependency d r)"
proof -
  have "satisfied r v \<longrightarrow> satisfied (require_dependency d r) v" for v
    by (cases v) (auto simp: require_dependency_def seen_def dep_entry_def)
  then show ?thesis by (auto simp: grows_def require_dependency_def seen_def)
qed

lemma require_crate_feature_grows: "grows r (require_crate_feature d f r)"
proof -
  have "satisfied r v \<longrightarrow> satisfied (require_crate_feature d f r) v" for v
    by (cases v) (auto simp: require_crate_feature_def Let_def dep_entry_def)
  then show ?thesis by (auto simp: grows_def require_crate_feature_def Let_def)
qed

lemma require_grows:
  "require_feature n fm feat r = Some (Inr r') \<Longrightarrow> grows r r'"
  "require_values n fm feat fvs r = Some (Inr r') \<Longrightarrow> grows r r'"
  "require_value n fm fv r = Some (Inr r') \<Longrightarrow> grows r r'"
proof (induction n fm feat r and n fm feat fvs r and n fm fv r arbitrary: r' and r' and r'
    rule: require_feature_require_values_require_value.induct)
  case (2 n fm feat r)
  then show ?case
    by (auto split: if_splits prod.splits bool.splits option.splits dest: seen_grows intro: grows_trans)
next
  case (4 n fm feat fv fvs r)
  then show ?case
    by (auto split: if_splits option.splits sum.splits intro: grows_trans)
qed (auto simp: require_dependency_grows require_crate_feature_grows)

lemma closed_upto_grow_entry:
  assumes "closed_upto fm A r" "grows r r'"
    and "visited r' \<subseteq> insert f (visited r)" "visited r' \<subseteq> used r'" "fst ` set (req_deps r') \<subseteq> used r'"
    and "f \<notin> visited r \<Longrightarrow> f \<in> visited r' \<Longrightarrow> (case map_of fm f of None \<Rightarrow> fst (dep_entry f r') | Some vs \<Rightarrow> f \<in> A)"
  shows "closed_upto fm A r'"
proof -
  have sat: "satisfied r v \<Longrightarrow> satisfied r' v" for v using assms(2) by (simp add: grows_def)
  have flag: "fst (dep_entry g r) \<Longrightarrow> fst (dep_entry g r')" for g using sat [of "Crate g"] by simp
  have "case map_of fm g of None \<Rightarrow> fst (dep_entry g r') | Some vs \<Rightarrow> g \<in> A \<or> (\<forall>v\<in>set vs. satisfied r' v)"
    if "g \<in> visited r'" for g
  proof (cases "g \<in> visited r")
    case True
    with assms(1) sat flag show ?thesis
      by (fastforce simp: closed_upto_def split: option.splits)
  next
    case False
    with that assms(3) have "g = f" by auto
    with False that assms(6) show ?thesis by (auto split: option.splits)
  qed
  with assms(4,5) show ?thesis by (simp add: closed_upto_def)
qed

definition crates_apart :: "feature_map \<Rightarrow> bool" where
  "crates_apart fm \<longleftrightarrow> (\<forall>f vs d. map_of fm f = Some vs \<and> Crate d \<in> set vs \<longrightarrow> map_of fm d = None)"

lemma closed_upto_mono: "closed_upto fm A r \<Longrightarrow> A \<subseteq> B \<Longrightarrow> closed_upto fm B r"
  unfolding closed_upto_def by (fastforce split: option.splits)

lemma require_dependency_closed:
  assumes "closed_upto fm A r" "map_of fm d = None"
  shows "closed_upto fm A (require_dependency d r) \<and> satisfied (require_dependency d r) (Crate d)"
proof (cases "d \<in> visited r")
  case True
  then have "require_dependency d r = r" by (simp add: require_dependency_def seen_def)
  moreover have "fst (dep_entry d r)" using assms True by (auto simp: closed_upto_def split: option.splits)
  ultimately show ?thesis using assms by simp
next
  case False
  let ?r = "require_dependency d r"
  have "visited ?r = insert d (visited r)" "used ?r = insert d (used r)"
    "fst ` set (req_deps ?r) = insert d (fst ` set (req_deps r))" "fst (dep_entry d ?r)"
    using False by (auto simp: require_dependency_def seen_def dep_entry_def)
  moreover from this have "closed_upto fm A ?r"
    using assms require_dependency_grows [of r d]
    by (intro closed_upto_grow_entry [of fm A r ?r d]) (auto simp: closed_upto_def)
  ultimately show ?thesis by simp
qed

lemma require_crate_feature_closed:
  assumes "closed_upto fm A r"
  shows "closed_upto fm A (require_crate_feature d f r) \<and> satisfied (require_crate_feature d f r) (CrateFeature d f)"
proof -
  let ?r = "require_crate_feature d f r"
  have "visited ?r = visited r" "used ?r = insert d (used r)"
    "fst ` set (req_deps ?r) = insert d (fst ` set (req_deps r))"
    and sat: "satisfied ?r (CrateFeature d f)"
    by (auto simp: require_crate_feature_def Let_def dep_entry_def)
  then have "closed_upto fm A ?r"
    using assms require_crate_feature_grows [of r d f]
    by (intro closed_upto_grow_entry [of fm A r ?r d]) (auto simp: closed_upto_def)
  with sat show ?thesis by simp
qed

lemma closed_upto_seen:
  assumes "closed_upto fm A r" "seen f r = (False, r')" "map_of fm f = Some vs"
  shows "closed_upto fm (insert f A) r'"
proof -
  have "visited r' = insert f (visited r)" "used r' = insert f (used r)" "req_deps r' = req_deps r"
    using assms(2) by (auto simp: seen_def split: if_splits)
  moreover have "closed_upto fm (insert f A) r" using assms(1) by (rule closed_upto_mono) auto
  moreover have "grows r r'" using seen_grows [OF assms(2)] by simp
  ultimately show ?thesis
    using assms(3) by (intro closed_upto_grow_entry [of fm _ r r' f]) (auto simp: closed_upto_def)
qed

lemma closed_upto_done:
  assumes "closed_upto fm (insert f A) r" "map_of fm f = Some vs" "\<forall>v\<in>set vs. satisfied r v"
  shows "closed_upto fm A r"
  using assms unfolding closed_upto_def by (fastforce split: option.splits)

lemma require_closed:
  "require_feature n fm feat r = Some (Inr r') \<Longrightarrow> closed_upto fm A r \<Longrightarrow> crates_apart fm \<Longrightarrow>
     closed_upto fm A r' \<and> satisfied r' (Feature feat)"
  "require_values n fm feat fvs r = Some (Inr r') \<Longrightarrow> closed_upto fm A r \<Longrightarrow> crates_apart fm \<Longrightarrow>
     (\<And>d. Crate d \<in> set fvs \<Longrightarrow> map_of fm d = None) \<Longrightarrow>
     closed_upto fm A r' \<and> (\<forall>v\<in>set fvs. satisfied r' v)"
  "require_value n fm fv r = Some (Inr r') \<Longrightarrow> closed_upto fm A r \<Longrightarrow> crates_apart fm \<Longrightarrow>
     (\<And>d. fv = Crate d \<Longrightarrow> map_of fm d = None) \<Longrightarrow> closed_upto fm A r' \<and> satisfied r' fv"
proof (induction n fm feat r and n fm feat fvs r and n fm fv r arbitrary: r' A and r' A and r' A
    rule: require_feature_require_values_require_value.induct)
  case (1 fm feat r)
  then show ?case by simp
next
  case (2 n fm feat r)
  show ?case
  proof (cases "feat = [] \<or> feat \<in> visited r")
    case True
    then have "r' = r" using 2(2) by (auto simp: seen_def split: if_splits)
    with True 2(3) show ?thesis by auto
  next
    case False
    then obtain r1 where s: "seen feat r = (False, r1)" by (auto simp: seen_def)
    with 2(2) False obtain vs where vs: "map_of fm feat = Some vs"
      and run: "require_values n fm feat vs r1 = Some (Inr r')"
      by (auto split: option.splits)
    have apart: "map_of fm d = None" if "Crate d \<in> set vs" for d
      using that vs 2(4) unfolding crates_apart_def by blast
    have "closed_upto fm (insert feat A) r' \<and> (\<forall>v\<in>set vs. satisfied r' v)"
      using False s vs run closed_upto_seen [OF 2(3) s vs] 2(4) apart
      by (intro 2(1) [OF _ s [symmetric] refl]) auto
    moreover have "feat \<in> visited r'"
      using seen_grows [OF s] require_grows(2) [OF run] by (auto simp: grows_def)
    ultimately show ?thesis using closed_upto_done vs by auto
  qed
next
  case (3 n fm feat r)
  then show ?case by simp
next
  case (4 n fm feat fv fvs r)
  then obtain r1 where ne: "fv \<noteq> Feature feat" and v: "require_value n fm fv r = Some (Inr r1)"
    and rest: "require_values n fm feat fvs r1 = Some (Inr r')"
    by (auto split: if_splits option.splits sum.splits)
  have 1: "closed_upto fm A r1 \<and> satisfied r1 fv"
    using 4(4,5,6) by (intro 4(1) [OF ne v]) auto
  have "closed_upto fm A r' \<and> (\<forall>v\<in>set fvs. satisfied r' v)"
    using 1 4(5,6) by (intro 4(2) [OF ne v refl rest]) auto
  with 1 require_grows(2) [OF rest] show ?case by (auto simp: grows_def)
next
  case (5 n fm feat r)
  then show ?case by simp
next
  case (6 n fm dep r)
  then show ?case using require_dependency_closed by auto
next
  case (7 n fm dep dep_feat r)
  then show ?case using require_crate_feature_closed by auto
qed

section \<open>Enough fuel, no panic\<close>

definition refs_defined :: "feature_map \<Rightarrow> feature_value list \<Rightarrow> bool" where
  "refs_defined fm vs \<longleftrightarrow> (\<forall>f. Feature f \<in> set vs \<longrightarrow> f = [] \<or> map_of fm f \<noteq> None)"

definition fm_closed :: "feature_map \<Rightarrow> bool" where
  "fm_closed fm \<longleftrightarrow> (\<forall>f vs. map_of fm f = Some vs \<longrightarrow> refs_defined fm vs)"

definition unvisited :: "feature_map \<Rightarrow> requirements \<Rightarrow> nat" where
  "unvisited fm r = card (fst ` set fm - visited r)"

lemma unvisited_grows: "grows r r' \<Longrightarrow> unvisited fm r' \<le> unvisited fm r"
  unfolding unvisited_def grows_def by (intro card_mono) auto

lemma unvisited_seen:
  assumes "seen f r = (False, r')" "map_of fm f \<noteq> None"
  shows "unvisited fm r' < unvisited fm r"
proof -
  have "f \<in> fst ` set fm - visited r" "fst ` set fm - visited r' = fst ` set fm - visited r - {f}"
    using assms by (auto simp: seen_def in_keys_iff split: if_splits)
  then show ?thesis
    unfolding unvisited_def by (metis card_Diff1_less finite_Diff finite_imageI finite_set)
qed

lemma require_total:
  "unvisited fm r < n \<Longrightarrow> fm_closed fm \<Longrightarrow> feat = [] \<or> map_of fm feat \<noteq> None \<Longrightarrow>
     require_feature n fm feat r \<noteq> None"
  "unvisited fm r < n \<Longrightarrow> fm_closed fm \<Longrightarrow> refs_defined fm fvs \<Longrightarrow> require_values n fm feat fvs r \<noteq> None"
  "unvisited fm r < n \<Longrightarrow> fm_closed fm \<Longrightarrow> refs_defined fm [fv] \<Longrightarrow> require_value n fm fv r \<noteq> None"
proof (induction n fm feat r and n fm feat fvs r and n fm fv r
    rule: require_feature_require_values_require_value.induct)
  case (1 fm feat r)
  then show ?case by simp
next
  case (2 n fm feat r)
  show ?case
  proof (cases "feat = [] \<or> feat \<in> visited r")
    case True
    then show ?thesis by (auto simp: seen_def)
  next
    case False
    then obtain r1 where s: "seen feat r = (False, r1)" by (auto simp: seen_def)
    from False 2(4) obtain vs where vs: "map_of fm feat = Some vs" by auto
    have "require_values n fm feat vs r1 \<noteq> None"
      using False vs unvisited_seen [OF s, of fm] 2(2,3)
      by (intro 2(1) [OF _ s [symmetric] refl]) (auto simp: fm_closed_def)
    with False s vs show ?thesis by simp
  qed
next
  case (3 n fm feat r)
  then show ?case by simp
next
  case (4 n fm feat fv fvs r)
  show ?case
  proof (cases "fv = Feature feat")
    case False
    have "require_value n fm fv r \<noteq> None"
      using 4(3-5) by (intro 4(1) [OF False]) (auto simp: refs_defined_def)
    moreover have "require_values n fm feat fvs r1 \<noteq> None" if "require_value n fm fv r = Some (Inr r1)" for r1
      using 4(3-5) unvisited_grows [OF require_grows(3) [OF that], of fm]
      by (intro 4(2) [OF False that refl]) (auto simp: refs_defined_def)
    ultimately show ?thesis using False by (auto split: option.splits sum.splits)
  qed simp
qed (auto simp: refs_defined_def)

lemma unvisited_fuel: "unvisited fm r < Suc (length fm)"
proof -
  have "unvisited fm r \<le> card (fst ` set fm)" unfolding unvisited_def by (intro card_mono) auto
  also have "\<dots> \<le> length fm" by (metis card_image_le card_length finite_set le_trans)
  finally show ?thesis by simp
qed

section \<open>The requirements of a package\<close>

text \<open>A step that returns, keeps the closure and satisfies its value.\<close>

definition good_step ::
    "feature_map \<Rightarrow> (requirements \<Rightarrow> (feature_error, requirements) run) \<Rightarrow> feature_value \<Rightarrow> bool" where
  "good_step fm f v \<longleftrightarrow>
     (\<forall>r. closed_upto fm {} r \<longrightarrow>
        f r \<noteq> None \<and>
        (\<forall>r'. f r = Some (Inr r') \<longrightarrow> closed_upto fm {} r' \<and> grows r r' \<and> satisfied r' v))"

lemma good_stepD:
  assumes "good_step fm f v" "closed_upto fm {} r"
  shows "f r \<noteq> None"
    and "f r = Some (Inr r') \<Longrightarrow> closed_upto fm {} r' \<and> grows r r' \<and> satisfied r' v"
  using assms by (auto simp: good_step_def)

lemma good_step_value:
  assumes "fm_closed fm" "crates_apart fm" "refs_defined fm [v]" "\<And>d. v = Crate d \<Longrightarrow> map_of fm d = None"
  shows "good_step fm (require_value (Suc (length fm)) fm v) v"
  using assms require_total(3) [OF unvisited_fuel assms(1,3)] require_closed(3) require_grows(3)
  unfolding good_step_def by blast

lemma good_step_feature:
  assumes "fm_closed fm" "crates_apart fm" "f = [] \<or> map_of fm f \<noteq> None"
  shows "good_step fm (require_feature (Suc (length fm)) fm f) (Feature f)"
proof -
  have "require_value n fm (Feature f) = require_feature n fm f" for n by (intro ext) simp
  then show ?thesis using good_step_value [of fm "Feature f"] assms by (simp add: refs_defined_def)
qed

lemma foldR_good:
  assumes "\<And>x. x \<in> set xs \<Longrightarrow> good_step fm (f x) (g x)" "closed_upto fm {} r"
  shows "foldR f xs r \<noteq> None \<and>
    (\<forall>r'. foldR f xs r = Some (Inr r') \<longrightarrow> closed_upto fm {} r' \<and> grows r r' \<and> (\<forall>x\<in>set xs. satisfied r' (g x)))"
  using assms
proof (induction xs arbitrary: r)
  case Nil
  then show ?case by simp
next
  case (Cons x xs)
  have x: "good_step fm (f x) (g x)" using Cons.prems(1) by simp
  note step = good_stepD [OF x Cons.prems(2)]
  have IH: "foldR f xs r1 \<noteq> None \<and>
    (\<forall>r'. foldR f xs r1 = Some (Inr r') \<longrightarrow> closed_upto fm {} r' \<and> grows r1 r' \<and> (\<forall>x\<in>set xs. satisfied r' (g x)))"
    if "f x r = Some (Inr r1)" for r1
    using step(2) [OF that] Cons.prems(1) by (intro Cons.IH) auto
  have "foldR f (x # xs) r \<noteq> None"
    using step(1) IH by (auto simp: bindR_def split: option.splits sum.splits)
  moreover have "closed_upto fm {} r' \<and> grows r r' \<and> (\<forall>y\<in>set (x # xs). satisfied r' (g y))"
    if "foldR f (x # xs) r = Some (Inr r')" for r'
  proof -
    from that obtain r1 where r1: "f x r = Some (Inr r1)" "foldR f xs r1 = Some (Inr r')" by auto
    with step(2) [OF r1(1)] IH [OF r1(1)] show ?thesis
      by (auto simp: grows_def intro: grows_trans)
  qed
  ultimately show ?case by blast
qed

lemma fold_dependencies:
  assumes "closed_upto fm {} r" "\<And>d. d \<in> set ds \<Longrightarrow> map_of fm (h d) = None"
  shows "closed_upto fm {} (fold (\<lambda>d. require_dependency (h d)) ds r) \<and>
    grows r (fold (\<lambda>d. require_dependency (h d)) ds r) \<and>
    (\<forall>d\<in>set ds. satisfied (fold (\<lambda>d. require_dependency (h d)) ds r) (Crate (h d)))"
  using assms
proof (induction ds arbitrary: r)
  case (Cons d ds)
  let ?r = "require_dependency (h d) r"
  have 1: "closed_upto fm {} ?r \<and> satisfied ?r (Crate (h d))"
    using Cons.prems by (intro require_dependency_closed) auto
  note 2 = require_dependency_grows [of r "h d"]
  have "closed_upto fm {} (fold (\<lambda>d. require_dependency (h d)) ds ?r) \<and>
    grows ?r (fold (\<lambda>d. require_dependency (h d)) ds ?r) \<and>
    (\<forall>d\<in>set ds. satisfied (fold (\<lambda>d. require_dependency (h d)) ds ?r) (Crate (h d)))"
    using 1 Cons.prems by (intro Cons.IH) auto
  with 1 2 show ?case by (auto simp: grows_def simp del: satisfied.simps intro: grows_trans)
qed simp

text \<open>What a request asks of the requirements: every requested value, or everything there is.\<close>

definition request_met :: "('s, 'r) summary \<Rightarrow> res_method \<Rightarrow> requirements \<Rightarrow> bool" where
  "request_met s m r \<longleftrightarrow>
     (case m of
        Required _ fs False _ \<Rightarrow> \<forall>f\<in>set fs. satisfied r (new_feature_value f s)
      | _ \<Rightarrow>
          (\<forall>f\<in>set (map fst (features s)). satisfied r (Feature f)) \<and>
          (\<forall>d\<in>set (dependencies s). optional d \<longrightarrow> satisfied r (Crate (name_in_toml d))))"

lemma request_met_grows: "request_met s m r \<Longrightarrow> grows r r' \<Longrightarrow> request_met s m r'"
  by (auto simp: request_met_def grows_def simp del: satisfied.simps split: res_method.splits bool.splits)

text \<open>A summary whose feature map is closed and keeps features and optional dependencies apart, as
  every summary without namespaced features does.\<close>

definition features_wf :: "('s, 'r) summary \<Rightarrow> bool" where
  "features_wf s \<longleftrightarrow> \<not> namespaced_features s \<and> fm_closed (features s) \<and> crates_apart (features s) \<and>
     (\<forall>d\<in>set (dependencies s). map_of (features s) (name_in_toml d) = None)"

lemma new_summary_features_wf:
  assumes "new_summary pkg_id deps feats lnks False = Inr s" "distinct (map fst feats)"
  shows "features_wf s"
proof -
  note ok = new_summary_ok [OF assms]
  have apart: "map_of (features s) (name_in_toml d) = None" if "d \<in> set deps" for d
  proof -
    have "map_of feats (name_in_toml d) = None" using ok that by auto
    then have "name_in_toml d \<notin> fst ` set (features s)" using ok by (metis in_keys_iff subsetD)
    then show ?thesis by (simp add: in_keys_iff)
  qed
  have vals: "value_ok (fst ` set (features s)) deps v" if "map_of (features s) f = Some vs" "v \<in> set vs" for f vs v
    using ok that by blast
  have "fm_closed (features s)"
    using vals by (fastforce simp: fm_closed_def refs_defined_def in_keys_iff)
  moreover have "crates_apart (features s)"
    unfolding crates_apart_def using vals apart by fastforce
  ultimately show ?thesis using ok apart by (simp add: features_wf_def)
qed

lemma new_requirements_closed: "closed_upto fm A new_requirements"
  by (simp add: closed_upto_def new_requirements_def)

lemma requested_ok:
  assumes wf: "features_wf s" and r: "closed_upto (features s) {} r"
  shows "requested s m r \<noteq> None \<and>
    (\<forall>r'. requested s m r = Some (Inr r') \<longrightarrow> closed_upto (features s) {} r' \<and> request_met s m r')"
proof -
  let ?fm = "features s"
  let ?n = "Suc (length ?fm)"
  have fm: "fm_closed ?fm" "crates_apart ?fm" using wf by (auto simp: features_wf_def)
  define all_of where "all_of = bindR (foldR (require_feature ?n ?fm) (map fst ?fm) r) (\<lambda>r'.
    Some (Inr (fold (\<lambda>d. require_dependency (name_in_toml d)) (filter optional (dependencies s)) r')))"
  have good: "good_step ?fm (require_feature ?n ?fm x) (Feature x)" if "x \<in> set (map fst ?fm)" for x
    using that fm by (intro good_step_feature) (auto simp: in_keys_iff)
  note step = foldR_good [where xs = "map fst ?fm" and f = "require_feature ?n ?fm" and g = Feature, OF good r]
  have deps: "closed_upto ?fm {} r2 \<and> grows r1 r2 \<and>
      (\<forall>d\<in>set (filter optional (dependencies s)). satisfied r2 (Crate (name_in_toml d)))"
    if "closed_upto ?fm {} r1" "r2 = fold (\<lambda>d. require_dependency (name_in_toml d)) (filter optional (dependencies s)) r1"
    for r1 r2
    using wf unfolding that(2) by (intro fold_dependencies that(1)) (auto simp: features_wf_def)
  have all1: "all_of \<noteq> None"
    using step by (auto simp: all_of_def bindR_def split: option.splits sum.splits)
  have all2: "closed_upto ?fm {} r' \<and> (\<forall>f\<in>set (map fst ?fm). satisfied r' (Feature f)) \<and>
      (\<forall>d\<in>set (dependencies s). optional d \<longrightarrow> satisfied r' (Crate (name_in_toml d)))"
    if "all_of = Some (Inr r')" for r'
  proof -
    from that obtain r1 where r1: "foldR (require_feature ?n ?fm) (map fst ?fm) r = Some (Inr r1)"
      and r': "r' = fold (\<lambda>d. require_dependency (name_in_toml d)) (filter optional (dependencies s)) r1"
      by (auto simp: all_of_def)
    with step have 1: "closed_upto ?fm {} r1" "\<forall>f\<in>set (map fst ?fm). satisfied r1 (Feature f)" by blast+
    from deps [OF 1(1) r'] 1(2) show ?thesis by (auto simp: grows_def simp del: satisfied.simps)
  qed
  have vstep: "good_step ?fm (require_value ?n ?fm (new_feature_value f s)) (new_feature_value f s)" for f
    using fm wf
    by (intro good_step_value)
       (auto simp: features_wf_def new_feature_value_def build_value_def refs_defined_def
         split: prod.splits option.splits if_splits)
  note step' = foldR_good [where f = "\<lambda>f. require_value ?n ?fm (new_feature_value f s)"
      and g = "\<lambda>f. new_feature_value f s", OF vstep r]
  show ?thesis
    using all1 all2 step'
    by (cases m) (auto simp: requested_def Let_def all_of_def [symmetric] request_met_def
        simp del: satisfied.simps split: if_splits bool.splits)
qed

lemma build_requirements_ok:
  assumes wf: "features_wf s"
  shows "build_requirements s m \<noteq> None \<and>
    (\<forall>r. build_requirements s m = Some (Inr r) \<longrightarrow> closed_upto (features s) {} r \<and> request_met s m r \<and>
       (uses_default_features m \<and> map_of (features s) ''default'' \<noteq> None \<longrightarrow> satisfied r (Feature ''default'')))"
proof -
  let ?fm = "features s"
  let ?d = "require_feature (Suc (length ?fm)) ?fm ''default''"
  have fm: "fm_closed ?fm" "crates_apart ?fm" using wf by (auto simp: features_wf_def)
  note req = requested_ok [OF wf new_requirements_closed, of m]
  have good: "good_step ?fm ?d (Feature ''default'')" if "map_of ?fm ''default'' \<noteq> None"
    using that fm by (intro good_step_feature) auto
  have "build_requirements s m \<noteq> None"
    using req good_stepD(1) [OF good]
    by (auto simp: build_requirements_def Let_def bindR_def split: option.splits sum.splits)
  moreover have "closed_upto ?fm {} r \<and> request_met s m r \<and>
       (uses_default_features m \<and> map_of ?fm ''default'' \<noteq> None \<longrightarrow> satisfied r (Feature ''default''))"
    if "build_requirements s m = Some (Inr r)" for r
  proof -
    from that obtain r1 where r1: "requested s m new_requirements = Some (Inr r1)"
      and r: "(if uses_default_features m then if map_of ?fm ''default'' \<noteq> None then ?d r1 else Some (Inr r1)
               else Some (Inr r1)) = Some (Inr r)"
      by (auto simp: build_requirements_def Let_def simp del: not_None_eq)
    have 1: "closed_upto ?fm {} r1" "request_met s m r1" using req r1 by blast+
    show ?thesis
    proof (cases "uses_default_features m \<and> map_of ?fm ''default'' \<noteq> None")
      case True
      with r have "?d r1 = Some (Inr r)" by simp
      with good_stepD(2) [OF good 1(1)] True 1(2) show ?thesis by (blast intro: request_met_grows)
    next
      case False
      with r 1 show ?thesis by (auto split: if_splits)
    qed
  qed
  ultimately show ?thesis by blast
qed

section \<open>Properties\<close>

text \<open>
  C18: for a package without namespaced features the requirements of every request are
  computed: the recursion ends and never fails its \<open>expect\<close>; the result is an error (a
  feature that lists itself) or closed.  Everything requested is satisfied, the default feature
  where it applies, and so is every value of every feature that was turned on: the features
  it names are turned on, the optional dependencies it names are asked for, the features of
  dependencies it names are recorded.
\<close>

theorem build_requirements_closed:
  assumes "new_summary pkg_id deps feats lnks False = Inr s" "distinct (map fst feats)"
  shows "\<exists>res. build_requirements s m = Some res \<and>
    (case res of
       Inl e \<Rightarrow> True
     | Inr r \<Rightarrow>
         request_met s m r \<and>
         (uses_default_features m \<and> map_of (features s) ''default'' \<noteq> None \<longrightarrow> satisfied r (Feature ''default'')) \<and>
         (\<forall>f\<in>visited r. \<forall>vs. map_of (features s) f = Some vs \<longrightarrow> (\<forall>v\<in>set vs. satisfied r v)) \<and>
         visited r \<subseteq> used r \<and> fst ` set (req_deps r) \<subseteq> used r)"
proof -
  note ok = build_requirements_ok [OF new_summary_features_wf [OF assms], of m]
  then obtain res where res: "build_requirements s m = Some res" by blast
  show ?thesis
  proof (cases res)
    case (Inr r)
    then have "closed_upto (features s) {} r \<and> request_met s m r \<and>
       (uses_default_features m \<and> map_of (features s) ''default'' \<noteq> None \<longrightarrow> satisfied r (Feature ''default''))"
      using ok res by blast
    then show ?thesis using res Inr
      by (auto simp: closed_upto_def simp del: satisfied.simps split: option.splits)
  qed (simp add: res)
qed

definition feat_summary :: "(string source_id, (bool \<times> version) option) summary" where
  "feat_summary =
     \<lparr>package_id = pkg ''b'' (vers 1 0 0), dependencies = [opt_dep],
      features = [(''f'', [Crate ''a'']), (''g'', [Feature ''f'', CrateFeature ''a'' ''x''])],
      checksum = None, links = None, namespaced_features = False\<rparr>"

theorem build_requirements_closed_witness:
  "\<exists>r. build_requirements feat_summary (Required False [''g''] False True) = Some (Inr r) \<and>
     ''f'' \<in> visited r \<and> satisfied r (Crate ''a'') \<and> satisfied r (CrateFeature ''a'' ''x'')"
proof -
  let ?m = "Required False [''g''] False True"
  have s: "new_summary (pkg ''b'' (vers 1 0 0)) [opt_dep] [(''f'', [''a'']), (''g'', [''f'', ''a/x''])] None False = Inr feat_summary"
    by (simp add: summary_eval feat_summary_def Let_def)
  have "distinct (map fst [(''f'', [''a'']), (''g'', [''f'', ''a/x''])])" by simp
  from build_requirements_closed [OF s this, of ?m] obtain res where
    res: "build_requirements feat_summary ?m = Some res" and
    ok: "case res of Inl e \<Rightarrow> True | Inr r \<Rightarrow> request_met feat_summary ?m r \<and>
      (uses_default_features ?m \<and> map_of (features feat_summary) ''default'' \<noteq> None \<longrightarrow> satisfied r (Feature ''default'')) \<and>
      (\<forall>f\<in>visited r. \<forall>vs. map_of (features feat_summary) f = Some vs \<longrightarrow> (\<forall>v\<in>set vs. satisfied r v)) \<and>
      visited r \<subseteq> used r \<and> fst ` set (req_deps r) \<subseteq> used r"
    by blast
  have "\<exists>r. res = Inr r"
    using res by (auto simp: build_requirements_def requested_def feat_summary_def new_feature_value_def
        build_value_def splitn2_def Let_def new_requirements_def seen_def require_dependency_def
        require_crate_feature_def dep_entry_def)
  then obtain r where r: "res = Inr r" by blast
  have g: "''g'' \<in> visited r" using ok r
    by (auto simp: request_met_def feat_summary_def new_feature_value_def build_value_def splitn2_def)
  have "\<forall>v\<in>set [Feature ''f'', CrateFeature ''a'' ''x'']. satisfied r v"
    using ok r g by (auto simp: feat_summary_def simp del: satisfied.simps)
  then have f: "''f'' \<in> visited r" "satisfied r (CrateFeature ''a'' ''x'')" by auto
  have "\<forall>v\<in>set [Crate ''a'']. satisfied r v"
    using ok r f by (auto simp: feat_summary_def simp del: satisfied.simps)
  then show ?thesis using res r f by auto
qed

text \<open>
  With namespaced features, a feature that turns on the optional dependency of its own
  name, \<open>foo = ["crate:foo"]\<close>, does not: the dependency shares the set of visited names with the
  feature, so asking for it inside the feature is taken as already done, and the request for
  the feature succeeds without the dependency.
\<close>

theorem namespaced_same_name_not_enabled:
  assumes "namespaced_features s" "map_of (features s) f = Some [Crate f]" "f \<noteq> []"
    and "CHR ''/'' \<notin> set f" "\<not> starts_with ''crate:'' f"
  shows "\<exists>r. build_requirements s (Required False [f] False False) = Some (Inr r) \<and>
    f \<in> used r \<and> \<not> satisfied r (Crate f) \<and> req_deps r = []"
  using assms
  by (cases "length (features s)")
     (auto simp: build_requirements_def requested_def new_feature_value_def build_value_def Let_def
      new_requirements_def seen_def require_dependency_def dep_entry_def)

theorem namespaced_same_name_not_enabled_witness:
  "\<exists>s r. new_summary (pkg ''b'' (vers 1 0 0)) [opt_dep] [(''a'', [''crate:a''])] None True = Inr s \<and>
     build_requirements s (Required False [''a''] False False) = Some (Inr r) \<and> req_deps r = []"
proof -
  obtain s where s: "new_summary (pkg ''b'' (vers 1 0 0)) [opt_dep] [(''a'', [''crate:a''])] None True = Inr s"
    and ns: "namespaced_features s" "map_of (features s) ''a'' = Some [Crate ''a'']"
    by (simp add: summary_eval Let_def)
  have "''a'' \<noteq> []" "CHR ''/'' \<notin> set ''a''" "\<not> starts_with ''crate:'' ''a''"
    by (simp_all add: starts_with_def)
  from namespaced_same_name_not_enabled [OF ns this] s show ?thesis by blast
qed

text \<open>
  With namespaced features, a request for a feature that the package does not define is not an error: the
  \<open>expect\<close> of \<open>require_feature\<close> fails.
\<close>

theorem namespaced_undefined_feature_panics:
  assumes "namespaced_features s" "map_of (features s) f = None" "f \<noteq> []"
    and "CHR ''/'' \<notin> set f" "\<not> starts_with ''crate:'' f"
  shows "build_requirements s (Required dd [f] False df) = None"
  using assms
  by (simp add: build_requirements_def requested_def new_feature_value_def build_value_def new_requirements_def seen_def Let_def)

end
