(* ===== verification/Pkg_Graph.thy ===== *)
theory Pkg_Graph
  imports Prelude
begin

text \<open>
  The generic directed graph \<open>src/cargo/util/graph.rs\<close> that holds a resolution: a map from a
  node to the map of its children with the edge data.  \<open>link\<close> hands out a mutable reference to
  the edge; the model takes the function the caller applies to it (and the \<open>Default\<close> value a new
  edge starts with).  The theory proves the lookup laws of the updates and that \<open>path_to_top\<close>
  ends and returns a path without repetition that cannot be extended.
\<close>

section \<open>The structure\<close>

record ('n, 'e) graph =
  nodes :: "('n \<times> ('n \<times> 'e) list) list"

definition new_graph :: "('n, 'e) graph" where
  "new_graph = \<lparr>nodes = []\<rparr>"

text \<open>The children of a node with their edges; a node that is not there has none.\<close>

definition edges :: "('n, 'e) graph \<Rightarrow> 'n \<Rightarrow> ('n \<times> 'e) list" where
  "edges g n = (case map_of (nodes g) n of None \<Rightarrow> [] | Some m \<Rightarrow> m)"

definition add :: "'n \<Rightarrow> ('n, 'e) graph \<Rightarrow> ('n, 'e) graph" where
  "add n g = g\<lparr>nodes := AList.update n (edges g n) (nodes g)\<rparr>"

definition link :: "'e \<Rightarrow> 'n \<Rightarrow> 'n \<Rightarrow> ('e \<Rightarrow> 'e) \<Rightarrow> ('n, 'e) graph \<Rightarrow> ('n, 'e) graph" where
  "link dflt n child f g =
     g\<lparr>nodes := AList.update n
        (AList.update child
           (f (case map_of (edges g n) child of None \<Rightarrow> dflt | Some e \<Rightarrow> e))
           (edges g n)) (nodes g)\<rparr>"

definition contains :: "('n, 'e) graph \<Rightarrow> 'n \<Rightarrow> bool" where
  "contains g k \<longleftrightarrow> map_of (nodes g) k \<noteq> None"

definition edge :: "('n, 'e) graph \<Rightarrow> 'n \<Rightarrow> 'n \<Rightarrow> 'e option" where
  "edge g n1 n2 = Option.bind (map_of (nodes g) n1) (\<lambda>m. map_of m n2)"

definition iter :: "('n, 'e) graph \<Rightarrow> 'n list" where
  "iter g = keys (nodes g)"

text \<open>
  \<open>path_to_top\<close>: from a package, the first node in iteration order that depends on it and is
  not on the path yet, again and again.
\<close>

definition first_pkg_depending_on :: "('n, 'e) graph \<Rightarrow> 'n \<Rightarrow> 'n list \<Rightarrow> 'n option" where
  "first_pkg_depending_on g pkg res =
     map_option fst
       (List.find (\<lambda>(n, _). n \<notin> set res)
          (filter (\<lambda>(_, adjacent). pkg \<in> set (keys adjacent)) (nodes g)))"

lemma first_pkg_SomeD:
  "first_pkg_depending_on g pkg res = Some p \<Longrightarrow>
     p \<notin> set res \<and> (\<exists>adjacent. (p, adjacent) \<in> set (nodes g) \<and> pkg \<in> set (keys adjacent))"
  unfolding first_pkg_depending_on_def
  by (auto simp: find_Some_iff in_set_conv_nth [symmetric] dest!: nth_mem)

lemma first_pkg_NoneD:
  "first_pkg_depending_on g pkg res = None \<Longrightarrow> (p, adjacent) \<in> set (nodes g) \<Longrightarrow>
     pkg \<in> set (keys adjacent) \<Longrightarrow> p \<in> set res"
  by (auto simp: first_pkg_depending_on_def find_None_iff)

function path_up :: "('n, 'e) graph \<Rightarrow> 'n \<Rightarrow> 'n list \<Rightarrow> 'n list" where
  "path_up g pkg res =
     (case first_pkg_depending_on g pkg res of
        None \<Rightarrow> res
      | Some p \<Rightarrow> path_up g p (res @ [p]))"
  by pat_completeness auto
termination
proof (relation "measure (\<lambda>(g, pkg, res). card (set (keys (nodes g)) - set res))", goal_cases)
  case 1
  then show ?case by simp
next
  case (2 g pkg res p)
  then have "p \<in> set (keys (nodes g)) - set res"
    by (force dest: first_pkg_SomeD)
  then have "set (keys (nodes g)) - set (res @ [p]) \<subset> set (keys (nodes g)) - set res"
    by auto
  then show ?case
    by (simp only: in_measure split_conv) (rule psubset_card_mono, simp)
qed

declare path_up.simps [simp del]

definition path_to_top :: "('n, 'e) graph \<Rightarrow> 'n \<Rightarrow> 'n list" where
  "path_to_top g pkg = path_up g pkg [pkg]"

section \<open>Lookups after updates\<close>

definition wf_graph :: "('n, 'e) graph \<Rightarrow> bool" where
  "wf_graph g \<longleftrightarrow> wf_alist (nodes g) \<and> (\<forall>(n, m) \<in> set (nodes g). wf_alist m)"

lemma wf_graph_edges: "wf_graph g \<Longrightarrow> wf_alist (edges g n)"
  by (auto simp: wf_graph_def edges_def split: option.splits dest: map_of_SomeD)

lemma wf_graph_update:
  assumes "wf_graph g" and "wf_alist m"
  shows "wf_graph (g\<lparr>nodes := AList.update n m (nodes g)\<rparr>)"
proof -
  note set_alist_update_subset [of n m "nodes g"]
  with assms show ?thesis by (auto simp: wf_graph_def)
qed

lemma wf_new_graph [simp]: "wf_graph new_graph"
  by (simp add: wf_graph_def new_graph_def)

lemma wf_add [simp]: "wf_graph g \<Longrightarrow> wf_graph (add n g)"
  unfolding add_def by (intro wf_graph_update wf_graph_edges)

lemma wf_link [simp]: "wf_graph g \<Longrightarrow> wf_graph (link d n c f g)"
  unfolding link_def by (intro wf_graph_update wf_alist_update wf_graph_edges)

lemma contains_add [simp]: "contains (add n g) k \<longleftrightarrow> k = n \<or> contains g k"
  by (simp add: contains_def add_def)

lemma contains_link [simp]: "contains (link d n c f g) k \<longleftrightarrow> k = n \<or> contains g k"
  by (simp add: contains_def link_def)

lemma contains_new [simp]: "\<not> contains new_graph k"
  by (simp add: contains_def new_graph_def)

lemma contains_iter: "contains g k \<longleftrightarrow> k \<in> set (iter g)"
  by (simp add: contains_def iter_def in_keys_iff)

lemma edge_new [simp]: "edge new_graph a b = None"
  by (simp add: edge_def new_graph_def)

lemma edge_add [simp]: "edge (add n g) a b = edge g a b"
  by (auto simp: edge_def add_def edges_def split: option.splits)

lemma edge_link [simp]:
  "edge (link d n c f g) a b =
     (if a = n \<and> b = c then Some (f (case edge g n c of None \<Rightarrow> d | Some e \<Rightarrow> e)) else edge g a b)"
  by (auto simp: edge_def link_def edges_def split: option.splits)

lemma edge_edges: "wf_graph g \<Longrightarrow> edge g a b = Some e \<longleftrightarrow> (b, e) \<in> set (edges g a)"
  by (cases "map_of (nodes g) a")
    (auto simp: edge_def edges_def wf_graph_def dest: map_of_SomeD)

lemma edge_contains: "edge g a b = Some e \<Longrightarrow> contains g a"
  by (auto simp: edge_def contains_def split: bind_splits)

section \<open>Paths to the top\<close>

text \<open>Each element of the list is depended on by the next one.\<close>

definition dependents_chain :: "('n, 'e) graph \<Rightarrow> 'n list \<Rightarrow> bool" where
  "dependents_chain g ps \<longleftrightarrow>
     (\<forall>i. Suc i < length ps \<longrightarrow> (\<exists>e. edge g (ps ! Suc i) (ps ! i) = Some e))"

lemma dependents_chain_snoc:
  "ps \<noteq> [] \<Longrightarrow> dependents_chain g (ps @ [p]) \<longleftrightarrow>
     dependents_chain g ps \<and> (\<exists>e. edge g p (last ps) = Some e)"
proof -
  assume ne: "ps \<noteq> []"
  then have "Suc i < length (ps @ [p]) \<longleftrightarrow> Suc i < length ps \<or> i = length ps - 1" for i
    by (cases ps) auto
  with ne show ?thesis
    unfolding dependents_chain_def
    by (auto simp: nth_append last_conv_nth Suc_diff_le less_Suc_eq)
qed

lemma edge_of_node:
  assumes "wf_graph g" and "(p, adjacent) \<in> set (nodes g)" and "pkg \<in> set (keys adjacent)"
  shows "\<exists>e. edge g p pkg = Some e"
proof -
  from assms have "map_of (nodes g) p = Some adjacent" by (simp add: wf_graph_def)
  with assms(3) show ?thesis by (auto simp: edge_def in_keys_iff)
qed

lemma path_up_spec:
  assumes "wf_graph g" and "res \<noteq> []" "last res = pkg" "distinct res" "dependents_chain g res"
  shows "\<exists>more. path_up g pkg res = res @ more \<and> distinct (res @ more) \<and>
    dependents_chain g (res @ more) \<and>
    (\<forall>p e. edge g p (last (res @ more)) = Some e \<longrightarrow> p \<in> set (res @ more))"
  using assms
proof (induction g pkg res rule: path_up.induct)
  case (1 g pkg res)
  show ?case
  proof (cases "first_pkg_depending_on g pkg res")
    case None
    have "p \<in> set res" if "edge g p pkg = Some e" for p e
    proof -
      from that obtain adj where "map_of (nodes g) p = Some adj" "map_of adj pkg = Some e"
        by (auto simp: edge_def split: bind_splits)
      then show ?thesis
        using first_pkg_NoneD [OF None, of p adj] by (force dest: map_of_SomeD)
    qed
    with None 1 show ?thesis
      by (intro exI [of _ "[]"]) (auto simp: path_up.simps [of g pkg res])
  next
    case (Some p)
    from first_pkg_SomeD [OF Some] edge_of_node [OF "1.prems"(1)]
    have p: "p \<notin> set res" and e: "\<exists>e. edge g p pkg = Some e" by blast+
    have "dependents_chain g (res @ [p])"
      using "1.prems" e by (simp add: dependents_chain_snoc)
    with "1.IH" [OF Some] "1.prems" p obtain more where
        "path_up g p (res @ [p]) = (res @ [p]) @ more" "distinct ((res @ [p]) @ more)"
        "dependents_chain g ((res @ [p]) @ more)"
        "\<forall>q e. edge g q (last ((res @ [p]) @ more)) = Some e \<longrightarrow> q \<in> set ((res @ [p]) @ more)"
      by auto
    with Some show ?thesis
      by (intro exI [of _ "p # more"]) (simp add: path_up.simps [of g pkg res])
  qed
qed

text \<open>\<open>path_to_top\<close> always ends, also on graphs with cycles; its result starts at the
  package, has no repetition, each element is depended on by the next, and every node that
  depends on the last element is on the path already.\<close>

theorem path_to_top_correct:
  assumes "wf_graph g"
  shows "hd (path_to_top g pkg) = pkg \<and> distinct (path_to_top g pkg) \<and>
    dependents_chain g (path_to_top g pkg) \<and>
    (\<forall>p e. edge g p (last (path_to_top g pkg)) = Some e \<longrightarrow> p \<in> set (path_to_top g pkg))"
proof -
  have "dependents_chain g [pkg]" by (simp add: dependents_chain_def)
  with path_up_spec [OF assms, of "[pkg]" pkg] show ?thesis
    by (auto simp: path_to_top_def)
qed

theorem path_to_top_correct_witness:
  "path_to_top (link () ''a'' ''b'' id (link () ''b'' ''c'' id new_graph)) ''c'' = [''c'', ''b'', ''a''] \<and>
   distinct (path_to_top (link () ''a'' ''b'' id (link () ''b'' ''c'' id new_graph)) ''c'')"
proof -
  let ?g = "link () ''a'' ''b'' id (link () ''b'' ''c'' id new_graph)"
  have "path_to_top ?g ''c'' = [''c'', ''b'', ''a'']" by code_simp
  moreover have "wf_graph ?g" by simp
  ultimately show ?thesis using path_to_top_correct [of ?g "''c''"] by blast
qed

end
