(* ===== verification/Resolver_Context.thy ===== *)
theory Resolver_Context
  imports Requirements Pkg_Graph
begin

text \<open>
  The resolver's view of the registry and its context: \<open>RegistryQueryer\<close>, \<open>Candidate\<close> and the
  errors of \<open>src/cargo/core/resolver/types.rs\<close>, and \<open>Context\<close> of
  \<open>src/cargo/core/resolver/context.rs\<close>.  The registry is the trait object the resolver is handed,
  a parameter: a function from dependencies to summaries, which the documentation of \<open>resolve\<close>
  requires to give the same answer every time.  A replacement specification is the set of package ids it
  matches.  \<open>Rc\<close> and cloning disappear; a construction list \<open>RcList\<close> is a list with its newest
  element first.
\<close>

section \<open>Errors\<close>

datatype conflict_reason = Semver | Links string | MissingFeatures string

type_synonym 's conflict_map = "('s package_id \<times> conflict_reason) list"

datatype ('s, 'r) resolve_error =
    RegistryFailed string
  | NoMatchForOverride "('s, 'r) dependency"
  | ReplacementMatchedMultiple "('s, 'r) dependency" "'s package_id list"
  | OverlappingReplacements "'s package_id"
  | DuplicateLinks string
  | FeatureError feature_error
  | SlashInFeature string
  | PackageMissingFeatures "'s package_id" string
  | ActivationError "'s package_id" "('s, 'r) dependency" "'s conflict_map"
  | CyclicPackage "'s package_id"
  | LockfileCollision "'s package_id" "'s package_id"
  | ShellFailed string

datatype ('s, 'r) activate_error = Fatal "('s, 'r) resolve_error" | Conflict "'s package_id" conflict_reason

fun is_links :: "conflict_reason \<Rightarrow> bool" where
  "is_links (Links _) \<longleftrightarrow> True"
| "is_links _ \<longleftrightarrow> False"

fun is_missing_features :: "conflict_reason \<Rightarrow> bool" where
  "is_missing_features (MissingFeatures _) \<longleftrightarrow> True"
| "is_missing_features _ \<longleftrightarrow> False"

section \<open>Querying the registry\<close>

record ('s, 'r) candidate =
  cand_summary :: "('s, 'r) summary"
  replace :: "('s, 'r) summary option"

text \<open>
  What the progress display of the search depends on, besides its own state: whether the build has debug
  assertions, whether there is a configuration whose error output is a terminal, the time spent in the search
  (that of the registry taken off) at the \<open>n\<close>-th call, in milliseconds, and the error writing the line may give.
  It is carried along with the queryer, the other argument of the search that does not change.
\<close>

record terminal =
  debug_assertions :: bool
  err_tty :: bool
  search_time :: "int \<Rightarrow> int"
  status_error :: "string option"

definition quiet_terminal :: terminal where
  "quiet_terminal = \<lparr>debug_assertions = False, err_tty = False, search_time = (\<lambda>_. 0), status_error = None\<rparr>"

record ('s, 'r) queryer =
  reg_query :: "('s, 'r) dependency \<Rightarrow> string + ('s, 'r) summary list"
  replacements :: "(('s package_id \<Rightarrow> bool) \<times> ('s, 'r) dependency) list"
  try_to_use :: "'s package_id list"
  minimal_versions :: bool
  version_order :: "version \<Rightarrow> version \<Rightarrow> ordering"
  terminal :: terminal

type_synonym ('s, 'r) query_cache = "(('s, 'r) dependency \<times> ('s, 'r) candidate list) list"

definition run_query :: "('s, 'r) queryer \<Rightarrow> ('s, 'r) dependency \<Rightarrow> (('s, 'r) resolve_error, ('s, 'r) summary list) run" where
  "run_query Q dep = Some (case reg_query Q dep of Inl e \<Rightarrow> Inl (RegistryFailed e) | Inr ss \<Rightarrow> Inr ss)"

text \<open>The override of one candidate; \<open>None\<close> is one of the two assertions.  The specification of a replacement is the set of
  package ids it matches; source ids are taken up to \<open>==\<close> here, under which the url that a specification compares
  with may differ for git sources that have one canonical url.\<close>

definition apply_replacement ::
    "('s, 'r) queryer \<Rightarrow> ('s, 'r) summary \<Rightarrow> (('s, 'r) resolve_error, ('s, 'r) candidate) run" where
  "apply_replacement Q summary =
     (case filter (\<lambda>(spec, _). spec (package_id summary)) (replacements Q) of
        [] \<Rightarrow> Some (Inr \<lparr>cand_summary = summary, replace = None\<rparr>)
      | (_, dep) # others \<Rightarrow>
          bindR (run_query Q dep) (\<lambda>summaries.
            case summaries of
              [] \<Rightarrow> Some (Inl (NoMatchForOverride dep))
            | s # rest \<Rightarrow>
                if rest \<noteq> [] then
                  Some (Inl (ReplacementMatchedMultiple dep (map package_id summaries)))
                else if pid_version (package_id s) \<noteq> pid_version (package_id summary) then None
                else if pid_name (package_id s) \<noteq> pid_name (package_id summary) then None
                else if others \<noteq> [] then Some (Inl (OverlappingReplacements (package_id summary)))
                else Some (Inr \<lparr>cand_summary = summary,
                       replace = (if pid_source (package_id s) = pid_source (package_id summary)
                                  then None else Some s)\<rparr>)))"

fun collectR :: "('a \<Rightarrow> ('e, 'b) run) \<Rightarrow> 'a list \<Rightarrow> ('e, 'b list) run" where
  "collectR f [] = Some (Inr [])"
| "collectR f (x # xs) = bindR (f x) (\<lambda>y. bindR (collectR f xs) (\<lambda>ys. Some (Inr (y # ys))))"

definition candidate_cmp :: "('s, 'r) queryer \<Rightarrow> ('s, 'r) candidate \<Rightarrow> ('s, 'r) candidate \<Rightarrow> ordering" where
  "candidate_cmp Q a b =
     (let a_in_previous = package_id (cand_summary a) \<in> set (try_to_use Q);
          b_in_previous = package_id (cand_summary b) \<in> set (try_to_use Q)
      in case reverse (cmp a_in_previous b_in_previous) of
           Equal \<Rightarrow>
             (let c = version_order Q (pid_version (package_id (cand_summary a)))
                                      (pid_version (package_id (cand_summary b)))
              in if minimal_versions Q then c else reverse c)
         | previous_cmp \<Rightarrow> previous_cmp)"

text \<open>\<open>query\<close> without and with its cache.\<close>

definition query_candidates ::
    "('s, 'r) queryer \<Rightarrow> ('s, 'r) dependency \<Rightarrow> (('s, 'r) resolve_error, ('s, 'r) candidate list) run" where
  "query_candidates Q dep =
     bindR (run_query Q dep) (\<lambda>ss.
       bindR (collectR (apply_replacement Q) ss) (\<lambda>ret.
         Some (Inr (sort_by (candidate_cmp Q) ret))))"

definition query ::
    "('s, 'r) queryer \<Rightarrow> ('s, 'r) dependency \<Rightarrow> ('s, 'r) query_cache \<Rightarrow>
       (('s, 'r) resolve_error, ('s, 'r) candidate list \<times> ('s, 'r) query_cache) run" where
  "query Q dep cache =
     (case map_of cache dep of
        Some out \<Rightarrow> Some (Inr (out, cache))
      | None \<Rightarrow>
          bindR (query_candidates Q dep) (\<lambda>out. Some (Inr (out, AList.update dep out cache))))"

section \<open>The context\<close>

datatype ('s, 'r) graph_node = Add "'s package_id" | Link "'s package_id" "'s package_id" "('s, 'r) dependency"

type_synonym ('s, 'r) activations_map = "((string \<times> 's) \<times> ('s, 'r) summary list) list"

record ('s, 'r) res_context =
  activations :: "('s, 'r) activations_map"
  resolved_features :: "('s package_id \<times> string set) list"
  ctx_links :: "(string \<times> 's package_id) list"
  resolve_graph :: "('s, 'r) graph_node list"
  ctx_replacements :: "('s package_id \<times> 's package_id) list"
  warnings :: "('s package_id \<times> string) list"

definition new_context :: "('s, 'r) res_context" where
  "new_context = \<lparr>activations = [], resolved_features = [], ctx_links = [], resolve_graph = [],
                  ctx_replacements = [], warnings = []\<rparr>"

definition activation_key :: "'s package_id \<Rightarrow> string \<times> 's" where
  "activation_key p = (pid_name p, pid_source p)"

definition active_list :: "('s, 'r) res_context \<Rightarrow> string \<times> 's \<Rightarrow> ('s, 'r) summary list" where
  "active_list cx k = (case map_of (activations cx) k of Some v \<Rightarrow> v | None \<Rightarrow> [])"

definition flag_activated ::
    "('s, 'r) summary \<Rightarrow> res_method \<Rightarrow> ('s, 'r) res_context \<Rightarrow> ('s, 'r) resolve_error + bool \<times> ('s, 'r) res_context" where
  "flag_activated s m cx =
     (let pid = package_id s; key = activation_key pid; prev = active_list cx key
      in if \<not> list_ex (\<lambda>c. summary_eq c s) prev then
           bindE (case links s of
                    None \<Rightarrow> Inr (ctx_links cx)
                  | Some l \<Rightarrow> if map_of (ctx_links cx) l \<noteq> None then Inl (DuplicateLinks l)
                              else Inr (AList.update l pid (ctx_links cx)))
             (\<lambda>ls. Inr (False, cx\<lparr>resolve_graph := Add pid # resolve_graph cx, ctx_links := ls,
                                  activations := AList.update key (prev @ [s]) (activations cx)\<rparr>))
         else
           (let has_default_feature = map_of (features s) ''default'' \<noteq> None;
                check = (\<lambda>fs use_default.
                  (case map_of (resolved_features cx) pid of
                     Some fs' \<Rightarrow> list_all (\<lambda>f. f \<in> fs') fs \<and>
                                  (\<not> use_default \<or> ''default'' \<in> fs' \<or> \<not> has_default_feature)
                   | None \<Rightarrow> fs = [] \<and> (\<not> use_default \<or> \<not> has_default_feature)))
            in case m of
                 Everything \<Rightarrow> Inr (False, cx)
               | Required _ fs all_features use_default \<Rightarrow>
                   if all_features then Inr (False, cx) else Inr (check fs use_default, cx)))"

definition prev_active :: "('s, 'r) res_context \<Rightarrow> ('s, 'r) dependency \<Rightarrow> ('s, 'r) summary list" where
  "prev_active cx dep = active_list cx (dep_name dep, dep_source_id dep)"

definition is_active :: "('s, 'r) res_context \<Rightarrow> 's package_id \<Rightarrow> bool" where
  "is_active cx p \<longleftrightarrow>
     (case map_of (activations cx) (pid_name p, pid_source p) of
        Some v \<Rightarrow> list_ex (\<lambda>s. package_id s = p) v
      | None \<Rightarrow> False)"

definition is_conflicting :: "('s, 'r) res_context \<Rightarrow> 's package_id option \<Rightarrow> 's conflict_map \<Rightarrow> bool" where
  "is_conflicting cx parent con \<longleftrightarrow>
     list_all (is_active cx) (map fst con @ (case parent of Some p \<Rightarrow> [p] | None \<Rightarrow> []))"

text \<open>The loop of \<open>resolve_features\<close> over the dependencies of a package.\<close>

definition collect_dep ::
    "('s, 'r) summary \<Rightarrow> requirements \<Rightarrow> ('s, 'r) dependency \<Rightarrow>
       ('s, 'r) res_context \<times> string set \<times> (('s, 'r) dependency \<times> string list) list \<Rightarrow>
       (('s, 'r) activate_error \<times> ('s, 'r) res_context) +
       ('s, 'r) res_context \<times> string set \<times> (('s, 'r) dependency \<times> string list) list" where
  "collect_dep s reqs dep st =
     (case st of (cx, used_features, ret) \<Rightarrow>
        let name = name_in_toml dep in
        if optional dep \<and> map_of (req_deps reqs) name = None then Inr st
        else
          let base = dep_entry name reqs;
              always_required = (\<not> optional dep \<and>
                \<not> list_ex (\<lambda>d. optional d \<and> name_in_toml d = name) (dependencies s));
              cx' = (if always_required \<and> fst base
                     then cx\<lparr>warnings := (package_id s, name) # warnings cx\<rparr> else cx);
              fs = snd base @ dep_features dep
          in case find (\<lambda>f. CHR ''/'' \<in> set f) fs of
               Some f \<Rightarrow> Inl (Fatal (SlashInFeature f), cx')
             | None \<Rightarrow> Inr (cx', insert name used_features, ret @ [(dep, fs)]))"

definition resolve_features ::
    "('s, 'r) summary option \<Rightarrow> ('s, 'r) summary \<Rightarrow> res_method \<Rightarrow> ('s, 'r) res_context \<Rightarrow>
       (('s, 'r) activate_error \<times> ('s, 'r) res_context,
        (('s, 'r) dependency \<times> string list) list \<times> ('s, 'r) res_context) run" where
  "resolve_features parent s m cx =
     (case build_requirements s m of
        None \<Rightarrow> None
      | Some (Inl e) \<Rightarrow> Some (Inl (Fatal (FeatureError e), cx))
      | Some (Inr reqs) \<Rightarrow>
          bindR (Some (foldE (collect_dep s reqs)
                        (filter (\<lambda>d. is_transitive d \<or> dev_deps m) (dependencies s)) (cx, {}, [])))
            (\<lambda>(cx1, used_features, ret).
               let remaining = filter (\<lambda>n. n \<notin> used_features) (map fst (req_deps reqs)) in
               if remaining \<noteq> [] then
                 Some (Inl (case parent of
                              None \<Rightarrow> (Fatal (PackageMissingFeatures (package_id s) (comma_sep remaining)), cx1)
                            | Some p \<Rightarrow> (Conflict (package_id p) (MissingFeatures (comma_sep remaining)), cx1)))
               else
                 let pid = package_id s;
                     prev = (case map_of (resolved_features cx1) pid of Some fs \<Rightarrow> fs | None \<Rightarrow> {});
                     cx2 = (if used reqs = {} then cx1
                            else cx1\<lparr>resolved_features :=
                                   AList.update pid (prev \<union> used reqs) (resolved_features cx1)\<rparr>)
                 in Some (Inr (ret, cx2))))"

type_synonym ('s, 'r) dep_info = "('s, 'r) dependency \<times> ('s, 'r) candidate list \<times> string list"

text \<open>The candidates of each dependency, through the cache.\<close>

fun query_deps ::
    "('s, 'r) queryer \<Rightarrow> (('s, 'r) dependency \<times> string list) list \<Rightarrow> ('s, 'r) query_cache \<Rightarrow>
       (('s, 'r) resolve_error, ('s, 'r) dep_info list \<times> ('s, 'r) query_cache) run" where
  "query_deps Q [] cache = Some (Inr ([], cache))"
| "query_deps Q ((dep, fs) # ds) cache =
     bindR (query Q dep cache) (\<lambda>(cands, cache1).
       bindR (query_deps Q ds cache1) (\<lambda>(infos, cache2).
         Some (Inr ((dep, cands, fs) # infos, cache2))))"

definition build_deps ::
    "('s, 'r) queryer \<Rightarrow> ('s, 'r) summary option \<Rightarrow> ('s, 'r) summary \<Rightarrow> res_method \<Rightarrow>
       ('s, 'r) res_context \<Rightarrow> ('s, 'r) query_cache \<Rightarrow>
       (('s, 'r) activate_error \<times> ('s, 'r) res_context \<times> ('s, 'r) query_cache,
        ('s, 'r) dep_info list \<times> ('s, 'r) res_context \<times> ('s, 'r) query_cache) run" where
  "build_deps Q parent s m cx cache =
     (case resolve_features parent s m cx of
        None \<Rightarrow> None
      | Some (Inl (e, cx1)) \<Rightarrow> Some (Inl (e, cx1, cache))
      | Some (Inr (deps, cx1)) \<Rightarrow>
          (case query_deps Q deps cache of
             None \<Rightarrow> None
           | Some (Inl e) \<Rightarrow> Some (Inl (Fatal e, cx1, cache))
           | Some (Inr (infos, cache1)) \<Rightarrow>
               Some (Inr (sort_key (\<lambda>(_, a, _). length a) infos, cx1, cache1))))"

definition resolve_replacements :: "('s, 'r) res_context \<Rightarrow> ('s package_id \<times> 's package_id) list" where
  "resolve_replacements cx = fold (\<lambda>(k, v). AList.update k v) (ctx_replacements cx) []"

definition graph_step ::
    "('s, 'r) graph_node \<Rightarrow> ('s package_id, ('s, 'r) dependency list) graph \<Rightarrow>
       ('s package_id, ('s, 'r) dependency list) graph" where
  "graph_step node g =
     (case node of
        Add p \<Rightarrow> add p g
      | Link a b dep \<Rightarrow> link [] a b (\<lambda>ds. ds @ [dep]) g)"

definition ctx_graph :: "('s, 'r) res_context \<Rightarrow> ('s package_id, ('s, 'r) dependency list) graph" where
  "ctx_graph cx = fold graph_step (resolve_graph cx) new_graph"

end
