(* ===== verification/Conflict_Cache.thy ===== *)
theory Conflict_Cache
  imports Resolver_Context
begin

text \<open>
  The cache of past conflicts, \<open>src/cargo/core/resolver/conflict_cache.rs\<close>: for each dependency
  the sets of packages that, all active, make it unresolvable, and for each package the
  dependencies with such a set that has it.  What the resolver relies on is stated as the locale
  \<open>conflict_store\<close> and proved for the two maps of the code.
\<close>

record ('s, 'r) conflict_cache =
  con_from_dep :: "(('s, 'r) dependency \<times> 's conflict_map list) list"
  dep_from_pid :: "('s package_id \<times> ('s, 'r) dependency list) list"

definition new_conflict_cache :: "('s, 'r) conflict_cache" where
  "new_conflict_cache = \<lparr>con_from_dep = [], dep_from_pid = []\<rparr>"

definition find_conflicting ::
    "('s, 'r) conflict_cache \<Rightarrow> ('s, 'r) res_context \<Rightarrow> ('s, 'r) dependency \<Rightarrow> ('s conflict_map \<Rightarrow> bool) \<Rightarrow>
       's conflict_map option" where
  "find_conflicting cc cx dep P =
     (case map_of (con_from_dep cc) dep of
        None \<Rightarrow> None
      | Some cons \<Rightarrow> find (is_conflicting cx None) (filter P cons))"

definition conflicting ::
    "('s, 'r) conflict_cache \<Rightarrow> ('s, 'r) res_context \<Rightarrow> ('s, 'r) dependency \<Rightarrow> 's conflict_map option" where
  "conflicting cc cx dep = find_conflicting cc cx dep (\<lambda>_. True)"

text \<open>Equality of two conflict maps, which have each key once.\<close>

definition conflict_map_eq :: "'s conflict_map \<Rightarrow> 's conflict_map \<Rightarrow> bool" where
  "conflict_map_eq a b \<longleftrightarrow> set a = set b"

definition add_trigger ::
    "('s, 'r) dependency \<Rightarrow> 's package_id \<Rightarrow> ('s package_id \<times> ('s, 'r) dependency list) list \<Rightarrow>
       ('s package_id \<times> ('s, 'r) dependency list) list" where
  "add_trigger dep p m =
     AList.update p (List.insert dep (case map_of m p of Some ds \<Rightarrow> ds | None \<Rightarrow> [])) m"

definition insert_conflict ::
    "('s, 'r) dependency \<Rightarrow> 's conflict_map \<Rightarrow> ('s, 'r) conflict_cache \<Rightarrow> ('s, 'r) conflict_cache" where
  "insert_conflict dep con cc =
     (let past = (case map_of (con_from_dep cc) dep of Some cs \<Rightarrow> cs | None \<Rightarrow> [])
      in if \<not> list_ex (conflict_map_eq con) past then
           \<lparr>con_from_dep = AList.update dep (past @ [con]) (con_from_dep cc),
            dep_from_pid = fold (add_trigger dep) (map fst con) (dep_from_pid cc)\<rparr>
         else cc\<lparr>con_from_dep := AList.update dep past (con_from_dep cc)\<rparr>)"

definition dependencies_conflicting_with ::
    "('s, 'r) conflict_cache \<Rightarrow> 's package_id \<Rightarrow> ('s, 'r) dependency list option" where
  "dependencies_conflicting_with cc p = map_of (dep_from_pid cc) p"

section \<open>What the cache promises\<close>

text \<open>The conflicts recorded for a dependency, and the index by package.\<close>

definition recorded :: "('s, 'r) conflict_cache \<Rightarrow> ('s, 'r) dependency \<Rightarrow> 's conflict_map set" where
  "recorded cc dep = (case map_of (con_from_dep cc) dep of Some cs \<Rightarrow> set cs | None \<Rightarrow> {})"

definition triggers :: "('s, 'r) conflict_cache \<Rightarrow> 's package_id \<Rightarrow> ('s, 'r) dependency set" where
  "triggers cc p = (case map_of (dep_from_pid cc) p of Some ds \<Rightarrow> set ds | None \<Rightarrow> {})"

definition index_ok :: "('s, 'r) conflict_cache \<Rightarrow> bool" where
  "index_ok cc \<longleftrightarrow> (\<forall>p dep. dep \<in> triggers cc p \<longleftrightarrow> (\<exists>con\<in>recorded cc dep. p \<in> fst ` set con))"

locale conflict_store =
  fixes ok :: "'c \<Rightarrow> bool"
    and recs :: "'c \<Rightarrow> 'd \<Rightarrow> ('p \<times> 'x) list set"
    and ins :: "'d \<Rightarrow> ('p \<times> 'x) list \<Rightarrow> 'c \<Rightarrow> 'c"
    and look :: "'c \<Rightarrow> ('p \<Rightarrow> bool) \<Rightarrow> 'd \<Rightarrow> (('p \<times> 'x) list \<Rightarrow> bool) \<Rightarrow> ('p \<times> 'x) list option"
    and trigs :: "'c \<Rightarrow> 'p \<Rightarrow> 'd set"
  assumes ins_ok: "ok c \<Longrightarrow> ok (ins d con c)"
    and ins_recs: "set con \<in> set ` recs (ins d con c) d"
    and ins_keeps: "recs c d' \<subseteq> recs (ins d con c) d'"
    and ins_only: "recs (ins d con c) d' \<subseteq> recs c d' \<union> (if d' = d then {con} else {})"
    and look_Some: "look c act d P = Some con \<Longrightarrow> con \<in> recs c d \<and> P con \<and> (\<forall>p\<in>fst ` set con. act p)"
    and look_None: "look c act d P = None \<Longrightarrow> con \<in> recs c d \<Longrightarrow> P con \<Longrightarrow> \<exists>p\<in>fst ` set con. \<not> act p"
    and trigs_recs: "ok c \<Longrightarrow> d \<in> trigs c p \<longleftrightarrow> (\<exists>con\<in>recs c d. p \<in> fst ` set con)"
begin

lemma inserted_found:
  assumes "\<forall>p\<in>fst ` set con. act p" "\<And>c'. set c' = set con \<Longrightarrow> P c'"
  shows "look (ins d con c) act d P \<noteq> None"
proof
  assume none: "look (ins d con c) act d P = None"
  obtain c' where "c' \<in> recs (ins d con c) d" "set c' = set con"
    using ins_recs [of con d c] by auto
  with look_None [OF none] assms show False by force
qed

lemma triggers_cover:
  assumes "ok c" "look c act d (\<lambda>con. p \<in> fst ` set con) = Some con"
  shows "d \<in> trigs c p"
  using assms look_Some [OF assms(2)] trigs_recs by blast

end

definition look_conflict ::
    "('s, 'r) conflict_cache \<Rightarrow> ('s package_id \<Rightarrow> bool) \<Rightarrow> ('s, 'r) dependency \<Rightarrow> ('s conflict_map \<Rightarrow> bool) \<Rightarrow>
       's conflict_map option" where
  "look_conflict cc act dep P =
     (case map_of (con_from_dep cc) dep of
        None \<Rightarrow> None
      | Some cons \<Rightarrow> find (\<lambda>con. list_all act (map fst con)) (filter P cons))"

lemma find_conflicting_look: "find_conflicting cc cx dep P = look_conflict cc (is_active cx) dep P"
proof -
  have eq: "is_conflicting cx None = (\<lambda>con. list_all (is_active cx) (map fst con))"
    by (intro ext) (simp add: is_conflicting_def)
  show ?thesis unfolding find_conflicting_def look_conflict_def eq by (rule refl)
qed

lemma triggers_add: "triggers (cc\<lparr>dep_from_pid := add_trigger dep p (dep_from_pid cc)\<rparr>) q =
    triggers cc q \<union> (if q = p then {dep} else {})"
  by (auto simp: triggers_def add_trigger_def split: option.splits)

lemma triggers_fold:
  "triggers (cc\<lparr>dep_from_pid := fold (add_trigger dep) ps (dep_from_pid cc)\<rparr>) q =
     triggers cc q \<union> (if q \<in> set ps then {dep} else {})"
proof (induction ps arbitrary: cc)
  case (Cons p ps)
  show ?case
    using Cons [of "cc\<lparr>dep_from_pid := add_trigger dep p (dep_from_pid cc)\<rparr>"]
    by (auto simp: triggers_add)
qed simp

lemma recorded_insert:
  "recorded (insert_conflict dep con cc) d =
     recorded cc d \<union> (if d = dep \<and> \<not> (\<exists>c\<in>recorded cc dep. set c = set con) then {con} else {})"
  by (auto simp: recorded_def insert_conflict_def Let_def list_ex_iff conflict_map_eq_def
      split: option.splits)

lemma triggers_insert:
  "triggers (insert_conflict dep con cc) p =
     triggers cc p \<union> (if p \<in> fst ` set con \<and> \<not> (\<exists>c\<in>recorded cc dep. set c = set con) then {dep} else {})"
proof -
  have eq: "triggers \<lparr>con_from_dep = m, dep_from_pid = fold (add_trigger dep) ps (dep_from_pid cc)\<rparr> q =
      triggers (cc\<lparr>dep_from_pid := fold (add_trigger dep) ps (dep_from_pid cc)\<rparr>) q" for m ps q
    by (simp add: triggers_def)
  have "list_ex (conflict_map_eq con) (case map_of (con_from_dep cc) dep of Some cs \<Rightarrow> cs | None \<Rightarrow> []) \<longleftrightarrow>
      (\<exists>c\<in>recorded cc dep. set c = set con)"
    by (auto simp: recorded_def list_ex_iff conflict_map_eq_def split: option.splits)
  then show ?thesis
    by (simp add: insert_conflict_def Let_def eq triggers_fold) (simp add: triggers_def)
qed

interpretation cs: conflict_store index_ok recorded insert_conflict look_conflict triggers
proof unfold_locales
  fix c :: "('s, 'r) conflict_cache" and d con
  assume "index_ok c"
  then show "index_ok (insert_conflict d con c)"
    unfolding index_ok_def recorded_insert triggers_insert by (auto split: if_splits)
next
  fix con d and c :: "('s, 'r) conflict_cache"
  show "set con \<in> set ` recorded (insert_conflict d con c) d"
    by (auto simp: recorded_insert)
next
  fix c :: "('s, 'r) conflict_cache" and act d P con
  assume "look_conflict c act d P = Some con"
  then show "con \<in> recorded c d \<and> P con \<and> (\<forall>p\<in>fst ` set con. act p)"
    by (auto simp: look_conflict_def recorded_def find_Some_iff list_all_iff split: option.splits
        dest!: nth_mem)
next
  fix c :: "('s, 'r) conflict_cache" and act d P con
  assume "look_conflict c act d P = None" "con \<in> recorded c d" "P con"
  then show "\<exists>p\<in>fst ` set con. \<not> act p"
    by (auto simp: look_conflict_def recorded_def find_None_iff list_all_iff split: option.splits)
qed (auto simp: recorded_insert index_ok_def)

text \<open>
  C13: the conflict cache finds what was put in.  After a conflict was inserted for a dependency,
  a lookup in any context in which all its packages are active finds a conflict, every
  conflict a lookup returns was inserted for that dependency and is active in the context,
  nothing recorded earlier is lost, and the index from packages to dependencies stays exact.
\<close>

theorem conflict_cache_sound:
  "(is_conflicting cx None con \<longrightarrow> conflicting (insert_conflict dep con cc) cx dep \<noteq> None) \<and>
   (\<forall>c. conflicting cc cx dep = Some c \<longrightarrow> c \<in> recorded cc dep \<and> is_conflicting cx None c) \<and>
   recorded cc d \<subseteq> recorded (insert_conflict dep con cc) d \<and>
   recorded (insert_conflict dep con cc) d \<subseteq> recorded cc d \<union> (if d = dep then {con} else {}) \<and>
   (index_ok cc \<longrightarrow> index_ok (insert_conflict dep con cc))"
proof -
  have con: "is_conflicting cx None c \<longleftrightarrow> (\<forall>p\<in>fst ` set c. is_active cx p)" for c :: "'a conflict_map"
    by (auto simp: is_conflicting_def list_all_iff)
  show ?thesis
  proof (intro conjI)
    show "is_conflicting cx None con \<longrightarrow> conflicting (insert_conflict dep con cc) cx dep \<noteq> None"
      using cs.inserted_found [of con "is_active cx" "\<lambda>_. True" dep cc]
      by (simp add: con conflicting_def find_conflicting_look)
    show "\<forall>c. conflicting cc cx dep = Some c \<longrightarrow> c \<in> recorded cc dep \<and> is_conflicting cx None c"
      using cs.look_Some [of cc "is_active cx" dep "\<lambda>_. True"]
      by (simp add: con conflicting_def find_conflicting_look)
  qed (rule cs.ins_keeps cs.ins_only impI [OF cs.ins_ok]; assumption?)+
qed

definition active_example :: "(string source_id, (bool \<times> version) option) res_context" where
  "active_example = new_context\<lparr>activations :=
     [((''b'', git_id ''x'' ''x''), [feat_summary])]\<rparr>"

theorem conflict_cache_sound_witness:
  "conflicting (insert_conflict example_dep [(pkg ''b'' (vers 1 0 0), Semver)] new_conflict_cache)
     active_example example_dep \<noteq> None"
proof -
  have "is_conflicting active_example None [(pkg ''b'' (vers 1 0 0), Semver)]"
    by (simp add: is_conflicting_def is_active_def active_example_def feat_summary_def pkg_def)
  with conflict_cache_sound show ?thesis by blast
qed

end
