(* ===== verification/Remaining_Deps.thy ===== *)
theory Remaining_Deps
  imports Resolver_Context "HOL-Library.Multiset"
begin

text \<open>
  The work list of the resolver, \<open>src/cargo/core/resolver/types.rs\<close>: iterators over shared vectors,
  frames of dependencies still to be activated, and the heap of frames.  A \<open>BinaryHeap\<close> is the
  list of its elements; \<open>pop\<close> takes out a greatest one.  Which of several greatest elements it
  takes is not specified by the standard library; the model takes the first, and the theorems use only
  what the locale \<open>max_heap\<close> says of it.
\<close>

section \<open>Iterators\<close>

text \<open>\<open>RcVecIter\<close>: the elements handed out and those ahead; the index of the next element is the
  number of elements handed out.\<close>

record 'a rc_vec_iter =
  handed :: "'a list"
  ahead :: "'a list"

definition new_iter :: "'a list \<Rightarrow> 'a rc_vec_iter" where
  "new_iter v = \<lparr>handed = [], ahead = v\<rparr>"

definition peek :: "'a rc_vec_iter \<Rightarrow> (nat \<times> 'a) option" where
  "peek it = (case ahead it of [] \<Rightarrow> None | x # _ \<Rightarrow> Some (length (handed it), x))"

definition next_item :: "'a rc_vec_iter \<Rightarrow> (nat \<times> 'a) option \<times> 'a rc_vec_iter" where
  "next_item it =
     (case ahead it of
        [] \<Rightarrow> (None, it)
      | x # xs \<Rightarrow> (Some (length (handed it), x), \<lparr>handed = handed it @ [x], ahead = xs\<rparr>))"

section \<open>Frames\<close>

record ('s, 'r) deps_frame =
  frame_parent :: "('s, 'r) summary"
  just_for_error_messages :: bool
  remaining_siblings :: "('s, 'r) dep_info rc_vec_iter"

definition min_candidates :: "('s, 'r) deps_frame \<Rightarrow> nat" where
  "min_candidates f =
     (case peek (remaining_siblings f) of Some (_, _, cands, _) \<Rightarrow> length cands | None \<Rightarrow> 0)"

definition flatten :: "('s, 'r) deps_frame \<Rightarrow> ('s package_id \<times> ('s, 'r) dependency) list" where
  "flatten f = map (\<lambda>(d, _, _). (package_id (frame_parent f), d)) (ahead (remaining_siblings f))"

definition frame_cmp :: "('s, 'r) deps_frame \<Rightarrow> ('s, 'r) deps_frame \<Rightarrow> ordering" where
  "frame_cmp a b =
     (case cmp (just_for_error_messages a) (just_for_error_messages b) of
        Equal \<Rightarrow> reverse (cmp (min_candidates a) (min_candidates b))
      | ord \<Rightarrow> ord)"

definition frame_eq :: "('s, 'r) deps_frame \<Rightarrow> ('s, 'r) deps_frame \<Rightarrow> bool" where
  "frame_eq a b \<longleftrightarrow>
     just_for_error_messages a = just_for_error_messages b \<and> min_candidates a = min_candidates b"

section \<open>The heap\<close>

fun heap_pop :: "('a \<Rightarrow> 'a \<Rightarrow> ordering) \<Rightarrow> 'a list \<Rightarrow> ('a \<times> 'a list) option" where
  "heap_pop c [] = None"
| "heap_pop c (x # xs) =
     (case heap_pop c xs of
        None \<Rightarrow> Some (x, [])
      | Some (y, ys) \<Rightarrow> if c x y = Less then Some (y, x # ys) else Some (x, y # ys))"

definition heap_push :: "'a \<Rightarrow> 'a list \<Rightarrow> 'a list" where
  "heap_push x h = x # h"

locale max_heap =
  fixes c :: "'a \<Rightarrow> 'a \<Rightarrow> ordering"
    and elems :: "'h \<Rightarrow> 'a multiset"
    and push :: "'a \<Rightarrow> 'h \<Rightarrow> 'h"
    and pop :: "'h \<Rightarrow> ('a \<times> 'h) option"
  assumes push_elems: "elems (push x h) = add_mset x (elems h)"
    and pop_None: "pop h = None \<longleftrightarrow> elems h = {#}"
    and pop_elems: "pop h = Some (x, h') \<Longrightarrow> elems h = add_mset x (elems h')"
    and pop_greatest: "pop h = Some (x, h') \<Longrightarrow> y \<in># elems h \<Longrightarrow> c y x \<noteq> Greater"
begin

text \<open>Taking out a greatest element and putting another one back.\<close>

lemma replace_elems:
  assumes "pop h = Some (x, h')"
  shows "elems (push x' h') = add_mset x' (elems h - {#x#})"
  using pop_elems [OF assms] push_elems by simp

lemma pop_size: "pop h = Some (x, h') \<Longrightarrow> size (elems h') < size (elems h)"
  by (simp add: pop_elems)

end

lemma heap_pop_None [simp]: "heap_pop c h = None \<longleftrightarrow> h = []"
  by (cases h) (auto split: option.splits prod.splits if_splits)

lemma heap_pop_mset: "heap_pop c h = Some (x, h') \<Longrightarrow> mset h = add_mset x (mset h')"
  by (induction h arbitrary: x h') (auto split: option.splits prod.splits if_splits)

lemma frame_cmp_preorder: "preorder_cmp frame_cmp"
  unfolding preorder_cmp_def frame_cmp_def
  by (auto simp: cmp_def split: ordering.splits if_splits)

lemma heap_pop_greatest:
  assumes "preorder_cmp c" "heap_pop c h = Some (x, h')" "y \<in> set h"
  shows "c y x \<noteq> Greater"
  using assms(2,3)
proof (induction h arbitrary: x h' y)
  case (Cons z zs)
  have refl: "c a a \<noteq> Greater" for a
  proof -
    have "c a a = reverse (c a a)" using assms(1) unfolding preorder_cmp_def by blast
    then show ?thesis by (cases "c a a") auto
  qed
  have swap: "c b a = reverse (c a b)" for a b using assms(1) unfolding preorder_cmp_def by blast
  have tr: "c a b \<noteq> Greater \<Longrightarrow> c b d \<noteq> Greater \<Longrightarrow> c a d \<noteq> Greater" for a b d
    using assms(1) unfolding preorder_cmp_def by blast
  show ?case
  proof (cases "heap_pop c zs")
    case None
    then have "zs = []" by simp
    with Cons.prems refl show ?thesis by auto
  next
    case (Some p)
    then obtain w ws where w: "heap_pop c zs = Some (w, ws)" by (cases p) auto
    note IH = Cons.IH [OF w]
    show ?thesis
    proof (cases "c z w = Less")
      case True
      with Cons.prems w IH show ?thesis by (auto split: if_splits)
    next
      case False
      then have "c w z \<noteq> Greater" using swap [of w z] by (cases "c z w") auto
      then have "c v z \<noteq> Greater" if "v \<in> set zs" for v using tr [OF IH [OF that]] by blast
      with False Cons.prems w refl show ?thesis by (auto split: if_splits)
    qed
  qed
qed simp

interpretation fh: max_heap frame_cmp mset heap_push "heap_pop frame_cmp"
proof unfold_locales
  show "(heap_pop frame_cmp h = None) = (mset h = {#})" for h :: "('s, 'r) deps_frame list"
    by simp
  show "frame_cmp y x \<noteq> Greater" if "heap_pop frame_cmp h = Some (x, h')" "y \<in># mset h"
    for h :: "('s, 'r) deps_frame list" and x h' y
    using heap_pop_greatest [OF frame_cmp_preorder that(1)] that(2) by simp
qed (auto simp: heap_push_def heap_pop_mset)

section \<open>Taking the most constrained dependency\<close>

text \<open>\<open>pop_most_constrained\<close>: whether it is there for the error messages, the parent, the index and
  the dependency; frames without siblings left are dropped.\<close>

function pop_most_constrained ::
    "('s, 'r) deps_frame list \<Rightarrow>
       (bool \<times> ('s, 'r) summary \<times> nat \<times> ('s, 'r) dep_info) option \<times> ('s, 'r) deps_frame list" where
  "pop_most_constrained h =
     (case heap_pop frame_cmp h of
        None \<Rightarrow> (None, h)
      | Some (f, h') \<Rightarrow>
          (case next_item (remaining_siblings f) of
             (Some (i, sibling), it) \<Rightarrow>
               (Some (just_for_error_messages f, frame_parent f, i, sibling),
                heap_push (f\<lparr>remaining_siblings := it\<rparr>) h')
           | (None, _) \<Rightarrow> pop_most_constrained h'))"
  by auto

termination
proof (relation "measure length")
  fix h :: "('s, 'r) deps_frame list" and p f h' x it
  assume "heap_pop frame_cmp h = Some p" "(f, h') = p"
  then have "size (mset h') < size (mset h)" by (intro fh.pop_size [of h f]) simp
  then show "(h', h) \<in> measure length" by simp
qed simp

declare pop_most_constrained.simps [simp del]

definition frames_iter :: "('s, 'r) deps_frame list \<Rightarrow> ('s package_id \<times> ('s, 'r) dependency) list" where
  "frames_iter h = concat (map flatten h)"

definition open_frames :: "('s, 'r) deps_frame list \<Rightarrow> ('s, 'r) deps_frame set" where
  "open_frames h = {f \<in> set h. ahead (remaining_siblings f) \<noteq> []}"

lemma pop_most_constrained_None:
  "pop_most_constrained h = (None, h') \<Longrightarrow> open_frames h = {}"
proof (induction h rule: pop_most_constrained.induct)
  case (1 h)
  show ?case
  proof (cases "heap_pop frame_cmp h")
    case None
    then show ?thesis by (simp add: open_frames_def)
  next
    case (Some p)
    obtain f h1 where p: "p = (f, h1)" by (cases p)
    have "ahead (remaining_siblings f) = []"
      using "1.prems" Some p
      by (cases "ahead (remaining_siblings f)") (auto simp: pop_most_constrained.simps [of h] next_item_def)
    moreover from this have "open_frames h1 = {}"
      using "1.prems" Some p by (intro "1.IH" [OF Some p [symmetric]])
        (auto simp: pop_most_constrained.simps [of h] next_item_def)
    moreover have "set h = insert f (set h1)"
      using fh.pop_elems [of h f h1] Some p by (metis set_mset_add_mset_insert set_mset_mset)
    ultimately show ?thesis by (auto simp: open_frames_def)
  qed
qed

text \<open>The frame a dependency was taken from, and the heap with that frame advanced.\<close>

definition taken ::
    "('s, 'r) deps_frame \<Rightarrow> ('s, 'r) deps_frame list \<Rightarrow> bool \<Rightarrow> ('s, 'r) summary \<Rightarrow> nat \<Rightarrow> ('s, 'r) dep_info \<Rightarrow>
       ('s, 'r) deps_frame list \<Rightarrow> bool" where
  "taken f h just parent i sib h' \<longleftrightarrow>
     f \<in> open_frames h \<and> just = just_for_error_messages f \<and> parent = frame_parent f \<and>
     i = length (handed (remaining_siblings f)) \<and> (\<forall>g\<in>open_frames h. frame_cmp g f \<noteq> Greater) \<and>
     (\<exists>sibs rest. ahead (remaining_siblings f) = sib # sibs \<and>
        set h' = insert (f\<lparr>remaining_siblings := \<lparr>handed = handed (remaining_siblings f) @ [sib], ahead = sibs\<rparr>\<rparr>) rest \<and>
        rest \<subseteq> set h \<and> open_frames h \<subseteq> insert f rest)"

lemma taken_mono:
  assumes t: "taken f h1 just parent i sib h'" and "open_frames h = open_frames h1" "set h1 \<subseteq> set h"
  shows "taken f h just parent i sib h'"
proof -
  from t obtain sibs rest where r: "ahead (remaining_siblings f) = sib # sibs" "rest \<subseteq> set h1"
    "open_frames h1 \<subseteq> insert f rest"
    "set h' = insert (f\<lparr>remaining_siblings := \<lparr>handed = handed (remaining_siblings f) @ [sib], ahead = sibs\<rparr>\<rparr>) rest"
    unfolding taken_def by blast
  have "rest \<subseteq> set h" "open_frames h \<subseteq> insert f rest" using r assms(2,3) by auto
  with r t show ?thesis unfolding taken_def assms(2) by blast
qed

lemma pop_most_constrained_Some:
  assumes "pop_most_constrained h = (Some (just, parent, i, sib), h')"
  shows "\<exists>f. taken f h just parent i sib h'"
  using assms
proof (induction h rule: pop_most_constrained.induct)
  case (1 h)
  from "1.prems" obtain f h1 where Some: "heap_pop frame_cmp h = Some (f, h1)"
    by (cases "heap_pop frame_cmp h") (auto simp: pop_most_constrained.simps [of h])
  have set: "set h = insert f (set h1)"
    using fh.pop_elems [OF Some] by (metis set_mset_add_mset_insert set_mset_mset)
  show ?case
  proof (cases "ahead (remaining_siblings f)")
    case Nil
    then have "pop_most_constrained h1 = (Some (just, parent, i, sib), h')"
      using "1.prems" Some by (simp add: pop_most_constrained.simps [of h] next_item_def)
    moreover have nx: "(None, remaining_siblings f) = next_item (remaining_siblings f)"
      using Nil by (simp add: next_item_def)
    ultimately obtain g where g: "taken g h1 just parent i sib h'"
      using "1.IH" [OF Some refl nx refl] by blast
    have "open_frames h = open_frames h1" using set Nil by (auto simp: open_frames_def)
    then have "taken g h just parent i sib h'" by (rule taken_mono [OF g]) (use set in blast)
    then show ?thesis by blast
  next
    case (Cons s sibs)
    then have h': "h' = heap_push (f\<lparr>remaining_siblings := \<lparr>handed = handed (remaining_siblings f) @ [s], ahead = sibs\<rparr>\<rparr>) h1"
      and eq: "just = just_for_error_messages f" "parent = frame_parent f"
        "i = length (handed (remaining_siblings f))" "sib = s"
      using "1.prems" Some by (auto simp: pop_most_constrained.simps [of h] next_item_def)
    have "frame_cmp g f \<noteq> Greater" if "g \<in> open_frames h" for g
      using that by (intro fh.pop_greatest [OF Some]) (auto simp: open_frames_def)
    then have "taken f h just parent i sib h'"
      unfolding taken_def using set Cons h' eq
      by (intro conjI exI [of _ sibs] exI [of _ "set h1"]) (auto simp: open_frames_def heap_push_def)
    then show ?thesis by blast
  qed
qed

end
