(* ===== verification/Resolver_Loop.thy ===== *)
theory Resolver_Loop
  imports Conflict_Cache Remaining_Deps
begin

text \<open>
  The backtracking search of \<open>src/cargo/core/resolver/mod.rs\<close>: candidates still to try,
  activation, the choice of a frame to go back to, and the main loop.  The two nested loops of
  \<open>activate_deps_loop\<close> are one machine: \<open>Outer\<close> is the head of the outer loop, \<open>Inner\<close> the head
  of the inner one with its local variables; one step runs one iteration, and \<open>run_machine\<close>
  iterates with fuel.  A step that panics has no successor; \<open>run_machine\<close> gives \<open>None\<close> both then and when the fuel
  does not suffice, and \<open>machine_after\<close>, the state after a number of steps, tells the two apart.  The progress
  display is part of the machine because it can fail: with an error of the terminal, and in a build with debug
  assertions with a panic after 50000 iterations or 90 seconds.  Tracing is left out.
\<close>

section \<open>Candidates still to try\<close>

definition compatible :: "version \<Rightarrow> version \<Rightarrow> bool" where
  "compatible a b =
     (if major a \<noteq> major b then False
      else if major a \<noteq> 0 then True
      else if minor a \<noteq> minor b then False
      else if minor a \<noteq> 0 then True
      else patch a = patch b)"

record ('s, 'r) remaining_candidates =
  rc_remaining :: "('s, 'r) candidate rc_vec_iter"
  has_another :: "('s, 'r) candidate option"

definition new_remaining :: "('s, 'r) candidate list \<Rightarrow> ('s, 'r) remaining_candidates" where
  "new_remaining cands = \<lparr>rc_remaining = new_iter cands, has_another = None\<rparr>"

text \<open>The package that holds the \<open>links\<close> key of a candidate, if it is another one.\<close>

definition links_conflict :: "('s, 'r) res_context \<Rightarrow> ('s, 'r) candidate \<Rightarrow> ('s package_id \<times> string) option" where
  "links_conflict cx b =
     (case links (cand_summary b) of
        None \<Rightarrow> None
      | Some l \<Rightarrow>
          (case map_of (ctx_links cx) l of
             None \<Rightarrow> None
           | Some a \<Rightarrow> if a \<noteq> package_id (cand_summary b) then Some (a, l) else None))"

text \<open>A previously activated package that is compatible with a candidate but not equal to it.\<close>

definition semver_conflict :: "('s, 'r) summary list \<Rightarrow> ('s, 'r) candidate \<Rightarrow> ('s, 'r) summary option" where
  "semver_conflict prev b =
     (case find (\<lambda>a. compatible (pid_version (package_id a)) (pid_version (package_id (cand_summary b)))) prev of
        None \<Rightarrow> None
      | Some a \<Rightarrow> if \<not> summary_eq a (cand_summary b) then Some a else None)"

definition or_insert :: "'k \<Rightarrow> 'v \<Rightarrow> ('k \<times> 'v) list \<Rightarrow> ('k \<times> 'v) list" where
  "or_insert k v m = (if map_of m k = None then AList.update k v m else m)"

text \<open>The loop of \<open>RemainingCandidates::next\<close>.\<close>

fun scan ::
    "('s, 'r) res_context \<Rightarrow> ('s, 'r) summary list \<Rightarrow> ('s, 'r) candidate list \<Rightarrow> ('s, 'r) candidate list \<Rightarrow>
       ('s, 'r) candidate option \<Rightarrow> 's conflict_map \<Rightarrow>
       (('s, 'r) candidate \<times> bool) option \<times> ('s, 'r) remaining_candidates \<times> 's conflict_map" where
  "scan cx prev done [] stash con =
     (map_option (\<lambda>r. (r, False)) stash, \<lparr>rc_remaining = \<lparr>handed = done, ahead = []\<rparr>, has_another = None\<rparr>, con)"
| "scan cx prev done (b # bs) stash con =
     (case links_conflict cx b of
        Some (a, l) \<Rightarrow> scan cx prev (done @ [b]) bs stash (or_insert a (Links l) con)
      | None \<Rightarrow>
          (case semver_conflict prev b of
             Some a \<Rightarrow> scan cx prev (done @ [b]) bs stash (or_insert (package_id a) Semver con)
           | None \<Rightarrow>
               (case stash of
                  Some r \<Rightarrow>
                    (Some (r, True), \<lparr>rc_remaining = \<lparr>handed = done @ [b], ahead = bs\<rparr>, has_another = Some b\<rparr>, con)
                | None \<Rightarrow> scan cx prev (done @ [b]) bs (Some b) con)))"

definition rc_next ::
    "('s, 'r) remaining_candidates \<Rightarrow> 's conflict_map \<Rightarrow> ('s, 'r) res_context \<Rightarrow> ('s, 'r) dependency \<Rightarrow>
       (('s, 'r) candidate \<times> bool) option \<times> ('s, 'r) remaining_candidates \<times> 's conflict_map" where
  "rc_next rc con cx dep =
     scan cx (prev_active cx dep) (handed (rc_remaining rc)) (ahead (rc_remaining rc)) (has_another rc) con"

section \<open>Activation\<close>

definition activate ::
    "('s, 'r) queryer \<Rightarrow> (('s, 'r) summary \<times> ('s, 'r) dependency) option \<Rightarrow> ('s, 'r) candidate \<Rightarrow> res_method \<Rightarrow>
       ('s, 'r) res_context \<Rightarrow> ('s, 'r) query_cache \<Rightarrow>
       (('s, 'r) activate_error \<times> ('s, 'r) res_context \<times> ('s, 'r) query_cache,
        ('s, 'r) deps_frame option \<times> ('s, 'r) res_context \<times> ('s, 'r) query_cache) run" where
  "activate Q parent candidate m cx cache =
     (let pid = package_id (cand_summary candidate);
          cx0 = (case parent of
                   Some (p, dep) \<Rightarrow> cx\<lparr>resolve_graph := Link (package_id p) pid dep # resolve_graph cx\<rparr>
                 | None \<Rightarrow> cx);
          expand = (\<lambda>s cx1.
            (case build_deps Q (map_option fst parent) s m cx1 cache of
               None \<Rightarrow> None
             | Some (Inl e) \<Rightarrow> Some (Inl e)
             | Some (Inr (deps, cx2, cache2)) \<Rightarrow>
                 Some (Inr (Some \<lparr>frame_parent = s, just_for_error_messages = False,
                                  remaining_siblings = new_iter deps\<rparr>, cx2, cache2))))
      in case flag_activated (cand_summary candidate) m cx0 of
           Inl e \<Rightarrow> Some (Inl (Fatal e, cx0, cache))
         | Inr (activated, cx1) \<Rightarrow>
             (case replace candidate of
                Some rep \<Rightarrow>
                  let cx2 = cx1\<lparr>ctx_replacements := (pid, package_id rep) # ctx_replacements cx1\<rparr>
                  in case flag_activated rep m cx2 of
                       Inl e \<Rightarrow> Some (Inl (Fatal e, cx2, cache))
                     | Inr (rep_activated, cx3) \<Rightarrow>
                         if rep_activated \<and> activated then Some (Inr (None, cx3, cache)) else expand rep cx3
              | None \<Rightarrow>
                  if activated then Some (Inr (None, cx1, cache)) else expand (cand_summary candidate) cx1))"

section \<open>Going back\<close>

record ('s, 'r) backtrack_frame =
  bf_context :: "('s, 'r) res_context"
  bf_remaining_deps :: "('s, 'r) deps_frame list"
  bf_candidates :: "('s, 'r) remaining_candidates"
  bf_parent :: "('s, 'r) summary"
  bf_dep :: "('s, 'r) dependency"
  bf_features :: "string list"
  bf_conflicts :: "'s conflict_map"

text \<open>\<open>find_candidate\<close>; the stack has its top first, and what is left of it is returned too.\<close>

fun find_candidate ::
    "('s, 'r) backtrack_frame list \<Rightarrow> ('s, 'r) summary \<Rightarrow> bool \<Rightarrow> 's conflict_map \<Rightarrow>
       (('s, 'r) candidate \<times> bool \<times> ('s, 'r) backtrack_frame) option \<times> ('s, 'r) backtrack_frame list" where
  "find_candidate [] parent backtracked con = (None, [])"
| "find_candidate (f # stack) parent backtracked con =
     (case rc_next (bf_candidates f) (bf_conflicts f) (bf_context f) (bf_dep f) of
        (None, _, _) \<Rightarrow> find_candidate stack parent backtracked con
      | (Some (candidate, another), rc, fcon) \<Rightarrow>
          if \<not> backtracked \<and> is_conflicting (bf_context f) (Some (package_id parent)) con
          then find_candidate stack parent backtracked con
          else (Some (candidate, another, f\<lparr>bf_candidates := rc, bf_conflicts := fcon\<rparr>), stack))"

section \<open>The main loop\<close>

text \<open>\<open>ResolverProgress\<close>: the calls counted so far, of which the counter \<open>ticks\<close> of 16 bits shows the rest modulo
  \<open>2 ^ 16\<close>, and whether the line was printed.\<close>

record progress =
  pg_calls :: int
  pg_printed :: bool

text \<open>\<open>None\<close> is a failed debug assertion; the counter does not overflow in a build that has them.\<close>

definition shell_status :: "terminal \<Rightarrow> progress \<Rightarrow> (string, progress) run" where
  "shell_status T pg =
     (let n = pg_calls pg + 1;
          ticks = n mod 65536
      in bindR
           (if err_tty T \<and> \<not> pg_printed pg \<and> ticks mod 1000 = 0 \<and> 500 < search_time T n
            then (case status_error T of Some e \<Rightarrow> Some (Inl e) | None \<Rightarrow> Some (Inr \<lparr>pg_calls = n, pg_printed = True\<rparr>))
            else Some (Inr (pg\<lparr>pg_calls := n\<rparr>))) (\<lambda>pg'.
         if debug_assertions T \<and> (\<not> ticks < 50000 \<or> ticks mod 1000 = 0 \<and> \<not> search_time T n < 90000)
         then None else Some (Inr pg')))"

record ('s, 'r) search =
  st_cx :: "('s, 'r) res_context"
  st_cache :: "('s, 'r) query_cache"
  st_remaining :: "('s, 'r) deps_frame list"
  st_stack :: "('s, 'r) backtrack_frame list"
  st_past :: "('s, 'r) conflict_cache"
  st_progress :: progress

record ('s, 'r) attempt =
  at_parent :: "('s, 'r) summary"
  at_dep :: "('s, 'r) dependency"
  at_features :: "string list"
  at_candidates :: "('s, 'r) remaining_candidates"
  at_conflicts :: "'s conflict_map"
  at_backtracked :: bool
  at_just :: bool

datatype ('s, 'r) machine =
    Outer "('s, 'r) search"
  | Inner "('s, 'r) attempt" "('s, 'r) search"
  | Done "('s, 'r) res_context"
  | Failed "('s, 'r) resolve_error"

definition extend_conflicts :: "'s package_id \<Rightarrow> 's conflict_map \<Rightarrow> 's conflict_map \<Rightarrow> 's conflict_map" where
  "extend_conflicts pid conflict con =
     fold (\<lambda>(p, r). AList.update p r) (filter (\<lambda>(p, _). p \<noteq> pid) conflict) con"

fun first_some :: "('a \<Rightarrow> 'b option) \<Rightarrow> 'a list \<Rightarrow> 'b option" where
  "first_some f [] = None"
| "first_some f (x # xs) = (case f x of Some y \<Rightarrow> Some y | None \<Rightarrow> first_some f xs)"

text \<open>Is one of the new frame's dependencies, or one of the remaining ones, known to be unresolvable
  with the package just activated?  The conflicts are extended accordingly.\<close>

definition past_conflict ::
    "('s, 'r) conflict_cache \<Rightarrow> ('s, 'r) res_context \<Rightarrow> 's package_id \<Rightarrow> ('s, 'r) deps_frame \<Rightarrow>
       ('s, 'r) deps_frame list \<Rightarrow> bool \<Rightarrow> 's conflict_map \<Rightarrow> ('s conflict_map \<times> bool) option" where
  "past_conflict past cx pid frame remaining just con =
     (if just then Some (con, True)
      else
        case first_some (\<lambda>(d, _, _). conflicting past cx d) (ahead (remaining_siblings frame)) of
          Some conflict \<Rightarrow> Some (extend_conflicts pid conflict con, True)
        | None \<Rightarrow>
            (case dependencies_conflicting_with past pid of
               None \<Rightarrow> Some (con, False)
             | Some bad \<Rightarrow>
                 (case first_some (\<lambda>(other_parent, other_dep).
                          if other_dep \<in> set bad
                          then map_option (\<lambda>c. (other_parent, c))
                                 (find_conflicting past cx other_dep (\<lambda>c. map_of c pid \<noteq> None))
                          else None) (frames_iter remaining) of
                    None \<Rightarrow> Some (con, False)
                  | Some (other_parent, conflict) \<Rightarrow>
                      (case map_of conflict pid of
                         None \<Rightarrow> None
                       | Some rel \<Rightarrow>
                           Some (AList.update other_parent rel (extend_conflicts pid conflict con), True)))))"

text \<open>The frame to come back to, when there is another candidate.\<close>

definition backtrack_for :: "bool \<Rightarrow> ('s, 'r) attempt \<Rightarrow> ('s, 'r) search \<Rightarrow> ('s, 'r) backtrack_frame list" where
  "backtrack_for another a st =
     (if another then
        [\<lparr>bf_context = st_cx st, bf_remaining_deps = st_remaining st, bf_candidates = at_candidates a,
          bf_parent = at_parent a, bf_dep = at_dep a, bf_features = at_features a,
          bf_conflicts = at_conflicts a\<rparr>]
      else [])"

text \<open>The next round of the inner loop after a failed activation: the context is restored when
  there is another candidate.\<close>

definition failed_attempt ::
    "bool \<Rightarrow> ('s, 'r) attempt \<Rightarrow> ('s, 'r) search \<Rightarrow> 's conflict_map \<Rightarrow> ('s, 'r) res_context \<Rightarrow>
       ('s, 'r) query_cache \<Rightarrow> ('s, 'r) machine" where
  "failed_attempt another a st con cx cache =
     Inner (a\<lparr>at_conflicts := con\<rparr>) (st\<lparr>st_cx := (if another then st_cx st else cx), st_cache := cache\<rparr>)"

text \<open>Whether the frame of a fresh activation is worth pushing; \<open>None\<close> is the panic of
  \<open>past_conflict\<close>.\<close>

definition settle_frame ::
    "'s package_id \<Rightarrow> bool \<Rightarrow> ('s, 'r) attempt \<Rightarrow> ('s, 'r) search \<Rightarrow> ('s, 'r) deps_frame \<Rightarrow>
       ('s, 'r) res_context \<Rightarrow> ('s, 'r) query_cache \<Rightarrow> ('s, 'r) machine option" where
  "settle_frame pid another a st frame cx cache =
     (case past_conflict (st_past st) cx pid frame (st_remaining st) (at_just a) (at_conflicts a) of
        None \<Rightarrow> None
      | Some (con, bad) \<Rightarrow>
          let for_error = (bad \<and> \<not> another \<and>
                (at_just a \<or>
                 fst (find_candidate (st_stack st) (at_parent a) (at_backtracked a) con) = None));
              stack = (if for_error then [] else st_stack st)
          in if \<not> bad \<or> for_error then
               Some (Outer (st\<lparr>st_cx := cx, st_cache := cache, st_stack := backtrack_for another a st @ stack,
                 st_remaining := heap_push (frame\<lparr>just_for_error_messages := bad\<rparr>) (st_remaining st)\<rparr>))
             else Some (failed_attempt another a st con cx cache))"

text \<open>What follows once a candidate was chosen; \<open>None\<close> is a panic.\<close>

definition try_candidate ::
    "('s, 'r) queryer \<Rightarrow> ('s, 'r) candidate \<Rightarrow> bool \<Rightarrow> ('s, 'r) attempt \<Rightarrow> ('s, 'r) search \<Rightarrow>
       ('s, 'r) machine option" where
  "try_candidate Q candidate another a st =
     (if at_just a \<and> \<not> at_backtracked a \<and> another then Some (Inner a st)
      else
        let pid = package_id (cand_summary candidate);
            m = Required False (at_features a) False (default_features (at_dep a))
        in case activate Q (Some (at_parent a, at_dep a)) candidate m (st_cx st) (st_cache st) of
             None \<Rightarrow> None
           | Some (Inl (Fatal e, _, _)) \<Rightarrow> Some (Failed e)
           | Some (Inl (Conflict p reason, cx, cache)) \<Rightarrow>
               Some (failed_attempt another a st (AList.update p reason (at_conflicts a)) cx cache)
           | Some (Inr (None, cx, cache)) \<Rightarrow>
               Some (Outer (st\<lparr>st_cx := cx, st_cache := cache, st_stack := backtrack_for another a st @ st_stack st\<rparr>))
           | Some (Inr (Some frame, cx, cache)) \<Rightarrow> settle_frame pid another a st frame cx cache)"

definition inner_step ::
    "('s, 'r) queryer \<Rightarrow> ('s, 'r) attempt \<Rightarrow> ('s, 'r) search \<Rightarrow> ('s, 'r) machine option" where
  "inner_step Q a st =
     (case rc_next (at_candidates a) (at_conflicts a) (st_cx st) (at_dep a) of
        (Some (candidate, another), rc, con) \<Rightarrow>
          try_candidate Q candidate another (a\<lparr>at_candidates := rc, at_conflicts := con\<rparr>) st
      | (None, rc, con) \<Rightarrow>
          let past = (if \<not> at_just a \<and> \<not> at_backtracked a then insert_conflict (at_dep a) con (st_past st)
                      else st_past st)
          in case find_candidate (st_stack st) (at_parent a) (at_backtracked a) con of
               (None, _) \<Rightarrow> Some (Failed (ActivationError (package_id (at_parent a)) (at_dep a) con))
             | (Some (candidate, another, f), stack) \<Rightarrow>
                 try_candidate Q candidate another
                   \<lparr>at_parent = bf_parent f, at_dep = bf_dep f, at_features = bf_features f,
                    at_candidates = bf_candidates f, at_conflicts = bf_conflicts f,
                    at_backtracked = True, at_just = at_just a\<rparr>
                   (st\<lparr>st_cx := bf_context f, st_remaining := bf_remaining_deps f, st_stack := stack,
                       st_past := past\<rparr>))"

text \<open>\<open>None\<close> is a failed debug assertion.\<close>

definition outer_step :: "('s, 'r) queryer \<Rightarrow> ('s, 'r) search \<Rightarrow> ('s, 'r) machine option" where
  "outer_step Q st =
     (case pop_most_constrained (st_remaining st) of
        (None, _) \<Rightarrow> Some (Done (st_cx st))
      | (Some (just, parent, _, dep, candidates, fs), remaining) \<Rightarrow>
          (case shell_status (terminal Q) (st_progress st) of
             None \<Rightarrow> None
           | Some (Inl e) \<Rightarrow> Some (Failed (ShellFailed e))
           | Some (Inr pg) \<Rightarrow>
               Some (Inner \<lparr>at_parent = parent, at_dep = dep, at_features = fs,
                            at_candidates = new_remaining candidates, at_conflicts = [], at_backtracked = False,
                            at_just = (just \<and> conflicting (st_past st) (st_cx st) dep \<noteq> None)\<rparr>
                       (st\<lparr>st_remaining := remaining, st_progress := pg\<rparr>))))"

definition machine_step :: "('s, 'r) queryer \<Rightarrow> ('s, 'r) machine \<Rightarrow> ('s, 'r) machine option" where
  "machine_step Q m =
     (case m of
        Outer st \<Rightarrow> outer_step Q st
      | Inner a st \<Rightarrow> inner_step Q a st
      | _ \<Rightarrow> Some m)"

fun run_machine :: "nat \<Rightarrow> ('s, 'r) queryer \<Rightarrow> ('s, 'r) machine \<Rightarrow> (('s, 'r) resolve_error, ('s, 'r) res_context) run" where
  "run_machine n Q (Done cx) = Some (Inr cx)"
| "run_machine n Q (Failed e) = Some (Inl e)"
| "run_machine 0 Q m = None"
| "run_machine (Suc n) Q m =
     (case machine_step Q m of None \<Rightarrow> None | Some m' \<Rightarrow> run_machine n Q m')"

primrec machine_after :: "nat \<Rightarrow> ('s, 'r) queryer \<Rightarrow> ('s, 'r) machine \<Rightarrow> ('s, 'r) machine option" where
  "machine_after 0 Q m = Some m"
| "machine_after (Suc n) Q m = (case machine_step Q m of None \<Rightarrow> None | Some m' \<Rightarrow> machine_after n Q m')"

fun running :: "('s, 'r) machine \<Rightarrow> bool" where
  "running (Outer _) \<longleftrightarrow> True"
| "running (Inner _ _) \<longleftrightarrow> True"
| "running _ \<longleftrightarrow> False"

text \<open>The activation of the initial summaries; \<open>None\<close> is the panic on a conflict there.\<close>

fun activate_roots ::
    "('s, 'r) queryer \<Rightarrow> (('s, 'r) summary \<times> res_method) list \<Rightarrow> ('s, 'r) search \<Rightarrow>
       (('s, 'r) resolve_error, ('s, 'r) search) run" where
  "activate_roots Q [] st = Some (Inr st)"
| "activate_roots Q ((s, m) # rest) st =
     (case activate Q None \<lparr>cand_summary = s, replace = None\<rparr> m (st_cx st) (st_cache st) of
        None \<Rightarrow> None
      | Some (Inl (Fatal e, _, _)) \<Rightarrow> Some (Inl e)
      | Some (Inl (Conflict _ _, _, _)) \<Rightarrow> None
      | Some (Inr (None, cx, cache)) \<Rightarrow> activate_roots Q rest (st\<lparr>st_cx := cx, st_cache := cache\<rparr>)
      | Some (Inr (Some frame, cx, cache)) \<Rightarrow>
          activate_roots Q rest
            (st\<lparr>st_cx := cx, st_cache := cache, st_remaining := heap_push frame (st_remaining st)\<rparr>))"

definition initial_search :: "('s, 'r) search" where
  "initial_search = \<lparr>st_cx = new_context, st_cache = [], st_remaining = [], st_stack = [],
                     st_past = new_conflict_cache, st_progress = \<lparr>pg_calls = 0, pg_printed = False\<rparr>\<rparr>"

definition activate_deps_loop ::
    "nat \<Rightarrow> ('s, 'r) queryer \<Rightarrow> (('s, 'r) summary \<times> res_method) list \<Rightarrow>
       (('s, 'r) resolve_error, ('s, 'r) res_context) run" where
  "activate_deps_loop fuel Q summaries =
     bindR (activate_roots Q summaries initial_search) (\<lambda>st. run_machine fuel Q (Outer st))"

end
