(* ===== verification/Resolver_Invariant.thy ===== *)
theory Resolver_Invariant
  imports Resolver_Loop
begin

text \<open>
  How an invariant of the resolver's context is carried through the search.  The locale
  \<open>search_invariant\<close> asks for two things of a property \<open>G\<close> of a context with its remaining
  frames and the dependency being worked on: taking a dependency from the work list keeps it,
  and so does the activation of a valid candidate.  Inside, every step of the machine is shown
  to keep it, also across backtracking: each saved frame has it, and a context that a failed
  activation left dirty is only met when no candidate is left.
\<close>

section \<open>Queries and their cache\<close>

definition from_query :: "('s, 'r) queryer \<Rightarrow> ('s, 'r) dependency \<Rightarrow> ('s, 'r) candidate \<Rightarrow> bool" where
  "from_query Q d b \<longleftrightarrow> (\<exists>cs. query_candidates Q d = Some (Inr cs) \<and> b \<in> set cs)"

definition cache_ok :: "('s, 'r) queryer \<Rightarrow> ('s, 'r) query_cache \<Rightarrow> bool" where
  "cache_ok Q cache \<longleftrightarrow> (\<forall>d cs. map_of cache d = Some cs \<longrightarrow> query_candidates Q d = Some (Inr cs))"

definition info_ok :: "('s, 'r) queryer \<Rightarrow> ('s, 'r) dep_info \<Rightarrow> bool" where
  "info_ok Q i \<longleftrightarrow> (case i of (d, cs, _) \<Rightarrow> query_candidates Q d = Some (Inr cs))"

definition frame_ok :: "('s, 'r) queryer \<Rightarrow> ('s, 'r) deps_frame \<Rightarrow> bool" where
  "frame_ok Q f \<longleftrightarrow> (\<forall>i\<in>set (ahead (remaining_siblings f)). info_ok Q i)"

lemma query_transparent:
  assumes "cache_ok Q cache"
  shows "(case query Q d cache of
      None \<Rightarrow> query_candidates Q d = None
    | Some (Inl e) \<Rightarrow> query_candidates Q d = Some (Inl e)
    | Some (Inr (cs, cache')) \<Rightarrow> query_candidates Q d = Some (Inr cs) \<and> cache_ok Q cache' \<and> map_of cache' d = Some cs)"
proof (cases "map_of cache d")
  case None
  then show ?thesis using assms
    by (cases "query_candidates Q d") (auto simp: query_def bindR_def cache_ok_def split: sum.splits)
next
  case (Some out)
  then show ?thesis using assms by (auto simp: query_def cache_ok_def)
qed

lemma query_deps_ok:
  "query_deps Q ds cache = Some (Inr (infos, cache')) \<Longrightarrow> cache_ok Q cache \<Longrightarrow>
     cache_ok Q cache' \<and> (\<forall>i\<in>set infos. info_ok Q i) \<and> map (\<lambda>(d, _, fs). (d, fs)) infos = ds"
proof (induction Q ds cache arbitrary: infos cache' rule: query_deps.induct)
  case (1 Q cache)
  then show ?case by simp
next
  case (2 Q dep fs ds cache)
  from "2.prems"(1) obtain cs c1 infs c2 where q: "query Q dep cache = Some (Inr (cs, c1))"
    and rest: "query_deps Q ds c1 = Some (Inr (infs, c2))" and eq: "infos = (dep, cs, fs) # infs" "cache' = c2"
    by auto
  have 1: "query_candidates Q dep = Some (Inr cs)" "cache_ok Q c1"
    using query_transparent [OF "2.prems"(2), of dep] q by auto
  from "2.IH" [OF rest 1(2)] 1 eq show ?case by (auto simp: info_ok_def)
qed

lemma build_deps_Inr:
  assumes "build_deps Q parent s m cx cache = Some (Inr (infos, cx', cache'))" "cache_ok Q cache"
  shows "cache_ok Q cache' \<and> (\<forall>i\<in>set infos. info_ok Q i) \<and>
    (\<exists>ds. resolve_features parent s m cx = Some (Inr (ds, cx')) \<and> set ds = (\<lambda>(d, _, fs). (d, fs)) ` set infos)"
proof -
  from assms(1) obtain ds infs where rf: "resolve_features parent s m cx = Some (Inr (ds, cx'))"
    and q: "query_deps Q ds cache = Some (Inr (infs, cache'))"
    and infos: "infos = sort_key (\<lambda>(_, a, _). length a) infs"
    by (auto simp: build_deps_def split: option.splits sum.splits prod.splits)
  have "set ds = (\<lambda>(d, _, fs). (d, fs)) ` set infs"
    using query_deps_ok [OF q assms(2)] by (metis set_map)
  with rf infos query_deps_ok [OF q assms(2)] show ?thesis by auto
qed

lemma build_deps_Inl:
  "build_deps Q parent s m cx cache = Some (Inl (e, cx', cache')) \<Longrightarrow> cache' = cache"
  by (auto simp: build_deps_def split: option.splits sum.splits prod.splits)

section \<open>Activation\<close>

text \<open>The package whose dependencies an activation expands.\<close>

definition effective :: "('s, 'r) candidate \<Rightarrow> ('s, 'r) summary" where
  "effective cand = (case replace cand of Some r \<Rightarrow> r | None \<Rightarrow> cand_summary cand)"

definition linked :: "(('s, 'r) summary \<times> ('s, 'r) dependency) option \<Rightarrow> 's package_id \<Rightarrow> ('s, 'r) res_context \<Rightarrow> ('s, 'r) res_context" where
  "linked parent pid cx =
     (case parent of
        Some (p, dep) \<Rightarrow> cx\<lparr>resolve_graph := Link (package_id p) pid dep # resolve_graph cx\<rparr>
      | None \<Rightarrow> cx)"

text \<open>The context after the activation flags were set, with the results of the two calls.\<close>

definition flagged ::
    "('s, 'r) candidate \<Rightarrow> res_method \<Rightarrow> ('s, 'r) res_context \<Rightarrow> bool \<Rightarrow> ('s, 'r) res_context \<Rightarrow> bool" where
  "flagged cand m cx b cx' \<longleftrightarrow>
     (case replace cand of
        None \<Rightarrow> flag_activated (cand_summary cand) m cx = Inr (b, cx')
      | Some r \<Rightarrow>
          \<exists>b1 cx1 b2. flag_activated (cand_summary cand) m cx = Inr (b1, cx1) \<and>
            flag_activated r m (cx1\<lparr>ctx_replacements :=
              (package_id (cand_summary cand), package_id r) # ctx_replacements cx1\<rparr>) = Inr (b2, cx') \<and>
            b = (b2 \<and> b1))"

lemma activate_Inr:
  assumes "activate Q parent cand m cx cache = Some (Inr (fo, cx', cache'))"
  shows "\<exists>b cx1. flagged cand m (linked parent (package_id (cand_summary cand)) cx) b cx1 \<and>
    (if b then fo = None \<and> cx' = cx1 \<and> cache' = cache
     else \<exists>deps. build_deps Q (map_option fst parent) (effective cand) m cx1 cache = Some (Inr (deps, cx', cache')) \<and>
        fo = Some \<lparr>frame_parent = effective cand, just_for_error_messages = False, remaining_siblings = new_iter deps\<rparr>)"
  using assms
  by (auto simp: activate_def Let_def flagged_def linked_def effective_def
      split: sum.splits option.splits prod.splits if_splits)

lemma activate_elim:
  assumes "activate Q parent cand m cx cache = Some (Inr (fo, cx', cache'))"
  obtains (old) "flagged cand m (linked parent (package_id (cand_summary cand)) cx) True cx'" "fo = None" "cache' = cache"
  | (expanded) cx1 deps where "flagged cand m (linked parent (package_id (cand_summary cand)) cx) False cx1"
      "build_deps Q (map_option fst parent) (effective cand) m cx1 cache = Some (Inr (deps, cx', cache'))"
      "fo = Some \<lparr>frame_parent = effective cand, just_for_error_messages = False, remaining_siblings = new_iter deps\<rparr>"
proof -
  obtain b cx1 where f: "flagged cand m (linked parent (package_id (cand_summary cand)) cx) b cx1"
    and r: "if b then fo = None \<and> cx' = cx1 \<and> cache' = cache
     else \<exists>deps. build_deps Q (map_option fst parent) (effective cand) m cx1 cache = Some (Inr (deps, cx', cache')) \<and>
        fo = Some \<lparr>frame_parent = effective cand, just_for_error_messages = False, remaining_siblings = new_iter deps\<rparr>"
    using activate_Inr [OF assms] by blast
  show thesis
  proof (cases b)
    case True
    with f r old show ?thesis by simp
  next
    case False
    with f r expanded show ?thesis by auto
  qed
qed

lemma activate_Inl_cache:
  "activate Q parent cand m cx cache = Some (Inl (e, cx', cache')) \<Longrightarrow> cache' = cache"
  by (auto simp: activate_def Let_def split: sum.splits option.splits prod.splits if_splits dest: build_deps_Inl)

lemma activate_frame_ok:
  assumes "activate Q parent cand m cx cache = Some (Inr (fo, cx', cache'))" "cache_ok Q cache"
  shows "cache_ok Q cache' \<and> (\<forall>f. fo = Some f \<longrightarrow> frame_ok Q f)"
  using activate_Inr [OF assms(1)] assms(2) build_deps_Inr
  by (fastforce simp: frame_ok_def new_iter_def split: if_splits)

section \<open>Valid candidates\<close>

definition valid :: "('s, 'r) res_context \<Rightarrow> ('s, 'r) dependency \<Rightarrow> ('s, 'r) candidate \<Rightarrow> bool" where
  "valid cx d b \<longleftrightarrow> links_conflict cx b = None \<and> semver_conflict (prev_active cx d) b = None"

definition exhausted :: "('s, 'r) remaining_candidates \<Rightarrow> bool" where
  "exhausted rc \<longleftrightarrow> has_another rc = None \<and> ahead (rc_remaining rc) = []"

definition rc_ok ::
    "('s, 'r) queryer \<Rightarrow> ('s, 'r) res_context \<Rightarrow> ('s, 'r) dependency \<Rightarrow> ('s, 'r) remaining_candidates \<Rightarrow> bool" where
  "rc_ok Q cx d rc \<longleftrightarrow>
     (\<forall>b. has_another rc = Some b \<longrightarrow> from_query Q d b \<and> valid cx d b) \<and>
     (\<forall>b\<in>set (ahead (rc_remaining rc)). from_query Q d b)"

lemma exhausted_rc_ok: "exhausted rc \<Longrightarrow> rc_ok Q cx d rc"
  by (simp add: exhausted_def rc_ok_def)

lemma new_remaining_ok: "query_candidates Q d = Some (Inr cs) \<Longrightarrow> rc_ok Q cx d (new_remaining cs)"
  by (auto simp: rc_ok_def new_remaining_def new_iter_def from_query_def)

text \<open>What \<open>next\<close> returns: a valid candidate, or nothing once none is left.\<close>

lemma scan_ok:
  assumes "scan cx (prev_active cx d) dn bs stash con = (res, rc, con')"
    and "\<And>b. stash = Some b \<Longrightarrow> from_query Q d b \<and> valid cx d b" "\<forall>b\<in>set bs. from_query Q d b"
  shows "rc_ok Q cx d rc \<and>
    (case res of
       None \<Rightarrow> exhausted rc \<and> stash = None \<and> (\<forall>b\<in>set bs. \<not> valid cx d b)
     | Some (r, another) \<Rightarrow> from_query Q d r \<and> valid cx d r \<and> (another \<or> exhausted rc))"
  using assms
proof (induction cx "prev_active cx d" dn bs stash con rule: scan.induct)
  case (1 cx dn stash con)
  then show ?case by (cases stash) (auto simp: rc_ok_def exhausted_def)
next
  case (2 cx dn b bs stash con)
  show ?case
  proof (cases "links_conflict cx b")
    case (Some al)
    obtain a l where al: "al = (a, l)" by (cases al)
    have "\<not> valid cx d b" using Some by (simp add: valid_def)
    moreover have "scan cx (prev_active cx d) (dn @ [b]) bs stash (or_insert a (Links l) con) = (res, rc, con')"
      using "2.prems"(1) Some al by simp
    ultimately show ?thesis
      using "2.hyps"(3) [OF Some al [symmetric]] "2.prems"(2,3) by (auto split: option.splits)
  next
    case no_link: None
    show ?thesis
    proof (cases "semver_conflict (prev_active cx d) b")
      case (Some a)
      have "\<not> valid cx d b" using Some by (simp add: valid_def)
      moreover have "scan cx (prev_active cx d) (dn @ [b]) bs stash (or_insert (package_id a) Semver con) = (res, rc, con')"
        using "2.prems"(1) Some no_link by simp
      ultimately show ?thesis
        using "2.hyps"(2) [OF no_link Some] "2.prems"(2,3) by (auto split: option.splits)
    next
      case None
      with no_link have b: "valid cx d b" "from_query Q d b" using "2.prems"(3) by (auto simp: valid_def)
      show ?thesis
      proof (cases stash)
        case (Some r)
        with "2.prems" b no_link None show ?thesis by (auto simp: rc_ok_def)
      next
        case no_stash: None
        have "scan cx (prev_active cx d) (dn @ [b]) bs (Some b) con = (res, rc, con')"
          using "2.prems"(1) no_link None no_stash by simp
        from "2.hyps"(1) [OF no_link None no_stash this] b "2.prems"(3) show ?thesis
          by (auto split: option.splits)
      qed
    qed
  qed
qed

lemma rc_next_ok:
  assumes "rc_next rc con cx d = (res, rc', con')" "rc_ok Q cx d rc"
  shows "rc_ok Q cx d rc' \<and>
    (case res of
       None \<Rightarrow> exhausted rc'
     | Some (r, another) \<Rightarrow> from_query Q d r \<and> valid cx d r \<and> (another \<or> exhausted rc'))"
proof -
  have "rc_ok Q cx d rc' \<and>
    (case res of
       None \<Rightarrow> exhausted rc' \<and> has_another rc = None \<and> (\<forall>b\<in>set (ahead (rc_remaining rc)). \<not> valid cx d b)
     | Some (r, another) \<Rightarrow> from_query Q d r \<and> valid cx d r \<and> (another \<or> exhausted rc'))"
    by (rule scan_ok [OF assms(1) [unfolded rc_next_def]]) (use assms(2) in \<open>auto simp: rc_ok_def\<close>)
  then show ?thesis by (auto split: option.splits)
qed

lemma rc_next_exhausted: "exhausted rc \<Longrightarrow> rc_next rc con cx d = (res, rc', con') \<Longrightarrow> res = None"
  by (auto simp: rc_next_def exhausted_def)

section \<open>Invariants of the search\<close>

text \<open>The saved frames of the stack, under a property of contexts.\<close>

definition bframe_ok ::
    "(('s, 'r) queryer \<Rightarrow> ('s, 'r) res_context \<Rightarrow> ('s, 'r) deps_frame list \<Rightarrow>
        ('s package_id \<times> ('s, 'r) dependency) option \<Rightarrow> bool) \<Rightarrow>
     ('s, 'r) queryer \<Rightarrow> ('s, 'r) backtrack_frame \<Rightarrow> bool" where
  "bframe_ok G Q f \<longleftrightarrow>
     G Q (bf_context f) (bf_remaining_deps f) (Some (package_id (bf_parent f), bf_dep f)) \<and>
     (\<forall>g\<in>set (bf_remaining_deps f). frame_ok Q g) \<and>
     rc_ok Q (bf_context f) (bf_dep f) (bf_candidates f)"

definition search_ok ::
    "(('s, 'r) queryer \<Rightarrow> ('s, 'r) res_context \<Rightarrow> ('s, 'r) deps_frame list \<Rightarrow>
        ('s package_id \<times> ('s, 'r) dependency) option \<Rightarrow> bool) \<Rightarrow>
     ('s, 'r) queryer \<Rightarrow> ('s, 'r) search \<Rightarrow> bool" where
  "search_ok G Q st \<longleftrightarrow>
     cache_ok Q (st_cache st) \<and> (\<forall>f\<in>set (st_remaining st). frame_ok Q f) \<and>
     (\<forall>f\<in>set (st_stack st). bframe_ok G Q f)"

fun machine_ok ::
    "(('s, 'r) queryer \<Rightarrow> ('s, 'r) res_context \<Rightarrow> ('s, 'r) deps_frame list \<Rightarrow>
        ('s package_id \<times> ('s, 'r) dependency) option \<Rightarrow> bool) \<Rightarrow>
     ('s, 'r) queryer \<Rightarrow> ('s, 'r) machine \<Rightarrow> bool" where
  "machine_ok G Q (Outer st) \<longleftrightarrow> search_ok G Q st \<and> G Q (st_cx st) (st_remaining st) None"
| "machine_ok G Q (Inner a st) \<longleftrightarrow>
     search_ok G Q st \<and> rc_ok Q (st_cx st) (at_dep a) (at_candidates a) \<and>
     (exhausted (at_candidates a) \<or>
      G Q (st_cx st) (st_remaining st) (Some (package_id (at_parent a), at_dep a)))"
| "machine_ok G Q (Done cx) \<longleftrightarrow> (\<exists>h. open_frames h = {} \<and> G Q cx h None)"
| "machine_ok G Q (Failed e) \<longleftrightarrow> True"

locale search_invariant =
  fixes G :: "('s, 'r) queryer \<Rightarrow> ('s, 'r) res_context \<Rightarrow> ('s, 'r) deps_frame list \<Rightarrow>
      ('s package_id \<times> ('s, 'r) dependency) option \<Rightarrow> bool"
  assumes pop: "G Q cx h None \<Longrightarrow> taken f h just parent i (d, cs, fs) h' \<Longrightarrow>
      G Q cx h' (Some (package_id parent, d))"
    and act: "G Q cx h (Some (package_id p, d)) \<Longrightarrow> from_query Q d cand \<Longrightarrow> valid cx d cand \<Longrightarrow>
      cache_ok Q cache \<Longrightarrow>
      activate Q (Some (p, d)) cand (Required False fs False df) cx cache = Some (Inr (fo, cx', cache')) \<Longrightarrow>
      G Q cx' ((case fo of None \<Rightarrow> [] | Some f \<Rightarrow> [f\<lparr>just_for_error_messages := b\<rparr>]) @ h) None"
begin

lemma find_candidate_ok:
  assumes "find_candidate stack parent bt con = (res, stack')" "\<forall>f\<in>set stack. bframe_ok G Q f"
  shows "(\<forall>f\<in>set stack'. bframe_ok G Q f) \<and>
    (\<forall>cand another f. res = Some (cand, another, f) \<longrightarrow>
       bframe_ok G Q f \<and> from_query Q (bf_dep f) cand \<and> valid (bf_context f) (bf_dep f) cand \<and>
       (another \<or> exhausted (bf_candidates f)))"
  using assms
proof (induction stack parent bt con rule: find_candidate.induct)
  case (1 parent bt con)
  then show ?case by simp
next
  case (2 f stack parent bt con)
  obtain nxt rc fcon where nx: "rc_next (bf_candidates f) (bf_conflicts f) (bf_context f) (bf_dep f) = (nxt, rc, fcon)"
    by (cases "rc_next (bf_candidates f) (bf_conflicts f) (bf_context f) (bf_dep f)") auto
  have f: "bframe_ok G Q f" using "2.prems"(2) by simp
  then have ok: "rc_ok Q (bf_context f) (bf_dep f) (bf_candidates f)" by (simp add: bframe_ok_def)
  note step = rc_next_ok [OF nx ok]
  show ?case
  proof (cases nxt)
    case None
    then show ?thesis using "2.IH"(1) [OF nx [symmetric]] "2.prems" nx by auto
  next
    case (Some ca)
    obtain c an where ca: "ca = (c, an)" by (cases ca)
    show ?thesis
    proof (cases "\<not> bt \<and> is_conflicting (bf_context f) (Some (package_id parent)) con")
      case True
      then show ?thesis using "2.IH"(2) [OF nx [symmetric] Some ca [symmetric] refl True] "2.prems" nx Some ca by auto
    next
      case False
      with "2.prems"(1) nx Some ca
      have "res = Some (c, an, f\<lparr>bf_candidates := rc, bf_conflicts := fcon\<rparr>)" "stack' = stack" by auto
      with f step Some ca "2.prems"(2) show ?thesis by (auto simp: bframe_ok_def)
    qed
  qed
qed

end

lemma taken_frames_ok:
  assumes t: "taken f h just parent i sib h'" and ok: "\<forall>g\<in>set h. frame_ok Q g"
  shows "info_ok Q sib \<and> (\<forall>g\<in>set h'. frame_ok Q g)"
proof -
  from t obtain sibs rest where r: "ahead (remaining_siblings f) = sib # sibs" "rest \<subseteq> set h"
    "set h' = insert (f\<lparr>remaining_siblings := \<lparr>handed = handed (remaining_siblings f) @ [sib], ahead = sibs\<rparr>\<rparr>) rest"
    unfolding taken_def by blast
  have f: "frame_ok Q f" using t ok by (auto simp: taken_def open_frames_def)
  show ?thesis
  proof (intro conjI ballI)
    show "info_ok Q sib" using f r(1) by (simp add: frame_ok_def)
    fix g assume "g \<in> set h'"
    then show "frame_ok Q g" using f r ok by (auto simp: frame_ok_def)
  qed
qed

context search_invariant
begin

lemma try_candidate_ok:
  assumes st: "search_ok G Q st" and g: "G Q (st_cx st) (st_remaining st) (Some (package_id (at_parent a), at_dep a))"
    and rc: "rc_ok Q (st_cx st) (at_dep a) (at_candidates a)" "another \<or> exhausted (at_candidates a)"
    and cand: "from_query Q (at_dep a) cand" "valid (st_cx st) (at_dep a) cand"
    and run: "try_candidate Q cand another a st = Some m'"
  shows "machine_ok G Q m'"
proof (cases "at_just a \<and> \<not> at_backtracked a \<and> another")
  case True
  with run have "m' = Inner a st" by (simp add: try_candidate_def)
  with st g rc show ?thesis by simp
next
  case False
  let ?m = "Required False (at_features a) False (default_features (at_dep a))"
  let ?bt = "if another then
     [\<lparr>bf_context = st_cx st, bf_remaining_deps = st_remaining st, bf_candidates = at_candidates a,
       bf_parent = at_parent a, bf_dep = at_dep a, bf_features = at_features a, bf_conflicts = at_conflicts a\<rparr>]
     else []"
  let ?failed = "\<lambda>con cx cache. Inner (a\<lparr>at_conflicts := con\<rparr>)
     (st\<lparr>st_cx := (if another then st_cx st else cx), st_cache := cache\<rparr>)"
  note run' = run [unfolded try_candidate_def settle_frame_def backtrack_for_def failed_attempt_def if_not_P [OF False] Let_def]
  have cache: "cache_ok Q (st_cache st)" using st by (simp add: search_ok_def)
  have bt: "\<forall>f\<in>set ?bt. bframe_ok G Q f" using st g rc by (auto simp: bframe_ok_def search_ok_def)
  have failed: "machine_ok G Q (?failed con cx c)" if "cache_ok Q c" for con cx c
    using that st g rc by (auto simp: search_ok_def exhausted_rc_ok)
  from run' obtain res where res:
    "activate Q (Some (at_parent a, at_dep a)) cand ?m (st_cx st) (st_cache st) = Some res"
    by (cases "activate Q (Some (at_parent a, at_dep a)) cand ?m (st_cx st) (st_cache st)")
       auto
  show ?thesis
  proof (cases res)
    case (Inl err)
    obtain e cx c where err: "err = (e, cx, c)" by (cases err)
    have "c = st_cache st" using res Inl err by (auto dest: activate_Inl_cache)
    then have c: "cache_ok Q c" using cache by simp
    show ?thesis
    proof (cases e)
      case (Fatal x)
      with run' res Inl err have "m' = Failed x" by simp
      then show ?thesis by simp
    next
      case (Conflict p reason)
      with run' res Inl err have "m' = ?failed (AList.update p reason (at_conflicts a)) cx c"
        by simp
      with failed [OF c] show ?thesis by blast
    qed
  next
    case (Inr ok)
    obtain fo cx c where ok: "ok = (fo, cx, c)" by (cases ok)
    with res Inr have res': "activate Q (Some (at_parent a, at_dep a)) cand ?m (st_cx st) (st_cache st) = Some (Inr (fo, cx, c))"
      by simp
    note c = activate_frame_ok [OF res' cache]
    note g' = act [OF g cand cache res']
    show ?thesis
    proof (cases fo)
      case None
      with run' res' have "m' = Outer (st\<lparr>st_cx := cx, st_cache := c, st_stack := ?bt @ st_stack st\<rparr>)"
        by simp
      with st c g' [of True] bt None show ?thesis by (auto simp: search_ok_def split: if_splits)
    next
      case (Some frame)
      with run' res' obtain con bad where
        pc: "past_conflict (st_past st) cx (package_id (cand_summary cand)) frame (st_remaining st) (at_just a) (at_conflicts a) = Some (con, bad)"
        by (auto split: option.splits)
      have "m' = ?failed con cx c \<or>
        (\<exists>stack\<in>{[], st_stack st}.
           m' = Outer (st\<lparr>st_cx := cx, st_cache := c, st_stack := ?bt @ stack,
                  st_remaining := heap_push (frame\<lparr>just_for_error_messages := bad\<rparr>) (st_remaining st)\<rparr>))"
        using run' res' Some pc by (auto split: if_splits)
      then show ?thesis
      proof
        assume "m' = ?failed con cx c"
        with failed c show ?thesis by blast
      next
        assume "\<exists>stack\<in>{[], st_stack st}.
           m' = Outer (st\<lparr>st_cx := cx, st_cache := c, st_stack := ?bt @ stack,
                  st_remaining := heap_push (frame\<lparr>just_for_error_messages := bad\<rparr>) (st_remaining st)\<rparr>)"
        then obtain stack where stack: "stack \<in> {[], st_stack st}" and m':
           "m' = Outer (st\<lparr>st_cx := cx, st_cache := c, st_stack := ?bt @ stack,
                  st_remaining := heap_push (frame\<lparr>just_for_error_messages := bad\<rparr>) (st_remaining st)\<rparr>)"
          by blast
        from stack have sub: "set stack \<subseteq> set (st_stack st)" by auto
        have "frame_ok Q (frame\<lparr>just_for_error_messages := bad\<rparr>)" using c Some by (simp add: frame_ok_def)
        moreover have "G Q cx (heap_push (frame\<lparr>just_for_error_messages := bad\<rparr>) (st_remaining st)) None"
          using g' [of bad] Some by (simp add: heap_push_def)
        ultimately show ?thesis
          unfolding m' using st sub bt c by (auto simp: search_ok_def heap_push_def split: if_splits)
      qed
    qed
  qed
qed

lemma inner_step_ok:
  assumes ok: "machine_ok G Q (Inner a st)" and run: "inner_step Q a st = Some m'"
  shows "machine_ok G Q m'"
proof -
  obtain nxt rc con where nx: "rc_next (at_candidates a) (at_conflicts a) (st_cx st) (at_dep a) = (nxt, rc, con)"
    by (cases "rc_next (at_candidates a) (at_conflicts a) (st_cx st) (at_dep a)") auto
  have rc: "rc_ok Q (st_cx st) (at_dep a) (at_candidates a)" using ok by simp
  note step = rc_next_ok [OF nx rc]
  show ?thesis
  proof (cases nxt)
    case (Some ca)
    obtain cand another where ca: "ca = (cand, another)" by (cases ca)
    have "\<not> exhausted (at_candidates a)" using rc_next_exhausted [OF _ nx] Some by blast
    moreover have "try_candidate Q cand another (a\<lparr>at_candidates := rc, at_conflicts := con\<rparr>) st = Some m'"
      using run nx Some ca by (simp add: inner_step_def)
    ultimately show ?thesis using ok step Some ca by (intro try_candidate_ok [rotated -1]) auto
  next
    case None
    obtain res stack where fc: "find_candidate (st_stack st) (at_parent a) (at_backtracked a) con = (res, stack)"
      by (cases "find_candidate (st_stack st) (at_parent a) (at_backtracked a) con") auto
    have "\<forall>f\<in>set (st_stack st). bframe_ok G Q f" using ok by (simp add: search_ok_def)
    note found = find_candidate_ok [OF fc this]
    show ?thesis
    proof (cases res)
      case no_frame: None
      with run nx None fc have "m' = Failed (ActivationError (package_id (at_parent a)) (at_dep a) con)"
        by (simp add: inner_step_def Let_def)
      then show ?thesis by simp
    next
      case (Some caf)
      obtain cand another f where caf: "caf = (cand, another, f)" by (cases caf)
      have f: "bframe_ok G Q f" "from_query Q (bf_dep f) cand" "valid (bf_context f) (bf_dep f) cand"
        "another \<or> exhausted (bf_candidates f)"
        using found Some caf by auto
      let ?past = "if \<not> at_just a \<and> \<not> at_backtracked a then insert_conflict (at_dep a) con (st_past st) else st_past st"
      let ?a = "\<lparr>at_parent = bf_parent f, at_dep = bf_dep f, at_features = bf_features f,
        at_candidates = bf_candidates f, at_conflicts = bf_conflicts f, at_backtracked = True, at_just = at_just a\<rparr>"
      let ?st = "st\<lparr>st_cx := bf_context f, st_remaining := bf_remaining_deps f, st_stack := stack, st_past := ?past\<rparr>"
      have "try_candidate Q cand another ?a ?st = Some m'"
        using run nx None fc Some caf by (simp add: inner_step_def Let_def)
      moreover have "search_ok G Q ?st" using ok found f(1) by (simp add: search_ok_def bframe_ok_def)
      ultimately show ?thesis using f by (intro try_candidate_ok [of Q ?st ?a another cand]) (auto simp: bframe_ok_def)
    qed
  qed
qed

lemma outer_step_ok:
  assumes "machine_ok G Q (Outer st)" and run: "outer_step Q st = Some m'"
  shows "machine_ok G Q m'"
proof -
  obtain res h' where p: "pop_most_constrained (st_remaining st) = (res, h')"
    by (cases "pop_most_constrained (st_remaining st)") auto
  show ?thesis
  proof (cases res)
    case None
    with p have "open_frames (st_remaining st) = {}" "m' = Done (st_cx st)"
      using pop_most_constrained_None run by (auto simp: outer_step_def)
    with assms(1) show ?thesis by auto
  next
    case (Some r)
    obtain just parent i d cs fs where r: "r = (just, parent, i, d, cs, fs)" by (cases r) auto
    with p Some obtain f where t: "taken f (st_remaining st) just parent i (d, cs, fs) h'"
      using pop_most_constrained_Some by blast
    have "G Q (st_cx st) h' (Some (package_id parent, d))" using assms pop [OF _ t] by simp
    moreover have "info_ok Q (d, cs, fs) \<and> (\<forall>g\<in>set h'. frame_ok Q g)"
      using t assms by (intro taken_frames_ok) (auto simp: search_ok_def)
    ultimately show ?thesis
      using assms p Some r
      by (auto simp: outer_step_def search_ok_def info_ok_def intro: new_remaining_ok split: option.splits sum.splits)
  qed
qed

lemma run_machine_ok:
  "run_machine n Q m = Some (Inr cx) \<Longrightarrow> machine_ok G Q m \<Longrightarrow> \<exists>h. open_frames h = {} \<and> G Q cx h None"
proof (induction n arbitrary: m)
  case 0
  then show ?case by (cases m) auto
next
  case (Suc n)
  show ?case
  proof (cases "running m")
    case False
    with Suc.prems show ?thesis by (cases m) auto
  next
    case True
    with Suc.prems(1) obtain m' where m': "machine_step Q m = Some m'" "run_machine n Q m' = Some (Inr cx)"
      by (cases m) (auto split: option.splits)
    have "machine_ok G Q m'"
    proof (cases m)
      case (Outer st)
      with m'(1) have "outer_step Q st = Some m'" by (simp add: machine_step_def)
      with Suc.prems(2) Outer show ?thesis by (blast intro: outer_step_ok)
    next
      case (Inner a st)
      with m'(1) have "inner_step Q a st = Some m'" by (simp add: machine_step_def)
      with Suc.prems(2) Inner show ?thesis by (blast intro: inner_step_ok)
    qed (use True in simp_all)
    with m'(2) show ?thesis by (rule Suc.IH)
  qed
qed

end

section \<open>From the initial summaries to the result\<close>

text \<open>The activation of an initial summary keeps the property, with the help of another one.\<close>

definition keeps_root ::
    "(('s, 'r) queryer \<Rightarrow> ('s, 'r) res_context \<Rightarrow> ('s, 'r) deps_frame list \<Rightarrow>
        ('s package_id \<times> ('s, 'r) dependency) option \<Rightarrow> bool) \<Rightarrow>
     ('s, 'r) queryer \<Rightarrow> (('s, 'r) res_context \<Rightarrow> bool) \<Rightarrow> ('s, 'r) summary \<Rightarrow> res_method \<Rightarrow> bool" where
  "keeps_root G Q K s m \<longleftrightarrow>
     (\<forall>cx cache fo cx' cache' h. G Q cx h None \<and> K cx \<and> cache_ok Q cache \<and>
        activate Q None \<lparr>cand_summary = s, replace = None\<rparr> m cx cache = Some (Inr (fo, cx', cache')) \<longrightarrow>
        G Q cx' ((case fo of None \<Rightarrow> [] | Some f \<Rightarrow> [f]) @ h) None \<and> K cx')"

context search_invariant
begin

lemma activate_roots_ok:
  assumes "activate_roots Q roots st = Some (Inr st')"
    and "search_ok G Q st" "G Q (st_cx st) (st_remaining st) None" "K (st_cx st)"
    and step: "\<forall>(s, m)\<in>set roots. keeps_root G Q K s m"
  shows "machine_ok G Q (Outer st')"
  using assms
proof (induction Q roots st rule: activate_roots.induct)
  case (1 Q st)
  then show ?case by simp
next
  case (2 Q s m rest st)
  let ?act = "activate Q None \<lparr>cand_summary = s, replace = None\<rparr> m (st_cx st) (st_cache st)"
  from "2.prems"(1) obtain fo cx c where act: "?act = Some (Inr (fo, cx, c))"
    by (auto split: option.splits sum.splits prod.splits activate_error.splits)
  have cache: "cache_ok Q (st_cache st)" using "2.prems"(2) by (simp add: search_ok_def)
  note c = activate_frame_ok [OF act cache]
  have g: "G Q cx ((case fo of None \<Rightarrow> [] | Some f \<Rightarrow> [f]) @ st_remaining st) None \<and> K cx"
    using "2.prems"(3,4,5) cache act unfolding keeps_root_def by simp
  show ?case
  proof (cases fo)
    case None
    with "2.prems"(1) act have "activate_roots Q rest (st\<lparr>st_cx := cx, st_cache := c\<rparr>) = Some (Inr st')" by simp
    moreover have "search_ok G Q (st\<lparr>st_cx := cx, st_cache := c\<rparr>)" using "2.prems"(2) c by (simp add: search_ok_def)
    ultimately show ?thesis
      using g None act "2.prems"(5) by (intro "2.IH"(1) [OF act refl refl None refl]) auto
  next
    case (Some f)
    let ?st = "st\<lparr>st_cx := cx, st_cache := c, st_remaining := heap_push f (st_remaining st)\<rparr>"
    from "2.prems"(1) act Some have "activate_roots Q rest ?st = Some (Inr st')" by simp
    moreover have "search_ok G Q ?st" using "2.prems"(2) c Some by (simp add: search_ok_def heap_push_def)
    ultimately show ?thesis
      using g Some act "2.prems"(5) by (intro "2.IH"(2) [OF act refl refl Some refl]) (auto simp: heap_push_def)
  qed
qed

lemma activate_deps_loop_ok:
  assumes "activate_deps_loop n Q roots = Some (Inr cx)" "G Q new_context [] None" "K new_context"
    and step: "\<forall>(s, m)\<in>set roots. keeps_root G Q K s m"
  shows "\<exists>h. open_frames h = {} \<and> G Q cx h None"
proof -
  from assms(1) obtain st where st: "activate_roots Q roots initial_search = Some (Inr st)"
    and run: "run_machine n Q (Outer st) = Some (Inr cx)"
    by (auto simp: activate_deps_loop_def)
  have "search_ok G Q initial_search" by (simp add: search_ok_def initial_search_def cache_ok_def)
  then have "machine_ok G Q (Outer st)"
    using assms(2,3) by (intro activate_roots_ok [OF st _ _ _ step]) (auto simp: initial_search_def)
  with run show ?thesis by (rule run_machine_ok)
qed

end

end
