(* ===== verification/Resolver_Correct.thy ===== *)
theory Resolver_Correct
  imports Resolver_Invariant
begin

text \<open>
  What a successful resolution guarantees.  Three invariants are shown to be search invariants:
  packages with a \<open>links\<close> key are unique, no two semver-compatible versions of a
  package are active, and every required dependency of every active package is
  resolved or still on the work list.
\<close>

section \<open>Active packages\<close>

definition active :: "('s, 'r) res_context \<Rightarrow> ('s, 'r) summary \<Rightarrow> bool" where
  "active cx s \<longleftrightarrow> s \<in> set (active_list cx (activation_key (package_id s)))"

lemma is_active_iff: "is_active cx p \<longleftrightarrow> (\<exists>s\<in>set (active_list cx (activation_key p)). package_id s = p)"
  by (auto simp: is_active_def active_list_def activation_key_def list_ex_iff split: option.splits)

lemma is_active_active: "is_active cx p \<longleftrightarrow> (\<exists>s. active cx s \<and> package_id s = p)"
  by (auto simp: is_active_iff active_def)

text \<open>What \<open>flag_activated\<close> does to a context.\<close>

definition newly :: "('s, 'r) summary \<Rightarrow> ('s, 'r) res_context \<Rightarrow> ('s, 'r) res_context \<Rightarrow> bool" where
  "newly s cx cx' \<longleftrightarrow>
     \<not> is_active cx (package_id s) \<and>
     (\<forall>k. active_list cx' k = active_list cx k @ (if k = activation_key (package_id s) then [s] else [])) \<and>
     resolve_graph cx' = Add (package_id s) # resolve_graph cx \<and>
     ctx_replacements cx' = ctx_replacements cx \<and> resolved_features cx' = resolved_features cx \<and>
     (case links s of
        None \<Rightarrow> ctx_links cx' = ctx_links cx
      | Some l \<Rightarrow> map_of (ctx_links cx) l = None \<and> ctx_links cx' = AList.update l (package_id s) (ctx_links cx))"

lemma flag_activated_cases:
  assumes "flag_activated s m cx = Inr (b, cx')"
  shows "(is_active cx (package_id s) \<and> cx' = cx) \<or> (\<not> b \<and> newly s cx cx')"
proof (cases "is_active cx (package_id s)")
  case True
  then have "list_ex (\<lambda>c. summary_eq c s) (active_list cx (activation_key (package_id s)))"
    by (auto simp: is_active_iff list_ex_iff summary_eq_def)
  with assms True show ?thesis
    by (auto simp: flag_activated_def Let_def split: res_method.splits if_splits)
next
  case False
  then have "\<not> list_ex (\<lambda>c. summary_eq c s) (active_list cx (activation_key (package_id s)))"
    by (auto simp: is_active_iff list_ex_iff summary_eq_def)
  with assms False show ?thesis
    by (auto simp: flag_activated_def Let_def newly_def active_list_def split: option.splits if_splits)
qed

lemma newly_active: "newly s cx cx' \<Longrightarrow> active cx' t \<longleftrightarrow> active cx t \<or> t = s"
proof -
  assume n: "newly s cx cx'"
  have "active_list cx' k = active_list cx k @ (if k = activation_key (package_id s) then [s] else [])" for k
    using n unfolding newly_def by blast
  then show ?thesis by (auto simp: active_def)
qed

text \<open>Steps that leave the activations alone.\<close>

definition same_activations :: "('s, 'r) res_context \<Rightarrow> ('s, 'r) res_context \<Rightarrow> bool" where
  "same_activations cx cx' \<longleftrightarrow>
     activations cx' = activations cx \<and> ctx_links cx' = ctx_links cx \<and>
     resolve_graph cx' = resolve_graph cx \<and> ctx_replacements cx' = ctx_replacements cx"

lemma collect_dep_same:
  "collect_dep s reqs d (cx, u, ret) = Inr (cx', u', ret') \<Longrightarrow> same_activations cx cx'"
  by (auto simp: collect_dep_def Let_def same_activations_def split: if_splits option.splits)

lemma collect_deps_same:
  "foldE (collect_dep s reqs) ds (cx, u, ret) = Inr (cx', u', ret') \<Longrightarrow> same_activations cx cx'"
proof (induction ds arbitrary: cx u ret)
  case Nil
  then show ?case by (simp add: same_activations_def)
next
  case (Cons d ds)
  then obtain cx1 u1 ret1 where "collect_dep s reqs d (cx, u, ret) = Inr (cx1, u1, ret1)"
    "foldE (collect_dep s reqs) ds (cx1, u1, ret1) = Inr (cx', u', ret')"
    by (auto split: prod.splits)
  with Cons.IH collect_dep_same show ?case unfolding same_activations_def by metis
qed

lemma resolve_features_same:
  "resolve_features parent s m cx = Some (Inr (ds, cx')) \<Longrightarrow> same_activations cx cx'"
  by (auto simp: resolve_features_def Let_def split: option.splits sum.splits if_splits
      dest!: collect_deps_same simp: same_activations_def)

lemma build_deps_same:
  "build_deps Q parent s m cx cache = Some (Inr (infos, cx', cache')) \<Longrightarrow> same_activations cx cx'"
  by (auto simp: build_deps_def split: option.splits sum.splits prod.splits dest: resolve_features_same)

lemma linked_fields [simp]:
  "activations (linked p i cx) = activations cx" "ctx_links (linked p i cx) = ctx_links cx"
  "ctx_replacements (linked p i cx) = ctx_replacements cx"
  by (simp_all add: linked_def split: option.splits prod.splits)

section \<open>Packages with a links key\<close>

definition links_ok :: "('s, 'r) res_context \<Rightarrow> bool" where
  "links_ok cx \<longleftrightarrow>
     (\<forall>s t. active cx s \<and> active cx t \<and> package_id s = package_id t \<longrightarrow> s = t) \<and>
     (\<forall>s l. active cx s \<and> links s = Some l \<longrightarrow> map_of (ctx_links cx) l = Some (package_id s))"

lemma links_ok_newly:
  assumes "links_ok cx" "newly s cx cx'"
  shows "links_ok cx'"
  unfolding links_ok_def
proof (intro conjI allI impI; elim conjE)
  fix a b
  assume "active cx' a" "active cx' b" "package_id a = package_id b"
  moreover have "\<not> active cx t" if "package_id t = package_id s" for t
    using that assms(2) by (auto simp: newly_def is_active_active)
  ultimately show "a = b"
    using assms newly_active [OF assms(2)] unfolding links_ok_def by metis
next
  fix a l
  assume a: "active cx' a" "links a = Some l"
  show "map_of (ctx_links cx') l = Some (package_id a)"
  proof (cases "a = s")
    case True
    then show ?thesis using assms(2) a by (auto simp: newly_def)
  next
    case False
    then have "active cx a" using a newly_active [OF assms(2)] by simp
    then have l: "map_of (ctx_links cx) l = Some (package_id a)" using assms(1) a by (simp add: links_ok_def)
    then show ?thesis using assms(2) by (auto simp: newly_def split: option.splits)
  qed
qed

lemma links_ok_flag: "links_ok cx \<Longrightarrow> flag_activated s m cx = Inr (b, cx') \<Longrightarrow> links_ok cx'"
  using flag_activated_cases links_ok_newly by blast

lemma links_ok_cong:
  "activations cx' = activations cx \<Longrightarrow> ctx_links cx' = ctx_links cx \<Longrightarrow> links_ok cx' = links_ok cx"
  by (simp add: links_ok_def active_def active_list_def)

lemma links_ok_flagged: "links_ok cx \<Longrightarrow> flagged cand m cx b cx' \<Longrightarrow> links_ok cx'"
  by (auto simp: flagged_def split: option.splits intro: links_ok_flag
      dest!: links_ok_flag [rotated] simp: links_ok_cong [of "_\<lparr>ctx_replacements := _\<rparr>"])

lemma links_ok_activate:
  assumes "links_ok cx" "activate Q parent cand m cx cache = Some (Inr (fo, cx', cache'))"
  shows "links_ok cx'"
proof -
  let ?l = "linked parent (package_id (cand_summary cand)) cx"
  have l: "links_ok ?l" using assms(1) links_ok_cong [of ?l cx] by simp
  from assms(2) show ?thesis
  proof (cases rule: activate_elim)
    case old
    then show ?thesis by (intro links_ok_flagged [OF l])
  next
    case (expanded cx1 deps)
    have "links_ok cx1" by (rule links_ok_flagged [OF l expanded(1)])
    with build_deps_same [OF expanded(2)] links_ok_cong [of cx' cx1] show ?thesis
      by (simp add: same_activations_def)
  qed
qed

interpretation links_search: search_invariant "\<lambda>Q cx h pend. links_ok cx"
  by unfold_locales (auto intro: links_ok_activate)

text \<open>
  C2: a resolution that succeeds never holds two packages with the same \<open>links\<close> key, whatever the
  registry, the replacements and the initial summaries are.
\<close>

theorem resolve_links_unique:
  assumes "activate_deps_loop n Q roots = Some (Inr cx)"
    and "active cx s" "active cx t" "links s = Some l" "links t = Some l"
  shows "s = t"
proof -
  have "links_ok new_context" by (simp add: links_ok_def active_def active_list_def new_context_def)
  then have "links_ok cx"
    using links_search.activate_deps_loop_ok [OF assms(1), of "\<lambda>_. True"]
    by (auto simp: keeps_root_def intro: links_ok_activate)
  then show ?thesis using assms(2-5) unfolding links_ok_def by (metis option.inject)
qed

section \<open>Semver-compatible versions\<close>

definition semver_ok :: "string \<times> 's \<Rightarrow> ('s, 'r) res_context \<Rightarrow> bool" where
  "semver_ok key cx \<longleftrightarrow>
     (\<forall>s t. active cx s \<and> active cx t \<and> activation_key (package_id s) = key \<and> activation_key (package_id t) = key \<and>
        compatible (pid_version (package_id s)) (pid_version (package_id t)) \<longrightarrow> package_id s = package_id t)"

text \<open>The registry offers packages of one name and source only for dependencies on that name and source.  A
  \<open>PackageRegistry\<close> does so for a source none of whose packages it uses to patch another source.\<close>

definition registry_exact :: "('s, 'r) queryer \<Rightarrow> string \<times> 's \<Rightarrow> bool" where
  "registry_exact Q key \<longleftrightarrow>
     (\<forall>d ss s. reg_query Q d = Inr ss \<and> s \<in> set ss \<and> activation_key (package_id s) = key \<longrightarrow> (dep_name d, dep_source_id d) = key)"

lemma compatible_sym: "compatible a b = compatible b a"
  by (auto simp: compatible_def)

lemma collectR_Inr: "collectR f xs = Some (Inr ys) \<Longrightarrow> y \<in> set ys \<Longrightarrow> \<exists>x\<in>set xs. f x = Some (Inr y)"
  by (induction xs arbitrary: ys) auto

lemma apply_replacement_summary: "apply_replacement Q s = Some (Inr b) \<Longrightarrow> cand_summary b = s"
proof (cases "filter (\<lambda>(spec, _). spec (package_id s)) (replacements Q)")
  case Nil
  then show "apply_replacement Q s = Some (Inr b) \<Longrightarrow> ?thesis" by (auto simp: apply_replacement_def)
next
  case (Cons x others)
  obtain spec dep where x: "x = (spec, dep)" by (cases x)
  assume "apply_replacement Q s = Some (Inr b)"
  with Cons x obtain ss where "(case ss of
              [] \<Rightarrow> Some (Inl (NoMatchForOverride dep))
            | r # rest \<Rightarrow>
                if rest \<noteq> [] then Some (Inl (ReplacementMatchedMultiple dep (map package_id ss)))
                else if pid_version (package_id r) \<noteq> pid_version (package_id s) then None
                else if pid_name (package_id r) \<noteq> pid_name (package_id s) then None
                else if others \<noteq> [] then Some (Inl (OverlappingReplacements (package_id s)))
                else Some (Inr \<lparr>cand_summary = s,
                       replace = (if pid_source (package_id r) = pid_source (package_id s)
                                  then None else Some r)\<rparr>)) = Some (Inr b)"
    by (simp add: apply_replacement_def) blast
  then show ?thesis by (cases ss) (auto split: if_splits)
qed

lemma from_query_registry:
  assumes "from_query Q d b"
  shows "\<exists>ss. reg_query Q d = Inr ss \<and> cand_summary b \<in> set ss"
    and "replacements Q = [] \<Longrightarrow> replace b = None"
proof -
  from assms obtain ss bs where ss: "reg_query Q d = Inr ss" and bs: "collectR (apply_replacement Q) ss = Some (Inr bs)"
    and b: "b \<in> set bs"
    by (auto simp: from_query_def query_candidates_def run_query_def split: sum.splits)
  from collectR_Inr [OF bs b] obtain s where s: "s \<in> set ss" "apply_replacement Q s = Some (Inr b)" by blast
  with ss show "\<exists>ss. reg_query Q d = Inr ss \<and> cand_summary b \<in> set ss"
    by (auto dest: apply_replacement_summary)
  show "replace b = None" if "replacements Q = []"
    using s(2) that by (auto simp: apply_replacement_def)
qed

lemma semver_ok_cong: "activations cx' = activations cx \<Longrightarrow> semver_ok key cx' = semver_ok key cx"
  by (simp add: semver_ok_def active_def active_list_def)

lemma semver_ok_newly:
  assumes "semver_ok key cx" "newly s cx cx'"
    and "\<And>t. active cx t \<Longrightarrow> activation_key (package_id s) = key \<Longrightarrow> activation_key (package_id t) = key \<Longrightarrow>
      compatible (pid_version (package_id t)) (pid_version (package_id s)) \<Longrightarrow> package_id t = package_id s"
  shows "semver_ok key cx'"
  using assms(1,3) newly_active [OF assms(2)] unfolding semver_ok_def
  by (metis compatible_sym)

lemma valid_no_compatible:
  assumes "valid cx d cand" "activation_key (package_id (cand_summary cand)) = (dep_name d, dep_source_id d)"
    and "\<not> is_active cx (package_id (cand_summary cand))" "active cx t"
    and "activation_key (package_id t) = activation_key (package_id (cand_summary cand))"
  shows "\<not> compatible (pid_version (package_id t)) (pid_version (package_id (cand_summary cand)))"
proof
  let ?c = "\<lambda>a. compatible (pid_version (package_id a)) (pid_version (package_id (cand_summary cand)))"
  assume c: "?c t"
  have t: "t \<in> set (prev_active cx d)" using assms(2,4,5) by (simp add: active_def prev_active_def)
  with c have "find ?c (prev_active cx d) \<noteq> None" by (auto simp: find_None_iff)
  then obtain a where a: "find ?c (prev_active cx d) = Some a" by blast
  then have "a \<in> set (prev_active cx d)" by (auto simp: find_Some_iff)
  moreover have "package_id a = package_id (cand_summary cand)"
    using assms(1) a by (auto simp: valid_def semver_conflict_def summary_eq_def split: if_splits)
  ultimately show False using assms(2,3) by (auto simp: is_active_iff prev_active_def)
qed

lemma active_cong [simp]: "active (linked p i cx) s = active cx s" "is_active (linked p i cx) q = is_active cx q"
  by (simp_all add: active_def active_list_def is_active_def)

lemma semver_ok_activate:
  assumes "semver_ok key cx" "replace cand = None"
    and act: "activate Q parent cand m cx cache = Some (Inr (fo, cx', cache'))"
    and apart: "\<And>t. \<not> is_active cx (package_id (cand_summary cand)) \<Longrightarrow> active cx t \<Longrightarrow>
      activation_key (package_id (cand_summary cand)) = key \<Longrightarrow> activation_key (package_id t) = key \<Longrightarrow>
      compatible (pid_version (package_id t)) (pid_version (package_id (cand_summary cand))) \<Longrightarrow>
      package_id t = package_id (cand_summary cand)"
  shows "semver_ok key cx'"
proof -
  let ?l = "linked parent (package_id (cand_summary cand)) cx"
  have l: "semver_ok key ?l" using assms(1) semver_ok_cong [of ?l cx] by simp
  have flag: "semver_ok key cx1" if "flagged cand m ?l b cx1" for b cx1
  proof -
    from that assms(2) have "flag_activated (cand_summary cand) m ?l = Inr (b, cx1)" by (simp add: flagged_def)
    then consider "cx1 = ?l" | "newly (cand_summary cand) ?l cx1" using flag_activated_cases by blast
    then show ?thesis
    proof cases
      case 1
      then show ?thesis using l by simp
    next
      case 2
      then have "\<not> is_active cx (package_id (cand_summary cand))" by (simp add: newly_def)
      with l 2 apart show ?thesis by (intro semver_ok_newly [OF l 2]) auto
    qed
  qed
  from act show ?thesis
  proof (cases rule: activate_elim)
    case old
    then show ?thesis using flag by blast
  next
    case (expanded cx1 deps)
    with flag [OF expanded(1)] build_deps_same [OF expanded(2)] semver_ok_cong [of cx' cx1] show ?thesis
      by (simp add: same_activations_def)
  qed
qed

definition semver_inv ::
    "string \<times> 's \<Rightarrow> ('s, 'r) queryer \<Rightarrow> ('s, 'r) res_context \<Rightarrow> ('s, 'r) deps_frame list \<Rightarrow>
       ('s package_id \<times> ('s, 'r) dependency) option \<Rightarrow> bool" where
  "semver_inv key Q cx h pend \<longleftrightarrow> (registry_exact Q key \<and> replacements Q = [] \<longrightarrow> semver_ok key cx)"

interpretation semver_search: search_invariant "semver_inv key" for key :: "string \<times> 's"
proof unfold_locales
  fix Q :: "('s, 'r) queryer" and cx h p d cand cache fs df fo cx' cache' b
  assume inv: "semver_inv key Q cx h (Some (package_id p, d))" and q: "from_query Q d cand" and v: "valid cx d cand"
    and act: "activate Q (Some (p, d)) cand (Required False fs False df) cx cache = Some (Inr (fo, cx', cache'))"
  show "semver_inv key Q cx' ((case fo of None \<Rightarrow> [] | Some f \<Rightarrow> [f\<lparr>just_for_error_messages := b\<rparr>]) @ h) None"
    unfolding semver_inv_def
  proof
    assume Q: "registry_exact Q key \<and> replacements Q = []"
    have key: "activation_key (package_id (cand_summary cand)) = (dep_name d, dep_source_id d)"
      if "activation_key (package_id (cand_summary cand)) = key"
      using from_query_registry(1) [OF q] Q that unfolding registry_exact_def by metis
    have "semver_ok key cx" "replace cand = None"
      using inv Q from_query_registry(2) [OF q] by (auto simp: semver_inv_def)
    then show "semver_ok key cx'"
      using valid_no_compatible [OF v key] by (intro semver_ok_activate [OF _ _ act]) auto
  qed
qed (simp add: semver_inv_def)

text \<open>The initial summaries: no two versions of the package that are compatible.\<close>

definition roots_apart :: "(('s, 'r) summary \<times> res_method) list \<Rightarrow> string \<times> 's \<Rightarrow> bool" where
  "roots_apart roots key \<longleftrightarrow>
     (\<forall>(s, _)\<in>set roots. \<forall>(t, _)\<in>set roots.
        activation_key (package_id s) = key \<and> activation_key (package_id t) = key \<and>
        compatible (pid_version (package_id s)) (pid_version (package_id t)) \<longrightarrow> package_id s = package_id t)"

lemma activate_active:
  assumes "activate Q parent cand m cx cache = Some (Inr (fo, cx', cache'))" "active cx' t"
  shows "active cx t \<or> t = cand_summary cand \<or> replace cand = Some t"
proof -
  have flag: "active cx1 t \<Longrightarrow> active cx t \<or> t = cand_summary cand \<or> replace cand = Some t"
    if "flagged cand m (linked parent (package_id (cand_summary cand)) cx) b cx1" for b cx1
  proof -
    have 1: "active c' u \<Longrightarrow> active c u \<or> u = x" if "flag_activated x m c = Inr (y, c')" for x c y c' u
      using flag_activated_cases [OF that] newly_active by blast
    have 2: "active (c\<lparr>ctx_replacements := r\<rparr>) u = active c u" for c u r
      by (simp add: active_def active_list_def)
    show "active cx1 t \<Longrightarrow> active cx t \<or> t = cand_summary cand \<or> replace cand = Some t"
      using that by (auto simp: flagged_def 2 split: option.splits dest!: 1)
  qed
  from assms(1) show ?thesis
  proof (cases rule: activate_elim)
    case old
    then show ?thesis using flag assms(2) by blast
  next
    case (expanded cx1 deps)
    have "active cx1 t" using assms(2) build_deps_same [OF expanded(2)]
      by (simp add: active_def active_list_def same_activations_def)
    then show ?thesis using flag [OF expanded(1)] by blast
  qed
qed

text \<open>
  C5: without \<open>[replace]\<close>, a resolution that succeeds never holds two semver-compatible versions of a package of one name
  and source, provided the registry offers the packages of that name and source only for dependencies on them (which
  fails for a source whose packages patch another source, and only then may two compatible versions meet, see below) and the
  initial summaries hold no such pair.
\<close>

theorem resolve_semver_unique:
  assumes loop: "activate_deps_loop n Q roots = Some (Inr cx)"
    and st: "active cx s" "active cx t" "pid_name (package_id s) = pid_name (package_id t)"
      "pid_source (package_id s) = pid_source (package_id t)"
      "compatible (pid_version (package_id s)) (pid_version (package_id t))"
    and Q: "registry_exact Q (pid_name (package_id s), pid_source (package_id s))" "replacements Q = []"
    and roots: "roots_apart roots (pid_name (package_id s), pid_source (package_id s))"
  shows "package_id s = package_id t"
proof -
  let ?key = "(pid_name (package_id s), pid_source (package_id s))"
  let ?K = "\<lambda>cx. \<forall>s. active cx s \<longrightarrow> s \<in> fst ` set roots"
  have none: "\<not> active new_context s" for s :: "('a, 'b) summary"
    by (simp add: active_def active_list_def new_context_def)
  have "keeps_root (semver_inv ?key) Q ?K r m" if r: "(r, m) \<in> set roots" for r m
    unfolding keeps_root_def
  proof (intro allI impI; elim conjE; intro conjI)
    fix cx cache fo cx' cache' h
    assume inv: "semver_inv ?key Q cx h None" and k: "?K cx"
      and act: "activate Q None \<lparr>cand_summary = r, replace = None\<rparr> m cx cache = Some (Inr (fo, cx', cache'))"
    show "?K cx'" using k r activate_active [OF act] by force
    have "package_id u = package_id r" if "active cx u" "activation_key (package_id r) = ?key" "activation_key (package_id u) = ?key"
      "compatible (pid_version (package_id u)) (pid_version (package_id r))" for u
    proof -
      have "u \<in> fst ` set roots" using k that(1) by blast
      then obtain m' where "(u, m') \<in> set roots" by auto
      with r that(2-4) roots show ?thesis unfolding roots_apart_def by fast
    qed
    then have "semver_ok ?key cx'"
      using inv Q by (intro semver_ok_activate [OF _ _ act]) (auto simp: semver_inv_def)
    then show "semver_inv ?key Q cx' ((case fo of None \<Rightarrow> [] | Some f \<Rightarrow> [f]) @ h) None" by (simp add: semver_inv_def)
  qed
  then have "semver_ok ?key cx"
    using semver_search.activate_deps_loop_ok [OF loop, of ?key ?K] none Q
    by (auto simp: semver_inv_def semver_ok_def split: prod.splits)
  with st show ?thesis unfolding semver_ok_def activation_key_def by simp
qed

section \<open>Dependencies are resolved\<close>

definition required :: "('s, 'r) dependency \<Rightarrow> bool" where
  "required d \<longleftrightarrow> is_transitive d \<and> \<not> optional d"

definition resolved :: "('s, 'r) queryer \<Rightarrow> ('s, 'r) res_context \<Rightarrow> 's package_id \<Rightarrow> ('s, 'r) dependency \<Rightarrow> bool" where
  "resolved Q cx p d \<longleftrightarrow>
     (\<exists>cand. from_query Q d cand \<and> Link p (package_id (cand_summary cand)) d \<in> set (resolve_graph cx) \<and>
        is_active cx (package_id (cand_summary cand)))"

definition waits :: "('s, 'r) deps_frame list \<Rightarrow> 's package_id \<Rightarrow> ('s, 'r) dependency \<Rightarrow> bool" where
  "waits h p d \<longleftrightarrow> (\<exists>f\<in>set h. package_id (frame_parent f) = p \<and> d \<in> fst ` set (ahead (remaining_siblings f)))"

definition replaced :: "('s, 'r) res_context \<Rightarrow> 's package_id \<Rightarrow> bool" where
  "replaced cx p \<longleftrightarrow> p \<in> fst ` set (ctx_replacements cx)"

definition deps_inv ::
    "('s, 'r) queryer \<Rightarrow> ('s, 'r) res_context \<Rightarrow> ('s, 'r) deps_frame list \<Rightarrow>
       ('s package_id \<times> ('s, 'r) dependency) option \<Rightarrow> bool" where
  "deps_inv Q cx h pend \<longleftrightarrow>
     (\<forall>s d. active cx s \<and> \<not> replaced cx (package_id s) \<and> d \<in> set (dependencies s) \<and> required d \<longrightarrow>
        resolved Q cx (package_id s) d \<or> waits h (package_id s) d \<or> pend = Some (package_id s, d))"

text \<open>Contexts only grow.\<close>

definition ctx_le :: "('s, 'r) res_context \<Rightarrow> ('s, 'r) res_context \<Rightarrow> bool" where
  "ctx_le cx cx' \<longleftrightarrow>
     set (resolve_graph cx) \<subseteq> set (resolve_graph cx') \<and> (\<forall>s. active cx s \<longrightarrow> active cx' s) \<and>
     set (ctx_replacements cx) \<subseteq> set (ctx_replacements cx')"

lemma ctx_le_refl: "ctx_le cx cx"
  by (simp add: ctx_le_def)

lemma ctx_le_trans: "ctx_le a b \<Longrightarrow> ctx_le b c \<Longrightarrow> ctx_le a c"
  unfolding ctx_le_def by blast

lemma ctx_le_flag: "flag_activated s m cx = Inr (b, cx') \<Longrightarrow> ctx_le cx cx'"
  using flag_activated_cases [of s m cx b cx'] newly_active [of s cx cx']
  by (auto simp: ctx_le_def newly_def)

lemma ctx_le_same: "same_activations cx cx' \<Longrightarrow> ctx_le cx cx'"
  by (simp add: same_activations_def ctx_le_def active_def active_list_def)

lemma ctx_le_linked: "ctx_le cx (linked parent pid cx)"
  by (auto simp: ctx_le_def linked_def active_def active_list_def split: option.splits prod.splits)

lemma resolved_mono: "resolved Q cx p d \<Longrightarrow> ctx_le cx cx' \<Longrightarrow> resolved Q cx' p d"
  unfolding resolved_def ctx_le_def is_active_active by blast

lemma flag_activated_active: "flag_activated s m cx = Inr (b, cx') \<Longrightarrow> is_active cx' (package_id s)"
  using flag_activated_cases [of s m cx b cx'] newly_active [of s cx cx']
  by (auto simp: is_active_active)

lemma flag_activated_new:
  "flag_activated s m cx = Inr (b, cx') \<Longrightarrow> active cx' t \<Longrightarrow> active cx t \<or> (t = s \<and> \<not> b)"
  using flag_activated_cases newly_active by blast

text \<open>The flags of an activation: what becomes active is the candidate, its replacement, or nothing.\<close>

lemma flagged_ctx:
  assumes "flagged cand m cx b cx'"
  shows "ctx_le cx cx' \<and> is_active cx' (package_id (cand_summary cand)) \<and>
    (\<forall>t. active cx' t \<longrightarrow> active cx t \<or> (t = effective cand \<and> \<not> b) \<or>
       (t = cand_summary cand \<and> replaced cx' (package_id t)))"
proof (cases "replace cand")
  case None
  then have f: "flag_activated (cand_summary cand) m cx = Inr (b, cx')" using assms by (simp add: flagged_def)
  show ?thesis
    using ctx_le_flag [OF f] flag_activated_active [OF f] flag_activated_new [OF f] None
    by (auto simp: effective_def)
next
  case (Some r)
  let ?p = "(package_id (cand_summary cand), package_id r)"
  from assms Some obtain b1 cx1 b2 where f1: "flag_activated (cand_summary cand) m cx = Inr (b1, cx1)"
    and f2: "flag_activated r m (cx1\<lparr>ctx_replacements := ?p # ctx_replacements cx1\<rparr>) = Inr (b2, cx')"
    and b: "b = (b2 \<and> b1)"
    by (auto simp: flagged_def)
  let ?cx2 = "cx1\<lparr>ctx_replacements := ?p # ctx_replacements cx1\<rparr>"
  have act: "active ?cx2 t = active cx1 t" for t by (simp add: active_def active_list_def)
  have le: "ctx_le cx cx1" "ctx_le cx1 ?cx2" "ctx_le ?cx2 cx'"
    using ctx_le_flag [OF f1] ctx_le_flag [OF f2] act by (auto simp: ctx_le_def)
  have "replaced cx' (package_id (cand_summary cand))"
    using le(3) by (force simp: ctx_le_def replaced_def)
  moreover have "is_active cx' (package_id (cand_summary cand))"
    using flag_activated_active [OF f1] le(2,3) unfolding is_active_active ctx_le_def by blast
  moreover have "active cx t \<or> (t = r \<and> \<not> b2) \<or> t = cand_summary cand" if "active cx' t" for t
    using flag_activated_new [OF f2 that] flag_activated_new [OF f1] act by blast
  ultimately show ?thesis
    using le Some b by (auto simp: effective_def intro: ctx_le_trans)
qed

lemma collect_deps_all:
  assumes "foldE (collect_dep s reqs) ds (cx, u, ret) = Inr (cx', u', ret')"
  shows "fst ` set ret \<subseteq> fst ` set ret' \<and> (\<forall>d\<in>set ds. \<not> optional d \<longrightarrow> d \<in> fst ` set ret')"
  using assms
proof (induction ds arbitrary: cx u ret)
  case Nil
  then show ?case by simp
next
  case (Cons d ds)
  then obtain cx1 u1 ret1 where step: "collect_dep s reqs d (cx, u, ret) = Inr (cx1, u1, ret1)"
    and rest: "foldE (collect_dep s reqs) ds (cx1, u1, ret1) = Inr (cx', u', ret')"
    by (auto split: prod.splits)
  have "fst ` set ret \<subseteq> fst ` set ret1 \<and> (\<not> optional d \<longrightarrow> d \<in> fst ` set ret1)"
    using step by (auto simp: collect_dep_def Let_def split: if_splits option.splits)
  then show ?case using Cons.IH [OF rest] by auto
qed

lemma resolve_features_required:
  assumes "resolve_features parent s m cx = Some (Inr (ds, cx'))" "d \<in> set (dependencies s)" "required d"
  shows "d \<in> fst ` set ds"
proof -
  from assms(1) obtain reqs cx1 u where
    "foldE (collect_dep s reqs) (filter (\<lambda>d. is_transitive d \<or> dev_deps m) (dependencies s)) (cx, {}, []) = Inr (cx1, u, ds)"
    by (auto simp: resolve_features_def Let_def split: option.splits sum.splits if_splits)
  from collect_deps_all [OF this] assms(2,3) show ?thesis by (auto simp: required_def)
qed

lemma deps_inv_activate:
  assumes inv: "deps_inv Q cx h (map_option (\<lambda>(p, d). (package_id p, d)) parent)"
    and cand: "\<And>p d. parent = Some (p, d) \<Longrightarrow> from_query Q d cand"
    and cache: "cache_ok Q cache"
    and act: "activate Q parent cand m cx cache = Some (Inr (fo, cx', cache'))"
  shows "deps_inv Q cx' ((case fo of None \<Rightarrow> [] | Some f \<Rightarrow> [f\<lparr>just_for_error_messages := b\<rparr>]) @ h) None"
proof -
  let ?pid = "package_id (cand_summary cand)"
  let ?l = "linked parent ?pid cx"
  let ?h = "(case fo of None \<Rightarrow> [] | Some f \<Rightarrow> [f\<lparr>just_for_error_messages := b\<rparr>]) @ h"
  have key: "ctx_le ?l cx' \<and> is_active cx' ?pid \<and>
    (\<forall>t. active cx' t \<longrightarrow> active cx t \<or> replaced cx' (package_id t) \<or>
       (\<forall>d\<in>set (dependencies t). required d \<longrightarrow> waits ?h (package_id t) d))"
    using act
  proof (cases rule: activate_elim)
    case old
    show ?thesis using flagged_ctx [OF old(1)] unfolding active_cong by blast
  next
    case (expanded cx1 deps)
    note f = flagged_ctx [OF expanded(1)]
    have same: "same_activations cx1 cx'" by (rule build_deps_same [OF expanded(2)])
    from build_deps_Inr [OF expanded(2) cache] obtain ds where
      rf: "resolve_features (map_option fst parent) (effective cand) m cx1 = Some (Inr (ds, cx'))"
      and ds: "set ds = (\<lambda>(d, _, fs). (d, fs)) ` set deps" by blast
    have "waits ?h (package_id (effective cand)) d" if "d \<in> set (dependencies (effective cand))" "required d" for d
    proof -
      have "d \<in> fst ` set deps" using resolve_features_required [OF rf that] ds by force
      then show ?thesis using expanded(3) by (auto simp: waits_def new_iter_def)
    qed
    moreover have "active cx' t = active cx1 t" "replaced cx' = replaced cx1" "is_active cx' = is_active cx1" for t
      using same by (auto simp: same_activations_def active_def active_list_def replaced_def is_active_def fun_eq_iff)
    moreover have "ctx_le ?l cx'" using f ctx_le_same [OF same] by (blast intro: ctx_le_trans)
    ultimately show ?thesis using f by (metis active_cong(1))
  qed
  then have le: "ctx_le cx cx'" using ctx_le_linked ctx_le_trans by blast
  show ?thesis
    unfolding deps_inv_def
  proof (intro allI impI; elim conjE)
    fix s d
    assume s: "active cx' s" "\<not> replaced cx' (package_id s)" "d \<in> set (dependencies s)" "required d"
    show "resolved Q cx' (package_id s) d \<or> waits ?h (package_id s) d \<or> None = Some (package_id s, d)"
    proof (cases "active cx s")
      case False
      then show ?thesis using key s by blast
    next
      case True
      have "\<not> replaced cx (package_id s)" using s(2) le by (auto simp: replaced_def ctx_le_def)
      with inv True s(3,4) consider "resolved Q cx (package_id s) d" | "waits h (package_id s) d"
        | p where "parent = Some (p, d)" "package_id p = package_id s"
        unfolding deps_inv_def by fastforce
      then show ?thesis
      proof cases
        case 1
        then show ?thesis using resolved_mono [OF _ le] by blast
      next
        case 2
        then show ?thesis by (auto simp: waits_def)
      next
        case (3 p)
        have "Link (package_id s) ?pid d \<in> set (resolve_graph cx')"
          using key 3 by (auto simp: ctx_le_def linked_def)
        then show ?thesis using cand [OF 3(1)] key unfolding resolved_def by blast
      qed
    qed
  qed
qed

lemma deps_inv_pop:
  assumes "deps_inv Q cx h None" "taken f h just parent i (d, cs, fs) h'"
  shows "deps_inv Q cx h' (Some (package_id parent, d))"
proof -
  from assms(2) obtain sibs rest where r: "ahead (remaining_siblings f) = (d, cs, fs) # sibs"
    "set h' = insert (f\<lparr>remaining_siblings := \<lparr>handed = handed (remaining_siblings f) @ [(d, cs, fs)], ahead = sibs\<rparr>\<rparr>) rest"
    "open_frames h \<subseteq> insert f rest" "parent = frame_parent f"
    unfolding taken_def by blast
  have "waits h' p e \<or> (p, e) = (package_id parent, d)" if "waits h p e" for p e
  proof -
    from that obtain g where g: "g \<in> set h" "package_id (frame_parent g) = p" "e \<in> fst ` set (ahead (remaining_siblings g))"
      by (auto simp: waits_def)
    then have "g \<in> open_frames h" by (auto simp: open_frames_def)
    then consider "g = f" | "g \<in> rest" using r(3) by blast
    then show ?thesis
      using g r by cases (auto simp: waits_def)
  qed
  with assms(1) show ?thesis unfolding deps_inv_def by (metis option.inject option.distinct(1))
qed

interpretation deps_search: search_invariant deps_inv
proof unfold_locales
  fix Q :: "('s, 'r) queryer" and cx h p d cand cache fs df fo cx' cache' b
  assume "deps_inv Q cx h (Some (package_id p, d))" "from_query Q d cand" "cache_ok Q cache"
    "activate Q (Some (p, d)) cand (Required False fs False df) cx cache = Some (Inr (fo, cx', cache'))"
  then show "deps_inv Q cx' ((case fo of None \<Rightarrow> [] | Some f \<Rightarrow> [f\<lparr>just_for_error_messages := b\<rparr>]) @ h) None"
    by (intro deps_inv_activate [where parent = "Some (p, d)"]) auto
qed (rule deps_inv_pop)


lemma no_frames_wait: "open_frames h = {} \<Longrightarrow> \<not> waits h p d"
  unfolding waits_def open_frames_def by force

text \<open>
  C3: a resolution that succeeds is complete: for every activated package that is not itself replaced,
  every dependency of it that is neither optional nor a development dependency was resolved to
  a candidate the registry answered for that dependency (with its replacement applied), the graph
  links the two and that candidate is activated.
\<close>

theorem resolve_complete:
  assumes loop: "activate_deps_loop n Q roots = Some (Inr cx)"
    and s: "active cx s" "\<not> replaced cx (package_id s)" "d \<in> set (dependencies s)" "required d"
  shows "resolved Q cx (package_id s) d"
proof -
  have "keeps_root deps_inv Q (\<lambda>_. True) r m" for r m
    unfolding keeps_root_def
  proof (intro allI impI; elim conjE; intro conjI TrueI)
    fix cx cache fo cx' cache' h
    assume "deps_inv Q cx h None" "cache_ok Q cache"
      "activate Q None \<lparr>cand_summary = r, replace = None\<rparr> m cx cache = Some (Inr (fo, cx', cache'))"
    from deps_inv_activate [OF _ _ this(2,3), of h "\<exists>f. fo = Some f \<and> just_for_error_messages f"] this(1)
    show "deps_inv Q cx' ((case fo of None \<Rightarrow> [] | Some f \<Rightarrow> [f]) @ h) None"
      by (cases fo) auto
  qed
  moreover have "deps_inv Q new_context [] None"
    by (simp add: deps_inv_def active_def active_list_def new_context_def)
  ultimately obtain h where "open_frames h = {}" "deps_inv Q cx h None"
    using deps_search.activate_deps_loop_ok [OF loop, of "\<lambda>_. True"] by auto
  with s show ?thesis unfolding deps_inv_def by (simp add: no_frames_wait)
qed

section \<open>A resolution\<close>

text \<open>An application that needs a library, which two versions of a registry offer.\<close>

definition demo_id :: "string \<Rightarrow> nat \<Rightarrow> string package_id" where
  "demo_id n v = \<lparr>pid_name = n, pid_version = \<lparr>major = v, minor = 0, patch = 0, pre = []\<rparr>, pid_source = ''reg''\<rparr>"

definition demo_dep :: "(string, unit) dependency" where
  "demo_dep =
     \<lparr>dep_name = ''lib'', dep_source_id = ''reg'', registry_id = None, dep_req = (), specified_req = True,
      dep_kind = Normal, only_match_name = False, explicit_name_in_toml = None, optional = False,
      default_features = False, dep_features = [], dep_platform = None\<rparr>"

definition demo_app :: "(string, unit) summary" where
  "demo_app = \<lparr>package_id = demo_id ''app'' 1, dependencies = [demo_dep], features = [], checksum = None,
     links = None, namespaced_features = False\<rparr>"

definition demo_lib :: "nat \<Rightarrow> (string, unit) summary" where
  "demo_lib v = \<lparr>package_id = demo_id ''lib'' v, dependencies = [], features = [], checksum = None,
     links = Some ''z'', namespaced_features = False\<rparr>"

definition demo_queryer :: "(string, unit) queryer" where
  "demo_queryer =
     \<lparr>reg_query = (\<lambda>d. Inr (if dep_name d = ''lib'' \<and> dep_source_id d = ''reg'' then [demo_lib 1, demo_lib 2] else [])),
      replacements = [], try_to_use = [], minimal_versions = False,
      version_order = (\<lambda>a b. cmp (major a) (major b)), terminal = quiet_terminal\<rparr>"

definition demo_roots :: "((string, unit) summary \<times> res_method) list" where
  "demo_roots = [(demo_app, Required False [] False False)]"

definition demo_context :: "(string, unit) res_context" where
  "demo_context = (case activate_deps_loop 10 demo_queryer demo_roots of Some (Inr cx) \<Rightarrow> cx | _ \<Rightarrow> new_context)"

lemma demo_run: "activate_deps_loop 10 demo_queryer demo_roots = Some (Inr demo_context)"
  by code_simp

lemma demo_active: "active demo_context demo_app" "active demo_context (demo_lib 2)"
  unfolding active_def by code_simp+

lemma demo_registry: "registry_exact demo_queryer (''lib'', ''reg'')" "replacements demo_queryer = []"
  by (auto simp: registry_exact_def demo_queryer_def demo_lib_def demo_id_def activation_key_def split: if_splits)

theorem resolve_links_unique_witness: "\<not> active demo_context (demo_lib 1)"
  using resolve_links_unique [OF demo_run demo_active(2), of "demo_lib 1" "''z''"]
  by (auto simp: demo_lib_def demo_id_def)

theorem resolve_semver_unique_witness:
  "\<not> active demo_context (demo_lib 2\<lparr>package_id := (demo_id ''lib'' 2)\<lparr>pid_version := \<lparr>major = 2, minor = 1, patch = 0, pre = []\<rparr>\<rparr>\<rparr>)"
proof -
  let ?t = "demo_lib 2\<lparr>package_id := (demo_id ''lib'' 2)\<lparr>pid_version := \<lparr>major = 2, minor = 1, patch = 0, pre = []\<rparr>\<rparr>\<rparr>"
  have "roots_apart demo_roots (''lib'', ''reg'')" by (simp add: roots_apart_def demo_roots_def)
  with resolve_semver_unique [OF demo_run demo_active(2), of ?t] demo_registry show ?thesis
    by (auto simp: demo_lib_def demo_id_def compatible_def)
qed

section \<open>Patches from another source\<close>

text \<open>
  The candidates of a dependency are compared with the active versions under the dependency's own source.  When a
  source is patched with a package of another source, a version of the latter can therefore become active next to a
  compatible version of the same package and source: here \<open>lib\<close> 1.0.5 of \<open>reg\<close>, which patches the source \<open>git\<close>, next to
  \<open>lib\<close> 1.0.9 of \<open>reg\<close>.
\<close>

definition patched_lib :: "nat \<Rightarrow> (string, unit) summary" where
  "patched_lib p = (demo_lib 1)\<lparr>package_id := (demo_id ''lib'' 1)\<lparr>pid_version := \<lparr>major = 1, minor = 0, patch = p, pre = []\<rparr>\<rparr>,
     links := None\<rparr>"

definition patched_queryer :: "(string, unit) queryer" where
  "patched_queryer = demo_queryer\<lparr>reg_query := (\<lambda>d. Inr (if dep_source_id d = ''git'' then [patched_lib 5] else [patched_lib 9]))\<rparr>"

definition patched_roots :: "((string, unit) summary \<times> res_method) list" where
  "patched_roots = [(demo_app\<lparr>dependencies := [demo_dep, demo_dep\<lparr>dep_source_id := ''git''\<rparr>]\<rparr>, Required False [] False False)]"

theorem patch_defeats_semver_check:
  "(case activate_deps_loop 10 patched_queryer patched_roots of
      Some (Inr cx) \<Rightarrow> active cx (patched_lib 5) \<and> active cx (patched_lib 9)
    | _ \<Rightarrow> False) \<and>
   compatible (pid_version (package_id (patched_lib 5))) (pid_version (package_id (patched_lib 9)))"
  by code_simp

theorem resolve_complete_witness: "resolved demo_queryer demo_context (demo_id ''app'' 1) demo_dep"
proof -
  have 1: "package_id demo_app = demo_id ''app'' 1" by (simp add: demo_app_def)
  have 2: "\<not> replaced demo_context (package_id demo_app)" unfolding replaced_def by code_simp
  have 3: "demo_dep \<in> set (dependencies demo_app)" "required demo_dep"
    by (simp_all add: demo_app_def demo_dep_def required_def is_transitive_def)
  from resolve_complete [OF demo_run demo_active(1) 2 3] show ?thesis unfolding 1 .
qed

end
