(* ===== verification/Resolve_Result.thy ===== *)
theory Resolve_Result
  imports Resolver_Context
begin

text \<open>
  The outcome of a resolution, \<open>Resolve\<close> of \<open>src/cargo/core/resolver/resolve.rs\<close>: the graph of
  packages with the dependencies behind each edge, replacements in both directions, features,
  checksums, metadata and unused patches.  The theory shows when a resolution may take over
  the checksums of a previous lock file, what the name of an extern crate is, and that the
  replacement maps are inverse to each other where the replacements are.
\<close>

section \<open>The structure\<close>

record ('s, 'r) resolve =
  rs_graph :: "('s package_id, ('s, 'r) dependency list) graph"
  rs_replacements :: "('s package_id \<times> 's package_id) list"
  rs_reverse_replacements :: "('s package_id \<times> 's package_id) list"
  rs_features :: "('s package_id \<times> string set) list"
  rs_checksums :: "('s package_id \<times> string option) list"
  rs_metadata :: "(string \<times> string) list"
  rs_unused_patches :: "'s package_id list"

definition new_resolve ::
    "('s package_id, ('s, 'r) dependency list) graph \<Rightarrow> ('s package_id \<times> 's package_id) list \<Rightarrow>
       ('s package_id \<times> string set) list \<Rightarrow> ('s package_id \<times> string option) list \<Rightarrow>
       (string \<times> string) list \<Rightarrow> 's package_id list \<Rightarrow> ('s, 'r) resolve" where
  "new_resolve g repl fs cksums meta unused =
     \<lparr>rs_graph = g, rs_replacements = repl,
      rs_reverse_replacements = fold (\<lambda>(a, b). AList.update b a) repl [],
      rs_features = fs, rs_checksums = cksums, rs_metadata = meta, rs_unused_patches = unused\<rparr>"

definition rs_path_to_top :: "('s, 'r) resolve \<Rightarrow> 's package_id \<Rightarrow> 's package_id list" where
  "rs_path_to_top R p = path_to_top (rs_graph R) p"

definition rs_iter :: "('s, 'r) resolve \<Rightarrow> 's package_id list" where
  "rs_iter R = iter (rs_graph R)"

definition rs_contains :: "('s, 'r) resolve \<Rightarrow> 's package_id \<Rightarrow> bool" where
  "rs_contains R p \<longleftrightarrow> contains (rs_graph R) p"

text \<open>The patches, per url, that the resolution does not use.\<close>

definition register_used_patches ::
    "('u \<times> ('s, 'r) summary list) list \<Rightarrow> ('s, 'r) resolve \<Rightarrow> ('s, 'r) resolve" where
  "register_used_patches patches R =
     fold (\<lambda>s R. if list_ex (\<lambda>p. p = package_id s) (rs_iter R) then R
                 else R\<lparr>rs_unused_patches := rs_unused_patches R @ [package_id s]\<rparr>)
       (concat (map snd patches)) R"

datatype 's merge_error =
    ChecksumNotCalculated "'s package_id"
  | ChecksumMissing "'s package_id"
  | ChecksumChanged "'s package_id"

definition check_checksum ::
    "('s, 'r) resolve \<Rightarrow> 's package_id \<times> string option \<Rightarrow> unit \<Rightarrow> 's merge_error + unit" where
  "check_checksum R entry u =
     (case entry of (p, cksum) \<Rightarrow>
        (case map_of (rs_checksums R) p of
           None \<Rightarrow> Inr ()
         | Some mine \<Rightarrow>
             if mine = cksum then Inr ()
             else if cksum = None then Inl (ChecksumNotCalculated p)
             else if mine = None then Inl (ChecksumMissing p)
             else Inl (ChecksumChanged p)))"

definition merge_from :: "('s, 'r) resolve \<Rightarrow> ('s, 'r) resolve \<Rightarrow> 's merge_error + ('s, 'r) resolve" where
  "merge_from previous R =
     bindE (foldE (check_checksum R) (rs_checksums previous) ()) (\<lambda>_.
       Inr (R\<lparr>rs_metadata := rs_metadata previous\<rparr>))"

definition replacement :: "('s, 'r) resolve \<Rightarrow> 's package_id \<Rightarrow> 's package_id option" where
  "replacement R p = map_of (rs_replacements R) p"

definition deps :: "('s, 'r) resolve \<Rightarrow> 's package_id \<Rightarrow> ('s package_id \<times> ('s, 'r) dependency list) list" where
  "deps R p =
     map (\<lambda>(i, ds). (case replacement R i of Some r \<Rightarrow> r | None \<Rightarrow> i, ds)) (edges (rs_graph R) p)"

definition deps_not_replaced :: "('s, 'r) resolve \<Rightarrow> 's package_id \<Rightarrow> 's package_id list" where
  "deps_not_replaced R p = map fst (edges (rs_graph R) p)"

definition rs_features_of :: "('s, 'r) resolve \<Rightarrow> 's package_id \<Rightarrow> string set" where
  "rs_features_of R p = (case map_of (rs_features R) p of Some fs \<Rightarrow> fs | None \<Rightarrow> {})"

text \<open>\<open>features_sorted\<close>.\<close>

definition features_sorted :: "('s, 'r) resolve \<Rightarrow> 's package_id \<Rightarrow> string list" where
  "features_sorted R p = sorted_list_of_set (rs_features_of R p)"

definition rs_query ::
    "'q semver_ops \<Rightarrow> 'u url_ops \<Rightarrow> string \<Rightarrow> ('u source_id, 'r) resolve \<Rightarrow>
       (spec_error, 'u source_id package_id) run" where
  "rs_query S U spec R = query_str S U spec (rs_iter R)"

section \<open>Extern crate names\<close>

definition dash_to_underscore :: "string \<Rightarrow> string" where
  "dash_to_underscore = map (\<lambda>c. if c = CHR ''-'' then CHR ''_'' else c)"

text \<open>\<open>Target::crate_name\<close>, of the name of a target.\<close>

definition crate_name :: "string \<Rightarrow> string" where
  "crate_name target = dash_to_underscore target"

text \<open>\<open>None\<close> is the panic where no edge is listed.\<close>

definition dependencies_listed ::
    "('s, 'r) resolve \<Rightarrow> 's package_id \<Rightarrow> 's package_id \<Rightarrow> ('s, 'r) dependency list option" where
  "dependencies_listed R from to =
     (case Option.bind (map_of (rs_reverse_replacements R) to) (edge (rs_graph R) from) of
        Some ds \<Rightarrow> Some ds
      | None \<Rightarrow> edge (rs_graph R) from to)"

datatype 's name_error = DifferentNames "'s package_id"

definition extern_crate_name ::
    "('s, 'r) resolve \<Rightarrow> 's package_id \<Rightarrow> 's package_id \<Rightarrow> string \<Rightarrow> ('s name_error, string) run" where
  "extern_crate_name R from to to_target =
     bindR (unwrap (if from = to then Some [] else dependencies_listed R from to)) (\<lambda>ds.
       let names = map (\<lambda>d. case explicit_name_in_toml d of
                              Some s \<Rightarrow> dash_to_underscore s
                            | None \<Rightarrow> crate_name to_target) ds;
           name = (case names of [] \<Rightarrow> crate_name to_target | n # _ \<Rightarrow> n)
       in if list_ex (\<lambda>n. n \<noteq> name) (tl names) then Some (Inl (DifferentNames to))
          else Some (Inr name))"

section \<open>Taking over a previous lock file\<close>

definition checksums_agree :: "('s, 'r) resolve \<Rightarrow> ('s, 'r) resolve \<Rightarrow> bool" where
  "checksums_agree previous R \<longleftrightarrow>
     list_all (\<lambda>(p, cksum). case map_of (rs_checksums R) p of None \<Rightarrow> True | Some mine \<Rightarrow> mine = cksum)
       (rs_checksums previous)"

lemma check_checksum_Inr:
  "check_checksum R (p, cksum) u = Inr v \<longleftrightarrow>
     (case map_of (rs_checksums R) p of None \<Rightarrow> True | Some mine \<Rightarrow> mine = cksum)"
  by (auto simp: check_checksum_def split: option.splits)

lemma foldE_checksums:
  "foldE (check_checksum R) es u = Inr v \<longleftrightarrow>
     list_all (\<lambda>(p, cksum). case map_of (rs_checksums R) p of None \<Rightarrow> True | Some mine \<Rightarrow> mine = cksum) es"
  by (induction es arbitrary: u v) (auto simp: check_checksum_Inr split: prod.splits)

lemma foldE_error: "foldE f xs s = Inl e \<Longrightarrow> \<exists>x\<in>set xs. \<exists>s. f x s = Inl e"
  by (induction xs arbitrary: s) (auto simp: bindE_eq_Inl)

text \<open>Which checksums of the two resolutions stand behind an error.\<close>

fun merge_blames :: "('s, 'r) resolve \<Rightarrow> ('s, 'r) resolve \<Rightarrow> 's merge_error \<Rightarrow> bool" where
  "merge_blames previous R (ChecksumNotCalculated p) \<longleftrightarrow>
     (p, None) \<in> set (rs_checksums previous) \<and> (\<exists>c. map_of (rs_checksums R) p = Some (Some c))"
| "merge_blames previous R (ChecksumMissing p) \<longleftrightarrow>
     (\<exists>c. (p, Some c) \<in> set (rs_checksums previous)) \<and> map_of (rs_checksums R) p = Some None"
| "merge_blames previous R (ChecksumChanged p) \<longleftrightarrow>
     (\<exists>c d. (p, Some c) \<in> set (rs_checksums previous) \<and> map_of (rs_checksums R) p = Some (Some d) \<and> c \<noteq> d)"

text \<open>
  C11: merging a previous resolution succeeds exactly when every package both resolutions have a
  checksum for has the same one (calculated or not) in both; then only the metadata is taken over.
  Otherwise the error names a package whose checksums differ in the way the error says.
\<close>

theorem merge_from_checksums:
  "(\<exists>R'. merge_from previous R = Inr R') = checksums_agree previous R \<and>
   (\<forall>R'. merge_from previous R = Inr R' \<longrightarrow> R' = R\<lparr>rs_metadata := rs_metadata previous\<rparr>) \<and>
   (\<forall>e. merge_from previous R = Inl e \<longrightarrow> merge_blames previous R e)"
proof (intro conjI allI impI)
  show "(\<exists>R'. merge_from previous R = Inr R') = checksums_agree previous R"
    by (simp add: merge_from_def checksums_agree_def foldE_checksums)
next
  fix e
  assume "merge_from previous R = Inl e"
  then have "foldE (check_checksum R) (rs_checksums previous) () = Inl e"
    by (simp add: merge_from_def bindE_eq_Inl)
  then obtain p c where "(p, c) \<in> set (rs_checksums previous)" "check_checksum R (p, c) () = Inl e"
    by (auto dest!: foldE_error)
  then show "merge_blames previous R e"
    by (auto simp: check_checksum_def split: option.splits if_splits)
qed (auto simp: merge_from_def)

section \<open>One name for an extern crate\<close>

definition dep_extern_name :: "string \<Rightarrow> ('s, 'r) dependency \<Rightarrow> string" where
  "dep_extern_name target d =
     (case explicit_name_in_toml d of Some s \<Rightarrow> dash_to_underscore s | None \<Rightarrow> crate_name target)"

lemma extern_crate_name_eq:
  "extern_crate_name R from to target =
     (case (if from = to then Some [] else dependencies_listed R from to) of
        None \<Rightarrow> None
      | Some [] \<Rightarrow> Some (Inr (crate_name target))
      | Some (d # ds) \<Rightarrow>
          if \<forall>e\<in>set ds. dep_extern_name target e = dep_extern_name target d
          then Some (Inr (dep_extern_name target d)) else Some (Inl (DifferentNames to)))"
proof (cases "if from = to then Some [] else dependencies_listed R from to")
  case None
  then show ?thesis by (simp add: extern_crate_name_def)
next
  case (Some ds)
  have name: "(case explicit_name_in_toml d of None \<Rightarrow> crate_name target | Some s \<Rightarrow> dash_to_underscore s) =
      dep_extern_name target d" for d :: "('s, 'r) dependency"
    by (simp add: dep_extern_name_def)
  from Some show ?thesis
    by (cases ds) (auto simp: extern_crate_name_def name list_ex_iff simp del: if_split_asm)
qed

text \<open>
  The name under which a package sees one of its dependencies is the name of every dependency
  declaration behind that edge, with dashes made underscores, and never holds a dash; when two
  declarations give different names the call fails instead of choosing one.
\<close>

theorem extern_crate_name_unique:
  assumes "from \<noteq> to" and ds: "dependencies_listed R from to = Some ds"
  shows "(extern_crate_name R from to target = Some (Inr n) \<longleftrightarrow>
       (if ds = [] then n = crate_name target else \<forall>d\<in>set ds. dep_extern_name target d = n)) \<and>
     (extern_crate_name R from to target = Some (Inr n) \<longrightarrow> CHR ''-'' \<notin> set n)"
proof (intro conjI impI)
  show "extern_crate_name R from to target = Some (Inr n) \<longleftrightarrow>
      (if ds = [] then n = crate_name target else \<forall>d\<in>set ds. dep_extern_name target d = n)"
    using assms by (cases ds) (auto simp: extern_crate_name_eq)
  have no_dash: "CHR ''-'' \<notin> set (dash_to_underscore s)" for s
    by (auto simp: dash_to_underscore_def)
  assume "extern_crate_name R from to target = Some (Inr n)"
  with assms no_dash show "CHR ''-'' \<notin> set n"
    by (cases ds) (auto simp: extern_crate_name_eq dep_extern_name_def crate_name_def split: if_splits option.splits)
qed

section \<open>Examples\<close>

definition ex_id :: "string \<Rightarrow> string package_id" where
  "ex_id n = \<lparr>pid_name = n, pid_version = \<lparr>major = 1, minor = 0, patch = 0, pre = []\<rparr>, pid_source = ''reg''\<rparr>"

definition ex_dep :: "string option \<Rightarrow> dep_kind \<Rightarrow> (string, unit) dependency" where
  "ex_dep name k =
     \<lparr>dep_name = ''lib-a'', dep_source_id = ''reg'', registry_id = None, dep_req = (), specified_req = True,
      dep_kind = k, only_match_name = False, explicit_name_in_toml = name, optional = False,
      default_features = False, dep_features = [], dep_platform = None\<rparr>"

definition ex_resolve :: "string option \<Rightarrow> (string, unit) resolve" where
  "ex_resolve cksum =
     new_resolve (ctx_graph (new_context\<lparr>resolve_graph :=
         [Link (ex_id ''app'') (ex_id ''lib-a'') (ex_dep (Some ''my-lib'') Normal),
          Link (ex_id ''app'') (ex_id ''lib-a'') (ex_dep (Some ''my-lib'') Build)]\<rparr>))
       [] [] [(ex_id ''lib-a'', cksum)] [] []"

theorem merge_from_checksums_witness:
  "merge_from (ex_resolve (Some ''c1'')) (ex_resolve (Some ''c2'')) = Inl (ChecksumChanged (ex_id ''lib-a'')) \<and>
   merge_blames (ex_resolve (Some ''c1'')) (ex_resolve (Some ''c2'')) (ChecksumChanged (ex_id ''lib-a''))"
proof -
  have "merge_from (ex_resolve (Some ''c1'')) (ex_resolve (Some ''c2'')) = Inl (ChecksumChanged (ex_id ''lib-a''))"
    by (simp add: merge_from_def check_checksum_def ex_resolve_def new_resolve_def)
  with merge_from_checksums [of "ex_resolve (Some ''c1'')" "ex_resolve (Some ''c2'')"] show ?thesis by blast
qed

theorem extern_crate_name_unique_witness:
  "extern_crate_name (ex_resolve None) (ex_id ''app'') (ex_id ''lib-a'') ''lib-a'' = Some (Inr ''my_lib'')"
proof -
  have 1: "ex_id ''app'' \<noteq> ex_id ''lib-a''" by (simp add: ex_id_def)
  have 2: "dependencies_listed (ex_resolve None) (ex_id ''app'') (ex_id ''lib-a'') =
      Some [ex_dep (Some ''my-lib'') Normal, ex_dep (Some ''my-lib'') Build]"
    by (simp add: dependencies_listed_def ex_resolve_def new_resolve_def ctx_graph_def graph_step_def link_def
        edges_def edge_def new_graph_def)
  from extern_crate_name_unique [OF 1 2, of "''lib-a''" "''my_lib''"] show ?thesis
    by (simp add: ex_dep_def dep_extern_name_def dash_to_underscore_def)
qed

end
