(* ===== verification/Cycle_Check.thy ===== *)
theory Cycle_Check
  imports Resolve_Result
begin

text \<open>
  The cycle check that follows a resolution, \<open>check_cycles\<close> of
  \<open>src/cargo/core/resolver/mod.rs\<close>: a depth-first search that forgets the path it is on whenever
  it follows a dependency that is a development dependency only.  The theory shows that the
  search ends, that an error it reports is a real cycle, that it is exact when every edge is
  transitive, and that in general it can miss a cycle.
\<close>

section \<open>The search\<close>

definition edge_transitive :: "'r semver_ops \<Rightarrow> ('s, 'r) summary \<Rightarrow> 's package_id \<Rightarrow> bool" where
  "edge_transitive S s dep = list_ex (\<lambda>d. matches_id S d dep \<and> is_transitive d) (dependencies s)"

text \<open>The body of the loop over the dependencies of a package: visit the dependency and what
  replaces it, with the current path, or with an empty one.\<close>

definition visit_dep ::
    "('s package_id \<Rightarrow> 's package_id set \<times> 's package_id set \<Rightarrow>
         (('s, 'r) resolve_error, 's package_id set \<times> 's package_id set) run) \<Rightarrow>
       'r semver_ops \<Rightarrow> ('s, 'r) resolve \<Rightarrow> ('s, 'r) summary \<Rightarrow> 's package_id \<Rightarrow>
       's package_id set \<times> 's package_id set \<Rightarrow>
       (('s, 'r) resolve_error, 's package_id set \<times> 's package_id set) run" where
  "visit_dep go S R summary dep st =
     (case st of (path, checked) \<Rightarrow>
        let transitive = edge_transitive S summary dep in
        bindR (go dep (if transitive then path else {}, checked)) (\<lambda>st1.
          bindR (case replacement R dep of Some r \<Rightarrow> go r st1 | None \<Rightarrow> Some (Inr st1)) (\<lambda>(path2, checked2).
            Some (Inr (if transitive then path2 else path, checked2)))))"

text \<open>\<open>visit\<close>: the path of visited packages and the set \<open>checked\<close> are threaded through; \<open>None\<close> is
  the panic of \<open>summaries[id]\<close> or the end of the fuel.\<close>

fun visit ::
    "nat \<Rightarrow> 'r semver_ops \<Rightarrow> ('s, 'r) resolve \<Rightarrow> ('s package_id \<times> ('s, 'r) summary) list \<Rightarrow>
       's package_id \<Rightarrow> 's package_id set \<times> 's package_id set \<Rightarrow>
       (('s, 'r) resolve_error, 's package_id set \<times> 's package_id set) run" where
  "visit 0 S R sums p st = None"
| "visit (Suc n) S R sums p (path, checked) =
     (if p \<in> path then Some (Inl (CyclicPackage p))
      else
        bindR
          (if p \<notin> checked then
             (case map_of sums p of
                None \<Rightarrow> None
              | Some summary \<Rightarrow>
                  foldR (visit_dep (\<lambda>q st. visit n S R sums q st) S R summary)
                    (deps_not_replaced R p) (insert p path, insert p checked))
           else Some (Inr (insert p path, checked)))
          (\<lambda>(path', checked'). Some (Inr (path' - {p}, checked'))))"

definition activated_summaries :: "('s, 'r) activations_map \<Rightarrow> ('s package_id \<times> ('s, 'r) summary) list" where
  "activated_summaries acts =
     fold (\<lambda>s. AList.update (package_id s) s) (concat (map snd acts)) []"

definition visit_all ::
    "nat \<Rightarrow> 'r semver_ops \<Rightarrow> ('s, 'r) resolve \<Rightarrow> ('s package_id \<times> ('s, 'r) summary) list \<Rightarrow>
       's package_id list \<Rightarrow> 's package_id set \<Rightarrow> (('s, 'r) resolve_error, 's package_id set) run" where
  "visit_all n S R sums ps checked =
     foldR (\<lambda>p checked.
         if p \<notin> checked then bindR (visit n S R sums p ({}, checked)) (\<lambda>(_, checked'). Some (Inr checked'))
         else Some (Inr checked)) ps checked"

text \<open>The order of the packages only decides which error is reported; it is the order of
  \<open>PackageId\<close>.  The path of a search visits a package that has not been checked at every level but
  the last, so that one more than the number of summaries is fuel enough.\<close>

definition check_cycles ::
    "'r semver_ops \<Rightarrow> ('s package_id \<Rightarrow> 's package_id \<Rightarrow> ordering) \<Rightarrow> ('s, 'r) resolve \<Rightarrow>
       ('s, 'r) activations_map \<Rightarrow> (('s, 'r) resolve_error, unit) run" where
  "check_cycles S order R acts =
     (let sums = activated_summaries acts
      in bindR (visit_all (Suc (length sums)) S R sums (sort_by order (rs_iter R)) {}) (\<lambda>_. Some (Inr ())))"

section \<open>The steps of the search\<close>

text \<open>One edge of the graph, to a dependency or to what replaces it, and the transitive ones.\<close>

definition children :: "('s, 'r) resolve \<Rightarrow> 's package_id \<Rightarrow> 's package_id set" where
  "children R p =
     (\<Union>dep\<in>set (deps_not_replaced R p). insert dep (set_option (replacement R dep)))"

definition steps ::
    "'r semver_ops \<Rightarrow> ('s, 'r) resolve \<Rightarrow> ('s package_id \<times> ('s, 'r) summary) list \<Rightarrow> ('s package_id \<times> 's package_id) set" where
  "steps S R sums =
     {(p, q). \<exists>s dep. map_of sums p = Some s \<and> dep \<in> set (deps_not_replaced R p) \<and> edge_transitive S s dep \<and>
        (q = dep \<or> replacement R dep = Some q)}"

definition all_transitive :: "'r semver_ops \<Rightarrow> ('s, 'r) resolve \<Rightarrow> ('s package_id \<times> ('s, 'r) summary) list \<Rightarrow> bool" where
  "all_transitive S R sums \<longleftrightarrow>
     (\<forall>p s dep. map_of sums p = Some s \<and> dep \<in> set (deps_not_replaced R p) \<longrightarrow> edge_transitive S s dep)"

definition summaries_cover :: "('s, 'r) resolve \<Rightarrow> ('s package_id \<times> ('s, 'r) summary) list \<Rightarrow> bool" where
  "summaries_cover R sums \<longleftrightarrow>
     set (rs_iter R) \<subseteq> fst ` set sums \<and> (\<forall>p. children R p \<subseteq> fst ` set sums)"

section \<open>What a visit keeps\<close>

lemma visit_dep_Inr:
  "visit_dep go S R s dep (path, checked) = Some (Inr (path', checked')) \<longleftrightarrow>
     (\<exists>st1 path2.
        go dep (if edge_transitive S s dep then path else {}, checked) = Some (Inr st1) \<and>
        (case replacement R dep of Some r \<Rightarrow> go r st1 | None \<Rightarrow> Some (Inr st1)) = Some (Inr (path2, checked')) \<and>
        path' = (if edge_transitive S s dep then path2 else path))"
  by (auto simp: visit_dep_def split: prod.splits option.splits)

lemma visit_keeps:
  "visit n S R sums p (path, checked) = Some (Inr (path', checked')) \<Longrightarrow>
     p \<notin> path \<and> path' = path \<and> insert p checked \<subseteq> checked'"
proof (induction n arbitrary: p path checked path' checked')
  case 0
  then show ?case by simp
next
  case (Suc n)
  have dep: "path2 = path1 \<and> checked1 \<subseteq> checked2"
    if v: "visit_dep (visit n S R sums) S R s dep (path1, checked1) = Some (Inr (path2, checked2))"
    for s dep path1 checked1 path2 checked2
    using v [unfolded visit_dep_Inr] by (auto split: option.splits if_splits dest!: Suc.IH)
  show ?case
  proof (cases "p \<in> checked")
    case True
    with Suc.prems show ?thesis by (auto split: if_splits)
  next
    case False
    with Suc.prems obtain s path1 where p: "p \<notin> path" "path' = path1 - {p}"
      and f: "foldR (visit_dep (visit n S R sums) S R s) (deps_not_replaced R p) (insert p path, insert p checked) =
        Some (Inr (path1, checked'))"
      by (auto split: if_splits option.splits)
    have "fst (path1, checked') = insert p path \<and> insert p checked \<subseteq> snd (path1, checked')"
      by (rule foldR_invariant [OF f]) (auto dest!: dep, blast)
    with p show ?thesis by auto
  qed
qed

text \<open>The loop of a visit, seen from the package it visits.\<close>

lemma visit_cases:
  assumes "visit (Suc n) S R sums p (path, checked) = r"
  obtains (cycle) "p \<in> path" "r = Some (Inl (CyclicPackage p))"
  | (known) "p \<notin> path" "p \<in> checked" "r = Some (Inr (path, checked))"
  | (panic) "p \<notin> path" "p \<notin> checked" "map_of sums p = None" "r = None"
  | (loop) s where "p \<notin> path" "p \<notin> checked" "map_of sums p = Some s"
      "r = bindR (foldR (visit_dep (visit n S R sums) S R s) (deps_not_replaced R p) (insert p path, insert p checked))
             (\<lambda>(path', checked'). Some (Inr (path' - {p}, checked')))"
  using assms by (cases "map_of sums p") (auto split: if_splits)

lemma visit_dep_keeps:
  "visit_dep (visit n S R sums) S R s dep (path, checked) = Some (Inr st') \<Longrightarrow>
     fst st' = path \<and> checked \<subseteq> snd st'"
  by (cases st')
    (auto simp: visit_dep_Inr split: option.splits if_splits dest!: visit_keeps)

section \<open>Errors are cycles\<close>

lemma visit_error:
  "visit n S R sums p (path, checked) = Some (Inl e) \<Longrightarrow> \<forall>v\<in>path. (v, p) \<in> (steps S R sums)\<^sup>+ \<Longrightarrow>
     \<exists>c. e = CyclicPackage c \<and> (c, c) \<in> (steps S R sums)\<^sup>+"
proof (induction n arbitrary: p path checked)
  case 0
  then show ?case by simp
next
  case (Suc n)
  let ?T = "steps S R sums"
  show ?case
  proof (rule visit_cases [OF Suc.prems(1)])
    assume "p \<in> path" "Some (Inl e) = Some (Inl (CyclicPackage p))"
    with Suc.prems(2) show ?thesis by auto
  next
    fix s
    assume p: "p \<notin> path" "p \<notin> checked" "map_of sums p = Some s"
      "Some (Inl e) = bindR (foldR (visit_dep (visit n S R sums) S R s) (deps_not_replaced R p) (insert p path, insert p checked))
         (\<lambda>(path', checked'). Some (Inr (path' - {p}, checked')))"
    then have "foldR (visit_dep (visit n S R sums) S R s) (deps_not_replaced R p) (insert p path, insert p checked) = Some (Inl e)"
      by (auto simp: bindR_def split: option.splits sum.splits)
    then have "\<exists>dep\<in>set (deps_not_replaced R p). \<exists>st. fst st = insert p path \<and>
        visit_dep (visit n S R sums) S R s dep st = Some (Inl e)"
      by (rule foldR_stops) (auto dest!: visit_dep_keeps)
    then obtain dep c1 where dep: "dep \<in> set (deps_not_replaced R p)"
      and e: "visit_dep (visit n S R sums) S R s dep (insert p path, c1) = Some (Inl e)"
      by auto
    let ?path = "if edge_transitive S s dep then insert p path else {}"
    have reach: "\<forall>v\<in>?path. (v, q) \<in> ?T\<^sup>+" if "q = dep \<or> replacement R dep = Some q" for q
    proof
      fix v
      assume v: "v \<in> ?path"
      then have tr: "edge_transitive S s dep" by (auto split: if_splits)
      then have st: "(p, q) \<in> ?T" using p(3) dep that by (auto simp: steps_def)
      with v tr Suc.prems(2) show "(v, q) \<in> ?T\<^sup>+" by (auto split: if_splits)
    qed
    from e consider "visit n S R sums dep (?path, c1) = Some (Inl e)"
      | r st1 where "visit n S R sums dep (?path, c1) = Some (Inr st1)" "replacement R dep = Some r"
          "visit n S R sums r st1 = Some (Inl e)"
      by (auto simp: visit_dep_def bindR_eq_Inl Let_def split: option.splits prod.splits)
    then show ?thesis
    proof cases
      case 1
      then show ?thesis using reach by (intro Suc.IH) auto
    next
      case (2 r st1)
      then obtain c2 where "st1 = (?path, c2)" using visit_keeps by (cases st1) blast
      with 2 show ?thesis using reach by (intro Suc.IH [of r]) auto
    qed
  qed auto
qed

section \<open>The check is exact where every edge is transitive\<close>

text \<open>The packages that were checked and left again: closed under the steps and on no cycle.\<close>

definition settled_ok :: "('a \<times> 'a) set \<Rightarrow> 'a set \<Rightarrow> bool" where
  "settled_ok T B \<longleftrightarrow> (\<forall>x\<in>B. T `` {x} \<subseteq> B \<and> (x, x) \<notin> T\<^sup>+)"

lemma settled_reach: "settled_ok T B \<Longrightarrow> (x, y) \<in> T\<^sup>+ \<Longrightarrow> x \<in> B \<Longrightarrow> y \<in> B"
  by (erule trancl_induct) (auto simp: settled_ok_def)

lemma settled_insert:
  assumes "settled_ok T B" "T `` {p} \<subseteq> B" "p \<notin> B"
  shows "settled_ok T (insert p B)"
proof -
  have "(p, p) \<notin> T\<^sup>+"
  proof
    assume "(p, p) \<in> T\<^sup>+"
    then obtain q where "(p, q) \<in> T" "(q, p) \<in> T\<^sup>*" by (auto dest: tranclD)
    with assms have "q \<in> B" "q = p \<or> (q, p) \<in> T\<^sup>+" by (auto simp: rtrancl_eq_or_trancl)
    with settled_reach [OF assms(1)] assms(3) show False by blast
  qed
  with assms show ?thesis by (auto simp: settled_ok_def)
qed

text \<open>The state of the loop of a visit, after the dependencies \<open>ds\<close>.\<close>

definition loop_ok ::
    "('s package_id \<times> 's package_id) set \<Rightarrow> ('s, 'r) resolve \<Rightarrow> 's package_id set \<Rightarrow> 's package_id list \<Rightarrow>
       's package_id set \<times> 's package_id set \<Rightarrow> bool" where
  "loop_ok T R path ds st \<longleftrightarrow>
     fst st = path \<and> path \<subseteq> snd st \<and> settled_ok T (snd st - path) \<and>
     (\<forall>dep\<in>set ds. dep \<in> snd st - path \<and> pred_option (\<lambda>r. r \<in> snd st - path) (replacement R dep))"

definition visit_settles ::
    "'r semver_ops \<Rightarrow> ('s, 'r) resolve \<Rightarrow> ('s package_id \<times> ('s, 'r) summary) list \<Rightarrow> nat \<Rightarrow> bool" where
  "visit_settles S R sums n \<longleftrightarrow>
     (\<forall>p path checked path' checked'.
        visit n S R sums p (path, checked) = Some (Inr (path', checked')) \<and> path \<subseteq> checked \<and>
        settled_ok (steps S R sums) (checked - path) \<longrightarrow> settled_ok (steps S R sums) (checked' - path))"

lemma loop_visit:
  assumes "visit_settles S R sums n" "loop_ok (steps S R sums) R path ds st"
    and v: "visit n S R sums q st = Some (Inr st')"
  shows "loop_ok (steps S R sums) R path ds st' \<and> q \<in> snd st' - path"
proof -
  obtain c c' path' where st: "st = (path, c)" "st' = (path', c')"
    using assms(2) by (cases st; cases st') (auto simp: loop_ok_def)
  have k: "q \<notin> path" "path' = path" "insert q c \<subseteq> c'" using visit_keeps [OF v [unfolded st]] by auto
  have "settled_ok (steps S R sums) (c' - path)"
    using assms(1,2) v unfolding visit_settles_def loop_ok_def st by fastforce
  with k assms(2) show ?thesis unfolding loop_ok_def st by (auto elim!: option.pred_mono_strong)
qed

lemma loop_dep:
  assumes n: "visit_settles S R sums n" and l: "loop_ok (steps S R sums) R path ds st"
    and tr: "edge_transitive S s dep"
    and v: "visit_dep (visit n S R sums) S R s dep st = Some (Inr st')"
  shows "loop_ok (steps S R sums) R path (dep # ds) st'"
proof -
  from v tr obtain st1 where v1: "visit n S R sums dep st = Some (Inr st1)"
    and v2: "(case replacement R dep of Some r \<Rightarrow> visit n S R sums r st1 | None \<Rightarrow> Some (Inr st1)) = Some (Inr st')"
    by (cases st; cases st') (auto simp: visit_dep_Inr)
  note l1 = loop_visit [OF n l v1]
  show ?thesis
  proof (cases "replacement R dep")
    case None
    with v2 l1 show ?thesis by (auto simp: loop_ok_def)
  next
    case (Some r)
    with v2 have v3: "visit n S R sums r st1 = Some (Inr st')" by simp
    have "dep \<in> snd st'" using l1 v3 visit_keeps by (cases st1; cases st') fastforce
    with loop_visit [OF n conjunct1 [OF l1] v3] l1 Some show ?thesis by (auto simp: loop_ok_def)
  qed
qed

lemma loop_deps:
  assumes n: "visit_settles S R sums n"
    and tr: "\<forall>dep\<in>set ds'. edge_transitive S s dep"
  shows "foldR (visit_dep (visit n S R sums) S R s) ds' st = Some (Inr st') \<Longrightarrow>
     loop_ok (steps S R sums) R path ds st \<Longrightarrow> loop_ok (steps S R sums) R path (rev ds' @ ds) st'"
  using tr
proof (induction ds' arbitrary: ds st)
  case Nil
  then show ?case by simp
next
  case (Cons dep ds')
  then obtain st1 where v: "visit_dep (visit n S R sums) S R s dep st = Some (Inr st1)"
    and rest: "foldR (visit_dep (visit n S R sums) S R s) ds' st1 = Some (Inr st')" by auto
  have "loop_ok (steps S R sums) R path (dep # ds) st1"
    by (rule loop_dep [OF n Cons.prems(2) _ v]) (use Cons.prems(3) in simp)
  with Cons.IH [OF rest] Cons.prems(3) show ?case by simp
qed

lemma visit_exact:
  assumes tr: "all_transitive S R sums"
  shows "visit_settles S R sums n"
proof (induction n)
  case 0
  then show ?case by (simp add: visit_settles_def)
next
  case (Suc n)
  let ?T = "steps S R sums"
  have "settled_ok ?T (checked' - path)"
    if v: "visit (Suc n) S R sums p (path, checked) = Some (Inr (path', checked'))"
      and pre: "path \<subseteq> checked" "settled_ok ?T (checked - path)" for p path checked path' checked'
  proof (rule visit_cases [OF v])
    fix s
    assume p: "p \<notin> path" "p \<notin> checked" "map_of sums p = Some s"
      and r: "Some (Inr (path', checked')) =
         bindR (foldR (visit_dep (visit n S R sums) S R s) (deps_not_replaced R p) (insert p path, insert p checked))
           (\<lambda>(path', checked'). Some (Inr (path' - {p}, checked')))"
    from r [symmetric] obtain path1 where
      f: "foldR (visit_dep (visit n S R sums) S R s) (deps_not_replaced R p) (insert p path, insert p checked) =
        Some (Inr (path1, checked'))"
      by auto
    have "insert p checked - insert p path = checked - path" using p by auto
    with pre have l: "loop_ok ?T R (insert p path) [] (insert p path, insert p checked)"
      by (auto simp: loop_ok_def)
    have "\<forall>dep\<in>set (deps_not_replaced R p). edge_transitive S s dep"
      using tr p(3) by (auto simp: all_transitive_def)
    from loop_deps [OF Suc this f l] have fin: "loop_ok ?T R (insert p path) (rev (deps_not_replaced R p)) (path1, checked')"
      by simp
    then have "checked' - path = insert p (checked' - insert p path)" using p by (auto simp: loop_ok_def)
    moreover have "?T `` {p} \<subseteq> checked' - insert p path"
      using fin by (auto simp: steps_def loop_ok_def)
    ultimately show ?thesis
      using fin settled_insert [of ?T "checked' - insert p path" p] by (auto simp: loop_ok_def)
  qed (use pre in auto)
  then show ?case unfolding visit_settles_def by blast
qed

section \<open>The search ends\<close>

lemma visit_returns:
  assumes cover: "\<forall>p. children R p \<subseteq> fst ` set sums"
  shows "card (fst ` set sums - checked) < n \<Longrightarrow> p \<in> fst ` set sums \<Longrightarrow> visit n S R sums p (path, checked) \<noteq> None"
proof (induction n arbitrary: p path checked)
  case 0
  then show ?case by simp
next
  case (Suc n)
  let ?D = "fst ` set sums"
  show ?case
  proof
    assume "visit (Suc n) S R sums p (path, checked) = None"
    then show False
    proof (rule visit_cases)
      assume "map_of sums p = None"
      with Suc.prems(2) show False by (simp add: map_of_eq_None_iff)
    next
      fix s
      assume p: "p \<notin> path" "p \<notin> checked" "map_of sums p = Some s"
        and r: "None = bindR (foldR (visit_dep (visit n S R sums) S R s) (deps_not_replaced R p) (insert p path, insert p checked))
           (\<lambda>(path', checked'). Some (Inr (path' - {p}, checked')))"
      have "card (?D - insert p checked) < card (?D - checked)"
        using p Suc.prems(2) by (intro psubset_card_mono) auto
      then have fuel: "card (?D - c) < n" if "insert p checked \<subseteq> c" for c
        using Suc.prems(1) that card_mono [of "?D - insert p checked" "?D - c"] by fastforce
      from r [symmetric] have
        f: "foldR (visit_dep (visit n S R sums) S R s) (deps_not_replaced R p) (insert p path, insert p checked) = None"
        by (auto simp: bindR_eq_None)
      then have "\<exists>dep\<in>set (deps_not_replaced R p). \<exists>st. insert p checked \<subseteq> snd st \<and>
          visit_dep (visit n S R sums) S R s dep st = None"
        by (rule foldR_stops) (auto dest!: visit_dep_keeps, blast)
      then obtain dep path1 c1 where dep: "dep \<in> set (deps_not_replaced R p)" and c1: "insert p checked \<subseteq> c1"
        and n: "visit_dep (visit n S R sums) S R s dep (path1, c1) = None"
        by auto
      let ?path = "if edge_transitive S s dep then path1 else {}"
      have D: "dep \<in> ?D" "\<And>r. replacement R dep = Some r \<Longrightarrow> r \<in> ?D"
        using cover dep unfolding children_def by fastforce+
      have v1: "visit n S R sums dep (?path, c1) \<noteq> None" by (rule Suc.IH [OF fuel [OF c1] D(1)])
      with n obtain r st1 where v: "visit n S R sums dep (?path, c1) = Some (Inr st1)"
        "replacement R dep = Some r" "visit n S R sums r st1 = None"
        by (auto simp: visit_dep_def bindR_eq_None Let_def split: option.splits prod.splits)
      obtain path2 c2 where st1: "st1 = (path2, c2)" by (cases st1)
      have "c1 \<subseteq> c2" using visit_keeps v(1) st1 by blast
      with Suc.IH [OF fuel D(2) [OF v(2)], of c2 path2] c1 v(3) st1 show False by auto
    qed auto
  qed
qed

text \<open>The loop over all packages.\<close>

lemma visit_all_cases:
  assumes "visit_all n S R sums ps checked = r"
  shows "(\<exists>checked'. r = Some (Inr checked') \<and> checked \<union> set ps \<subseteq> checked' \<and>
       (visit_settles S R sums n \<longrightarrow> settled_ok (steps S R sums) checked \<longrightarrow> settled_ok (steps S R sums) checked')) \<or>
     (\<exists>p\<in>set ps. \<exists>c. visit n S R sums p ({}, c) = None \<and> r = None) \<or>
     (\<exists>p\<in>set ps. \<exists>c e. visit n S R sums p ({}, c) = Some (Inl e) \<and> r = Some (Inl e))"
  using assms
proof (induction ps arbitrary: checked)
  case Nil
  then show ?case by (auto simp: visit_all_def)
next
  case (Cons p ps)
  show ?case
  proof (cases "p \<in> checked")
    case True
    with Cons.prems have "visit_all n S R sums ps checked = r" by (simp add: visit_all_def)
    with Cons.IH [of checked] True show ?thesis by auto
  next
    case False
    show ?thesis
    proof (cases "\<exists>st. visit n S R sums p ({}, checked) = Some (Inr st)")
      case True
      then obtain path' c1 where v: "visit n S R sums p ({}, checked) = Some (Inr (path', c1))" by auto
      then have "visit_all n S R sums ps c1 = r" using Cons.prems False by (simp add: visit_all_def)
      moreover have "insert p checked \<subseteq> c1" using visit_keeps [OF v] by auto
      moreover have "settled_ok (steps S R sums) c1"
        if "visit_settles S R sums n" "settled_ok (steps S R sums) checked"
        using that v unfolding visit_settles_def by fastforce
      ultimately show ?thesis using Cons.IH [of c1] by fastforce
    next
      case no: False
      then consider "visit n S R sums p ({}, checked) = None" | e where "visit n S R sums p ({}, checked) = Some (Inl e)"
        by (metis option.exhaust sum.exhaust)
      then show ?thesis
      proof cases
        case 1
        with False Cons.prems have "r = None" by (simp add: visit_all_def)
        with 1 show ?thesis by (metis list.set_intros(1))
      next
        case (2 e)
        with False Cons.prems have "r = Some (Inl e)" by (simp add: visit_all_def)
        with 2 show ?thesis by (metis list.set_intros(1))
      qed
    qed
  qed
qed

lemma check_cycles_cases:
  assumes cover: "summaries_cover R (activated_summaries acts)"
  shows "check_cycles S order R acts = Some (Inr ()) \<and>
      (\<exists>checked. set (rs_iter R) \<subseteq> checked \<and>
         (all_transitive S R (activated_summaries acts) \<longrightarrow> settled_ok (steps S R (activated_summaries acts)) checked)) \<or>
    (\<exists>c. check_cycles S order R acts = Some (Inl (CyclicPackage c)) \<and>
       (c, c) \<in> (steps S R (activated_summaries acts))\<^sup>+)"
proof -
  let ?sums = "activated_summaries acts"
  let ?n = "Suc (length ?sums)"
  have ret: "visit ?n S R ?sums p ({}, c) \<noteq> None" if "p \<in> set (rs_iter R)" for p c
  proof (rule visit_returns)
    have "card (fst ` set ?sums) \<le> length ?sums"
      using card_length [of "map fst ?sums"] by simp
    moreover have "card (fst ` set ?sums - c) \<le> card (fst ` set ?sums)" by (intro card_mono) auto
    ultimately show "card (fst ` set ?sums - c) < ?n" by simp
  qed (use cover that in \<open>auto simp: summaries_cover_def\<close>)
  have none: "settled_ok (steps S R ?sums) {}" by (simp add: settled_ok_def)
  consider checked where "visit_all ?n S R ?sums (sort_by order (rs_iter R)) {} = Some (Inr checked)"
      "set (rs_iter R) \<subseteq> checked" "visit_settles S R ?sums ?n \<longrightarrow> settled_ok (steps S R ?sums) checked"
    | p c e where "visit ?n S R ?sums p ({}, c) = Some (Inl e)"
      "visit_all ?n S R ?sums (sort_by order (rs_iter R)) {} = Some (Inl e)"
    using visit_all_cases [OF refl, of ?n S R ?sums "sort_by order (rs_iter R)" "{}"] ret none
    by (auto simp del: visit.simps not_None_eq)
  then show ?thesis
  proof cases
    case 1
    then show ?thesis using visit_exact [of S R ?sums ?n] by (auto simp: check_cycles_def)
  next
    case (2 p c e)
    then show ?thesis using visit_error [OF 2(1)] by (auto simp: check_cycles_def)
  qed
qed

text \<open>
  C9: when every package of the graph has a summary, the cycle check ends without a panic, and an error it
  reports names a package that really depends on itself, through dependencies none of which is for development
  only.
\<close>

theorem check_cycles_sound:
  assumes "summaries_cover R (activated_summaries acts)"
  shows "check_cycles S order R acts \<noteq> None \<and>
    (\<forall>e. check_cycles S order R acts = Some (Inl e) \<longrightarrow>
       (\<exists>c. e = CyclicPackage c \<and> (c, c) \<in> (steps S R (activated_summaries acts))\<^sup>+))"
  using check_cycles_cases [OF assms, of S order] by auto

text \<open>
  C8: when no edge of the graph is for development only, the check accepts exactly the graphs without a cycle.
\<close>

theorem check_cycles_exact:
  assumes cover: "summaries_cover R (activated_summaries acts)"
    and tr: "all_transitive S R (activated_summaries acts)"
  shows "check_cycles S order R acts = Some (Inr ()) \<longleftrightarrow> acyclic (steps S R (activated_summaries acts))"
proof
  let ?T = "steps S R (activated_summaries acts)"
  assume "check_cycles S order R acts = Some (Inr ())"
  with check_cycles_cases [OF cover, of S order] tr obtain checked where
    c: "set (rs_iter R) \<subseteq> checked" "settled_ok ?T checked" by auto
  show "acyclic ?T"
  proof (rule acyclicI, rule allI, rule notI)
    fix p
    assume cyc: "(p, p) \<in> ?T\<^sup>+"
    then obtain q where "(p, q) \<in> ?T" by (auto dest: tranclD)
    then have "edges (rs_graph R) p \<noteq> []" by (auto simp: steps_def deps_not_replaced_def)
    then have "p \<in> set (rs_iter R)"
      by (force simp: rs_iter_def iter_def edges_def split: option.splits dest: map_of_SomeD)
    with c cyc show False by (auto simp: settled_ok_def)
  qed
next
  assume "acyclic (steps S R (activated_summaries acts))"
  with check_cycles_cases [OF cover, of S order] show "check_cycles S order R acts = Some (Inr ())"
    by (auto simp: acyclic_def)
qed

section \<open>A cycle that is missed\<close>

text \<open>
  The package \<open>a\<close> has a development dependency on \<open>b\<close> and a dependency on \<open>d\<close>; \<open>d\<close> depends on \<open>b\<close>,
  \<open>b\<close> on \<open>c\<close> and \<open>c\<close> on \<open>a\<close>.
\<close>

definition any_semver :: "unit semver_ops" where
  "any_semver = \<lparr>version_parse = (\<lambda>_. None), version_str = (\<lambda>_. []), version_cmp = (\<lambda>_ _. Equal),
     req_parse = (\<lambda>_. ReqError), req_str = (\<lambda>_. []), req_any = (), req_exact = (\<lambda>_. ()), req_matches = (\<lambda>_ _. True)\<rparr>"

definition dep_on :: "string \<Rightarrow> dep_kind \<Rightarrow> (string, unit) dependency" where
  "dep_on n k = (ex_dep None k)\<lparr>dep_name := n\<rparr>"

definition pkg_with :: "string \<Rightarrow> (string, unit) dependency list \<Rightarrow> (string, unit) summary" where
  "pkg_with n ds = \<lparr>package_id = ex_id n, dependencies = ds, features = [], checksum = None, links = None,
     namespaced_features = False\<rparr>"

definition loop_summaries :: "dep_kind \<Rightarrow> (string, unit) summary list" where
  "loop_summaries k =
     [pkg_with ''a'' [dep_on ''b'' k, dep_on ''d'' Normal], pkg_with ''b'' [dep_on ''c'' Normal],
      pkg_with ''c'' [dep_on ''a'' Normal], pkg_with ''d'' [dep_on ''b'' Normal]]"

definition loop_acts :: "dep_kind \<Rightarrow> (string, unit) activations_map" where
  "loop_acts k = map (\<lambda>s. (activation_key (package_id s), [s])) (loop_summaries k)"

definition loop_resolve :: "dep_kind \<Rightarrow> (string, unit) resolve" where
  "loop_resolve k =
     new_resolve
       (ctx_graph (new_context\<lparr>resolve_graph := concat (map (\<lambda>s. map (\<lambda>d. Link (package_id s) (ex_id (dep_name d)) d)
          (dependencies s)) (loop_summaries k))\<rparr>)) [] [] [] [] []"

definition name_order :: "string package_id \<Rightarrow> string package_id \<Rightarrow> ordering" where
  "name_order p q = cmp (pid_name p) (pid_name q)"

lemma loop_nodes: "nodes (rs_graph (loop_resolve k)) =
    [(ex_id ''a'', [(ex_id ''b'', [dep_on ''b'' k]), (ex_id ''d'', [dep_on ''d'' Normal])]),
     (ex_id ''b'', [(ex_id ''c'', [dep_on ''c'' Normal])]), (ex_id ''c'', [(ex_id ''a'', [dep_on ''a'' Normal])]),
     (ex_id ''d'', [(ex_id ''b'', [dep_on ''b'' Normal])])]"
  by (simp add: loop_resolve_def new_resolve_def ctx_graph_def graph_step_def link_def edges_def new_graph_def
      loop_summaries_def pkg_with_def dep_on_def ex_id_def ex_dep_def)

lemma loop_sums: "activated_summaries (loop_acts k) = map (\<lambda>s. (package_id s, s)) (loop_summaries k)"
  by (simp add: activated_summaries_def loop_acts_def loop_summaries_def pkg_with_def ex_id_def)

lemma loop_replacement: "replacement (loop_resolve k) p = None"
  by (simp add: replacement_def loop_resolve_def new_resolve_def)

lemma loop_edges:
  "deps_not_replaced (loop_resolve k) p =
     (if p = ex_id ''a'' then [ex_id ''b'', ex_id ''d''] else if p = ex_id ''b'' then [ex_id ''c'']
      else if p = ex_id ''c'' then [ex_id ''a''] else if p = ex_id ''d'' then [ex_id ''b''] else [])"
  by (auto simp: deps_not_replaced_def edges_def loop_nodes)

lemma loop_cover: "summaries_cover (loop_resolve k) (activated_summaries (loop_acts k))"
  by (auto simp: summaries_cover_def children_def loop_edges loop_replacement loop_sums loop_summaries_def pkg_with_def
      rs_iter_def iter_def loop_nodes)

lemma ex_id_inj [simp]: "ex_id m = ex_id n \<longleftrightarrow> m = n"
  by (simp add: ex_id_def)

lemma stepsI:
  "map_of sums p = Some s \<Longrightarrow> q \<in> set (deps_not_replaced R p) \<Longrightarrow> edge_transitive S s q \<Longrightarrow> (p, q) \<in> steps S R sums"
  by (auto simp: steps_def)

lemma loop_transitive:
  "dep_on n Normal \<in> set ds \<Longrightarrow> edge_transitive any_semver (pkg_with m ds) (ex_id n)"
  by (auto simp: edge_transitive_def pkg_with_def list_ex_iff matches_id_def matches_ignoring_source_def
      is_transitive_def dep_on_def ex_dep_def any_semver_def ex_id_def intro!: bexI [of _ "dep_on n Normal"])

lemma loop_steps:
  "{(ex_id ''a'', ex_id ''d''), (ex_id ''d'', ex_id ''b''), (ex_id ''b'', ex_id ''c''), (ex_id ''c'', ex_id ''a'')}
     \<subseteq> steps any_semver (loop_resolve k) (activated_summaries (loop_acts k))"
proof -
  have id: "package_id (pkg_with n ds) = ex_id n" for n ds by (simp add: pkg_with_def)
  show ?thesis
    by (simp add: stepsI [OF _ _ loop_transitive] loop_edges loop_sums loop_summaries_def id)
qed

lemma loop_cycle: "(ex_id ''a'', ex_id ''a'') \<in> (steps any_semver (loop_resolve k) (activated_summaries (loop_acts k)))\<^sup>+"
proof -
  let ?T = "steps any_semver (loop_resolve k) (activated_summaries (loop_acts k))"
  have "(ex_id ''a'', ex_id ''d'') \<in> ?T" "(ex_id ''d'', ex_id ''b'') \<in> ?T" "(ex_id ''b'', ex_id ''c'') \<in> ?T"
    "(ex_id ''c'', ex_id ''a'') \<in> ?T"
    using loop_steps [of k] by auto
  then show ?thesis by (meson r_into_trancl trancl_into_trancl)
qed

text \<open>
  The cycle check can miss a cycle: on a graph with a cycle of dependencies none of which is for
  development only, reached first through a development dependency, the check succeeds.
\<close>

theorem check_cycles_misses:
  "check_cycles any_semver name_order (loop_resolve Development) (loop_acts Development) = Some (Inr ()) \<and>
   summaries_cover (loop_resolve Development) (activated_summaries (loop_acts Development)) \<and>
   \<not> acyclic (steps any_semver (loop_resolve Development) (activated_summaries (loop_acts Development)))"
proof (intro conjI)
  show "check_cycles any_semver name_order (loop_resolve Development) (loop_acts Development) = Some (Inr ())"
    by code_simp
qed (use loop_cover loop_cycle in \<open>auto simp: acyclic_def\<close>)

lemma loop_error:
  "check_cycles any_semver name_order (loop_resolve Normal) (loop_acts Normal) = Some (Inl (CyclicPackage (ex_id ''a'')))"
  by code_simp

lemma loop_all_transitive: "all_transitive any_semver (loop_resolve Normal) (activated_summaries (loop_acts Normal))"
proof -
  have id: "package_id (pkg_with n ds) = ex_id n" for n ds by (simp add: pkg_with_def)
  show ?thesis
    by (auto simp: all_transitive_def loop_edges loop_sums loop_summaries_def id split: if_splits intro!: loop_transitive)
qed

theorem check_cycles_sound_witness:
  "(ex_id ''a'', ex_id ''a'') \<in> (steps any_semver (loop_resolve Normal) (activated_summaries (loop_acts Normal)))\<^sup>+"
  using check_cycles_sound [OF loop_cover [of Normal], of any_semver name_order] loop_error by auto

theorem check_cycles_exact_witness:
  "\<not> acyclic (steps any_semver (loop_resolve Normal) (activated_summaries (loop_acts Normal)))"
  using check_cycles_exact [OF loop_cover [of Normal] loop_all_transitive, of name_order] loop_error by simp

end
