(* ===== verification/Lockfile.thy ===== *)
theory Lockfile
  imports Resolve_Result
begin

text \<open>
  Lock files, \<open>src/cargo/core/resolver/encode.rs\<close>: the structure a resolution is written as, the
  texts its ids are serialized to and deserialized from (here and in \<open>source_id.rs\<close>), the tables
  \<open>src/cargo/ops/lockfile.rs\<close> puts into the file, and the way back, together with the check that no two
  packages are written as the same id (\<open>check_duplicate_pkgs_in_lockfile\<close> of
  \<open>src/cargo/core/resolver/mod.rs\<close>).  The toml syntax of strings, arrays and tables is the toml library's: a
  lock file is the tables of texts it holds.  A map whose keys hold source ids finds them by \<open>SourceId\<close>'s
  equality, which looks neither at the precise version nor at the name of a registry: its keys are the
  part of the id that this equality compares.  A resolution is modelled with each id in one form, in which
  equal ids are the same.  What a workspace knows of its path packages is an argument of the reader
  (\<open>build_path_deps\<close>).
\<close>

section \<open>The encodable structure\<close>

record 'u enc_package_id =
  enc_name :: string
  enc_version :: string
  enc_source :: "'u source_id option"

record 'u enc_dependency =
  ed_name :: string
  ed_version :: string
  ed_source :: "'u source_id option"
  ed_dependencies :: "'u enc_package_id list option"
  ed_replace :: "'u enc_package_id option"

record 'u enc_resolve =
  er_package :: "'u enc_dependency list option"
  er_root :: "'u enc_dependency option"
  er_metadata :: "(string \<times> string) list option"
  er_patch :: "'u enc_dependency list"

type_synonym 'u enc_key = "string \<times> string \<times> (kind \<times> 'u) option"

definition enc_key :: "'u enc_package_id \<Rightarrow> 'u enc_key" where
  "enc_key e = (enc_name e, enc_version e, map_option sid_key (enc_source e))"

text \<open>The tables of the file: source ids and package ids are texts.\<close>

record text_dependency =
  td_name :: string
  td_version :: string
  td_source :: "string option"
  td_dependencies :: "string list option"
  td_replace :: "string option"

record lock_text =
  lt_package :: "text_dependency list option"
  lt_root :: "text_dependency option"
  lt_metadata :: "(string \<times> string) list option"
  lt_patch :: "text_dependency list"

section \<open>Ids as text\<close>

definition enc_display :: "'u url_ops \<Rightarrow> 'u enc_package_id \<Rightarrow> string" where
  "enc_display U e =
     enc_name e @ '' '' @ enc_version e @
     (case enc_source e of Some s \<Rightarrow> '' ('' @ sid_to_url U s @ '')'' | None \<Rightarrow> [])"

definition enc_from_str :: "'u url_ops \<Rightarrow> string \<Rightarrow> (package_error, 'u enc_package_id) run" where
  "enc_from_str U s =
     (case splitn2 CHR '' '' s of (n, rest) \<Rightarrow>
        (case rest of
           None \<Rightarrow> Some (Inl InvalidSerializedPackageId)
         | Some rest1 \<Rightarrow>
             (case splitn2 CHR '' '' rest1 of (v, src) \<Rightarrow>
                (case src of
                   None \<Rightarrow> Some (Inr \<lparr>enc_name = n, enc_version = v, enc_source = None\<rparr>)
                 | Some u \<Rightarrow>
                     if starts_with ''('' u \<and> ends_with_char CHR '')'' u then
                       (case from_url U (drop 1 (take (length u - 1) u)) of
                          None \<Rightarrow> None
                        | Some (Inl e) \<Rightarrow> Some (Inl (BadSource e))
                        | Some (Inr sid) \<Rightarrow> Some (Inr \<lparr>enc_name = n, enc_version = v, enc_source = Some sid\<rparr>))
                     else Some (Inl InvalidSerializedPackageId)))))"

text \<open>The derived \<open>Ord\<close>: name, version, source, with no source first.\<close>

definition enc_cmp :: "'u url_ops \<Rightarrow> 'u enc_package_id \<Rightarrow> 'u enc_package_id \<Rightarrow> ordering" where
  "enc_cmp U a b =
     (case cmp (enc_name a, enc_version a) (enc_name b, enc_version b) of
        Equal \<Rightarrow>
          (case (enc_source a, enc_source b) of
             (None, None) \<Rightarrow> Equal
           | (None, Some _) \<Rightarrow> Less
           | (Some _, None) \<Rightarrow> Greater
           | (Some s, Some t) \<Rightarrow> sid_cmp U s t)
      | ord \<Rightarrow> ord)"

section \<open>Writing\<close>

definition encode_source :: "'u source_id \<Rightarrow> 'u source_id option" where
  "encode_source s = (if is_path s then None else Some s)"

definition encodable_package_id :: "'r semver_ops \<Rightarrow> 'u source_id package_id \<Rightarrow> 'u enc_package_id" where
  "encodable_package_id S p =
     \<lparr>enc_name = pid_name p, enc_version = version_str S (pid_version p),
      enc_source = map_option (with_precise None) (encode_source (pid_source p))\<rparr>"

definition encodable_resolve_node ::
    "'r semver_ops \<Rightarrow> 'u url_ops \<Rightarrow> ('u source_id, 'r) resolve \<Rightarrow> 'u source_id package_id \<Rightarrow> 'u enc_dependency" where
  "encodable_resolve_node S U R p =
     (let (repl, ds) =
        (case replacement R p of
           Some r \<Rightarrow> (Some (encodable_package_id S r), None)
         | None \<Rightarrow> (None, Some (sort_by (enc_cmp U) (map (encodable_package_id S) (deps_not_replaced R p)))))
      in \<lparr>ed_name = pid_name p, ed_version = version_str S (pid_version p),
          ed_source = encode_source (pid_source p), ed_dependencies = ds, ed_replace = repl\<rparr>)"

definition unused_patch :: "'r semver_ops \<Rightarrow> 'u source_id package_id \<Rightarrow> 'u enc_dependency" where
  "unused_patch S p =
     \<lparr>ed_name = pid_name p, ed_version = version_str S (pid_version p),
      ed_source = encode_source (pid_source p), ed_dependencies = None, ed_replace = None\<rparr>"

definition checksum_key :: "'r semver_ops \<Rightarrow> 'u url_ops \<Rightarrow> 'u source_id package_id \<Rightarrow> string" where
  "checksum_key S U p = ''checksum '' @ enc_display U (encodable_package_id S p)"

definition checksum_text :: "string option \<Rightarrow> string" where
  "checksum_text c = (case c of Some s \<Rightarrow> s | None \<Rightarrow> ''<none>'')"

text \<open>The loop over the ids that records the checksums; \<open>None\<close> is the panic on a package without an
  entry.\<close>

fun record_checksums ::
    "'r semver_ops \<Rightarrow> 'u url_ops \<Rightarrow> ('u source_id, 'r) resolve \<Rightarrow> 'u source_id package_id list \<Rightarrow>
       (string \<times> string) list \<Rightarrow> (string \<times> string) list option" where
  "record_checksums S U R [] meta = Some meta"
| "record_checksums S U R (p # ps) meta =
     (if is_path (pid_source p) then record_checksums S U R ps meta
      else (case map_of (rs_checksums R) p of
              None \<Rightarrow> None
            | Some c \<Rightarrow> record_checksums S U R ps (AList.update (checksum_key S U p) (checksum_text c) meta)))"

definition workspace_resolve ::
    "'r semver_ops \<Rightarrow> 'u url_ops \<Rightarrow> ('u source_id, 'r) resolve \<Rightarrow> 'u enc_resolve option" where
  "workspace_resolve S U R =
     (let ids = sort_by (pid_cmp S U) (rs_iter R)
      in map_option (\<lambda>meta.
           \<lparr>er_package = Some (map (encodable_resolve_node S U R) ids), er_root = None,
            er_metadata = (if meta = [] then None else Some meta),
            er_patch = map (unused_patch S) (rs_unused_patches R)\<rparr>)
         (record_checksums S U R ids (rs_metadata R)))"

text \<open>\<open>Serialize\<close> of the structure, and the tables \<open>write_pkg_lockfile\<close> emits: an empty list of dependencies is
  left out, and so is a replacement next to a list of dependencies.\<close>

definition serialize_dependency :: "'u url_ops \<Rightarrow> 'u enc_dependency \<Rightarrow> text_dependency" where
  "serialize_dependency U d =
     \<lparr>td_name = ed_name d, td_version = ed_version d, td_source = Option.bind (ed_source d) (sid_serialize U),
      td_dependencies = map_option (map (enc_display U)) (ed_dependencies d),
      td_replace = map_option (enc_display U) (ed_replace d)\<rparr>"

definition emit_package :: "text_dependency \<Rightarrow> text_dependency" where
  "emit_package d =
     d\<lparr>td_dependencies := (if td_dependencies d = Some [] then None else td_dependencies d),
       td_replace := (if td_dependencies d = None then td_replace d else None)\<rparr>"

definition emit_lockfile :: "'u url_ops \<Rightarrow> 'u enc_resolve \<Rightarrow> lock_text" where
  "emit_lockfile U E =
     \<lparr>lt_package = map_option (map (\<lambda>d. emit_package (serialize_dependency U d))) (er_package E), lt_root = None,
      lt_metadata = er_metadata E, lt_patch = map (\<lambda>d. emit_package (serialize_dependency U d)) (er_patch E)\<rparr>"

definition write_lockfile :: "'r semver_ops \<Rightarrow> 'u url_ops \<Rightarrow> ('u source_id, 'r) resolve \<Rightarrow> lock_text option" where
  "write_lockfile S U R = map_option (emit_lockfile U) (workspace_resolve S U R)"

section \<open>Reading\<close>

datatype lock_error =
    InvalidSourceText source_error
  | InvalidIdText package_error
  | SpecifiedTwice string
  | BadPackage package_error
  | BadChecksumEncoding package_error

text \<open>\<open>Deserialize\<close> of the structure.\<close>

definition deserialize_source :: "'u url_ops \<Rightarrow> string option \<Rightarrow> (lock_error, 'u source_id option) run" where
  "deserialize_source U t =
     (case t of
        None \<Rightarrow> Some (Inr None)
      | Some s \<Rightarrow>
          (case from_url U s of
             None \<Rightarrow> None
           | Some (Inl e) \<Rightarrow> Some (Inl (InvalidSourceText e))
           | Some (Inr sid) \<Rightarrow> Some (Inr (Some sid))))"

definition deserialize_id :: "'u url_ops \<Rightarrow> string \<Rightarrow> (lock_error, 'u enc_package_id) run" where
  "deserialize_id U s =
     (case enc_from_str U s of
        None \<Rightarrow> None
      | Some (Inl e) \<Rightarrow> Some (Inl (InvalidIdText e))
      | Some (Inr e) \<Rightarrow> Some (Inr e))"

definition optionR :: "('a \<Rightarrow> ('e, 'b) run) \<Rightarrow> 'a option \<Rightarrow> ('e, 'b option) run" where
  "optionR f x = (case x of None \<Rightarrow> Some (Inr None) | Some a \<Rightarrow> bindR (f a) (\<lambda>b. Some (Inr (Some b))))"

definition deserialize_dependency :: "'u url_ops \<Rightarrow> text_dependency \<Rightarrow> (lock_error, 'u enc_dependency) run" where
  "deserialize_dependency U t =
     bindR (deserialize_source U (td_source t)) (\<lambda>src.
       bindR (optionR (collectR (deserialize_id U)) (td_dependencies t)) (\<lambda>ds.
         bindR (optionR (deserialize_id U) (td_replace t)) (\<lambda>repl.
           Some (Inr \<lparr>ed_name = td_name t, ed_version = td_version t, ed_source = src,
                      ed_dependencies = ds, ed_replace = repl\<rparr>))))"

definition deserialize_resolve :: "'u url_ops \<Rightarrow> lock_text \<Rightarrow> (lock_error, 'u enc_resolve) run" where
  "deserialize_resolve U T =
     bindR (optionR (collectR (deserialize_dependency U)) (lt_package T)) (\<lambda>ps.
       bindR (optionR (deserialize_dependency U) (lt_root T)) (\<lambda>root.
         bindR (collectR (deserialize_dependency U) (lt_patch T)) (\<lambda>unused.
           Some (Inr \<lparr>er_package = ps, er_root = root, er_metadata = lt_metadata T, er_patch = unused\<rparr>))))"

type_synonym 'u live_pkgs = "('u enc_key \<times> 'u source_id package_id \<times> 'u enc_dependency) list"

definition source_of :: "(string \<times> 'u source_id) list \<Rightarrow> 'u enc_dependency \<Rightarrow> 'u source_id option" where
  "source_of path_deps node =
     (case ed_source node of Some s \<Rightarrow> Some s | None \<Rightarrow> map_of path_deps (ed_name node))"

definition dependency_key :: "'u enc_dependency \<Rightarrow> 'u enc_key" where
  "dependency_key node =
     enc_key \<lparr>enc_name = ed_name node, enc_version = ed_version node, enc_source = ed_source node\<rparr>"

text \<open>One package of the lock file; \<open>None\<close> is the failed assertion.\<close>

definition live_step ::
    "'r semver_ops \<Rightarrow> (string \<times> 'u source_id) list \<Rightarrow> 'u enc_dependency \<Rightarrow>
       'u live_pkgs \<times> 'u enc_key list \<Rightarrow> (lock_error, 'u live_pkgs \<times> 'u enc_key list) run" where
  "live_step S path_deps node st =
     (case st of (live, all_pkgs) \<Rightarrow>
        let k = dependency_key node in
        if k \<in> set all_pkgs then Some (Inl (SpecifiedTwice (ed_name node)))
        else
          (case source_of path_deps node of
             None \<Rightarrow> Some (Inr (live, k # all_pkgs))
           | Some source \<Rightarrow>
               (case new_package_id S (ed_name node) (ed_version node) source of
                  Inl e \<Rightarrow> Some (Inl (BadPackage e))
                | Inr p \<Rightarrow>
                    if map_of live k \<noteq> None then None
                    else Some (Inr (live @ [(k, p, node)], k # all_pkgs)))))"

text \<open>The maps keyed by package ids, the graph among them, keep the first of equal ids: every id of the packages
  read is taken in the form in which it first occurs.\<close>

definition same_pid :: "'u source_id package_id \<Rightarrow> 'u source_id package_id \<Rightarrow> bool" where
  "same_pid p q \<longleftrightarrow> pid_name p = pid_name q \<and> pid_version p = pid_version q \<and> sid_key (pid_source p) = sid_key (pid_source q)"

definition first_form :: "'u live_pkgs \<Rightarrow> 'u source_id package_id \<Rightarrow> 'u source_id package_id" where
  "first_form live p = (case find (\<lambda>(_, q, _). same_pid q p) live of Some (_, q, _) \<Rightarrow> q | None \<Rightarrow> p)"

definition one_form :: "'u live_pkgs \<Rightarrow> 'u live_pkgs" where
  "one_form live = map (\<lambda>(k, p, node). (k, first_form live p, node)) live"

definition lookup_id :: "'u live_pkgs \<Rightarrow> 'u enc_package_id \<Rightarrow> 'u source_id package_id option" where
  "lookup_id live e = map_option fst (map_of live (enc_key e))"

type_synonym ('u, 'r) pkg_graph = "('u source_id package_id, ('u source_id, 'r) dependency list) graph"

definition link_edge ::
    "'u live_pkgs \<Rightarrow> 'u source_id package_id \<Rightarrow> 'u enc_package_id \<Rightarrow> ('u, 'r) pkg_graph \<Rightarrow> ('u, 'r) pkg_graph" where
  "link_edge live p e g = (case lookup_id live e of None \<Rightarrow> g | Some q \<Rightarrow> link [] p q (\<lambda>ds. ds) g)"

definition link_node ::
    "'u live_pkgs \<Rightarrow> 'u enc_key \<times> 'u source_id package_id \<times> 'u enc_dependency \<Rightarrow> ('u, 'r) pkg_graph \<Rightarrow> ('u, 'r) pkg_graph" where
  "link_node live entry g =
     (case entry of (_, p, node) \<Rightarrow>
        (case ed_dependencies node of None \<Rightarrow> g | Some es \<Rightarrow> fold (link_edge live p) es g))"

definition lock_graph :: "'u live_pkgs \<Rightarrow> ('u, 'r) pkg_graph" where
  "lock_graph live = fold (link_node live) live (fold (\<lambda>(_, p, _). add p) live new_graph)"

text \<open>\<open>None\<close> is the failed assertion that a replaced package has no dependencies.\<close>

fun lock_replacements ::
    "'u live_pkgs \<Rightarrow> 'u live_pkgs \<Rightarrow> ('u source_id package_id \<times> 'u source_id package_id) list \<Rightarrow>
       ('u source_id package_id \<times> 'u source_id package_id) list option" where
  "lock_replacements live [] acc = Some acc"
| "lock_replacements live ((_, p, node) # rest) acc =
     (case ed_replace node of
        None \<Rightarrow> lock_replacements live rest acc
      | Some e \<Rightarrow>
          if ed_dependencies node \<noteq> None then None
          else (case lookup_id live e of
                  None \<Rightarrow> lock_replacements live rest acc
                | Some r \<Rightarrow> lock_replacements live rest (AList.update p r acc)))"

definition is_checksum_key :: "string \<Rightarrow> bool" where
  "is_checksum_key k = starts_with ''checksum '' k"

definition checksum_step ::
    "'u url_ops \<Rightarrow> 'u live_pkgs \<Rightarrow> string \<times> string \<Rightarrow> ('u source_id package_id \<times> string option) list \<Rightarrow>
       (lock_error, ('u source_id package_id \<times> string option) list) run" where
  "checksum_step U live kv acc =
     (case kv of (k, v) \<Rightarrow>
        (case enc_from_str U (drop 9 k) of
           None \<Rightarrow> None
         | Some (Inl e) \<Rightarrow> Some (Inl (BadChecksumEncoding e))
         | Some (Inr e) \<Rightarrow>
             (case lookup_id live e of
                None \<Rightarrow> Some (Inr acc)
              | Some p \<Rightarrow> Some (Inr (AList.update p (if v = ''<none>'' then None else Some v) acc)))))"

definition patch_step ::
    "'r semver_ops \<Rightarrow> (string \<times> 'u source_id) list \<Rightarrow> 'u enc_dependency \<Rightarrow> 'u source_id package_id list \<Rightarrow>
       (lock_error, 'u source_id package_id list) run" where
  "patch_step S path_deps node acc =
     (case source_of path_deps node of
        None \<Rightarrow> Some (Inr acc)
      | Some source \<Rightarrow>
          (case new_package_id S (ed_name node) (ed_version node) source of
             Inl e \<Rightarrow> Some (Inl (BadPackage e))
           | Inr p \<Rightarrow> Some (Inr (acc @ [p]))))"

definition all_packages :: "'u enc_resolve \<Rightarrow> 'u enc_dependency list" where
  "all_packages E =
     (case er_root E of Some r \<Rightarrow> [r] | None \<Rightarrow> []) @ (case er_package E of Some ps \<Rightarrow> ps | None \<Rightarrow> [])"

definition into_resolve ::
    "'r semver_ops \<Rightarrow> 'u url_ops \<Rightarrow> (string \<times> 'u source_id) list \<Rightarrow> 'u enc_resolve \<Rightarrow>
       (lock_error, ('u source_id, 'r) resolve) run" where
  "into_resolve S U path_deps E =
     bindR (foldR (live_step S path_deps) (all_packages E) ([], [])) (\<lambda>(live0, _).
       let live = one_form live0 in
       bindR (unwrap (lock_replacements live live [])) (\<lambda>repl.
         let meta = (case er_metadata E of Some m \<Rightarrow> m | None \<Rightarrow> []) in
         bindR (foldR (checksum_step U live) (filter (\<lambda>(k, _). is_checksum_key k) meta) []) (\<lambda>cksums.
           bindR (foldR (patch_step S path_deps) (er_patch E) []) (\<lambda>unused.
             Some (Inr (new_resolve (lock_graph live) repl [] cksums
               (filter (\<lambda>(k, _). \<not> is_checksum_key k) meta) unused))))))"

definition read_lockfile ::
    "'r semver_ops \<Rightarrow> 'u url_ops \<Rightarrow> (string \<times> 'u source_id) list \<Rightarrow> lock_text \<Rightarrow>
       (lock_error, ('u source_id, 'r) resolve) run" where
  "read_lockfile S U path_deps T = bindR (deserialize_resolve U T) (into_resolve S U path_deps)"

section \<open>The check before writing\<close>

text \<open>\<open>enc\<close> is the encodable id of a package as the map of the check compares it.\<close>

definition duplicate_step ::
    "('s package_id \<Rightarrow> 'k) \<Rightarrow> 's package_id \<Rightarrow> ('k \<times> 's package_id) list \<Rightarrow>
       ('s, 'r) resolve_error + ('k \<times> 's package_id) list" where
  "duplicate_step enc p seen_ids =
     (case map_of seen_ids (enc p) of
        Some prev \<Rightarrow> Inl (LockfileCollision prev p)
      | None \<Rightarrow> Inr (AList.update (enc p) p seen_ids))"

definition check_duplicate_pkgs_in_lockfile ::
    "('s package_id \<Rightarrow> 'k) \<Rightarrow> ('s, 'r) resolve \<Rightarrow> ('s, 'r) resolve_error + unit" where
  "check_duplicate_pkgs_in_lockfile enc R = bindE (foldE (duplicate_step enc) (rs_iter R) []) (\<lambda>_. Inr ())"

text \<open>The encodable id, as it is compared, of a package whose source is given in the form \<open>==\<close> compares.\<close>

type_synonym 'u source_key = "kind \<times> 'u"

definition lock_key :: "'r semver_ops \<Rightarrow> 'u source_key package_id \<Rightarrow> 'u enc_key" where
  "lock_key S p =
     (pid_name p, version_str S (pid_version p),
      if fst (pid_source p) = KPath then None else Some (pid_source p))"

section \<open>Ids written and read\<close>

text \<open>
  What the round trip needs of an id: its version prints to a text that parses to it (a law of
  the crate \<open>semver\<close>), name and version hold no space, and its source is of one of the kinds a lock
  file can hold: a path known to the workspace under the name of the package, or a git repository or
  registry whose url satisfies the laws of the crate \<open>url\<close> for printing and parsing.
\<close>

definition source_text_ok :: "'u url_ops \<Rightarrow> (string \<Rightarrow> bool) \<Rightarrow> 'u source_id \<Rightarrow> bool" where
  "source_text_ok U plain s \<longleftrightarrow>
     url_text_ok U plain (sid_url s) \<and> url_parse U (as_str U (sid_url s)) = Some (sid_url s) \<and> sid_wf U s \<and>
     pred_option (\<lambda>r. plain (snd (reference_pair r))) (sid_git_reference s) \<and>
     (is_git s \<longrightarrow> pred_option plain (precise s))"

definition id_ok ::
    "'r semver_ops \<Rightarrow> 'u url_ops \<Rightarrow> (string \<Rightarrow> bool) \<Rightarrow> (string \<times> 'u source_id) list \<Rightarrow> 'u source_id package_id \<Rightarrow> bool" where
  "id_ok S U plain path_deps p \<longleftrightarrow>
     version_parse S (version_str S (pid_version p)) = Some (pid_version p) \<and>
     CHR '' '' \<notin> set (pid_name p) \<and> CHR '' '' \<notin> set (version_str S (pid_version p)) \<and>
     (if is_path (pid_source p) then
        \<exists>s. map_of path_deps (pid_name p) = Some s \<and> sid_key s = sid_key (pid_source p)
      else kind (pid_source p) \<notin> {KLocalRegistry, KDirectory} \<and> source_text_ok U plain (pid_source p))"

abbreviation pid_key :: "'r semver_ops \<Rightarrow> 'u source_id package_id \<Rightarrow> 'u enc_key" where
  "pid_key S p \<equiv> enc_key (encodable_package_id S p)"

text \<open>The form in which a source comes back, and that of an id: a registry is locked, names are gone, a path
  package is as the workspace has it.  Nothing of this is seen by \<open>==\<close>.\<close>

definition read_source :: "'u source_id \<Rightarrow> 'u source_id" where
  "read_source s =
     (if kind s = KRegistry then s\<lparr>precise := Some ''locked'', sid_name := None\<rparr> else s\<lparr>sid_name := None\<rparr>)"

definition read_back :: "(string \<times> 'u source_id) list \<Rightarrow> 'u source_id package_id \<Rightarrow> 'u source_id package_id" where
  "read_back path_deps p =
     p\<lparr>pid_source := (if is_path (pid_source p) then the (map_of path_deps (pid_name p)) else read_source (pid_source p))\<rparr>"

definition read_enc :: "'u enc_package_id \<Rightarrow> 'u enc_package_id" where
  "read_enc e = e\<lparr>enc_source := map_option read_source (enc_source e)\<rparr>"

lemma sid_key_read [simp]: "sid_key (read_source s) = sid_key s" "kind (read_source s) = kind s"
  by (simp_all add: read_source_def sid_key_def split: kind.splits)

lemma enc_key_read [simp]: "enc_key (read_enc e) = enc_key e"
  by (cases "enc_source e") (simp_all add: read_enc_def enc_key_def)

lemma read_back_same:
  assumes "id_ok S U plain path_deps p"
  shows "same_pid (read_back path_deps p) p"
proof (cases "is_path (pid_source p)")
  case True
  with assms obtain s where "map_of path_deps (pid_name p) = Some s" "sid_key s = sid_key (pid_source p)"
    unfolding id_ok_def by auto
  with True show ?thesis by (simp add: same_pid_def read_back_def)
next
  case False
  then show ?thesis by (simp add: same_pid_def read_back_def)
qed

lemma read_back_precise: "is_git (pid_source p) \<longrightarrow> precise (pid_source (read_back path_deps p)) = precise (pid_source p)"
  by (auto simp: is_git_def is_path_def read_back_def read_source_def split: kind.splits)

lemma source_text_precise: "source_text_ok U plain s \<Longrightarrow> source_text_ok U plain (with_precise None s)"
  by (simp add: source_text_ok_def with_precise_def sid_wf_def sid_git_reference_def)

lemma source_read:
  assumes "source_text_ok U plain s" "kind s \<notin> {KPath, KLocalRegistry, KDirectory}"
  shows "from_url U (sid_to_url U s) = Some (Inr (read_source s))"
  using source_id_text [of U plain s] assms by (cases "kind s") (auto simp: source_text_ok_def read_source_def)

lemma is_path_key: "is_path s \<longleftrightarrow> fst (sid_key s) = KPath"
  by (simp add: is_path_def sid_key_def)

lemma pid_key_lock_key:
  "pid_key S p = lock_key S \<lparr>pid_name = pid_name p, pid_version = pid_version p, pid_source = sid_key (pid_source p)\<rparr>"
  by (simp add: lock_key_def enc_key_def encodable_package_id_def encode_source_def is_path_key)

lemma same_pid_key: "same_pid p q \<Longrightarrow> pid_key S p = pid_key S q"
  by (simp add: same_pid_def pid_key_lock_key)

lemma enc_text:
  assumes "id_ok S U plain path_deps p"
  shows "enc_from_str U (enc_display U (encodable_package_id S p)) = Some (Inr (read_enc (encodable_package_id S p)))"
proof -
  let ?v = "version_str S (pid_version p)"
  let ?s = "with_precise None (pid_source p)"
  let ?u = "sid_to_url U ?s"
  have sp: "CHR '' '' \<notin> set (pid_name p)" "CHR '' '' \<notin> set ?v" using assms by (auto simp: id_ok_def)
  show ?thesis
  proof (cases "is_path (pid_source p)")
    case True
    then have disp: "enc_display U (encodable_package_id S p) = pid_name p @ CHR '' '' # ?v"
      by (simp add: enc_display_def encodable_package_id_def encode_source_def)
    show ?thesis
      unfolding disp enc_from_str_def splitn2_append [OF sp(1)] prod.case option.case splitn2_none [OF sp(2)]
      using True by (simp add: encodable_package_id_def encode_source_def read_enc_def)
  next
    case False
    then have "source_text_ok U plain ?s" "kind ?s \<notin> {KPath, KLocalRegistry, KDirectory}"
      using assms source_text_precise [of U plain "pid_source p"] by (auto simp: id_ok_def with_precise_def is_path_def)
    then have s: "from_url U ?u = Some (Inr (read_source ?s))" by (rule source_read)
    have disp: "enc_display U (encodable_package_id S p) = pid_name p @ CHR '' '' # ?v @ CHR '' '' # ''('' @ ?u @ '')''"
      using False by (simp add: enc_display_def encodable_package_id_def encode_source_def)
    have p1: "starts_with ''('' (''('' @ ?u @ '')'')" "ends_with_char CHR '')'' (''('' @ ?u @ '')'')"
      by (simp_all add: starts_with_def ends_with_char_def)
    have "drop 1 (take (length (''('' @ ?u @ '')'') - 1) (''('' @ ?u @ '')'')) = ?u" by simp
    then show ?thesis
      unfolding disp enc_from_str_def splitn2_append [OF sp(1)] prod.case option.case splitn2_append [OF sp(2)]
      using p1 s False by (simp add: encodable_package_id_def encode_source_def read_enc_def)
  qed
qed

lemma checksum_key_inj:
  assumes "id_ok S U plain path_deps p" "id_ok S U plain path_deps q" and "checksum_key S U p = checksum_key S U q"
  shows "pid_key S p = pid_key S q"
proof -
  have "read_enc (encodable_package_id S p) = read_enc (encodable_package_id S q)"
    using enc_text [OF assms(1)] enc_text [OF assms(2)] assms(3) by (simp add: checksum_key_def)
  then show ?thesis by (metis enc_key_read)
qed

section \<open>The structure read back\<close>

text \<open>What the reader finds for a package: the node as it was written, with every source read.\<close>

definition read_node :: "'u enc_dependency \<Rightarrow> 'u enc_dependency" where
  "read_node d =
     d\<lparr>ed_source := map_option read_source (ed_source d),
       ed_dependencies := (case ed_dependencies d of Some (e # es) \<Rightarrow> Some (map read_enc (e # es)) | _ \<Rightarrow> None),
       ed_replace := (if ed_dependencies d = None then map_option read_enc (ed_replace d) else None)\<rparr>"

lemma collectR_map: "\<forall>x\<in>set xs. f x = Some (Inr (g x)) \<Longrightarrow> collectR f xs = Some (Inr (map g xs))"
  by (induction xs) auto

lemma collectR_of_map: "collectR f (map g xs) = collectR (\<lambda>x. f (g x)) xs"
  by (induction xs) simp_all

text \<open>A node all of whose texts read back.\<close>

definition node_text_ok :: "'u url_ops \<Rightarrow> 'u enc_dependency \<Rightarrow> bool" where
  "node_text_ok U d \<longleftrightarrow>
     (\<forall>s. ed_source d = Some s \<longrightarrow> sid_serialize U s = Some (sid_to_url U s) \<and> from_url U (sid_to_url U s) = Some (Inr (read_source s))) \<and>
     (\<forall>e. e \<in> (case ed_dependencies d of Some es \<Rightarrow> set es | None \<Rightarrow> {}) \<union> set_option (ed_replace d) \<longrightarrow>
        enc_from_str U (enc_display U e) = Some (Inr (read_enc e)))"

lemma deserialize_text:
  assumes "enc_from_str U (enc_display U e) = Some (Inr (read_enc e))"
  shows "deserialize_id U (enc_display U e) = Some (Inr (read_enc e))"
  using assms by (simp add: deserialize_id_def)

lemma node_read:
  assumes "node_text_ok U d"
  shows "deserialize_dependency U (emit_package (serialize_dependency U d)) = Some (Inr (read_node d))"
proof -
  let ?t = "emit_package (serialize_dependency U d)"
  have src: "deserialize_source U (td_source ?t) = Some (Inr (map_option read_source (ed_source d)))"
    using assms
    by (cases "ed_source d") (auto simp: node_text_ok_def emit_package_def serialize_dependency_def deserialize_source_def)
  have ids: "deserialize_id U (enc_display U e) = Some (Inr (read_enc e))"
    if "e \<in> (case ed_dependencies d of Some es \<Rightarrow> set es | None \<Rightarrow> {}) \<union> set_option (ed_replace d)" for e
    using assms that unfolding node_text_ok_def by (intro deserialize_text) blast
  have deps: "optionR (collectR (deserialize_id U)) (td_dependencies ?t) = Some (Inr (ed_dependencies (read_node d)))"
  proof (cases "ed_dependencies d")
    case None
    then show ?thesis by (simp add: emit_package_def serialize_dependency_def optionR_def read_node_def)
  next
    case (Some es)
    have "collectR (deserialize_id U) (map (enc_display U) es) = Some (Inr (map read_enc es))"
    proof -
      have "collectR (deserialize_id U) (map (enc_display U) es') = Some (Inr (map read_enc es'))" if "set es' \<subseteq> set es" for es'
        using that ids Some by (induction es') auto
      then show ?thesis by simp
    qed
    with Some show ?thesis
      by (cases es) (simp_all add: emit_package_def serialize_dependency_def optionR_def read_node_def)
  qed
  have repl: "optionR (deserialize_id U) (td_replace ?t) = Some (Inr (ed_replace (read_node d)))"
    using ids by (cases "ed_replace d") (auto simp: emit_package_def serialize_dependency_def optionR_def read_node_def)
  show ?thesis
    unfolding deserialize_dependency_def src deps repl
    by (simp add: emit_package_def serialize_dependency_def read_node_def)
qed

lemma nodes_read:
  assumes "\<forall>d\<in>set ds. node_text_ok U d"
  shows "collectR (deserialize_dependency U) (map (\<lambda>d. emit_package (serialize_dependency U d)) ds) = Some (Inr (map read_node ds))"
  unfolding collectR_of_map using assms node_read by (intro collectR_map) blast

lemma encoded_source_ok:
  assumes "id_ok S U plain path_deps p" "encode_source (pid_source p) = Some s"
  shows "sid_serialize U s = Some (sid_to_url U s) \<and> from_url U (sid_to_url U s) = Some (Inr (read_source s))"
proof -
  have s: "s = pid_source p" "\<not> is_path s" using assms(2) by (auto simp: encode_source_def split: if_splits)
  with assms(1) have "source_text_ok U plain s" "kind s \<notin> {KPath, KLocalRegistry, KDirectory}"
    by (auto simp: id_ok_def is_path_def)
  with s(2) show ?thesis by (simp add: source_read sid_serialize_def)
qed

abbreviation lock_node ::
    "'r semver_ops \<Rightarrow> 'u url_ops \<Rightarrow> ('u source_id, 'r) resolve \<Rightarrow> 'u source_id package_id \<Rightarrow> 'u enc_dependency" where
  "lock_node S U R p \<equiv> read_node (encodable_resolve_node S U R p)"

lemma node_fields [simp]:
  "ed_name (encodable_resolve_node S U R p) = pid_name p"
  "ed_version (encodable_resolve_node S U R p) = version_str S (pid_version p)"
  "ed_source (encodable_resolve_node S U R p) = encode_source (pid_source p)"
  "ed_replace (encodable_resolve_node S U R p) = map_option (encodable_package_id S) (replacement R p)"
  "ed_dependencies (encodable_resolve_node S U R p) =
     (if replacement R p = None then Some (sort_by (enc_cmp U) (map (encodable_package_id S) (deps_not_replaced R p))) else None)"
  by (auto simp: encodable_resolve_node_def split: option.splits)

lemma patch_fields [simp]:
  "ed_name (unused_patch S p) = pid_name p" "ed_version (unused_patch S p) = version_str S (pid_version p)"
  "ed_source (unused_patch S p) = encode_source (pid_source p)"
  "ed_dependencies (unused_patch S p) = None" "ed_replace (unused_patch S p) = None"
  by (simp_all add: unused_patch_def)

lemma read_node_fields [simp]:
  "ed_name (read_node d) = ed_name d" "ed_version (read_node d) = ed_version d"
  "ed_source (read_node d) = map_option read_source (ed_source d)"
  by (simp_all add: read_node_def)

lemma node_written:
  assumes "id_ok S U plain path_deps p"
    and "\<forall>q\<in>set (deps_not_replaced R p) \<union> set_option (replacement R p). id_ok S U plain path_deps q"
  shows "node_text_ok U (encodable_resolve_node S U R p)"
proof -
  have "enc_from_str U (enc_display U e) = Some (Inr (read_enc e))"
    if e: "e \<in> (case ed_dependencies (encodable_resolve_node S U R p) of Some es \<Rightarrow> set es | None \<Rightarrow> {}) \<union>
      set_option (ed_replace (encodable_resolve_node S U R p))" for e
  proof -
    from e obtain q where "q \<in> set (deps_not_replaced R p) \<union> set_option (replacement R p)" "e = encodable_package_id S q"
      by (auto split: if_splits)
    with assms(2) enc_text show ?thesis by blast
  qed
  with encoded_source_ok [OF assms(1)] show ?thesis unfolding node_text_ok_def node_fields(3) by blast
qed

lemma patch_written: "id_ok S U plain path_deps p \<Longrightarrow> node_text_ok U (unused_patch S p)"
  using encoded_source_ok by (fastforce simp: node_text_ok_def)

lemma node_key [simp]: "dependency_key (lock_node S U R p) = pid_key S p"
  by (simp add: dependency_key_def encodable_package_id_def enc_key_def option.map_comp comp_def)

lemma node_source:
  assumes "id_ok S U plain path_deps p" "ed_source d = encode_source (pid_source p)" "ed_name d = pid_name p"
  shows "source_of path_deps (read_node d) = Some (pid_source (read_back path_deps p))"
  using assms by (auto simp: source_of_def encode_source_def id_ok_def read_back_def)

lemma node_id:
  assumes "id_ok S U plain path_deps p"
  shows "new_package_id S (pid_name p) (version_str S (pid_version p)) (pid_source (read_back path_deps p)) = Inr (read_back path_deps p)"
  using assms by (simp add: new_package_id_def id_ok_def read_back_def)

section \<open>The packages of a lock file\<close>

definition live_of ::
    "'r semver_ops \<Rightarrow> 'u url_ops \<Rightarrow> (string \<times> 'u source_id) list \<Rightarrow> ('u source_id, 'r) resolve \<Rightarrow>
       'u source_id package_id list \<Rightarrow> 'u live_pkgs" where
  "live_of S U path_deps R ps = map (\<lambda>p. (pid_key S p, read_back path_deps p, lock_node S U R p)) ps"

lemma live_read:
  assumes "\<forall>p\<in>set ps. id_ok S U plain path_deps p" "distinct (map (pid_key S) ps)"
    and "set all_keys \<inter> pid_key S ` set ps = {}" "fst ` set live \<subseteq> set all_keys"
  shows "foldR (live_step S path_deps) (map (lock_node S U R) ps) (live, all_keys) =
    Some (Inr (live @ live_of S U path_deps R ps, rev (map (pid_key S) ps) @ all_keys))"
  using assms
proof (induction ps arbitrary: live all_keys)
  case Nil
  then show ?case by (simp add: live_of_def)
next
  case (Cons p ps)
  let ?entry = "(pid_key S p, read_back path_deps p, lock_node S U R p)"
  have ok: "id_ok S U plain path_deps p" using Cons.prems(1) by simp
  have src: "source_of path_deps (lock_node S U R p) = Some (pid_source (read_back path_deps p))"
    by (rule node_source [OF ok]) simp_all
  have "pid_key S p \<notin> set all_keys" using Cons.prems(3) by auto
  moreover from this have "map_of live (pid_key S p) = None"
    using Cons.prems(4) by (auto simp: map_of_eq_None_iff)
  ultimately have "live_step S path_deps (lock_node S U R p) (live, all_keys) =
      Some (Inr (live @ [?entry], pid_key S p # all_keys))"
    using src node_id [OF ok] by (simp add: live_step_def Let_def)
  moreover have "foldR (live_step S path_deps) (map (lock_node S U R) ps) (live @ [?entry], pid_key S p # all_keys) =
    Some (Inr ((live @ [?entry]) @ live_of S U path_deps R ps, rev (map (pid_key S) ps) @ pid_key S p # all_keys))"
    by (rule Cons.IH) (use Cons.prems in auto)
  ultimately show ?case by (simp add: live_of_def)
qed

text \<open>Packages that the check keeps apart are apart under \<open>==\<close>, before and after.\<close>

lemma read_back_inj:
  assumes "\<forall>p\<in>set ids. id_ok S U plain path_deps p" "inj_on (pid_key S) (set ids)" "p \<in> set ids" "q \<in> set ids"
  shows "same_pid (read_back path_deps p) (read_back path_deps q) \<longleftrightarrow> p = q"
    and "read_back path_deps p = read_back path_deps q \<longleftrightarrow> p = q"
proof -
  have "pid_key S (read_back path_deps r) = pid_key S r" if "r \<in> set ids" for r
    using assms(1) that by (intro same_pid_key read_back_same) auto
  with assms(3,4) have "same_pid (read_back path_deps p) (read_back path_deps q) \<Longrightarrow> pid_key S p = pid_key S q"
    using same_pid_key [of "read_back path_deps p" "read_back path_deps q" S] by simp
  with assms(2-4) show "same_pid (read_back path_deps p) (read_back path_deps q) \<longleftrightarrow> p = q"
    by (auto dest: inj_onD simp: same_pid_def)
  then show "read_back path_deps p = read_back path_deps q \<longleftrightarrow> p = q" by (auto simp: same_pid_def)
qed

lemma find_only:
  assumes "x \<in> set xs" "P x" "\<And>y. y \<in> set xs \<Longrightarrow> P y \<Longrightarrow> f y = f x"
  shows "map_option f (find P xs) = Some (f x)"
proof (cases "find P xs")
  case None
  with assms(1,2) show ?thesis by (simp add: find_None_iff)
next
  case (Some y)
  then have "y \<in> set xs" "P y" by (auto simp: find_Some_iff)
  from assms(3) [OF this] Some show ?thesis by simp
qed

lemma live_one_form:
  assumes "\<forall>p\<in>set ids. id_ok S U plain path_deps p" "inj_on (pid_key S) (set ids)"
  shows "one_form (live_of S U path_deps R ids) = live_of S U path_deps R ids"
proof -
  let ?live = "live_of S U path_deps R ids"
  have "first_form ?live (read_back path_deps p) = read_back path_deps p" if p: "p \<in> set ids" for p
  proof -
    let ?P = "\<lambda>(_, q, _). same_pid q (read_back path_deps p)"
    have "map_option (\<lambda>x. fst (snd x)) (find ?P ?live) =
        Some (fst (snd (pid_key S p, read_back path_deps p, lock_node S U R p)))"
      by (rule find_only [where P = ?P])
         (use p read_back_inj(1) [OF assms _ p] in \<open>auto simp: live_of_def same_pid_def [of "read_back path_deps p" "read_back path_deps p"]\<close>)
    then show ?thesis by (auto simp: first_form_def)
  qed
  then show ?thesis by (simp add: one_form_def live_of_def)
qed

lemma live_lookup:
  assumes "inj_on (pid_key S) (set ps)" "p \<in> set ps"
  shows "map_of (live_of S U path_deps R ps) (pid_key S p) = Some (read_back path_deps p, lock_node S U R p)"
  using assms
proof (induction ps)
  case (Cons q ps)
  then show ?case by (cases "pid_key S q = pid_key S p") (auto simp: live_of_def dest: inj_onD)
qed simp

lemma live_lookup_id:
  "inj_on (pid_key S) (set ps) \<Longrightarrow> p \<in> set ps \<Longrightarrow> enc_key e = pid_key S p \<Longrightarrow>
     lookup_id (live_of S U path_deps R ps) e = Some (read_back path_deps p)"
  by (simp add: lookup_id_def live_lookup)

section \<open>The graph\<close>

lemma children_edge: "wf_graph g \<Longrightarrow> b \<in> fst ` set (edges g a) \<longleftrightarrow> edge g a b \<noteq> None"
  using edge_edges [of g a b] by force

definition linked_from :: "'u live_pkgs \<Rightarrow> 'u live_pkgs \<Rightarrow> ('u source_id package_id \<times> 'u source_id package_id) set" where
  "linked_from live L =
     {(p, q). \<exists>x\<in>set L. fst (snd x) = p \<and>
        (\<exists>es. ed_dependencies (snd (snd x)) = Some es \<and> (\<exists>e\<in>set es. lookup_id live e = Some q))}"

lemma link_edges:
  assumes "wf_graph g" "contains g p"
  shows "wf_graph (fold (link_edge live p) es g) \<and> (\<forall>k. contains (fold (link_edge live p) es g) k = contains g k) \<and>
    (\<forall>a b. (edge (fold (link_edge live p) es g) a b \<noteq> None) =
       (edge g a b \<noteq> None \<or> a = p \<and> (\<exists>e\<in>set es. lookup_id live e = Some b)))"
  using assms
proof (induction es arbitrary: g)
  case Nil
  then show ?case by simp
next
  case (Cons e es)
  show ?case
  proof (cases "lookup_id live e")
    case None
    with Cons.IH [of g] Cons.prems show ?thesis by (simp add: link_edge_def del: not_None_eq)
  next
    case (Some q)
    let ?g = "link [] p q (\<lambda>ds. ds) g"
    have "wf_graph ?g" "contains ?g p" using Cons.prems by auto
    note ih = Cons.IH [OF this]
    have "link_edge live p e g = ?g" by (simp add: link_edge_def Some)
    moreover have "contains ?g k = contains g k" for k using Cons.prems(2) by auto
    moreover have "edge ?g a b \<noteq> None \<longleftrightarrow> edge g a b \<noteq> None \<or> a = p \<and> lookup_id live e = Some b" for a b
      using Some by auto
    ultimately show ?thesis using ih by (simp del: not_None_eq edge_link) blast
  qed
qed

lemma link_node_spec:
  assumes "wf_graph g" "contains g p"
  shows "wf_graph (link_node live (k, p, node) g) \<and> (\<forall>c. contains (link_node live (k, p, node) g) c = contains g c) \<and>
    (\<forall>a b. (edge (link_node live (k, p, node) g) a b \<noteq> None) =
       (edge g a b \<noteq> None \<or> (a, b) \<in> linked_from live [(k, p, node)]))"
proof (cases "ed_dependencies node")
  case None
  with assms show ?thesis by (simp add: link_node_def linked_from_def)
next
  case (Some es)
  with link_edges [OF assms, of live es] show ?thesis
    by (auto simp: link_node_def linked_from_def simp del: not_None_eq)
qed

lemma link_nodes_spec:
  assumes "wf_graph g" "\<forall>(k, p, node)\<in>set L. contains g p"
  shows "wf_graph (fold (link_node live) L g) \<and> (\<forall>k. contains (fold (link_node live) L g) k = contains g k) \<and>
    (\<forall>a b. (edge (fold (link_node live) L g) a b \<noteq> None) = (edge g a b \<noteq> None \<or> (a, b) \<in> linked_from live L))"
  using assms
proof (induction L arbitrary: g)
  case Nil
  then show ?case by (simp add: linked_from_def)
next
  case (Cons x L)
  obtain k p node where x: "x = (k, p, node)" by (cases x)
  have "contains g p" using Cons.prems(2) x by auto
  note g = link_node_spec [OF Cons.prems(1) this, of live k node]
  have "linked_from live (x # L) = linked_from live [x] \<union> linked_from live L"
    unfolding linked_from_def by auto
  then have L: "(a, b) \<in> linked_from live (x # L) \<longleftrightarrow> (a, b) \<in> linked_from live [x] \<or> (a, b) \<in> linked_from live L" for a b
    by simp
  have "wf_graph (link_node live x g)" "\<forall>(k, p, node)\<in>set L. contains (link_node live x g) p"
    using g Cons.prems(2) x by auto
  note ih = Cons.IH [OF this]
  show ?case unfolding fold_simps L using ih g unfolding x by (simp del: not_None_eq)
qed

lemma add_all:
  "wf_graph g \<Longrightarrow> wf_graph (fold (\<lambda>(_, p, _). add p) L g) \<and>
     (\<forall>k. contains (fold (\<lambda>(_, p, _). add p) L g) k = (contains g k \<or> (\<exists>a b. (a, k, b) \<in> set L))) \<and>
     (\<forall>a b. edge (fold (\<lambda>(_, p, _). add p) L g) a b = edge g a b)"
  by (induction L arbitrary: g) (auto split: prod.splits)

lemma lock_graph_spec:
  fixes live :: "'u live_pkgs"
  defines "g \<equiv> lock_graph live :: ('u, 'r) pkg_graph"
  shows "wf_graph g \<and> (\<forall>k. contains g k = (\<exists>a b. (a, k, b) \<in> set live)) \<and>
     (\<forall>a b. (edge g a b \<noteq> None) = ((a, b) \<in> linked_from live live))"
proof -
  let ?g = "fold (\<lambda>(_, p, _). add p) live new_graph :: ('u, 'r) pkg_graph"
  have a: "wf_graph ?g \<and> (\<forall>k. contains ?g k = (\<exists>a b. (a, k, b) \<in> set live)) \<and> (\<forall>a b. edge ?g a b = None)"
    using add_all [OF wf_new_graph, of live, where 'b = "('u source_id, 'r) dependency list"] by simp
  then have "\<forall>(k, p, node)\<in>set live. contains ?g p" by auto
  from link_nodes_spec [OF conjunct1 [OF a] this, of live] a show ?thesis
    unfolding g_def lock_graph_def by (simp del: not_None_eq)
qed


section \<open>Replacements, checksums and patches\<close>

lemma replacements_read:
  fixes path_deps :: "(string \<times> 'u source_id) list" and R :: "('u source_id, 'r) resolve" and S :: "'r semver_ops"
    and U :: "'u url_ops" and ids :: "'u source_id package_id list"
  defines "back \<equiv> read_back path_deps" and "live \<equiv> live_of S U path_deps R ids"
  assumes ids: "\<forall>p\<in>set ids. id_ok S U plain path_deps p" "inj_on (pid_key S) (set ids)"
    and "set ps \<subseteq> set ids" "distinct ps" "\<forall>p\<in>set ps. \<forall>r. replacement R p = Some r \<longrightarrow> r \<in> set ids"
  shows "\<exists>acc'. lock_replacements live (live_of S U path_deps R ps) acc = Some acc' \<and>
    (\<forall>p\<in>set ids. map_of acc' (back p) =
       (if p \<in> set ps \<and> replacement R p \<noteq> None then map_option back (replacement R p) else map_of acc (back p))) \<and>
    fst ` set acc' \<subseteq> fst ` set acc \<union> back ` set ps"
  using assms(5,6,7)
proof (induction ps arbitrary: acc)
  case Nil
  then show ?case by (simp add: live_of_def)
next
  case (Cons p ps)
  show ?case
  proof (cases "replacement R p")
    case None
    have "ed_replace (lock_node S U R p) = None" by (simp add: read_node_def None)
    then have "lock_replacements live (live_of S U path_deps R (p # ps)) acc =
        lock_replacements live (live_of S U path_deps R ps) acc"
      by (simp add: live_of_def)
    moreover from Cons.IH [of acc] Cons.prems obtain acc' where
      "lock_replacements live (live_of S U path_deps R ps) acc = Some acc'"
      "\<forall>q\<in>set ids. map_of acc' (back q) =
         (if q \<in> set ps \<and> replacement R q \<noteq> None then map_option back (replacement R q) else map_of acc (back q))"
      "fst ` set acc' \<subseteq> fst ` set acc \<union> back ` set ps"
      by auto
    ultimately show ?thesis using None by (intro exI [of _ acc']) auto
  next
    case (Some r)
    have n: "ed_replace (lock_node S U R p) = Some (read_enc (encodable_package_id S r))"
      "ed_dependencies (lock_node S U R p) = None"
      by (simp_all add: read_node_def Some)
    have "lookup_id live (read_enc (encodable_package_id S r)) = Some (back r)"
      using Cons.prems(3) Some unfolding live_def back_def by (intro live_lookup_id [OF ids(2)]) auto
    then have "lock_replacements live (live_of S U path_deps R (p # ps)) acc =
        lock_replacements live (live_of S U path_deps R ps) (AList.update (back p) (back r) acc)"
      by (simp add: n live_of_def back_def)
    moreover from Cons.IH [of "AList.update (back p) (back r) acc"] Cons.prems obtain acc' where
      "lock_replacements live (live_of S U path_deps R ps) (AList.update (back p) (back r) acc) = Some acc'"
      "\<forall>q\<in>set ids. map_of acc' (back q) =
         (if q \<in> set ps \<and> replacement R q \<noteq> None then map_option back (replacement R q)
          else map_of (AList.update (back p) (back r) acc) (back q))"
      "fst ` set acc' \<subseteq> fst ` set (AList.update (back p) (back r) acc) \<union> back ` set ps"
      by auto
    ultimately show ?thesis using Some Cons.prems read_back_inj(2) [OF ids, folded back_def] by (intro exI [of _ acc']) auto
  qed
qed

lemma alist_update_fresh: "map_of m k = None \<Longrightarrow> AList.update k v m = m @ [(k, v)]"
  by (induction m) (auto split: if_splits)

definition checksum_entry ::
    "'r semver_ops \<Rightarrow> 'u url_ops \<Rightarrow> ('u source_id, 'r) resolve \<Rightarrow> 'u source_id package_id \<Rightarrow> string \<times> string" where
  "checksum_entry S U R p = (checksum_key S U p, checksum_text (the (map_of (rs_checksums R) p)))"

lemma checksums_written:
  assumes "\<forall>p\<in>set ps. \<not> is_path (pid_source p) \<longrightarrow> map_of (rs_checksums R) p \<noteq> None"
    and "distinct (map (checksum_key S U) (filter (\<lambda>p. \<not> is_path (pid_source p)) ps))"
    and "\<forall>p\<in>set ps. \<not> is_path (pid_source p) \<longrightarrow> map_of meta (checksum_key S U p) = None"
  shows "record_checksums S U R ps meta =
    Some (meta @ map (checksum_entry S U R) (filter (\<lambda>p. \<not> is_path (pid_source p)) ps))"
  using assms
proof (induction ps arbitrary: meta)
  case Nil
  then show ?case by simp
next
  case (Cons p ps)
  show ?case
  proof (cases "is_path (pid_source p)")
    case True
    with Cons show ?thesis by simp
  next
    case False
    with Cons.prems obtain c where c: "map_of (rs_checksums R) p = Some c" by auto
    let ?m = "meta @ [(checksum_key S U p, checksum_text c)]"
    have "AList.update (checksum_key S U p) (checksum_text c) meta = ?m"
      using Cons.prems(3) False by (simp add: alist_update_fresh)
    moreover have "record_checksums S U R ps ?m =
        Some (?m @ map (checksum_entry S U R) (filter (\<lambda>p. \<not> is_path (pid_source p)) ps))"
      using Cons.prems False by (intro Cons.IH) (auto simp: map_add_def image_iff)
    ultimately show ?thesis using False c by (simp add: checksum_entry_def)
  qed
qed

lemma checksums_read:
  fixes path_deps :: "(string \<times> 'u source_id) list" and R :: "('u source_id, 'r) resolve" and S :: "'r semver_ops"
    and U :: "'u url_ops" and ids :: "'u source_id package_id list"
  defines "back \<equiv> read_back path_deps" and "live \<equiv> live_of S U path_deps R ids"
  assumes ids: "\<forall>p\<in>set ids. id_ok S U plain path_deps p" "inj_on (pid_key S) (set ids)"
    and "distinct ps" "set ps \<subseteq> set ids" "\<forall>p\<in>set ps. \<exists>c. map_of (rs_checksums R) p = Some c \<and> c \<noteq> Some ''<none>''"
  shows "\<exists>acc'. foldR (checksum_step U live) (map (checksum_entry S U R) ps) acc = Some (Inr acc') \<and>
    (\<forall>p\<in>set ids. map_of acc' (back p) = (if p \<in> set ps then map_of (rs_checksums R) p else map_of acc (back p)))"
  using assms(5,6,7)
proof (induction ps arbitrary: acc)
  case Nil
  then show ?case by simp
next
  case (Cons p ps)
  from Cons.prems(3) obtain c where c: "map_of (rs_checksums R) p = Some c" "c \<noteq> Some ''<none>''" by auto
  have p: "p \<in> set ids" using Cons.prems(2) by simp
  then have disp: "enc_from_str U (enc_display U (encodable_package_id S p)) = Some (Inr (read_enc (encodable_package_id S p)))"
    using ids(1) by (intro enc_text) blast
  have "lookup_id live (read_enc (encodable_package_id S p)) = Some (back p)"
    unfolding live_def back_def by (rule live_lookup_id [OF ids(2) p]) simp
  then have step: "checksum_step U live (checksum_entry S U R p) acc = Some (Inr (AList.update (back p) c acc))"
    using c disp by (auto simp: checksum_step_def checksum_entry_def checksum_key_def checksum_text_def split: option.splits)
  from Cons.IH [of "AList.update (back p) c acc"] Cons.prems obtain acc' where
    "foldR (checksum_step U live) (map (checksum_entry S U R) ps) (AList.update (back p) c acc) = Some (Inr acc')"
    "\<forall>q\<in>set ids. map_of acc' (back q) =
       (if q \<in> set ps then map_of (rs_checksums R) q else map_of (AList.update (back p) c acc) (back q))"
    by auto
  with step c Cons.prems read_back_inj(2) [OF ids, folded back_def] show ?case by (intro exI [of _ acc']) auto
qed

lemma patches_read:
  assumes "\<forall>p\<in>set ps. id_ok S U plain path_deps p"
  shows "foldR (patch_step S path_deps) (map (\<lambda>p. read_node (unused_patch S p)) ps) acc =
    Some (Inr (acc @ map (read_back path_deps) ps))"
  using assms
proof (induction ps arbitrary: acc)
  case (Cons p ps)
  then have ok: "id_ok S U plain path_deps p" by simp
  have "source_of path_deps (read_node (unused_patch S p)) = Some (pid_source (read_back path_deps p))"
    by (rule node_source [OF ok]) simp_all
  then have "patch_step S path_deps (read_node (unused_patch S p)) acc = Some (Inr (acc @ [read_back path_deps p]))"
    using node_id [OF ok] by (simp add: patch_step_def)
  with Cons show ?case by simp
qed simp

section \<open>The check for collisions\<close>

lemma duplicates_fold:
  "(\<exists>s'. foldE (duplicate_step enc) ps s = Inr s') \<longleftrightarrow> distinct (map enc ps) \<and> fst ` set s \<inter> enc ` set ps = {}"
proof (induction ps arbitrary: s)
  case Nil
  then show ?case by simp
next
  case (Cons p ps)
  show ?case
  proof (cases "map_of s (enc p)")
    case None
    then have "enc p \<notin> fst ` set s" by (simp add: map_of_eq_None_iff)
    with Cons.IH [of "AList.update (enc p) p s"] None show ?thesis by (auto simp: duplicate_step_def)
  next
    case (Some q)
    then have "enc p \<in> fst ` set s" by (force dest: map_of_SomeD)
    with Some show ?thesis by (auto simp: duplicate_step_def)
  qed
qed

lemma check_duplicates_iff:
  "check_duplicate_pkgs_in_lockfile enc R = Inr () \<longleftrightarrow> distinct (map enc (rs_iter R))"
  using duplicates_fold [of enc "rs_iter R" "[]"] by (simp add: check_duplicate_pkgs_in_lockfile_def)

text \<open>The check blames a package and an earlier, different one with the same encodable id.\<close>

lemma duplicates_blame:
  assumes "foldE (duplicate_step enc) ps s = Inl e" "distinct ps" "\<forall>(k, p)\<in>set s. k = enc p \<and> p \<in> A" "A \<inter> set ps = {}"
  shows "\<exists>p q. e = LockfileCollision p q \<and> p \<in> A \<union> set ps \<and> q \<in> set ps \<and> p \<noteq> q \<and> enc p = enc q"
  using assms
proof (induction ps arbitrary: s A)
  case (Cons q ps)
  show ?case
  proof (cases "map_of s (enc q)")
    case None
    then have step: "foldE (duplicate_step enc) ps (AList.update (enc q) q s) = Inl e"
      using Cons.prems(1) by (simp add: duplicate_step_def [of enc q s])
    have "\<forall>(k, p)\<in>set (AList.update (enc q) q s). k = enc p \<and> p \<in> insert q A"
      using set_alist_update_subset [of "enc q" q s] Cons.prems(3) by auto
    moreover have "insert q A \<inter> set ps = {}" using Cons.prems(2,4) by auto
    ultimately have "\<exists>p r. e = LockfileCollision p r \<and> p \<in> insert q A \<union> set ps \<and> r \<in> set ps \<and> p \<noteq> r \<and> enc p = enc r"
      using Cons.prems(2) by (intro Cons.IH [OF step]) auto
    then show ?thesis by auto
  next
    case (Some p)
    then have "p \<in> A" "enc q = enc p" using Cons.prems(3) by (auto dest!: map_of_SomeD)
    moreover have "e = LockfileCollision p q" using Some Cons.prems(1) by (simp add: duplicate_step_def)
    ultimately show ?thesis using Cons.prems(4) by auto
  qed
qed simp

lemma check_duplicate_error:
  assumes "check_duplicate_pkgs_in_lockfile enc R = Inl e" "distinct (rs_iter R)"
  shows "\<exists>p q. e = LockfileCollision p q \<and> p \<in> set (rs_iter R) \<and> q \<in> set (rs_iter R) \<and> p \<noteq> q \<and> enc p = enc q"
  using duplicates_blame [of enc "rs_iter R" "[]" e "{}"] assms
  by (auto simp: check_duplicate_pkgs_in_lockfile_def bindE_eq_Inl)

section \<open>The round trip\<close>

definition lock_ok ::
    "'r semver_ops \<Rightarrow> 'u url_ops \<Rightarrow> (string \<Rightarrow> bool) \<Rightarrow> (string \<times> 'u source_id) list \<Rightarrow> ('u source_id, 'r) resolve \<Rightarrow> bool" where
  "lock_ok S U plain path_deps R \<longleftrightarrow>
     wf_graph (rs_graph R) \<and> (\<forall>p\<in>set (rs_iter R) \<union> set (rs_unused_patches R). id_ok S U plain path_deps p) \<and>
     (\<forall>p. set (deps_not_replaced R p) \<subseteq> set (rs_iter R)) \<and>
     (\<forall>p r. replacement R p = Some r \<longrightarrow> p \<in> set (rs_iter R) \<and> r \<in> set (rs_iter R) \<and> deps_not_replaced R p = []) \<and>
     (\<forall>p\<in>set (rs_iter R). \<not> is_path (pid_source p) \<longrightarrow>
        (\<exists>c. map_of (rs_checksums R) p = Some c \<and> c \<noteq> Some ''<none>'')) \<and>
     (\<forall>(k, v)\<in>set (rs_metadata R). \<not> is_checksum_key k)"

text \<open>Two resolutions with the same content as far as a lock file holds it, where \<open>back\<close> gives the form in which
  the second one has an id of the first.\<close>

definition same_lock ::
    "('u source_id package_id \<Rightarrow> 'u source_id package_id) \<Rightarrow> ('u source_id, 'r) resolve \<Rightarrow> ('u source_id, 'r) resolve \<Rightarrow> bool" where
  "same_lock back R R' \<longleftrightarrow>
     set (rs_iter R') = back ` set (rs_iter R) \<and>
     (\<forall>p\<in>set (rs_iter R).
        set (deps_not_replaced R' (back p)) = back ` set (deps_not_replaced R p) \<and>
        replacement R' (back p) = map_option back (replacement R p) \<and>
        (\<not> is_path (pid_source p) \<longrightarrow> map_of (rs_checksums R') (back p) = map_of (rs_checksums R) p)) \<and>
     (\<forall>q r. replacement R' q = Some r \<longrightarrow> q \<in> set (rs_iter R')) \<and>
     rs_metadata R' = rs_metadata R \<and> rs_unused_patches R' = map back (rs_unused_patches R)"

lemma deps_read:
  assumes ids: "\<forall>p\<in>set ids. id_ok S U plain path_deps p" "inj_on (pid_key S) (set ids)"
    and ok: "lock_ok S U plain path_deps R" "set ids = set (rs_iter R)" and p: "p \<in> set ids"
  shows "(read_back path_deps p, q) \<in> linked_from (live_of S U path_deps R ids) (live_of S U path_deps R ids) \<longleftrightarrow>
    q \<in> read_back path_deps ` set (deps_not_replaced R p)"
proof -
  let ?live = "live_of S U path_deps R ids"
  have "(read_back path_deps p, q) \<in> linked_from ?live ?live \<longleftrightarrow>
      (\<exists>es. ed_dependencies (lock_node S U R p) = Some es \<and> (\<exists>e\<in>set es. lookup_id ?live e = Some q))"
    using p read_back_inj(2) [OF ids _ p] by (auto simp: linked_from_def live_of_def)
  also have "\<dots> \<longleftrightarrow> (\<exists>r\<in>set (deps_not_replaced R p). lookup_id ?live (read_enc (encodable_package_id S r)) = Some q)"
  proof (cases "replacement R p")
    case None
    define es where "es = sort_by (enc_cmp U) (map (encodable_package_id S) (deps_not_replaced R p))"
    have es: "set es = encodable_package_id S ` set (deps_not_replaced R p)" by (simp add: es_def)
    have "ed_dependencies (lock_node S U R p) = (case es of [] \<Rightarrow> None | _ \<Rightarrow> Some (map read_enc es))"
      by (simp add: read_node_def None es_def split: list.splits)
    then have "(\<exists>fs. ed_dependencies (lock_node S U R p) = Some fs \<and> (\<exists>e\<in>set fs. lookup_id ?live e = Some q)) \<longleftrightarrow>
        (\<exists>e\<in>set es. lookup_id ?live (read_enc e) = Some q)"
      by (cases es) auto
    then show ?thesis by (simp add: es)
  next
    case (Some r)
    then have "ed_dependencies (lock_node S U R p) = None" "deps_not_replaced R p = []"
      using ok by (auto simp: read_node_def lock_ok_def)
    then show ?thesis by simp
  qed
  also have "\<dots> \<longleftrightarrow> q \<in> read_back path_deps ` set (deps_not_replaced R p)"
  proof -
    have "lookup_id ?live (read_enc (encodable_package_id S r)) = Some (read_back path_deps r)"
      if "r \<in> set (deps_not_replaced R p)" for r
      using that ok by (intro live_lookup_id [OF ids(2)]) (auto simp: lock_ok_def)
    then show ?thesis by auto
  qed
  finally show ?thesis .
qed

lemma graph_read:
  fixes R :: "('u source_id, 'r) resolve"
  assumes ids: "\<forall>p\<in>set ids. id_ok S U plain path_deps p" "inj_on (pid_key S) (set ids)"
    and ok: "lock_ok S U plain path_deps R" "set ids = set (rs_iter R)"
  defines "g \<equiv> lock_graph (live_of S U path_deps R ids) :: ('u, 'r) pkg_graph"
  shows "set (iter g) = read_back path_deps ` set ids \<and>
    (\<forall>p\<in>set ids. fst ` set (edges g (read_back path_deps p)) = read_back path_deps ` set (deps_not_replaced R p))"
proof -
  let ?live = "live_of S U path_deps R ids"
  note spec = lock_graph_spec [of ?live, where 'r = 'r, folded g_def]
  have "(\<exists>a b. (a, k, b) \<in> set ?live) \<longleftrightarrow> k \<in> (\<lambda>x. fst (snd x)) ` set ?live" for k by force
  then have "set (iter g) = read_back path_deps ` set ids"
    using spec contains_iter [of g] by (simp add: live_of_def image_image set_eq_iff)
  moreover have "fst ` set (edges g (read_back path_deps p)) = read_back path_deps ` set (deps_not_replaced R p)"
    if "p \<in> set ids" for p
  proof (rule set_eqI)
    fix q
    have "q \<in> fst ` set (edges g (read_back path_deps p)) \<longleftrightarrow> (read_back path_deps p, q) \<in> linked_from ?live ?live"
      using spec children_edge [of g q "read_back path_deps p"] by simp
    with deps_read [OF ids ok that, of q]
    show "q \<in> fst ` set (edges g (read_back path_deps p)) \<longleftrightarrow> q \<in> read_back path_deps ` set (deps_not_replaced R p)" by simp
  qed
  ultimately show ?thesis by blast
qed

definition not_path :: "'u source_id package_id \<Rightarrow> bool" where
  "not_path p \<longleftrightarrow> \<not> is_path (pid_source p)"

lemma checksum_key_prefix: "is_checksum_key (checksum_key S U p)"
  by (simp add: is_checksum_key_def checksum_key_def starts_with_def)

lemma metadata_written:
  assumes ids: "set ids = set (rs_iter R)" "distinct ids" "inj_on (pid_key S) (set ids)"
    and ok: "lock_ok S U plain path_deps R"
  shows "record_checksums S U R ids (rs_metadata R) =
      Some (rs_metadata R @ map (checksum_entry S U R) (filter not_path ids))"
    and "filter (\<lambda>(k, _). is_checksum_key k) (rs_metadata R @ map (checksum_entry S U R) ps) = map (checksum_entry S U R) ps"
    and "filter (\<lambda>(k, _). \<not> is_checksum_key k) (rs_metadata R @ map (checksum_entry S U R) ps) = rs_metadata R"
proof -
  have meta: "\<forall>(k, v)\<in>set (rs_metadata R). \<not> is_checksum_key k" using ok by (simp add: lock_ok_def)
  have "inj_on (checksum_key S U) (set (filter not_path ids))"
  proof (rule inj_onI)
    fix p q
    assume pq: "p \<in> set (filter not_path ids)" "q \<in> set (filter not_path ids)" "checksum_key S U p = checksum_key S U q"
    then have "id_ok S U plain path_deps p" "id_ok S U plain path_deps q"
      using ok ids(1) by (auto simp: lock_ok_def not_path_def)
    with pq checksum_key_inj have "pid_key S p = pid_key S q" by blast
    with ids(3) pq show "p = q" by (auto dest: inj_onD)
  qed
  then have "distinct (map (checksum_key S U) (filter not_path ids))" using ids(2) by (simp add: distinct_map)
  moreover have "map_of (rs_metadata R) (checksum_key S U p) = None" for p
    using meta checksum_key_prefix [of S U p] by (auto simp: map_of_eq_None_iff)
  moreover have "\<forall>p\<in>set ids. \<not> is_path (pid_source p) \<longrightarrow> map_of (rs_checksums R) p \<noteq> None"
    using ok ids(1) by (auto simp: lock_ok_def)
  ultimately show "record_checksums S U R ids (rs_metadata R) =
      Some (rs_metadata R @ map (checksum_entry S U R) (filter not_path ids))"
    using checksums_written [of ids R S U "rs_metadata R"] unfolding not_path_def by blast
  show "filter (\<lambda>(k, _). is_checksum_key k) (rs_metadata R @ map (checksum_entry S U R) ps) = map (checksum_entry S U R) ps"
    "filter (\<lambda>(k, _). \<not> is_checksum_key k) (rs_metadata R @ map (checksum_entry S U R) ps) = rs_metadata R"
    using meta checksum_key_prefix [of S U]
    by (auto simp: filter_empty_conv filter_id_conv checksum_entry_def)
qed


lemma lock_ids:
  assumes ok: "lock_ok S U plain path_deps R" and dup: "check_duplicate_pkgs_in_lockfile (pid_key S) R = Inr ()"
  defines "ids \<equiv> sort_by (pid_cmp S U) (rs_iter R)"
  shows "set ids = set (rs_iter R)" "distinct ids" "inj_on (pid_key S) (set ids)" "\<forall>p\<in>set ids. id_ok S U plain path_deps p"
proof -
  show ids: "set ids = set (rs_iter R)" by (simp add: ids_def)
  have "distinct (map (pid_key S) (rs_iter R))" using dup by (simp add: check_duplicates_iff)
  then show "inj_on (pid_key S) (set ids)" and "distinct ids"
    using ids card_distinct distinct_card [of "rs_iter R"] by (auto simp: distinct_map ids_def intro!: card_distinct)
  show "\<forall>p\<in>set ids. id_ok S U plain path_deps p" using ok by (auto simp: lock_ok_def ids)
qed

text \<open>The structure the reader gets from the file.\<close>

lemma structure_read:
  assumes ok: "lock_ok S U plain path_deps R" and dup: "check_duplicate_pkgs_in_lockfile (pid_key S) R = Inr ()"
  defines "ids \<equiv> sort_by (pid_cmp S U) (rs_iter R)"
  defines "meta \<equiv> rs_metadata R @ map (checksum_entry S U R) (filter not_path ids)"
  shows "\<exists>T. write_lockfile S U R = Some T \<and> deserialize_resolve U T =
    Some (Inr \<lparr>er_package = Some (map (lock_node S U R) ids), er_root = None,
      er_metadata = (if meta = [] then None else Some meta),
      er_patch = map (\<lambda>p. read_node (unused_patch S p)) (rs_unused_patches R)\<rparr>)"
proof -
  note ids = lock_ids [OF ok dup, folded ids_def]
  let ?E = "\<lparr>er_package = Some (map (encodable_resolve_node S U R) ids), er_root = None,
      er_metadata = (if meta = [] then None else Some meta), er_patch = map (unused_patch S) (rs_unused_patches R)\<rparr>"
  have "workspace_resolve S U R = Some ?E"
    using metadata_written(1) [OF ids(1-3) ok] unfolding workspace_resolve_def Let_def ids_def [symmetric] meta_def by simp
  then have w: "write_lockfile S U R = Some (emit_lockfile U ?E)" by (simp add: write_lockfile_def)
  have "node_text_ok U (encodable_resolve_node S U R p)" if p: "p \<in> set ids" for p
  proof (rule node_written)
    show "\<forall>q\<in>set (deps_not_replaced R p) \<union> set_option (replacement R p). id_ok S U plain path_deps q"
    proof
      fix q
      assume "q \<in> set (deps_not_replaced R p) \<union> set_option (replacement R p)"
      then have "q \<in> set ids" using ok ids(1) unfolding lock_ok_def by auto
      with ids(4) show "id_ok S U plain path_deps q" by blast
    qed
  qed (use p ids(4) in blast)
  then have "collectR (deserialize_dependency U)
      (map (\<lambda>d. emit_package (serialize_dependency U d)) (map (encodable_resolve_node S U R) ids)) =
    Some (Inr (map read_node (map (encodable_resolve_node S U R) ids)))"
    by (intro nodes_read) auto
  moreover have "node_text_ok U (unused_patch S p)" if "p \<in> set (rs_unused_patches R)" for p
    using that ok patch_written unfolding lock_ok_def by blast
  then have "collectR (deserialize_dependency U)
      (map (\<lambda>d. emit_package (serialize_dependency U d)) (map (unused_patch S) (rs_unused_patches R))) =
    Some (Inr (map read_node (map (unused_patch S) (rs_unused_patches R))))"
    by (intro nodes_read) auto
  ultimately show ?thesis
    using w by (simp add: deserialize_resolve_def emit_lockfile_def optionR_def comp_def)
qed

text \<open>The resolution the reader makes of that structure.\<close>

lemma resolve_read:
  fixes R :: "('u source_id, 'r) resolve"
  assumes ok: "lock_ok S U plain path_deps R" and dup: "check_duplicate_pkgs_in_lockfile (pid_key S) R = Inr ()"
  defines "ids \<equiv> sort_by (pid_cmp S U) (rs_iter R)"
  defines "meta \<equiv> rs_metadata R @ map (checksum_entry S U R) (filter not_path ids)"
  defines "E \<equiv> \<lparr>er_package = Some (map (lock_node S U R) ids), er_root = None,
      er_metadata = (if meta = [] then None else Some meta),
      er_patch = map (\<lambda>p. read_node (unused_patch S p)) (rs_unused_patches R)\<rparr>"
  shows "\<exists>R' :: ('u source_id, 'r) resolve. into_resolve S U path_deps E = Some (Inr R') \<and> same_lock (read_back path_deps) R R'"
proof -
  define np where "np = filter not_path ids"
  let ?rb = "read_back path_deps"
  let ?live = "live_of S U path_deps R ids"
  note ids = lock_ids [OF ok dup, folded ids_def]
  note wr = metadata_written(2,3) [OF ids(1-3) ok, of np, folded meta_def np_def]
  have live: "foldR (live_step S path_deps) (all_packages E) ([], []) = Some (Inr (?live, rev (map (pid_key S) ids)))"
    using live_read [of ids S U plain path_deps "[]" "[]" R] ids by (simp add: all_packages_def E_def distinct_map)
  have m: "(case er_metadata E of Some m \<Rightarrow> m | None \<Rightarrow> []) = rs_metadata R @ map (checksum_entry S U R) np"
    by (simp add: E_def meta_def np_def)
  have "\<forall>p\<in>set ids. \<forall>r. replacement R p = Some r \<longrightarrow> r \<in> set ids" using ok ids(1) by (auto simp: lock_ok_def)
  from replacements_read [OF ids(4,3) subset_refl ids(2) this, of "[]"] obtain repl where
    repl: "lock_replacements ?live ?live [] = Some repl" "fst ` set repl \<subseteq> ?rb ` set ids"
    "\<forall>p\<in>set ids. map_of repl (?rb p) = (if replacement R p \<noteq> None then map_option ?rb (replacement R p) else None)"
    by (auto simp del: not_None_eq)
  have "distinct np" "set np \<subseteq> set ids" "\<forall>p\<in>set np. \<exists>c. map_of (rs_checksums R) p = Some c \<and> c \<noteq> Some ''<none>''"
    using ids(1,2) ok by (auto simp: np_def not_path_def lock_ok_def)
  from checksums_read [OF ids(4,3) this, of "[]"] obtain cs where
    cs: "foldR (checksum_step U ?live) (map (checksum_entry S U R) np) [] = Some (Inr cs)"
    "\<forall>p\<in>set ids. p \<in> set np \<longrightarrow> map_of cs (?rb p) = map_of (rs_checksums R) p"
    by auto
  let ?R = "new_resolve (lock_graph ?live) repl [] cs (rs_metadata R) (map ?rb (rs_unused_patches R)) :: ('u source_id, 'r) resolve"
  have "foldR (patch_step S path_deps) (er_patch E) [] = Some (Inr (map ?rb (rs_unused_patches R)))"
    using patches_read [of "rs_unused_patches R" S U plain path_deps "[]"] ok by (simp add: lock_ok_def E_def)
  then have "into_resolve S U path_deps E = Some (Inr ?R)"
    using live repl(1) cs(1) live_one_form [OF ids(4,3), of R]
    unfolding into_resolve_def by (simp only: m wr bindR_simps unwrap_simps prod.case Let_def)
  moreover have "same_lock ?rb R ?R"
  proof -
    have "map_of repl (?rb p) = map_option ?rb (replacement R p)" if "p \<in> set ids" for p
      using repl(3) that by (cases "replacement R p") auto
    with graph_read [OF ids(4,3) ok ids(1)] repl(2) cs(2) ids(1) show ?thesis
      unfolding same_lock_def
      by (auto simp: new_resolve_def deps_not_replaced_def rs_iter_def replacement_def np_def not_path_def dest!: map_of_SomeD)
  qed
  ultimately show ?thesis by blast
qed


section \<open>A lock file\<close>

definition path_id :: "string source_id" where
  "path_id = \<lparr>sid_url = ''ws'', canonical_url = ''ws'', kind = KPath, precise = None, sid_name = None\<rparr>"

definition lock_app :: "string source_id package_id" where
  "lock_app = \<lparr>pid_name = ''app'', pid_version = vers 1 0 0, pid_source = path_id\<rparr>"

definition lock_lib :: "string source_id package_id" where
  "lock_lib = pkg ''a'' (vers 1 0 0)"

definition lock_demo :: "(string source_id, (bool \<times> version) option) resolve" where
  "lock_demo =
     new_resolve (ctx_graph (new_context\<lparr>resolve_graph := [Link lock_app lock_lib example_dep, Add lock_lib]\<rparr>))
       [] [] [(lock_lib, Some ''c1'')] [(''k'', ''v'')] []"

lemma lock_demo_nodes: "nodes (rs_graph lock_demo) = [(lock_app, [(lock_lib, [example_dep])]), (lock_lib, [])]"
  by (simp add: lock_demo_def new_resolve_def ctx_graph_def graph_step_def link_def add_def edges_def new_graph_def
      lock_app_def lock_lib_def pkg_def)

lemma lock_demo_ids:
  "id_ok unary_semver plain_ops unreserved [(''app'', path_id)] lock_app"
  "id_ok unary_semver plain_ops unreserved [(''app'', path_id)] lock_lib"
proof -
  show "id_ok unary_semver plain_ops unreserved [(''app'', path_id)] lock_app"
    by (simp add: id_ok_def lock_app_def path_id_def is_path_def unary_eval splitn2_def)
  have "url_text_ok plain_ops unreserved ''x''"
    by (intro url_text_ok_plain) (simp add: unreserved_def)
  then have "source_text_ok plain_ops unreserved (git_id ''x'' ''x'')"
    by (simp add: source_text_ok_def git_id_def sid_wf_def plain_eval unreserved_def sid_git_reference_def)
  then show "id_ok unary_semver plain_ops unreserved [(''app'', path_id)] lock_lib"
    by (auto simp: id_ok_def lock_lib_def pkg_def is_path_def git_id_def unary_eval splitn2_def)
qed

lemma lock_demo_ok: "lock_ok unary_semver plain_ops unreserved [(''app'', path_id)] lock_demo"
proof -
  have ne: "lock_app \<noteq> lock_lib" by (simp add: lock_app_def lock_lib_def pkg_def)
  have it: "rs_iter lock_demo = [lock_app, lock_lib]" by (simp add: rs_iter_def iter_def lock_demo_nodes)
  have de: "deps_not_replaced lock_demo p = (if p = lock_app then [lock_lib] else [])" for p
    by (simp add: deps_not_replaced_def edges_def lock_demo_nodes)
  have re: "replacement lock_demo p = None" "rs_unused_patches lock_demo = []" "rs_metadata lock_demo = [(''k'', ''v'')]"
    "rs_checksums lock_demo = [(lock_lib, Some ''c1'')]" for p
    by (simp_all add: replacement_def lock_demo_def new_resolve_def)
  have pa: "is_path (pid_source lock_app)" by (simp add: lock_app_def path_id_def is_path_def)
  have wf: "wf_graph (rs_graph lock_demo)" using ne by (simp add: wf_graph_def lock_demo_nodes)
  have md: "\<not> is_checksum_key ''k''" by (simp add: is_checksum_key_def starts_with_def)
  show ?thesis unfolding lock_ok_def by (auto simp: it de re pa wf md lock_demo_ids split: if_splits)
qed


end
