(* ===== verification/Resolve_Top.thy ===== *)
theory Resolve_Top
  imports Resolver_Correct Cycle_Check Lockfile
begin

text \<open>
  The entry point \<open>resolve\<close> of \<open>src/cargo/core/resolver/mod.rs\<close>: search, construction of the
  \<open>Resolve\<close>, and the two checks.  The theory shows that the graph built from the log of the search
  has exactly the edges the log records, that the packages of the result are the activated ones,
  and that the checks after the search never panic, whatever the search came up with.
\<close>

section \<open>The entry point\<close>

definition activated_checksums :: "('s, 'r) res_context \<Rightarrow> ('s package_id \<times> string option) list" where
  "activated_checksums cx =
     fold (\<lambda>s. AList.update (package_id s) (checksum s)) (concat (map snd (activations cx))) []"

definition resolve_of_context :: "('s, 'r) res_context \<Rightarrow> ('s, 'r) resolve" where
  "resolve_of_context cx =
     new_resolve (ctx_graph cx) (resolve_replacements cx) (resolved_features cx) (activated_checksums cx) [] []"

text \<open>
  The result and the warnings to print, the latest one first.  The source ids of the search are taken in the form \<open>==\<close>
  compares, the kind and the url (\<open>sid_key\<close>): the search and the checks look at nothing else of them, apart from the
  order of package ids, an argument, in which the check for cycles goes through its starting points.
\<close>

definition resolve ::
    "nat \<Rightarrow> 'r semver_ops \<Rightarrow> ('u source_key package_id \<Rightarrow> 'u source_key package_id \<Rightarrow> ordering) \<Rightarrow>
       ('u source_key, 'r) queryer \<Rightarrow> (('u source_key, 'r) summary \<times> res_method) list \<Rightarrow> bool \<Rightarrow>
       (('u source_key, 'r) resolve_error, ('u source_key, 'r) resolve \<times> ('u source_key package_id \<times> string) list) run" where
  "resolve fuel S id_cmp Q summaries print_warnings =
     bindR (activate_deps_loop fuel Q summaries) (\<lambda>cx.
       let R = resolve_of_context cx in
       bindR (check_cycles S id_cmp R (activations cx)) (\<lambda>_.
         bindR (Some (check_duplicate_pkgs_in_lockfile (lock_key S) R)) (\<lambda>_.
           Some (Inr (R, if print_warnings then warnings cx else [])))))"

section \<open>The graph of a context\<close>

text \<open>The dependencies the log of the search records between two packages, the latest one first.\<close>

definition links_between :: "('s, 'r) graph_node list \<Rightarrow> 's package_id \<Rightarrow> 's package_id \<Rightarrow> ('s, 'r) dependency list" where
  "links_between log a b =
     concat (map (\<lambda>node. case node of Link p q d \<Rightarrow> if p = a \<and> q = b then [d] else [] | Add _ \<Rightarrow> []) log)"

definition log_nodes :: "('s, 'r) graph_node list \<Rightarrow> 's package_id set" where
  "log_nodes log = {p. Add p \<in> set log \<or> (\<exists>q d. Link p q d \<in> set log)}"

lemma ctx_graph_fold:
  assumes "wf_graph g"
  shows "wf_graph (fold graph_step log g) \<and>
    (\<forall>p. contains (fold graph_step log g) p = (contains g p \<or> p \<in> log_nodes log)) \<and>
    (\<forall>a b. edge (fold graph_step log g) a b =
       (if links_between log a b = [] then edge g a b
        else Some ((case edge g a b of None \<Rightarrow> [] | Some ds \<Rightarrow> ds) @ links_between log a b)))"
  using assms
proof (induction log arbitrary: g)
  case Nil
  then show ?case by (simp add: links_between_def log_nodes_def)
next
  case (Cons node log)
  show ?case
  proof (cases node)
    case (Add p)
    have "log_nodes (node # log) = insert p (log_nodes log)" "links_between (node # log) = links_between log"
      by (auto simp: log_nodes_def links_between_def Add fun_eq_iff)
    with Cons.IH [of "add p g"] Cons.prems Add show ?thesis by (auto simp: graph_step_def)
  next
    case (Link p q d)
    have "log_nodes (node # log) = insert p (log_nodes log)"
      by (auto simp: log_nodes_def Link)
    moreover have "links_between (node # log) a b = (if p = a \<and> q = b then [d] else []) @ links_between log a b" for a b
      by (simp add: links_between_def Link)
    ultimately show ?thesis
      using Cons.IH [of "link [] p q (\<lambda>ds. ds @ [d]) g"] Cons.prems Link by (auto simp: graph_step_def split: option.splits)
  qed
qed

text \<open>
  C6: the graph a context is turned into implements the log of the search: its packages are those the log
  names, and between two packages it holds exactly the dependencies the log records between them, in the order
  of the log, and no edge where there is none.
\<close>

theorem ctx_graph_refines_log:
  "wf_graph (ctx_graph cx) \<and> (\<forall>p. contains (ctx_graph cx) p \<longleftrightarrow> p \<in> log_nodes (resolve_graph cx)) \<and>
   (\<forall>a b. edge (ctx_graph cx) a b =
      (case links_between (resolve_graph cx) a b of [] \<Rightarrow> None | ds \<Rightarrow> Some ds))"
  using ctx_graph_fold [OF wf_new_graph, of "resolve_graph cx"] unfolding ctx_graph_def
  by (auto split: list.splits)

lemma ctx_graph_contains: "contains (ctx_graph cx) p \<longleftrightarrow> p \<in> log_nodes (resolve_graph cx)"
  using ctx_graph_fold [OF wf_new_graph, of "resolve_graph cx"] by (simp add: ctx_graph_def)

lemma set_links_between: "d \<in> set (links_between log a b) \<longleftrightarrow> Link a b d \<in> set log"
proof (induction log)
  case (Cons node log)
  then show ?case by (cases node) (auto simp: links_between_def)
qed (simp add: links_between_def)

lemma ctx_graph_children: "q \<in> fst ` set (edges (ctx_graph cx) p) \<Longrightarrow> \<exists>d. Link p q d \<in> set (resolve_graph cx)"
proof -
  assume "q \<in> fst ` set (edges (ctx_graph cx) p)"
  moreover note ctx_graph_fold [OF wf_new_graph, of "resolve_graph cx"]
  ultimately have "links_between (resolve_graph cx) p q \<noteq> []"
    using edge_edges [of "ctx_graph cx" p q] unfolding ctx_graph_def by fastforce
  then obtain d where "d \<in> set (links_between (resolve_graph cx) p q)" by (meson list.set_sel(1))
  then show ?thesis by (auto simp: set_links_between)
qed

section \<open>The log and the activations\<close>

definition nodes_ok :: "('s, 'r) res_context \<Rightarrow> bool" where
  "nodes_ok cx \<longleftrightarrow> (\<forall>p. Add p \<in> set (resolve_graph cx) \<longleftrightarrow> is_active cx p)"

definition links_active :: "('s, 'r) res_context \<Rightarrow> bool" where
  "links_active cx \<longleftrightarrow>
     (\<forall>p q d. Link p q d \<in> set (resolve_graph cx) \<longrightarrow> is_active cx p \<and> is_active cx q) \<and>
     (\<forall>(p, r)\<in>set (ctx_replacements cx). is_active cx p \<and> is_active cx r)"

definition graph_inv ::
    "('s, 'r) queryer \<Rightarrow> ('s, 'r) res_context \<Rightarrow> ('s, 'r) deps_frame list \<Rightarrow>
       ('s package_id \<times> ('s, 'r) dependency) option \<Rightarrow> bool" where
  "graph_inv Q cx h pend \<longleftrightarrow>
     nodes_ok cx \<and> links_active cx \<and> (\<forall>f\<in>set h. is_active cx (package_id (frame_parent f))) \<and>
     (case pend of Some (p, d) \<Rightarrow> is_active cx p | None \<Rightarrow> True)"

lemma ctx_le_active: "ctx_le cx cx' \<Longrightarrow> is_active cx p \<Longrightarrow> is_active cx' p"
  unfolding ctx_le_def is_active_active by blast

text \<open>What setting the flags of an activation does to log and replacements.\<close>

definition flag_log :: "('s, 'r) res_context \<Rightarrow> ('s, 'r) res_context \<Rightarrow> bool" where
  "flag_log cx cx' \<longleftrightarrow>
     (nodes_ok cx \<longrightarrow> nodes_ok cx') \<and> (\<forall>p q d. Link p q d \<in> set (resolve_graph cx') \<longrightarrow> Link p q d \<in> set (resolve_graph cx))"

lemma flag_activated_log:
  assumes "flag_activated s m cx = Inr (b, cx')"
  shows "flag_log cx cx' \<and> ctx_replacements cx' = ctx_replacements cx"
  using flag_activated_cases [OF assms]
proof
  assume "is_active cx (package_id s) \<and> cx' = cx"
  then show ?thesis by (simp add: flag_log_def)
next
  assume n: "\<not> b \<and> newly s cx cx'"
  then have "is_active cx' p \<longleftrightarrow> is_active cx p \<or> p = package_id s" for p
    using newly_active [of s cx cx'] by (auto simp: is_active_active)
  moreover have "resolve_graph cx' = Add (package_id s) # resolve_graph cx" "ctx_replacements cx' = ctx_replacements cx"
    using n by (auto simp: newly_def)
  ultimately show ?thesis by (auto simp: flag_log_def nodes_ok_def)
qed

lemma nodes_ok_cong:
  "activations cx' = activations cx \<Longrightarrow> resolve_graph cx' = resolve_graph cx \<Longrightarrow> nodes_ok cx' = nodes_ok cx"
  by (simp add: nodes_ok_def is_active_def)

lemma flagged_log:
  assumes "flagged cand m cx b cx'"
  shows "flag_log cx cx' \<and>
    (\<forall>(p, r)\<in>set (ctx_replacements cx'). (p, r) \<in> set (ctx_replacements cx) \<or> (is_active cx' p \<and> is_active cx' r)) \<and>
    is_active cx' (package_id (effective cand))"
proof (cases "replace cand")
  case None
  then have f: "flag_activated (cand_summary cand) m cx = Inr (b, cx')" using assms by (simp add: flagged_def)
  from flag_activated_log [OF f] flag_activated_active [OF f] None show ?thesis by (auto simp: effective_def)
next
  case (Some r)
  let ?p = "(package_id (cand_summary cand), package_id r)"
  from assms Some obtain b1 cx1 b2 where f1: "flag_activated (cand_summary cand) m cx = Inr (b1, cx1)"
    and f2: "flag_activated r m (cx1\<lparr>ctx_replacements := ?p # ctx_replacements cx1\<rparr>) = Inr (b2, cx')"
    by (auto simp: flagged_def)
  let ?cx2 = "cx1\<lparr>ctx_replacements := ?p # ctx_replacements cx1\<rparr>"
  have "flag_log cx1 ?cx2" by (simp add: flag_log_def nodes_ok_cong [of ?cx2 cx1])
  with flag_activated_log [OF f1] flag_activated_log [OF f2] have "flag_log cx cx'" by (simp add: flag_log_def)
  moreover have "is_active cx' (package_id (cand_summary cand))"
    using flagged_ctx [OF assms] by blast
  moreover have "ctx_replacements cx' = ?p # ctx_replacements cx"
    using flag_activated_log [OF f1] flag_activated_log [OF f2] by simp
  moreover have "is_active cx' (package_id r)" by (rule flag_activated_active [OF f2])
  ultimately show ?thesis using Some by (auto simp: effective_def)
qed

lemma graph_inv_activate:
  assumes inv: "graph_inv Q cx h (map_option (\<lambda>(p, d). (package_id p, d)) parent)"
    and act: "activate Q parent cand m cx cache = Some (Inr (fo, cx', cache'))"
  shows "graph_inv Q cx' ((case fo of None \<Rightarrow> [] | Some f \<Rightarrow> [f\<lparr>just_for_error_messages := b\<rparr>]) @ h) None"
proof -
  let ?pid = "package_id (cand_summary cand)"
  let ?l = "linked parent ?pid cx"
  have l: "nodes_ok ?l" "ctx_replacements ?l = ctx_replacements cx"
    "\<And>p q d. Link p q d \<in> set (resolve_graph ?l) \<Longrightarrow>
       Link p q d \<in> set (resolve_graph cx) \<or> (q = ?pid \<and> (\<exists>s. parent = Some (s, d) \<and> package_id s = p))"
    using inv by (auto simp: graph_inv_def nodes_ok_def is_active_def linked_def split: option.splits prod.splits)
  have key: "graph_inv Q cx1 h None \<and> is_active cx1 (package_id (effective cand))" if f: "flagged cand m ?l b1 cx1" for b1 cx1
  proof -
    note log = flagged_log [OF f]
    have le: "ctx_le cx cx1" using flagged_ctx [OF f] ctx_le_linked [of cx parent ?pid] ctx_le_trans by blast
    note up = ctx_le_active [OF le]
    have "is_active cx1 ?pid" using flagged_ctx [OF f] by blast
    moreover have "is_active cx (package_id s)" if "parent = Some (s, d)" for s d
      using inv that by (simp add: graph_inv_def)
    moreover have la: "links_active cx" using inv by (simp add: graph_inv_def)
    moreover have "Link p q d \<in> set (resolve_graph ?l)" if "Link p q d \<in> set (resolve_graph cx1)" for p q d
      using that log by (simp add: flag_log_def)
    ultimately have "is_active cx1 p \<and> is_active cx1 q" if "Link p q d \<in> set (resolve_graph cx1)" for p q d
      using that l(3) [of p q d] up unfolding links_active_def by metis
    moreover have "is_active cx1 p \<and> is_active cx1 r" if "(p, r) \<in> set (ctx_replacements cx1)" for p r
      using that log l(2) la up unfolding links_active_def by fastforce
    ultimately have "links_active cx1" unfolding links_active_def by blast
    with log l(1) inv up show ?thesis by (auto simp: graph_inv_def flag_log_def)
  qed
  from act show ?thesis
  proof (cases rule: activate_elim)
    case old
    then show ?thesis using key by simp
  next
    case (expanded cx1 deps)
    note k = key [OF expanded(1)]
    have same: "same_activations cx1 cx'" by (rule build_deps_same [OF expanded(2)])
    then have "is_active cx' = is_active cx1" by (auto simp: same_activations_def is_active_def fun_eq_iff)
    with k same expanded(3) show ?thesis
      by (auto simp: graph_inv_def nodes_ok_def links_active_def same_activations_def)
  qed
qed

interpretation graph_search: search_invariant graph_inv
proof unfold_locales
  fix Q :: "('s, 'r) queryer" and cx h f just parent i d cs fs h'
  assume inv: "graph_inv Q cx h None" and t: "taken f h just parent i (d, cs, fs) h'"
  from t have "f \<in> set h" "parent = frame_parent f" by (simp_all add: taken_def open_frames_def)
  moreover from t obtain rest g where "set h' = insert g rest" "frame_parent g = frame_parent f" "rest \<subseteq> set h"
    unfolding taken_def by auto
  then have "frame_parent ` set h' \<subseteq> frame_parent ` set h" using \<open>f \<in> set h\<close> by auto
  ultimately show "graph_inv Q cx h' (Some (package_id parent, d))"
    using inv unfolding graph_inv_def by fastforce
next
  fix Q :: "('s, 'r) queryer" and cx h p d cand cache fs df fo cx' cache' b
  assume "graph_inv Q cx h (Some (package_id p, d))"
    "activate Q (Some (p, d)) cand (Required False fs False df) cx cache = Some (Inr (fo, cx', cache'))"
  then show "graph_inv Q cx' ((case fo of None \<Rightarrow> [] | Some f \<Rightarrow> [f\<lparr>just_for_error_messages := b\<rparr>]) @ h) None"
    by (intro graph_inv_activate [where parent = "Some (p, d)"]) auto
qed

lemma loop_graph_ok:
  assumes loop: "activate_deps_loop n Q roots = Some (Inr cx)"
  shows "nodes_ok cx \<and> links_active cx"
proof -
  have "keeps_root graph_inv Q (\<lambda>_. True) r m" for r m
    unfolding keeps_root_def
  proof (intro allI impI; elim conjE; intro conjI TrueI)
    fix cx cache fo cx' cache' h
    assume "graph_inv Q cx h None"
      "activate Q None \<lparr>cand_summary = r, replace = None\<rparr> m cx cache = Some (Inr (fo, cx', cache'))"
    from graph_inv_activate [OF _ this(2), of h "\<exists>f. fo = Some f \<and> just_for_error_messages f"] this(1)
    show "graph_inv Q cx' ((case fo of None \<Rightarrow> [] | Some f \<Rightarrow> [f]) @ h) None"
      by (cases fo) auto
  qed
  moreover have "graph_inv Q new_context [] None"
    by (simp add: graph_inv_def nodes_ok_def links_active_def is_active_def new_context_def)
  ultimately show ?thesis
    using graph_search.activate_deps_loop_ok [OF loop, of "\<lambda>_. True"] by (auto simp: graph_inv_def)
qed

section \<open>After the search\<close>

lemma map_of_fold_update: "map_of (fold (\<lambda>(k, v). AList.update k v) ps m) k = Some v \<Longrightarrow> (k, v) \<in> set ps \<or> map_of m k = Some v"
proof (induction ps arbitrary: m)
  case (Cons p ps)
  then show ?case by (cases p) (fastforce split: if_splits)
qed simp

lemma fold_update_keys: "fst ` set (fold (\<lambda>s. AList.update (f s) (g s)) ss m) = fst ` set m \<union> f ` set ss"
  by (induction ss arbitrary: m) auto

lemma activated_summaries_keys: "fst ` set (activated_summaries acts) = package_id ` set (concat (map snd acts))"
  unfolding activated_summaries_def fold_update_keys by simp

lemma is_active_summary: "is_active cx p \<Longrightarrow> p \<in> fst ` set (activated_summaries (activations cx))"
  by (auto simp: is_active_def activated_summaries_keys list_ex_iff split: option.splits dest!: map_of_SomeD) force

lemma context_iter:
  assumes "nodes_ok cx" "links_active cx"
  shows "p \<in> set (rs_iter (resolve_of_context cx)) \<longleftrightarrow> is_active cx p"
proof -
  have "p \<in> set (rs_iter (resolve_of_context cx)) \<longleftrightarrow> p \<in> log_nodes (resolve_graph cx)"
    using contains_iter [of "ctx_graph cx" p] ctx_graph_contains [of cx p]
    by (simp add: rs_iter_def resolve_of_context_def new_resolve_def)
  with assms show ?thesis by (auto simp: log_nodes_def nodes_ok_def links_active_def)
qed

lemma context_covered:
  assumes "nodes_ok cx" "links_active cx"
  shows "summaries_cover (resolve_of_context cx) (activated_summaries (activations cx))"
proof -
  have "is_active cx q" if q: "q \<in> children (resolve_of_context cx) p" for p q
  proof -
    from q obtain dep where dep: "dep \<in> set (deps_not_replaced (resolve_of_context cx) p)"
      "q = dep \<or> replacement (resolve_of_context cx) dep = Some q"
      by (auto simp: children_def)
    from dep(1) ctx_graph_children [of dep cx p] obtain d where "Link p dep d \<in> set (resolve_graph cx)"
      by (auto simp: deps_not_replaced_def resolve_of_context_def new_resolve_def)
    moreover have "(dep, q) \<in> set (ctx_replacements cx)" if "replacement (resolve_of_context cx) dep = Some q"
      using map_of_fold_update [of "ctx_replacements cx" "[]" dep q] that
      by (simp add: replacement_def resolve_of_context_def new_resolve_def resolve_replacements_def)
    ultimately show ?thesis using dep(2) assms(2) unfolding links_active_def by blast
  qed
  then show ?thesis
    using is_active_summary context_iter [OF assms] unfolding summaries_cover_def by blast
qed

lemma context_iter_distinct: "distinct (rs_iter (resolve_of_context cx))"
  using ctx_graph_fold [OF wf_new_graph, of "resolve_graph cx"]
  by (simp add: rs_iter_def iter_def resolve_of_context_def new_resolve_def ctx_graph_def wf_graph_def)

text \<open>
  C1: once the search has succeeded, resolution comes to an end without a panic, in one of three ways:
  with a resolution whose packages are exactly the activated packages, each listed once, whose ids stay apart in a
  lock file; with an error that names a package which really depends on itself; or with an error that names two
  different activated packages a lock file could not keep apart.
\<close>

theorem resolve_after_search:
  assumes loop: "activate_deps_loop n Q roots = Some (Inr cx)"
  shows "(\<exists>R w. resolve n S id_cmp Q roots pw = Some (Inr (R, w)) \<and> (\<forall>p. p \<in> set (rs_iter R) \<longleftrightarrow> is_active cx p) \<and>
        distinct (rs_iter R) \<and> distinct (map (lock_key S) (rs_iter R))) \<or>
    (\<exists>c. resolve n S id_cmp Q roots pw = Some (Inl (CyclicPackage c)) \<and>
        (c, c) \<in> (steps S (resolve_of_context cx) (activated_summaries (activations cx)))\<^sup>+) \<or>
    (\<exists>p q. resolve n S id_cmp Q roots pw = Some (Inl (LockfileCollision p q)) \<and> p \<noteq> q \<and>
        is_active cx p \<and> is_active cx q \<and> lock_key S p = lock_key S q)"
proof -
  let ?R = "resolve_of_context cx"
  have ok: "nodes_ok cx" "links_active cx" using loop_graph_ok [OF loop] by auto
  have res: "resolve n S id_cmp Q roots pw =
      bindR (check_cycles S id_cmp ?R (activations cx)) (\<lambda>_.
        bindR (Some (check_duplicate_pkgs_in_lockfile (lock_key S) ?R)) (\<lambda>_. Some (Inr (?R, if pw then warnings cx else []))))"
    using loop by (simp add: resolve_def Let_def)
  from check_cycles_cases [OF context_covered [OF ok], of S id_cmp]
  consider "check_cycles S id_cmp ?R (activations cx) = Some (Inr ())"
    | c where "check_cycles S id_cmp ?R (activations cx) = Some (Inl (CyclicPackage c))"
        "(c, c) \<in> (steps S ?R (activated_summaries (activations cx)))\<^sup>+"
    by blast
  then show ?thesis
  proof cases
    case 1
    show ?thesis
    proof (cases "check_duplicate_pkgs_in_lockfile (lock_key S) ?R")
      case (Inr u)
      then show ?thesis
        using 1 res check_duplicates_iff [of "lock_key S" ?R] context_iter [OF ok] context_iter_distinct [of cx] by auto
    next
      case (Inl e)
      from check_duplicate_error [OF Inl context_iter_distinct] 1 res Inl context_iter [OF ok] show ?thesis by auto
    qed
  next
    case (2 c)
    then show ?thesis using res by auto
  qed
qed

section \<open>A complete run\<close>

definition top_id :: "string \<Rightarrow> kind \<Rightarrow> string source_key package_id" where
  "top_id n k = \<lparr>pid_name = n, pid_version = vers 1 0 0, pid_source = (k, ''x'')\<rparr>"

definition top_dep :: "(string source_key, (bool \<times> version) option) dependency" where
  "top_dep =
     \<lparr>dep_name = ''a'', dep_source_id = (KRegistry, ''x''), registry_id = None, dep_req = None, specified_req = False,
      dep_kind = Normal, only_match_name = False, explicit_name_in_toml = None, optional = False,
      default_features = True, dep_features = [], dep_platform = None\<rparr>"

definition top_summary :: "string source_key package_id \<Rightarrow> (string source_key, (bool \<times> version) option) dependency list \<Rightarrow>
    (string source_key, (bool \<times> version) option) summary" where
  "top_summary p ds = \<lparr>package_id = p, dependencies = ds, features = [], checksum = None, links = None,
     namespaced_features = False\<rparr>"

definition top_queryer :: "(string source_key, (bool \<times> version) option) queryer" where
  "top_queryer =
     \<lparr>reg_query = (\<lambda>d. Inr (if dep_name d = ''a'' then [top_summary (top_id ''a'' KRegistry) []] else [])),
      replacements = [], try_to_use = [], minimal_versions = False,
      version_order = (\<lambda>a b. cmp (major a) (major b)), terminal = quiet_terminal\<rparr>"

definition top_roots :: "((string source_key, (bool \<times> version) option) summary \<times> res_method) list" where
  "top_roots = [(top_summary (top_id ''app'' KPath) [top_dep], Required False [] False False)]"

definition top_context :: "(string source_key, (bool \<times> version) option) res_context" where
  "top_context = (case activate_deps_loop 10 top_queryer top_roots of Some (Inr cx) \<Rightarrow> cx | _ \<Rightarrow> new_context)"

definition top_cmp :: "string source_key package_id \<Rightarrow> string source_key package_id \<Rightarrow> ordering" where
  "top_cmp p q = cmp (pid_name p, snd (pid_source p)) (pid_name q, snd (pid_source q))"

lemma top_run:
  "activate_deps_loop 10 top_queryer top_roots = Some (Inr top_context)"
  "(case resolve 10 unary_semver top_cmp top_queryer top_roots True of Some (Inr _) \<Rightarrow> True | _ \<Rightarrow> False)"
  "is_active top_context (top_id ''a'' KRegistry)"
  by code_simp+

theorem resolve_after_search_witness:
  "\<exists>R w. resolve 10 unary_semver top_cmp top_queryer top_roots True = Some (Inr (R, w)) \<and> top_id ''a'' KRegistry \<in> set (rs_iter R)"
  using resolve_after_search [OF top_run(1), of unary_semver top_cmp True] top_run(2,3) by auto

end
