(* ===== verification/Path_Deps.thy ===== *)
theory Path_Deps
  imports Lockfile
begin

text \<open>
  The path packages a workspace knows of when it reads a lock file, \<open>build_path_deps\<close> of
  \<open>src/cargo/core/resolver/encode.rs\<close>: members first, then what their dependencies, the patches
  and the replacements of the root manifest lead to.  Loading a manifest (\<open>ws.load\<close>) is file
  input and an argument.  The recursion has no bound of its own: it ends because a source that
  was loaded is not loaded again, which needs that a manifest loaded for a path source
  belongs to that source.
\<close>

record ('u, 'r) path_workspace =
  ws_members :: "('u source_id, 'r) summary list"
  ws_root_patch :: "('u \<times> ('u source_id, 'r) dependency list) list"
  ws_root_replace :: "('u package_id_spec \<times> ('u source_id, 'r) dependency) list"
  ws_load :: "string \<Rightarrow> ('u source_id, 'r) summary option"

type_synonym 'u path_state = "(string \<times> 'u source_id) list \<times> (kind \<times> 'u) set"

text \<open>\<open>path.join("Cargo.toml")\<close>.\<close>

definition manifest_path :: "string \<Rightarrow> string" where
  "manifest_path p = p @ (if ends_with_char CHR ''/'' p then '''' else ''/'') @ ''Cargo.toml''"

text \<open>The manifest a path dependency leads to, if any.\<close>

definition load_path :: "'u url_ops \<Rightarrow> ('u, 'r) path_workspace \<Rightarrow> 'u source_id \<Rightarrow> ('u source_id, 'r) summary option" where
  "load_path U ws s =
     (case to_file_path U (sid_url s) of None \<Rightarrow> None | Some p \<Rightarrow> ws_load ws (manifest_path p))"

definition enter :: "('u source_id, 'r) summary \<Rightarrow> 'u path_state \<Rightarrow> 'u path_state" where
  "enter pk st =
     (AList.update (pid_name (package_id pk)) (pid_source (package_id pk)) (fst st),
      insert (sid_key (pid_source (package_id pk))) (snd st))"

text \<open>\<open>build_dep\<close>, with fuel for the recursion through \<open>build_pkg\<close>, which is the fold.\<close>

fun build_dep ::
    "nat \<Rightarrow> 'u url_ops \<Rightarrow> ('u, 'r) path_workspace \<Rightarrow> ('u source_id, 'r) dependency \<Rightarrow> 'u path_state \<Rightarrow> 'u path_state option" where
  "build_dep 0 U ws dep st = None"
| "build_dep (Suc n) U ws dep st =
     (let s = dep_source_id dep in
      if sid_key s \<in> snd st \<or> \<not> is_path s then Some st
      else (case load_path U ws s of
              None \<Rightarrow> Some st
            | Some pk \<Rightarrow>
                fold (\<lambda>d st. Option.bind st (\<lambda>st. build_dep n U ws d st)) (dependencies pk) (Some (enter pk st))))"

definition build_deps_of ::
    "nat \<Rightarrow> 'u url_ops \<Rightarrow> ('u, 'r) path_workspace \<Rightarrow> ('u source_id, 'r) dependency list \<Rightarrow> 'u path_state \<Rightarrow> 'u path_state option" where
  "build_deps_of n U ws ds st = fold (\<lambda>d st. Option.bind st (build_dep n U ws d)) ds (Some st)"

definition path_members :: "('u, 'r) path_workspace \<Rightarrow> ('u source_id, 'r) summary list" where
  "path_members ws = filter (\<lambda>p. is_path (pid_source (package_id p))) (ws_members ws)"

definition path_roots :: "('u, 'r) path_workspace \<Rightarrow> ('u source_id, 'r) dependency list" where
  "path_roots ws =
     concat (map dependencies (path_members ws)) @ concat (map snd (ws_root_patch ws)) @ map snd (ws_root_replace ws)"

definition build_path_state :: "nat \<Rightarrow> 'u url_ops \<Rightarrow> ('u, 'r) path_workspace \<Rightarrow> 'u path_state option" where
  "build_path_state n U ws = build_deps_of n U ws (path_roots ws) (fold enter (path_members ws) ([], {}))"

definition build_path_deps :: "nat \<Rightarrow> 'u url_ops \<Rightarrow> ('u, 'r) path_workspace \<Rightarrow> (string \<times> 'u source_id) list option" where
  "build_path_deps n U ws = map_option fst (build_path_state n U ws)"

section \<open>The recursion ends and finds everything\<close>

definition handled :: "'u url_ops \<Rightarrow> ('u, 'r) path_workspace \<Rightarrow> (kind \<times> 'u) set \<Rightarrow> ('u source_id, 'r) dependency \<Rightarrow> bool" where
  "handled U ws V d \<longleftrightarrow> (is_path (dep_source_id d) \<and> load_path U ws (dep_source_id d) \<noteq> None \<longrightarrow> sid_key (dep_source_id d) \<in> V)"

text \<open>A manifest loaded for a path source belongs to that source.\<close>

definition load_honest :: "'u url_ops \<Rightarrow> ('u, 'r) path_workspace \<Rightarrow> bool" where
  "load_honest U ws \<longleftrightarrow>
     (\<forall>s pk. is_path s \<and> load_path U ws s = Some pk \<longrightarrow> sid_key (pid_source (package_id pk)) = sid_key s)"

text \<open>The path sources that load are among \<open>F\<close>.\<close>

definition loadable :: "'u url_ops \<Rightarrow> ('u, 'r) path_workspace \<Rightarrow> (kind \<times> 'u) set \<Rightarrow> bool" where
  "loadable U ws F \<longleftrightarrow> (\<forall>s pk. is_path s \<and> load_path U ws s = Some pk \<longrightarrow> sid_key s \<in> F)"

text \<open>The sources \<open>N\<close> were gone through: the names of their packages are listed and their dependencies
  followed.\<close>

definition explored :: "'u url_ops \<Rightarrow> ('u, 'r) path_workspace \<Rightarrow> (kind \<times> 'u) set \<Rightarrow> 'u path_state \<Rightarrow> bool" where
  "explored U ws N st \<longleftrightarrow>
     (\<forall>s pk. is_path s \<and> load_path U ws s = Some pk \<and> sid_key s \<in> N \<longrightarrow>
        pid_name (package_id pk) \<in> fst ` set (fst st) \<and> (\<forall>d\<in>set (dependencies pk). handled U ws (snd st) d))"

definition path_le :: "'u path_state \<Rightarrow> 'u path_state \<Rightarrow> bool" where
  "path_le st st' \<longleftrightarrow> fst ` set (fst st) \<subseteq> fst ` set (fst st') \<and> snd st \<subseteq> snd st'"

definition builds ::
    "'u url_ops \<Rightarrow> ('u, 'r) path_workspace \<Rightarrow> ('u source_id, 'r) dependency list \<Rightarrow> 'u path_state \<Rightarrow> 'u path_state option \<Rightarrow> bool" where
  "builds U ws ds st r \<longleftrightarrow>
     (\<exists>st'. r = Some st' \<and> path_le st st' \<and> (\<forall>d\<in>set ds. handled U ws (snd st') d) \<and>
        explored U ws (snd st' - snd st) st')"

lemma path_le_trans: "path_le a b \<Longrightarrow> path_le b c \<Longrightarrow> path_le a c"
  unfolding path_le_def by blast

lemma path_le_enter: "path_le st (enter pk st)"
  by (auto simp: path_le_def enter_def)

lemma handled_mono: "handled U ws (snd st) d \<Longrightarrow> path_le st st' \<Longrightarrow> handled U ws (snd st') d"
  by (auto simp: handled_def path_le_def)

lemma explored_mono: "explored U ws N st \<Longrightarrow> path_le st st' \<Longrightarrow> explored U ws N st'"
proof -
  assume e: "explored U ws N st" and le: "path_le st st'"
  from le have "n \<in> fst ` set (fst st) \<Longrightarrow> n \<in> fst ` set (fst st')" for n unfolding path_le_def by blast
  with e handled_mono [OF _ le] show ?thesis unfolding explored_def by blast
qed

lemma explored_Un: "explored U ws N st \<Longrightarrow> explored U ws M st \<Longrightarrow> explored U ws (N \<union> M) st"
  by (auto simp: explored_def)

lemma builds_list:
  assumes "\<And>d st. d \<in> set ds \<Longrightarrow> V0 \<subseteq> snd st \<Longrightarrow> builds U ws [d] st (build_dep n U ws d st)" "V0 \<subseteq> snd st"
  shows "builds U ws ds st (build_deps_of n U ws ds st)"
  using assms
proof (induction ds arbitrary: st)
  case Nil
  then show ?case by (simp add: builds_def build_deps_of_def explored_def path_le_def)
next
  case (Cons d ds)
  from Cons.prems(1) [of d st] Cons.prems(2) obtain st1 where
    1: "build_dep n U ws d st = Some st1" "path_le st st1" "handled U ws (snd st1) d"
      "explored U ws (snd st1 - snd st) st1"
    unfolding builds_def by auto
  have "builds U ws ds st1 (build_deps_of n U ws ds st1)"
    using Cons.prems 1(2) by (intro Cons.IH) (auto simp: path_le_def)
  then obtain st2 where 2: "build_deps_of n U ws ds st1 = Some st2" "path_le st1 st2"
      "\<forall>d\<in>set ds. handled U ws (snd st2) d" "explored U ws (snd st2 - snd st1) st2"
    unfolding builds_def by auto
  have run: "build_deps_of n U ws (d # ds) st = Some st2" using 1(1) 2(1) by (simp add: build_deps_of_def)
  have "snd st2 - snd st = (snd st2 - snd st1) \<union> (snd st1 - snd st)" using 1(2) 2(2) by (auto simp: path_le_def)
  then have "explored U ws (snd st2 - snd st) st2"
    using explored_Un [OF 2(4) explored_mono [OF 1(4) 2(2)]] by simp
  with run 2(3) handled_mono [OF 1(3) 2(2)] path_le_trans [OF 1(2) 2(2)] show ?case
    unfolding builds_def by (intro exI [of _ st2]) simp
qed

lemma build_dep_ok:
  assumes honest: "load_honest U ws" and F: "finite F" "loadable U ws F"
  shows "card (F - snd st) < n \<Longrightarrow> builds U ws [dep] st (build_dep n U ws dep st)"
proof (induction n arbitrary: dep st)
  case 0
  then show ?case by simp
next
  case (Suc n)
  let ?s = "dep_source_id dep"
  show ?case
  proof (cases "sid_key ?s \<in> snd st \<or> \<not> is_path ?s \<or> load_path U ws ?s = None")
    case True
    then have "build_dep (Suc n) U ws dep st = Some st" by (auto simp: Let_def)
    moreover have "handled U ws (snd st) dep" using True by (auto simp: handled_def)
    ultimately show ?thesis
      unfolding builds_def by (intro exI [of _ st]) (simp add: path_le_def explored_def)
  next
    case False
    then obtain pk where pk: "load_path U ws ?s = Some pk" "is_path ?s" "sid_key ?s \<notin> snd st" by auto
    let ?st = "enter pk st"
    have "sid_key (pid_source (package_id pk)) = sid_key ?s" using honest pk by (auto simp: load_honest_def)
    then have V: "snd ?st = insert (sid_key ?s) (snd st)" by (simp add: enter_def)
    have "sid_key ?s \<in> F" using F(2) pk by (auto simp: loadable_def)
    then have less: "card (F - snd ?st) < card (F - snd st)"
      unfolding V using pk(3) F(1) by (intro psubset_card_mono) auto
    have "builds U ws [d] st' (build_dep n U ws d st')" if "snd ?st \<subseteq> snd st'" for d st'
    proof (rule Suc.IH)
      have "card (F - snd st') \<le> card (F - snd ?st)" using that F(1) by (intro card_mono) auto
      then show "card (F - snd st') < n" using less Suc.prems by simp
    qed
    then have "builds U ws (dependencies pk) ?st (build_deps_of n U ws (dependencies pk) ?st)"
      by (intro builds_list [where ?V0.0 = "snd ?st"]) auto
    then obtain st' where st': "build_deps_of n U ws (dependencies pk) ?st = Some st'" "path_le ?st st'"
      "\<forall>d\<in>set (dependencies pk). handled U ws (snd st') d" "explored U ws (snd st' - snd ?st) st'"
      unfolding builds_def by blast
    have in_V: "sid_key ?s \<in> snd st'" using st'(2) V by (auto simp: path_le_def)
    have name: "pid_name (package_id pk) \<in> fst ` set (fst st')" using st'(2) by (auto simp: path_le_def enter_def)
    have "pk' = pk" if "is_path t" "load_path U ws t = Some pk'" "sid_key t = sid_key ?s" for t pk'
      using that pk by (auto simp: sid_key_def is_path_def load_path_def)
    then have "explored U ws {sid_key ?s} st'" using st'(3) name unfolding explored_def by blast
    moreover have "snd st' - snd st = (snd st' - snd ?st) \<union> {sid_key ?s}" using in_V pk(3) V by auto
    ultimately have "explored U ws (snd st' - snd st) st'" using explored_Un [OF st'(4)] by metis
    moreover have "build_dep (Suc n) U ws dep st = Some st'" using pk st'(1) by (simp add: build_deps_of_def)
    ultimately show ?thesis
      using in_V path_le_trans [OF path_le_enter st'(2)] unfolding builds_def
      by (intro exI [of _ st']) (simp add: handled_def)
  qed
qed

lemma enter_members:
  "fst ` set (fst (fold enter ms st)) = fst ` set (fst st) \<union> (\<lambda>m. pid_name (package_id m)) ` set ms \<and>
   snd (fold enter ms st) = snd st \<union> (\<lambda>m. sid_key (pid_source (package_id m))) ` set ms"
  by (induction ms arbitrary: st) (auto simp: enter_def)

text \<open>
  C12: where only finitely many path sources load and each loads its own package, collecting the path
  packages of a workspace ends after at most one level of recursion per source.  Its result names every path
  member and every package found on the way, and nothing was left out: the path
  dependencies of members, of patches and replacements and of every package found lead to sources that were
  visited.
\<close>

theorem build_path_deps_complete:
  assumes "load_honest U ws" "finite F" "loadable U ws F"
  shows "\<exists>ret V. build_path_state (Suc (card F)) U ws = Some (ret, V) \<and> build_path_deps (Suc (card F)) U ws = Some ret \<and>
    (\<forall>m\<in>set (path_members ws). pid_name (package_id m) \<in> fst ` set ret) \<and>
    (\<forall>d\<in>set (path_roots ws). handled U ws V d) \<and>
    explored U ws (V - (\<lambda>m. sid_key (pid_source (package_id m))) ` set (path_members ws)) (ret, V)"
proof -
  let ?st = "fold enter (path_members ws) ([], {})"
  have "builds U ws (path_roots ws) ?st (build_deps_of (Suc (card F)) U ws (path_roots ws) ?st)"
  proof (rule builds_list [where ?V0.0 = "{}"])
    fix d and st :: "'a path_state"
    have "card (F - snd st) \<le> card F" using assms(2) by (intro card_mono) auto
    then show "builds U ws [d] st (build_dep (Suc (card F)) U ws d st)" by (intro build_dep_ok [OF assms]) simp
  qed simp
  then obtain ret V where st: "build_path_state (Suc (card F)) U ws = Some (ret, V)" "path_le ?st (ret, V)"
    "\<forall>d\<in>set (path_roots ws). handled U ws V d" "explored U ws (V - snd ?st) (ret, V)"
    unfolding builds_def build_path_state_def by auto
  then show ?thesis
    using enter_members [of "path_members ws" "([], {})"] by (auto simp: build_path_deps_def path_le_def)
qed

section \<open>A workspace\<close>

text \<open>A member with a path dependency on the directory \<open>lib\<close>, the only one with a manifest.\<close>

definition lib_path :: "string source_id" where
  "lib_path = path_id\<lparr>sid_url := ''lib'', canonical_url := ''lib''\<rparr>"

definition demo_member :: "(string source_id, (bool \<times> version) option) summary" where
  "demo_member = \<lparr>package_id = lock_app, dependencies = [example_dep\<lparr>dep_source_id := lib_path\<rparr>],
     features = [], checksum = None, links = None, namespaced_features = False\<rparr>"

definition demo_path_lib :: "(string source_id, (bool \<times> version) option) summary" where
  "demo_path_lib = \<lparr>package_id = lock_app\<lparr>pid_name := ''lib'', pid_source := lib_path\<rparr>, dependencies = [],
     features = [], checksum = None, links = None, namespaced_features = False\<rparr>"

definition demo_urls :: "string url_ops" where
  "demo_urls = plain_ops\<lparr>to_file_path := (\<lambda>u. if u = ''lib'' then Some ''lib'' else None)\<rparr>"

definition demo_ws :: "(string, (bool \<times> version) option) path_workspace" where
  "demo_ws = \<lparr>ws_members = [demo_member], ws_root_patch = [], ws_root_replace = [],
     ws_load = (\<lambda>p. if p = ''lib/Cargo.toml'' then Some demo_path_lib else None)\<rparr>"

theorem build_path_deps_complete_witness:
  "\<exists>ret V. build_path_state 2 demo_urls demo_ws = Some (ret, V) \<and> ''app'' \<in> fst ` set ret \<and> (KPath, ''lib'') \<in> V"
proof -
  have load: "load_path demo_urls demo_ws s = (if sid_url s = ''lib'' then Some demo_path_lib else None)" for s
    by (simp add: load_path_def demo_urls_def demo_ws_def manifest_path_def ends_with_char_def)
  have key: "sid_key s = (KPath, sid_url s)" if "is_path s" for s :: "string source_id"
    using that by (simp add: sid_key_def is_path_def)
  have p: "is_path lib_path" "sid_url lib_path = ''lib''" by (simp_all add: lib_path_def path_id_def is_path_def)
  have 1: "load_honest demo_urls demo_ws"
    using p by (auto simp: load_honest_def load demo_path_lib_def key split: if_splits)
  have 2: "loadable demo_urls demo_ws {(KPath, ''lib'')}" by (auto simp: loadable_def load key split: if_splits)
  have "path_members demo_ws = [demo_member]"
    by (simp add: path_members_def demo_ws_def demo_member_def lock_app_def path_id_def is_path_def)
  then have 3: "demo_member \<in> set (path_members demo_ws)" "example_dep\<lparr>dep_source_id := lib_path\<rparr> \<in> set (path_roots demo_ws)"
    by (simp_all add: path_roots_def demo_member_def)
  from build_path_deps_complete [OF 1 _ 2] obtain ret V where
    st: "build_path_state 2 demo_urls demo_ws = Some (ret, V)"
      "\<forall>m\<in>set (path_members demo_ws). pid_name (package_id m) \<in> fst ` set ret"
      "\<forall>d\<in>set (path_roots demo_ws). handled demo_urls demo_ws V d"
    by (auto simp: numeral_2_eq_2)
  have "handled demo_urls demo_ws V (example_dep\<lparr>dep_source_id := lib_path\<rparr>)" using st(3) 3(2) by blast
  then have "(KPath, ''lib'') \<in> V" using p by (simp add: handled_def load key)
  moreover have "''app'' \<in> fst ` set ret" using bspec [OF st(2) 3(1)] by (simp add: demo_member_def lock_app_def)
  ultimately show ?thesis using st(1) by blast
qed

end
