(* ===== verification/Resolver_Terminates.thy ===== *)
theory Resolver_Terminates
  imports Resolver_Correct
begin

text \<open>
  The search of the resolver ends.  In a build without debug assertions, for a registry with finitely many packages,
  no replacements, no namespaced features and no empty feature name in a request, every run of the main loop returns: each
  activation either takes an open dependency away or settles a package or a feature that was not settled before, and
  going back uses up a candidate.  The restriction on feature names is needed: a package that depends on itself
  and requests its empty feature is activated for ever.
\<close>

section \<open>Registries with finitely many packages\<close>

definition crate_features :: "feature_value list \<Rightarrow> string set" where
  "crate_features vs = {g. \<exists>c. CrateFeature c g \<in> set vs}"

definition closed_registry :: "('s, 'r) queryer \<Rightarrow> ('s, 'r) summary set \<Rightarrow> string set \<Rightarrow> bool" where
  "closed_registry Q U F \<longleftrightarrow>
     replacements Q = [] \<and> finite U \<and> finite F \<and> [] \<notin> F \<and>
     (\<forall>s\<in>U. features_wf s \<and> (\<forall>f vs. map_of (features s) f = Some vs \<longrightarrow> crate_features vs \<subseteq> F) \<and>
       (\<forall>d\<in>set (dependencies s). set (dep_features d) \<subseteq> F \<and> (\<forall>ss. reg_query Q d = Inr ss \<longrightarrow> set ss \<subseteq> U)))"

definition request_in :: "string set \<Rightarrow> ('s, 'r) summary \<Rightarrow> res_method \<Rightarrow> bool" where
  "request_in F s m \<longleftrightarrow> (case m of Everything \<Rightarrow> True | Required _ fs _ _ \<Rightarrow> crate_features (map (\<lambda>f. new_feature_value f s) fs) \<subseteq> F)"

section \<open>The features that are passed on\<close>

definition entries_in :: "string set \<Rightarrow> requirements \<Rightarrow> bool" where
  "entries_in F r \<longleftrightarrow> (\<forall>p. set (snd (dep_entry p r)) \<subseteq> F)"

lemma entries_in_dependency: "entries_in F r \<Longrightarrow> entries_in F (require_dependency p r)"
  by (auto simp: entries_in_def require_dependency_def seen_def dep_entry_def split: option.splits)

lemma entries_in_crate_feature: "entries_in F r \<Longrightarrow> f \<in> F \<Longrightarrow> entries_in F (require_crate_feature p f r)"
  by (auto simp: entries_in_def require_crate_feature_def dep_entry_def Let_def split: option.splits)

lemma entries_in_same: "req_deps r' = req_deps r \<Longrightarrow> entries_in F r' = entries_in F r"
  by (simp add: entries_in_def dep_entry_def)

lemma seen_req_deps: "seen f r = (b, r') \<Longrightarrow> req_deps r' = req_deps r"
  by (auto simp: seen_def split: if_splits)

lemma require_entries:
  "require_feature n fm feat r = Some (Inr r') \<Longrightarrow> entries_in F r \<Longrightarrow> (\<forall>f vs. map_of fm f = Some vs \<longrightarrow> crate_features vs \<subseteq> F) \<Longrightarrow>
     entries_in F r'"
  "require_values n fm feat fvs r = Some (Inr r') \<Longrightarrow> entries_in F r \<Longrightarrow> (\<forall>f vs. map_of fm f = Some vs \<longrightarrow> crate_features vs \<subseteq> F) \<Longrightarrow>
     crate_features fvs \<subseteq> F \<Longrightarrow> entries_in F r'"
  "require_value n fm fv r = Some (Inr r') \<Longrightarrow> entries_in F r \<Longrightarrow> (\<forall>f vs. map_of fm f = Some vs \<longrightarrow> crate_features vs \<subseteq> F) \<Longrightarrow>
     crate_features [fv] \<subseteq> F \<Longrightarrow> entries_in F r'"
proof (induction n fm feat r and n fm feat fvs r and n fm fv r arbitrary: r' and r' and r'
    rule: require_feature_require_values_require_value.induct)
  case (2 n fm feat r)
  show ?case
  proof (cases "feat = []")
    case False
    obtain b r1 where s: "seen feat r = (b, r1)" by (cases "seen feat r")
    then have r1: "entries_in F r1" using "2.prems"(2) entries_in_same [OF seen_req_deps [OF s]] by blast
    show ?thesis
    proof (cases b)
      case True
      with "2.prems" False s r1 show ?thesis by simp
    next
      case no: False
      then obtain vs where vs: "map_of fm feat = Some vs" "require_values n fm feat vs r1 = Some (Inr r')"
        using "2.prems"(1) False s by (auto split: option.splits)
      from "2.IH" [OF False s [symmetric] _ vs(1,2) r1 "2.prems"(3)] no vs "2.prems"(3) show ?thesis by auto
    qed
  qed (use "2.prems" in simp)
next
  case (4 n fm feat fv fvs r)
  then obtain r1 where ne: "fv \<noteq> Feature feat" and v: "require_value n fm fv r = Some (Inr r1)"
    and rest: "require_values n fm feat fvs r1 = Some (Inr r')"
    by (auto split: if_splits option.splits sum.splits)
  have "crate_features [fv] \<subseteq> F" "crate_features fvs \<subseteq> F" using "4.prems"(4) by (auto simp: crate_features_def)
  with "4.IH"(2) [OF ne v refl rest "4.IH"(1) [OF ne v]] "4.prems" show ?case by blast
qed (auto simp: entries_in_dependency entries_in_crate_feature crate_features_def)

lemma build_requirements_entries:
  assumes fm: "\<forall>f vs. map_of (features s) f = Some vs \<longrightarrow> crate_features vs \<subseteq> F"
    and m: "request_in F s m" and r: "build_requirements s m = Some (Inr r)"
  shows "entries_in F r"
proof -
  let ?n = "Suc (length (features s))"
  have new: "entries_in F new_requirements" by (simp add: entries_in_def new_requirements_def dep_entry_def)
  have deps: "entries_in F r0 \<Longrightarrow> entries_in F (fold (\<lambda>d. require_dependency (h d)) ds r0)" for r0 ds and h :: "'c \<Rightarrow> string"
    by (induction ds arbitrary: r0) (auto simp: entries_in_dependency)
  have all: "foldR (require_feature ?n (features s)) fs r0 = Some (Inr r1) \<Longrightarrow> entries_in F r0 \<Longrightarrow> entries_in F r1" for fs r0 r1
    by (erule foldR_invariant) (blast intro: require_entries(1) [OF _ _ fm])+
  have some: "foldR (\<lambda>f. require_value ?n (features s) (new_feature_value f s)) fs r0 = Some (Inr r1) \<Longrightarrow> entries_in F r0 \<Longrightarrow>
      crate_features (map (\<lambda>f. new_feature_value f s) fs) \<subseteq> F \<Longrightarrow> entries_in F r1" for fs r0 r1
  proof (erule foldR_invariant)
    fix x a b
    assume *: "crate_features (map (\<lambda>f. new_feature_value f s) fs) \<subseteq> F" "x \<in> set fs" "entries_in F a"
      "require_value ?n (features s) (new_feature_value x s) a = Some (Inr b)"
    then have "crate_features [new_feature_value x s] \<subseteq> F" by (auto simp: crate_features_def)
    with require_entries(3) [OF *(4,3) fm] show "entries_in F b" .
  qed
  from r obtain r1 where r1: "requested s m new_requirements = Some (Inr r1)"
    and r2: "r = r1 \<or> require_feature ?n (features s) ''default'' r1 = Some (Inr r)"
    by (auto simp: build_requirements_def Let_def split: if_splits)
  have "entries_in F r1"
    using r1 m new by (cases m) (auto simp: requested_def Let_def request_in_def split: if_splits intro: all some deps)
  with r2 show ?thesis using require_entries(1) fm by blast
qed

section \<open>One activation\<close>

definition info_in :: "('s, 'r) summary set \<Rightarrow> string set \<Rightarrow> ('s, 'r) dependency \<times> string list \<Rightarrow> bool" where
  "info_in U F i \<longleftrightarrow> (case i of (d, fs) \<Rightarrow> (\<exists>s\<in>U. d \<in> set (dependencies s)) \<and> set fs \<subseteq> F \<and> (\<forall>f\<in>set fs. CHR ''/'' \<notin> set f))"

definition resolved_of :: "('s, 'r) res_context \<Rightarrow> 's package_id \<Rightarrow> string set" where
  "resolved_of cx p = (case map_of (resolved_features cx) p of Some fs \<Rightarrow> fs | None \<Rightarrow> {})"

lemma collect_dep_info:
  assumes "collect_dep s reqs d (cx, u, ret) = Inr (cx', u', ret')" "entries_in F reqs" "set (dep_features d) \<subseteq> F"
    "s \<in> U" "d \<in> set (dependencies s)" "\<forall>i\<in>set ret. info_in U F i"
  shows "(\<forall>i\<in>set ret'. info_in U F i) \<and> length ret' \<le> Suc (length ret) \<and> resolved_features cx' = resolved_features cx"
proof -
  let ?fs = "snd (dep_entry (name_in_toml d) reqs) @ dep_features d"
  from assms(1) have "ret' = ret \<or> ret' = ret @ [(d, ?fs)] \<and> find (\<lambda>f. CHR ''/'' \<in> set f) ?fs = None"
    and "resolved_features cx' = resolved_features cx"
    by (auto simp: collect_dep_def Let_def split: if_splits option.splits)
  moreover have "set ?fs \<subseteq> F" using assms(2,3) by (simp add: entries_in_def)
  moreover have "info_in U F (d, ?fs)" if "find (\<lambda>f. CHR ''/'' \<in> set f) ?fs = None"
    using that assms(4,5) \<open>set ?fs \<subseteq> F\<close> unfolding info_in_def by (auto simp: find_None_iff)
  ultimately show ?thesis using assms(6) by auto
qed

lemma collect_deps_info:
  assumes "foldE (collect_dep s reqs) ds (cx, u, ret) = Inr (cx', u', ret')" "entries_in F reqs" "s \<in> U"
    "\<forall>d\<in>set ds. d \<in> set (dependencies s) \<and> set (dep_features d) \<subseteq> F" "\<forall>i\<in>set ret. info_in U F i"
  shows "(\<forall>i\<in>set ret'. info_in U F i) \<and> length ret' \<le> length ret + length ds \<and> resolved_features cx' = resolved_features cx"
  using assms
proof (induction ds arbitrary: cx u ret)
  case Nil
  then show ?case by simp
next
  case (Cons d ds)
  from Cons.prems(1) obtain cx1 u1 ret1 where step: "collect_dep s reqs d (cx, u, ret) = Inr (cx1, u1, ret1)"
    and rest: "foldE (collect_dep s reqs) ds (cx1, u1, ret1) = Inr (cx', u', ret')" by auto
  have 1: "(\<forall>i\<in>set ret1. info_in U F i) \<and> length ret1 \<le> Suc (length ret) \<and> resolved_features cx1 = resolved_features cx"
    by (rule collect_dep_info [OF step Cons.prems(2)]) (use Cons.prems in auto)
  from Cons.IH [OF rest Cons.prems(2,3)] 1 Cons.prems(4) show ?case by auto
qed

text \<open>What a request that succeeded has settled: every requested feature, and the default feature.\<close>

definition settled :: "('s, 'r) summary \<Rightarrow> string list \<Rightarrow> bool \<Rightarrow> string set \<Rightarrow> bool" where
  "settled s fs df R \<longleftrightarrow> set fs \<subseteq> R \<and> (df \<and> map_of (features s) ''default'' \<noteq> None \<longrightarrow> ''default'' \<in> R)"

lemma satisfied_used: "closed_upto fm {} r \<Longrightarrow> satisfied r (Feature f) \<or> satisfied r (Crate f) \<Longrightarrow> f \<noteq> [] \<Longrightarrow> f \<in> used r"
  by (auto simp: closed_upto_def dep_entry_def in_keys_iff split: option.splits)

lemma build_requirements_used:
  assumes wf: "features_wf s" and b: "build_requirements s (Required dd fs False df) = Some (Inr r)"
    and fs: "\<forall>f\<in>set fs. f \<noteq> [] \<and> CHR ''/'' \<notin> set f"
  shows "settled s fs df (used r)"
proof -
  from build_requirements_ok [OF wf, of "Required dd fs False df"] b
  have cl: "closed_upto (features s) {} r" and met: "request_met s (Required dd fs False df) r"
    and df: "df \<and> map_of (features s) ''default'' \<noteq> None \<longrightarrow> satisfied r (Feature ''default'')" by auto
  have "f \<in> used r" if "f \<in> set fs" for f
  proof (rule satisfied_used [OF cl])
    have "new_feature_value f s = Feature f \<or> new_feature_value f s = Crate f"
      using fs that wf by (auto simp: new_feature_value_def build_value_def features_wf_def splitn2_plain)
    then show "satisfied r (Feature f) \<or> satisfied r (Crate f)" using met that by (auto simp: request_met_def)
    show "f \<noteq> []" using fs that by simp
  qed
  with df satisfied_used [OF cl, of "''default''"] show ?thesis by (auto simp: settled_def)
qed

lemma resolve_features_info:
  assumes c: "closed_registry Q U F" and s: "s \<in> U" and m: "request_in F s m"
    and r: "resolve_features parent s m cx = Some (Inr (ret, cx'))"
  shows "(\<forall>i\<in>set ret. info_in U F i) \<and> length ret \<le> length (dependencies s) \<and>
    (\<forall>p. resolved_of cx p \<subseteq> resolved_of cx' p) \<and>
    (\<forall>dd fs df. m = Required dd fs False df \<and> (\<forall>f\<in>set fs. f \<noteq> [] \<and> CHR ''/'' \<notin> set f) \<longrightarrow>
       settled s fs df (resolved_of cx' (package_id s)))"
proof -
  let ?ds = "filter (\<lambda>d. is_transitive d \<or> dev_deps m) (dependencies s)"
  from r obtain reqs cx1 u where reqs: "build_requirements s m = Some (Inr reqs)"
    and f: "foldE (collect_dep s reqs) ?ds (cx, {}, []) = Inr (cx1, u, ret)"
    and cx': "cx' = (if used reqs = {} then cx1 else cx1\<lparr>resolved_features :=
       AList.update (package_id s) (resolved_of cx1 (package_id s) \<union> used reqs) (resolved_features cx1)\<rparr>)"
    by (cases "build_requirements s m")
      (auto simp: resolve_features_def Let_def resolved_of_def [symmetric] split: sum.splits if_splits)
  have wf: "features_wf s" "\<forall>f vs. map_of (features s) f = Some vs \<longrightarrow> crate_features vs \<subseteq> F"
    "\<forall>d\<in>set ?ds. d \<in> set (dependencies s) \<and> set (dep_features d) \<subseteq> F"
    using c s by (auto simp: closed_registry_def)
  note ent = build_requirements_entries [OF wf(2) m reqs]
  have 1: "(\<forall>i\<in>set ret. info_in U F i) \<and> length ret \<le> length ?ds \<and> resolved_features cx1 = resolved_features cx"
    using collect_deps_info [OF f ent s wf(3)] by simp
  have 2: "resolved_of cx p \<subseteq> resolved_of cx' p" "used reqs \<subseteq> resolved_of cx' (package_id s)" for p
    using 1 by (auto simp: cx' resolved_of_def update_conv')
  have 3: "settled s fs df (resolved_of cx' (package_id s))"
    if "m = Required dd fs False df" "\<forall>f\<in>set fs. f \<noteq> [] \<and> CHR ''/'' \<notin> set f" for dd fs df
    using build_requirements_used [OF wf(1) reqs [unfolded that(1)] that(2)] 2(2) unfolding settled_def by blast
  show ?thesis
    using 1 2(1) 3 by (auto intro: order_trans [OF _ length_filter_le])
qed

text \<open>The packages that are active and the features that are resolved, among finitely many.\<close>

definition points :: "('s, 'r) summary set \<Rightarrow> string set \<Rightarrow> ('s package_id \<times> string option) set" where
  "points U F = package_id ` U \<times> insert None (Some ` insert ''default'' F)"

definition reached :: "('s, 'r) summary set \<Rightarrow> string set \<Rightarrow> ('s, 'r) res_context \<Rightarrow> ('s package_id \<times> string option) set" where
  "reached U F cx = {(p, o_f). (p, o_f) \<in> points U F \<and> (case o_f of None \<Rightarrow> is_active cx p | Some f \<Rightarrow> f \<in> resolved_of cx p)}"

lemma reached_mono:
  assumes "\<And>p. is_active cx p \<Longrightarrow> is_active cx' p" "\<And>p. resolved_of cx p \<subseteq> resolved_of cx' p"
  shows "reached U F cx \<subseteq> reached U F cx'"
  using assms by (auto simp: reached_def split: option.splits)

lemma flag_activated_mono:
  assumes "flag_activated s m cx = Inr (b, cx')"
  shows "is_active cx p \<Longrightarrow> is_active cx' p" "resolved_of cx' p = resolved_of cx p" "is_active cx' (package_id s)"
proof -
  from assms have rf: "resolved_features cx' = resolved_features cx"
    by (auto simp: flag_activated_def Let_def split: if_splits option.splits res_method.splits)
  show "is_active cx p \<Longrightarrow> is_active cx' p" "is_active cx' (package_id s)"
    using flag_activated_cases [OF assms] newly_active [of s cx cx'] by (auto simp: is_active_active)
  show "resolved_of cx' p = resolved_of cx p" using rf by (simp add: resolved_of_def)
qed

lemma flag_activated_not_settled:
  assumes "flag_activated s (Required dd fs False df) cx = Inr (False, cx')" "is_active cx (package_id s)"
  shows "\<not> settled s fs df (resolved_of cx (package_id s))"
proof -
  have "list_ex (\<lambda>c. summary_eq c s) (active_list cx (activation_key (package_id s)))"
    using assms(2) by (auto simp: is_active_iff list_ex_iff summary_eq_def)
  with assms(1) show ?thesis
    by (auto simp: flag_activated_def Let_def settled_def resolved_of_def list_all_iff split: option.splits)
qed

lemma active_same: "same_activations cx cx' \<Longrightarrow> is_active cx' p = is_active cx p"
  by (simp add: same_activations_def is_active_def)

lemma query_deps_length: "query_deps Q ds cache = Some (Inr (infos, cache')) \<Longrightarrow> map (\<lambda>(d, _, fs). (d, fs)) infos = ds"
proof (induction Q ds cache arbitrary: infos cache' rule: query_deps.induct)
  case (2 Q dep fs ds cache)
  then show ?case by fastforce
qed simp

lemma build_deps_info:
  assumes c: "closed_registry Q U F" and s: "s \<in> U" and m: "request_in F s m"
    and b: "build_deps Q parent s m cx cache = Some (Inr (infos, cx', cache'))"
  shows "(\<forall>(d, cs, fs)\<in>set infos. info_in U F (d, fs)) \<and> length infos \<le> length (dependencies s) \<and>
    same_activations cx cx' \<and> (\<forall>p. resolved_of cx p \<subseteq> resolved_of cx' p) \<and>
    (\<forall>dd fs df. m = Required dd fs False df \<and> (\<forall>f\<in>set fs. f \<noteq> [] \<and> CHR ''/'' \<notin> set f) \<longrightarrow>
       settled s fs df (resolved_of cx' (package_id s)))"
proof -
  from b obtain ds infs where rf: "resolve_features parent s m cx = Some (Inr (ds, cx'))"
    and q: "query_deps Q ds cache = Some (Inr (infs, cache'))" and infos: "infos = sort_key (\<lambda>(_, a, _). length a) infs"
    by (auto simp: build_deps_def split: option.splits sum.splits prod.splits)
  note r = resolve_features_info [OF c s m rf]
  note ds = query_deps_length [OF q, symmetric]
  have "length infos \<le> length (dependencies s)" using r ds by (simp add: infos)
  moreover have "\<forall>(d, cs, fs)\<in>set infos. info_in U F (d, fs)" using r ds by (auto simp: infos)
  ultimately show ?thesis using r resolve_features_same [OF rf] by blast
qed

lemma activate_plain:
  assumes "replace cand = None"
  shows "activate Q parent cand m cx cache =
    (case flag_activated (cand_summary cand) m (linked parent (package_id (cand_summary cand)) cx) of
       Inl e \<Rightarrow> Some (Inl (Fatal e, linked parent (package_id (cand_summary cand)) cx, cache))
     | Inr (True, cx1) \<Rightarrow> Some (Inr (None, cx1, cache))
     | Inr (False, cx1) \<Rightarrow>
         (case build_deps Q (map_option fst parent) (cand_summary cand) m cx1 cache of
            None \<Rightarrow> None
          | Some (Inl e) \<Rightarrow> Some (Inl e)
          | Some (Inr (deps, cx2, cache2)) \<Rightarrow>
              Some (Inr (Some \<lparr>frame_parent = cand_summary cand, just_for_error_messages = False,
                               remaining_siblings = new_iter deps\<rparr>, cx2, cache2))))"
  using assms by (auto simp: activate_def Let_def linked_def split: sum.splits option.splits prod.splits bool.splits)

lemma resolved_linked [simp]: "resolved_of (linked p i cx) q = resolved_of cx q"
  by (simp add: resolved_of_def linked_def split: option.splits prod.splits)

lemma activate_progress:
  assumes c: "closed_registry Q U F" and s: "cand_summary cand \<in> U" "replace cand = None"
    and fs: "set fs \<subseteq> F" "\<forall>f\<in>set fs. CHR ''/'' \<notin> set f" and m: "m = Required False fs False df"
    and a: "activate Q parent cand m cx cache = Some (Inr (fo, cx', cache'))"
  shows "case fo of None \<Rightarrow> reached U F cx \<subseteq> reached U F cx'
    | Some f \<Rightarrow> reached U F cx \<subset> reached U F cx' \<and> length (ahead (remaining_siblings f)) \<le> length (dependencies (cand_summary cand)) \<and>
        (\<forall>(d, cs, fs)\<in>set (ahead (remaining_siblings f)). info_in U F (d, fs))"
proof -
  let ?s = "cand_summary cand" let ?l = "linked parent (package_id ?s) cx"
  from a s(2) obtain b cx1 where f: "flag_activated ?s m ?l = Inr (b, cx1)"
    by (auto simp: activate_plain split: sum.splits)
  note fm = flag_activated_mono [OF f]
  have up1: "reached U F cx \<subseteq> reached U F cx1" by (rule reached_mono) (use fm in auto)
  show ?thesis
  proof (cases b)
    case True
    with a s(2) f up1 show ?thesis by (simp add: activate_plain)
  next
    case False
    with a s(2) f obtain deps where b: "build_deps Q (map_option fst parent) ?s m cx1 cache = Some (Inr (deps, cx', cache'))"
      and fo: "fo = Some \<lparr>frame_parent = ?s, just_for_error_messages = False, remaining_siblings = new_iter deps\<rparr>"
      by (auto simp: activate_plain split: option.splits sum.splits)
    have nonempty: "\<forall>f\<in>set fs. f \<noteq> [] \<and> CHR ''/'' \<notin> set f" using fs c by (auto simp: closed_registry_def)
    have "request_in F ?s m" using fs(2) by (auto simp: request_in_def m crate_features_def new_feature_value_def build_value_def split: if_splits)
    note bd = build_deps_info [OF c s(1) this b]
    have set: "settled ?s fs df (resolved_of cx' (package_id ?s))" using bd m nonempty by blast
    have up: "reached U F cx1 \<subseteq> reached U F cx'" by (rule reached_mono) (use bd active_same [of cx1 cx'] in auto)
    have pt: "(package_id ?s, None) \<in> points U F" "f \<in> insert ''default'' F \<Longrightarrow> (package_id ?s, Some f) \<in> points U F" for f
      using s(1) by (auto simp: points_def)
    have "reached U F cx \<noteq> reached U F cx'"
    proof (cases "is_active cx (package_id ?s)")
      case False
      then have "(package_id ?s, None) \<notin> reached U F cx" by (simp add: reached_def)
      moreover have "(package_id ?s, None) \<in> reached U F cx'"
        using fm(3) bd active_same [of cx1 cx'] pt(1) by (simp add: reached_def)
      ultimately show ?thesis by blast
    next
      case True
      with flag_activated_not_settled [of ?s False fs df ?l cx1] f m \<open>\<not> b\<close>
      have "\<not> settled ?s fs df (resolved_of cx (package_id ?s))" by simp
      with set obtain g where g: "g \<in> insert ''default'' F" "g \<notin> resolved_of cx (package_id ?s)" "g \<in> resolved_of cx' (package_id ?s)"
        using fs(1) by (auto simp: settled_def)
      then have "(package_id ?s, Some g) \<in> reached U F cx' - reached U F cx" using pt(2) by (auto simp: reached_def)
      then show ?thesis by blast
    qed
    with up1 up bd fo show ?thesis by (auto simp: new_iter_def)
  qed
qed


lemma collect_deps_fails:
  "foldE (collect_dep s reqs) ds (cx, u, ret) = Inl (e, cx') \<Longrightarrow> activations cx' = activations cx \<and> resolved_features cx' = resolved_features cx"
proof (induction ds arbitrary: cx u ret)
  case (Cons d ds)
  show ?case
  proof (cases "collect_dep s reqs d (cx, u, ret)")
    case (Inl x)
    with Cons.prems show ?thesis by (auto simp: collect_dep_def Let_def split: if_splits option.splits)
  next
    case (Inr st1)
    obtain cx1 u1 ret1 where st1: "st1 = (cx1, u1, ret1)" by (cases st1)
    have "activations cx1 = activations cx \<and> resolved_features cx1 = resolved_features cx"
      using Inr st1 by (auto simp: collect_dep_def Let_def split: if_splits option.splits)
    with Cons Inr st1 show ?thesis by simp
  qed
qed simp

lemma collect_deps_fields:
  "foldE (collect_dep s reqs) ds (cx, u, ret) = Inr (cx', u', ret') \<Longrightarrow> activations cx' = activations cx \<and> resolved_features cx' = resolved_features cx"
proof (induction ds arbitrary: cx u ret)
  case (Cons d ds)
  from Cons.prems obtain cx1 u1 ret1 where step: "collect_dep s reqs d (cx, u, ret) = Inr (cx1, u1, ret1)"
    and rest: "foldE (collect_dep s reqs) ds (cx1, u1, ret1) = Inr (cx', u', ret')" by auto
  have "activations cx1 = activations cx \<and> resolved_features cx1 = resolved_features cx"
    using step by (auto simp: collect_dep_def Let_def split: if_splits option.splits)
  with Cons.IH [OF rest] show ?case by simp
qed simp

lemma resolve_features_fails:
  assumes "resolve_features parent s m cx = Some (Inl (e, cx'))"
  shows "activations cx' = activations cx \<and> resolved_features cx' = resolved_features cx"
proof (cases "build_requirements s m")
  case (Some r)
  show ?thesis
  proof (cases r)
    case (Inr reqs)
    with assms Some show ?thesis
      by (auto simp: resolve_features_def Let_def bindR_eq_Inl dest: collect_deps_fails collect_deps_fields split: if_splits option.splits)
  qed (use assms Some in \<open>simp add: resolve_features_def\<close>)
qed (use assms in \<open>simp add: resolve_features_def\<close>)

lemma activate_conflict:
  assumes c: "closed_registry Q U F" and s: "cand_summary cand \<in> U" "replace cand = None" and m: "request_in F (cand_summary cand) m"
    and a: "activate Q parent cand m cx cache = Some (Inl (Conflict p reason, cx', cache'))"
  shows "reached U F cx \<subseteq> reached U F cx'"
proof -
  let ?s = "cand_summary cand" let ?l = "linked parent (package_id ?s) cx"
  from a s(2) obtain cx1 where f: "flag_activated ?s m ?l = Inr (False, cx1)"
    and b: "build_deps Q (map_option fst parent) ?s m cx1 cache = Some (Inl (Conflict p reason, cx', cache'))"
    by (auto simp: activate_plain split: sum.splits bool.splits option.splits prod.splits)
  from b have "resolve_features (map_option fst parent) ?s m cx1 = Some (Inl (Conflict p reason, cx'))"
    by (auto simp: build_deps_def split: option.splits sum.splits)
  note rf = resolve_features_fails [OF this]
  have "reached U F cx1 \<subseteq> reached U F cx'" by (rule reached_mono) (use rf in \<open>auto simp: is_active_def resolved_of_def\<close>)
  moreover have "reached U F cx \<subseteq> reached U F cx1" by (rule reached_mono) (use flag_activated_mono [OF f] in auto)
  ultimately show ?thesis by blast
qed

section \<open>Nothing panics\<close>

lemma query_candidates_total: "replacements Q = [] \<Longrightarrow> query_candidates Q d \<noteq> None"
proof -
  assume "replacements Q = []"
  then have "collectR (apply_replacement Q) ss \<noteq> None" for ss
    by (induction ss) (auto simp: apply_replacement_def bindR_eq_None)
  then show ?thesis by (auto simp: query_candidates_def run_query_def bindR_eq_None)
qed

lemma query_deps_total: "replacements Q = [] \<Longrightarrow> query_deps Q ds cache \<noteq> None"
proof (induction Q ds cache rule: query_deps.induct)
  case (2 Q dep fs ds cache)
  have "query Q dep cache \<noteq> None"
    using query_candidates_total [OF "2.prems", of dep] by (auto simp: query_def bindR_eq_None simp del: not_None_eq split: option.splits)
  with 2 show ?case by (auto simp: bindR_eq_None)
qed simp

lemma activate_total:
  assumes c: "closed_registry Q U F" and s: "cand_summary cand \<in> U" "replace cand = None"
  shows "activate Q parent cand m cx cache \<noteq> None"
proof -
  have wf: "features_wf (cand_summary cand)" "replacements Q = []" using c s(1) by (auto simp: closed_registry_def)
  have "resolve_features (map_option fst parent) (cand_summary cand) m cx1 \<noteq> None" for cx1
    using conjunct1 [OF build_requirements_ok [OF wf(1), of m]]
    by (auto simp: resolve_features_def bindR_eq_None Let_def simp del: not_None_eq split: option.splits sum.splits if_splits)
  then have "build_deps Q (map_option fst parent) (cand_summary cand) m cx1 cache \<noteq> None" for cx1
    using query_deps_total [OF wf(2)] by (auto simp: build_deps_def simp del: not_None_eq split: option.splits sum.splits prod.splits)
  then show ?thesis using s(2) by (auto simp: activate_plain simp del: not_None_eq split: sum.splits bool.splits option.splits prod.splits)
qed

lemma first_some_Some: "first_some f xs = Some y \<Longrightarrow> \<exists>x\<in>set xs. f x = Some y"
  by (induction xs) (auto split: option.splits)

lemma past_conflict_total: "past_conflict past cx pid frame remaining just con \<noteq> None"
proof
  assume n: "past_conflict past cx pid frame remaining just con = None"
  then obtain bad other conflict where "first_some (\<lambda>(other_parent, other_dep).
      if other_dep \<in> set bad then map_option (\<lambda>c. (other_parent, c)) (find_conflicting past cx other_dep (\<lambda>c. map_of c pid \<noteq> None))
      else None) (frames_iter remaining) = Some (other, conflict)" "map_of conflict pid = None"
    by (auto simp: past_conflict_def split: if_splits option.splits)
  then obtain d where "find_conflicting past cx d (\<lambda>c. map_of c pid \<noteq> None) = Some conflict"
    by (auto dest!: first_some_Some split: if_splits)
  then show False
    using cs.look_Some [of past "is_active cx" d "\<lambda>c. map_of c pid \<noteq> None" conflict] \<open>map_of conflict pid = None\<close>
    by (simp add: find_conflicting_look)
qed


section \<open>The work that is left\<close>

text \<open>Candidates still to be looked at, all of them answers of the registry.\<close>

definition rc_size :: "('s, 'r) remaining_candidates \<Rightarrow> nat" where
  "rc_size rc = length (ahead (rc_remaining rc)) + (case has_another rc of None \<Rightarrow> 0 | Some _ \<Rightarrow> 1)"

definition rc_from :: "('s, 'r) queryer \<Rightarrow> ('s, 'r) dependency \<Rightarrow> ('s, 'r) remaining_candidates \<Rightarrow> bool" where
  "rc_from Q d rc \<longleftrightarrow> (\<forall>b. has_another rc = Some b \<or> b \<in> set (ahead (rc_remaining rc)) \<longrightarrow> from_query Q d b)"

lemma scan_size:
  assumes "scan cx prev dn bs stash con = (res, rc, con')" "\<And>b. stash = Some b \<or> b \<in> set bs \<Longrightarrow> from_query Q d b"
  shows "rc_from Q d rc \<and>
    (\<forall>b another. res = Some (b, another) \<longrightarrow> from_query Q d b \<and> rc_size rc < length bs + (case stash of None \<Rightarrow> 0 | Some _ \<Rightarrow> 1))"
  using assms
proof (induction cx prev dn bs stash con rule: scan.induct)
  case (1 cx prev dn stash con)
  then show ?case by (auto simp: rc_from_def rc_size_def split: option.splits)
next
  case (2 cx prev dn b bs stash con)
  have sub: "from_query Q d b'" if "stash = Some b' \<or> b' \<in> set bs" for b' using "2.prems"(2) that by auto
  show ?case
  proof (cases "links_conflict cx b")
    case (Some al)
    obtain a l where al: "al = (a, l)" by (cases al)
    with "2.prems"(1) Some have "scan cx prev (dn @ [b]) bs stash (or_insert a (Links l) con) = (res, rc, con')" by simp
    from "2.IH"(3) [OF Some al [symmetric] this sub] show ?thesis by auto
  next
    case nl: None
    show ?thesis
    proof (cases "semver_conflict prev b")
      case (Some a)
      with "2.prems"(1) nl have "scan cx prev (dn @ [b]) bs stash (or_insert (package_id a) Semver con) = (res, rc, con')" by simp
      from "2.IH"(2) [OF nl Some this sub] show ?thesis by auto
    next
      case ns: None
      show ?thesis
      proof (cases stash)
        case (Some r)
        with "2.prems" nl ns show ?thesis by (auto simp: rc_from_def rc_size_def)
      next
        case None
        with "2.prems"(1) nl ns have "scan cx prev (dn @ [b]) bs (Some b) con = (res, rc, con')" by simp
        from "2.IH"(1) [OF nl ns None this] "2.prems"(2) None show ?thesis by auto
      qed
    qed
  qed
qed

lemma rc_next_size:
  assumes "rc_next rc con cx dep = (res, rc', con')" "rc_from Q d rc"
  shows "rc_from Q d rc' \<and> (\<forall>b another. res = Some (b, another) \<longrightarrow> from_query Q d b \<and> rc_size rc' < rc_size rc)"
proof -
  have "from_query Q d b" if "has_another rc = Some b \<or> b \<in> set (ahead (rc_remaining rc))" for b
    using assms(2) that unfolding rc_from_def by blast
  from scan_size [OF assms(1) [unfolded rc_next_def] this] show ?thesis unfolding rc_size_def by blast
qed

definition open_deps :: "('s, 'r) deps_frame list \<Rightarrow> nat" where
  "open_deps h = (\<Sum>f\<leftarrow>h. length (ahead (remaining_siblings f)))"

lemma open_deps_mset:
  fixes h h' :: "('s, 'r) deps_frame list"
  shows "mset h = mset h' \<Longrightarrow> open_deps h = open_deps h'"
proof -
  have "open_deps h = sum_mset (image_mset (\<lambda>f. length (ahead (remaining_siblings f))) (mset h))" for h :: "('s, 'r) deps_frame list"
    unfolding open_deps_def mset_map [symmetric] by (rule sum_mset_sum_list [symmetric])
  then show "mset h = mset h' \<Longrightarrow> open_deps h = open_deps h'" by simp
qed

lemma open_deps_pop: "heap_pop c h = Some (x, h') \<Longrightarrow> open_deps h = length (ahead (remaining_siblings x)) + open_deps h'"
  using open_deps_mset [of h "x # h'"] heap_pop_mset [of c h x h'] by (simp add: open_deps_def)

lemma pop_most_constrained_open: "pop_most_constrained h = (Some r, h') \<Longrightarrow> open_deps h = Suc (open_deps h')"
proof (induction h rule: pop_most_constrained.induct)
  case (1 h)
  from "1.prems" obtain f h1 where p: "heap_pop frame_cmp h = Some (f, h1)"
    by (cases "heap_pop frame_cmp h") (auto simp: pop_most_constrained.simps [of h])
  note o = open_deps_pop [OF p]
  show ?case
  proof (cases "ahead (remaining_siblings f)")
    case Nil
    then have n: "next_item (remaining_siblings f) = (None, remaining_siblings f)" by (simp add: next_item_def)
    with "1.prems" p have "pop_most_constrained h1 = (Some r, h')" by (simp add: pop_most_constrained.simps [of h])
    from "1.IH" [OF p refl n [symmetric] refl this] o Nil show ?thesis by simp
  next
    case (Cons s sibs)
    with "1.prems" p o show ?thesis
      by (auto simp: pop_most_constrained.simps [of h] next_item_def open_deps_def heap_push_def)
  qed
qed

text \<open>A bound on the number of steps of a search tree, and the potential that each activation lowers.\<close>

fun work :: "nat \<Rightarrow> nat \<Rightarrow> nat" where
  "work k 0 = 1"
| "work k (Suc p) = 2 + (k + 1) * (work k p + 2)"

lemma work_mono: "p \<le> q \<Longrightarrow> work k p \<le> work k q"
proof (induction rule: dec_induct)
  case (step n)
  have "work k n \<le> work k (Suc n)" by (simp add: algebra_simps)
  with step show ?case by linarith
qed simp

definition potential :: "nat \<Rightarrow> ('s, 'r) summary set \<Rightarrow> string set \<Rightarrow> ('s, 'r) res_context \<Rightarrow> ('s, 'r) deps_frame list \<Rightarrow> nat" where
  "potential w U F cx h = open_deps h + Suc w * card (points U F - reached U F cx)"

lemma potential_mono:
  assumes "finite U" "finite F" "reached U F cx \<subseteq> reached U F cx'"
  shows "potential w U F cx' h \<le> potential w U F cx h"
proof -
  have "card (points U F - reached U F cx') \<le> card (points U F - reached U F cx)"
    by (rule card_mono) (use assms in \<open>auto simp: points_def\<close>)
  then show ?thesis by (simp add: potential_def add_mono del: mult_Suc)
qed

lemma potential_frame:
  assumes "finite U" "finite F" "reached U F cx \<subset> reached U F cx'" "length (ahead (remaining_siblings f)) \<le> w"
  shows "potential w U F cx' (heap_push f h) \<le> potential w U F cx h"
proof -
  have "points U F - reached U F cx' \<subset> points U F - reached U F cx"
    using assms(3) by (auto simp: reached_def)
  then have "card (points U F - reached U F cx') < card (points U F - reached U F cx)"
    by (intro psubset_card_mono) (use assms in \<open>auto simp: points_def\<close>)
  then have "Suc (card (points U F - reached U F cx')) \<le> card (points U F - reached U F cx)" by simp
  then have "Suc w * Suc (card (points U F - reached U F cx')) \<le> Suc w * card (points U F - reached U F cx)"
    by (rule mult_le_mono2)
  with assms(4) show ?thesis by (simp add: potential_def open_deps_def heap_push_def)
qed


section \<open>Every step lowers the cost\<close>

definition bounded_registry :: "('s, 'r) queryer \<Rightarrow> ('s, 'r) summary set \<Rightarrow> string set \<Rightarrow> nat \<Rightarrow> nat \<Rightarrow> bool" where
  "bounded_registry Q U F k w \<longleftrightarrow>
     closed_registry Q U F \<and>
     (\<forall>s\<in>U. length (dependencies s) \<le> w \<and>
       (\<forall>d\<in>set (dependencies s). \<forall>cs. query_candidates Q d = Some (Inr cs) \<longrightarrow> length cs \<le> k))"

lemma closed_registry_bounded:
  assumes "closed_registry Q U F"
  obtains k w where "bounded_registry Q U F k w"
proof -
  have fin: "finite U" using assms by (simp add: closed_registry_def)
  define L where "L d = (case query_candidates Q d of Some (Inr cs) \<Rightarrow> length cs | _ \<Rightarrow> 0)" for d
  let ?D = "\<Union>s\<in>U. set (dependencies s)"
  have "finite (insert 0 (L ` ?D))" "finite (insert 0 ((\<lambda>s. length (dependencies s)) ` U))" using fin by auto
  then have "L d \<le> Max (insert 0 (L ` ?D))" if "d \<in> ?D" for d using that by (intro Max_ge) auto
  moreover have "length (dependencies s) \<le> Max (insert 0 ((\<lambda>s. length (dependencies s)) ` U))" if "s \<in> U" for s
    using that fin by (intro Max_ge) auto
  ultimately have "bounded_registry Q U F (Max (insert 0 (L ` ?D))) (Max (insert 0 ((\<lambda>s. length (dependencies s)) ` U)))"
    using assms unfolding bounded_registry_def L_def by fastforce
  then show ?thesis by (rule that)
qed

definition attempt_in :: "('s, 'r) queryer \<Rightarrow> ('s, 'r) summary set \<Rightarrow> string set \<Rightarrow> ('s, 'r) dependency \<Rightarrow> string list \<Rightarrow> ('s, 'r) remaining_candidates \<Rightarrow> bool" where
  "attempt_in Q U F d fs rc \<longleftrightarrow> info_in U F (d, fs) \<and> rc_from Q d rc"

definition heap_in :: "('s, 'r) queryer \<Rightarrow> ('s, 'r) summary set \<Rightarrow> string set \<Rightarrow> ('s, 'r) deps_frame list \<Rightarrow> bool" where
  "heap_in Q U F h \<longleftrightarrow> (\<forall>f\<in>set h. frame_ok Q f \<and> (\<forall>(d, cs, fs)\<in>set (ahead (remaining_siblings f)). info_in U F (d, fs)))"

definition search_in :: "('s, 'r) queryer \<Rightarrow> ('s, 'r) summary set \<Rightarrow> string set \<Rightarrow> ('s, 'r) search \<Rightarrow> bool" where
  "search_in Q U F st \<longleftrightarrow> cache_ok Q (st_cache st) \<and> heap_in Q U F (st_remaining st) \<and>
     (\<forall>f\<in>set (st_stack st). heap_in Q U F (bf_remaining_deps f) \<and> attempt_in Q U F (bf_dep f) (bf_features f) (bf_candidates f))"

fun machine_in :: "('s, 'r) queryer \<Rightarrow> ('s, 'r) summary set \<Rightarrow> string set \<Rightarrow> ('s, 'r) machine \<Rightarrow> bool" where
  "machine_in Q U F (Outer st) \<longleftrightarrow> search_in Q U F st"
| "machine_in Q U F (Inner a st) \<longleftrightarrow> search_in Q U F st \<and> attempt_in Q U F (at_dep a) (at_features a) (at_candidates a)"
| "machine_in Q U F _ \<longleftrightarrow> True"

definition try_cost :: "nat \<Rightarrow> nat \<Rightarrow> ('s, 'r) summary set \<Rightarrow> string set \<Rightarrow> ('s, 'r) res_context \<Rightarrow> ('s, 'r) deps_frame list \<Rightarrow> nat \<Rightarrow> nat" where
  "try_cost k w U F cx h n = 1 + n * (work k (potential w U F cx h) + 2)"

definition stack_cost :: "nat \<Rightarrow> nat \<Rightarrow> ('s, 'r) summary set \<Rightarrow> string set \<Rightarrow> ('s, 'r) backtrack_frame list \<Rightarrow> nat" where
  "stack_cost k w U F stack = (\<Sum>f\<leftarrow>stack. try_cost k w U F (bf_context f) (bf_remaining_deps f) (rc_size (bf_candidates f)))"

fun cost :: "nat \<Rightarrow> nat \<Rightarrow> ('s, 'r) summary set \<Rightarrow> string set \<Rightarrow> ('s, 'r) machine \<Rightarrow> nat" where
  "cost k w U F (Outer st) = work k (potential w U F (st_cx st) (st_remaining st)) + stack_cost k w U F (st_stack st)"
| "cost k w U F (Inner a st) = try_cost k w U F (st_cx st) (st_remaining st) (rc_size (at_candidates a)) + stack_cost k w U F (st_stack st)"
| "cost k w U F _ = 0"

lemma stack_cost_simps [simp]:
  "stack_cost k w U F [] = 0"
  "stack_cost k w U F (f # stack) = try_cost k w U F (bf_context f) (bf_remaining_deps f) (rc_size (bf_candidates f)) + stack_cost k w U F stack"
  by (simp_all add: stack_cost_def)

lemma try_cost_mono:
  assumes "potential w U F cx' h' \<le> potential w U F cx h" "n' \<le> n"
  shows "try_cost k w U F cx' h' n' \<le> try_cost k w U F cx h n"
  unfolding try_cost_def using work_mono [OF assms(1), of k] assms(2) by (intro add_left_mono mult_le_mono) auto

lemma try_cost_Suc: "try_cost k w U F cx h (Suc n) = try_cost k w U F cx h n + work k (potential w U F cx h) + 2"
  by (simp add: try_cost_def)

lemma candidate_in:
  assumes "closed_registry Q U F" "info_in U F (d, fs)" "from_query Q d b"
  shows "cand_summary b \<in> U \<and> replace b = None"
proof -
  from assms(2) obtain s where s: "s \<in> U" "d \<in> set (dependencies s)" by (auto simp: info_in_def)
  from from_query_registry(1) [OF assms(3)] obtain ss where ss: "reg_query Q d = Inr ss" "cand_summary b \<in> set ss" by blast
  have "set ss \<subseteq> U" using assms(1) s ss(1) unfolding closed_registry_def by blast
  moreover have "replace b = None" using assms(1) from_query_registry(2) [OF assms(3)] by (simp add: closed_registry_def)
  ultimately show ?thesis using ss(2) by blast
qed

text \<open>The bound that one more candidate pays for.\<close>

abbreviation budget :: "nat \<Rightarrow> nat \<Rightarrow> ('s, 'r) summary set \<Rightarrow> string set \<Rightarrow> ('s, 'r) attempt \<Rightarrow> ('s, 'r) search \<Rightarrow> nat" where
  "budget k w U F a st \<equiv>
     try_cost k w U F (st_cx st) (st_remaining st) (Suc (rc_size (at_candidates a))) + stack_cost k w U F (st_stack st)"

lemma failed_attempt_cost:
  assumes "search_in Q U F st" "attempt_in Q U F (at_dep a) (at_features a) (at_candidates a)" "finite U" "finite F"
    and "reached U F (st_cx st) \<subseteq> reached U F cx" "cache_ok Q cache"
  shows "machine_in Q U F (failed_attempt another a st con cx cache) \<and> cost k w U F (failed_attempt another a st con cx cache) < budget k w U F a st"
proof -
  have "potential w U F (if another then st_cx st else cx) (st_remaining st) \<le> potential w U F (st_cx st) (st_remaining st)"
    using potential_mono [OF assms(3-5), of w "st_remaining st"] by simp
  from try_cost_mono [OF this order_refl, of k "rc_size (at_candidates a)"] assms(1,2,6) show ?thesis
    by (simp add: failed_attempt_def search_in_def try_cost_Suc)
qed

lemma backtrack_for_in:
  assumes "search_in Q U F st" "attempt_in Q U F (at_dep a) (at_features a) (at_candidates a)" "set stack \<subseteq> set (st_stack st)"
    and "f \<in> set (backtrack_for another a st @ stack)"
  shows "heap_in Q U F (bf_remaining_deps f) \<and> attempt_in Q U F (bf_dep f) (bf_features f) (bf_candidates f)"
  using assms by (auto simp: backtrack_for_def search_in_def split: if_splits)

lemma backtrack_for_cost:
  "stack_cost k w U F (backtrack_for another a st @ stack) \<le>
     try_cost k w U F (st_cx st) (st_remaining st) (rc_size (at_candidates a)) + stack_cost k w U F stack"
  by (simp add: backtrack_for_def)


lemma went_on_cost:
  assumes st: "search_in Q U F st" "attempt_in Q U F (at_dep a) (at_features a) (at_candidates a)" and stack: "stack = st_stack st \<or> stack = []"
    and h: "heap_in Q U F h" "cache_ok Q cache" and p: "potential w U F cx h \<le> potential w U F (st_cx st) (st_remaining st)"
  shows "machine_in Q U F (Outer (st\<lparr>st_cx := cx, st_cache := cache, st_stack := backtrack_for another a st @ stack, st_remaining := h\<rparr>)) \<and>
    cost k w U F (Outer (st\<lparr>st_cx := cx, st_cache := cache, st_stack := backtrack_for another a st @ stack, st_remaining := h\<rparr>)) < budget k w U F a st"
proof -
  have "set stack \<subseteq> set (st_stack st)" "stack_cost k w U F stack \<le> stack_cost k w U F (st_stack st)" using stack by auto
  with work_mono [OF p, of k] backtrack_for_cost [of k w U F another a st stack] backtrack_for_in [OF st]
    h show ?thesis by (auto simp: search_in_def try_cost_Suc)
qed

lemma settle_frame_cost:
  assumes st: "search_in Q U F st" "attempt_in Q U F (at_dep a) (at_features a) (at_candidates a)" and fin: "finite U" "finite F"
    and up: "reached U F (st_cx st) \<subset> reached U F cx" and fr: "length (ahead (remaining_siblings frame)) \<le> w" "cache_ok Q cache"
      "frame_ok Q frame" "\<forall>(d, cs, fs)\<in>set (ahead (remaining_siblings frame)). info_in U F (d, fs)"
  shows "\<exists>m. settle_frame pid another a st frame cx cache = Some m \<and> machine_in Q U F m \<and> cost k w U F m < budget k w U F a st"
proof -
  obtain con bad where pc: "past_conflict (st_past st) cx pid frame (st_remaining st) (at_just a) (at_conflicts a) = Some (con, bad)"
    using past_conflict_total by fastforce
  let ?f = "frame\<lparr>just_for_error_messages := bad\<rparr>"
  have h: "heap_in Q U F (heap_push ?f (st_remaining st))"
    using st(1) fr(3,4) by (auto simp: search_in_def heap_in_def heap_push_def frame_ok_def)
  have p: "potential w U F cx (heap_push ?f (st_remaining st)) \<le> potential w U F (st_cx st) (st_remaining st)"
    using potential_frame [OF fin up, of ?f w "st_remaining st"] fr(1) by simp
  note on = went_on_cost [OF st _ h fr(2) p, of _ another k]
  note again = failed_attempt_cost [OF st fin _ fr(2), of cx another con k w]
  show ?thesis
    using on [of "st_stack st"] on [of "[]"] again up by (auto simp: settle_frame_def pc Let_def)
qed

lemma try_candidate_cost:
  assumes b: "bounded_registry Q U F k w" and st: "search_in Q U F st" "attempt_in Q U F (at_dep a) (at_features a) (at_candidates a)"
    and q: "from_query Q (at_dep a) cand"
  shows "\<exists>m. try_candidate Q cand another a st = Some m \<and> machine_in Q U F m \<and> cost k w U F m < budget k w U F a st"
proof (cases "at_just a \<and> \<not> at_backtracked a \<and> another")
  case True
  with st show ?thesis by (simp add: try_candidate_def try_cost_Suc)
next
  case False
  have c: "closed_registry Q U F" and fin: "finite U" "finite F" using b by (auto simp: bounded_registry_def closed_registry_def)
  have fs: "info_in U F (at_dep a, at_features a)" using st(2) by (simp add: attempt_in_def)
  note in_U = candidate_in [OF c fs q]
  have w: "length (dependencies (cand_summary cand)) \<le> w" using b in_U by (auto simp: bounded_registry_def)
  have cache: "cache_ok Q (st_cache st)" using st(1) by (simp add: search_in_def)
  define m where "m = Required False (at_features a) False (default_features (at_dep a))"
  let ?act = "activate Q (Some (at_parent a, at_dep a)) cand m (st_cx st) (st_cache st)"
  have req: "request_in F (cand_summary cand) m"
    using fs by (auto simp: request_in_def m_def crate_features_def new_feature_value_def build_value_def info_in_def split: if_splits)
  obtain r where r: "?act = Some r" using activate_total [OF c] in_U by fastforce
  show ?thesis
  proof (cases r)
    case (Inl e)
    obtain err cx1 cache1 where e: "e = (err, cx1, cache1)" by (cases e)
    show ?thesis
    proof (cases err)
      case (Fatal x)
      with r Inl e False show ?thesis by (auto simp: try_candidate_def m_def Let_def try_cost_def)
    next
      case (Conflict p reason)
      have "reached U F (st_cx st) \<subseteq> reached U F cx1" "cache_ok Q cache1"
        using activate_conflict [OF c _ _ req] in_U r Inl e Conflict activate_Inl_cache cache by blast+
      from failed_attempt_cost [OF st fin this, of another _ k w] r Inl e Conflict False show ?thesis
        by (auto simp: try_candidate_def m_def Let_def)
    qed
  next
    case (Inr x)
    obtain fo cx1 cache1 where x: "x = (fo, cx1, cache1)" by (cases x)
    with r Inr have act: "?act = Some (Inr (fo, cx1, cache1))" by simp
    have fs': "set (at_features a) \<subseteq> F" "\<forall>f\<in>set (at_features a). CHR ''/'' \<notin> set f" using fs by (auto simp: info_in_def)
    note pr = activate_progress [OF c conjunct1 [OF in_U] conjunct2 [OF in_U] fs' m_def act]
    note ok = activate_frame_ok [OF act cache]
    show ?thesis
    proof (cases fo)
      case None
      have "heap_in Q U F (st_remaining st)" using st(1) by (simp add: search_in_def)
      note on = went_on_cost [OF st disjI1 [OF refl] this, of cache1 w cx1 another k]
      have "potential w U F cx1 (st_remaining st) \<le> potential w U F (st_cx st) (st_remaining st)"
        by (rule potential_mono [OF fin]) (use pr None in simp)
      with on ok None act False show ?thesis by (auto simp: try_candidate_def m_def Let_def)
    next
      case (Some f)
      have "\<exists>m. settle_frame (package_id (cand_summary cand)) another a st f cx1 cache1 = Some m \<and> machine_in Q U F m \<and> cost k w U F m < budget k w U F a st"
        by (rule settle_frame_cost [OF st fin]) (use pr ok Some w in auto)
      with Some act False show ?thesis by (auto simp: try_candidate_def m_def Let_def)
    qed
  qed
qed


lemma find_candidate_cost:
  assumes "find_candidate stack parent backtracked con = (Some (cand, another, f), stack')"
    and "\<forall>f\<in>set stack. heap_in Q U F (bf_remaining_deps f) \<and> attempt_in Q U F (bf_dep f) (bf_features f) (bf_candidates f)"
  shows "from_query Q (bf_dep f) cand \<and> heap_in Q U F (bf_remaining_deps f) \<and> attempt_in Q U F (bf_dep f) (bf_features f) (bf_candidates f) \<and>
    set stack' \<subseteq> set stack \<and>
    try_cost k w U F (bf_context f) (bf_remaining_deps f) (Suc (rc_size (bf_candidates f))) + stack_cost k w U F stack' \<le> stack_cost k w U F stack"
  using assms
proof (induction stack)
  case (Cons g stack)
  obtain res rc fcon where n: "rc_next (bf_candidates g) (bf_conflicts g) (bf_context g) (bf_dep g) = (res, rc, fcon)"
    by (metis surj_pair)
  have g: "heap_in Q U F (bf_remaining_deps g)" "attempt_in Q U F (bf_dep g) (bf_features g) (bf_candidates g)"
    using Cons.prems(2) by simp_all
  note s = rc_next_size [OF n, of Q "bf_dep g"]
  show ?case
  proof (cases "\<exists>c another. res = Some (c, another) \<and> \<not> (\<not> backtracked \<and> is_conflicting (bf_context g) (Some (package_id parent)) con)")
    case True
    then obtain c another' where c: "res = Some (c, another')" "\<not> (\<not> backtracked \<and> is_conflicting (bf_context g) (Some (package_id parent)) con)" by blast
    with Cons.prems(1) n have eq: "cand = c" "another = another'" "f = g\<lparr>bf_candidates := rc, bf_conflicts := fcon\<rparr>" "stack' = stack" by auto
    have rc: "rc_from Q (bf_dep g) rc" "from_query Q (bf_dep g) c" "rc_size rc < rc_size (bf_candidates g)"
      using s g(2) c(1) by (auto simp: attempt_in_def)
    have "try_cost k w U F (bf_context g) (bf_remaining_deps g) (Suc (rc_size rc)) \<le> try_cost k w U F (bf_context g) (bf_remaining_deps g) (rc_size (bf_candidates g))"
      by (rule try_cost_mono) (use rc(3) in auto)
    with eq rc g show ?thesis by (auto simp: attempt_in_def)
  next
    case False
    then have "find_candidate stack parent backtracked con = (Some (cand, another, f), stack')"
      using Cons.prems(1) n by (auto split: option.splits if_splits)
    from Cons.IH [OF this] Cons.prems(2) show ?thesis by auto
  qed
qed simp

lemma inner_step_cost:
  assumes b: "bounded_registry Q U F k w" and st: "search_in Q U F st" "attempt_in Q U F (at_dep a) (at_features a) (at_candidates a)"
  shows "\<exists>m. inner_step Q a st = Some m \<and> machine_in Q U F m \<and> cost k w U F m < cost k w U F (Inner a st)"
proof -
  obtain res rc con where n: "rc_next (at_candidates a) (at_conflicts a) (st_cx st) (at_dep a) = (res, rc, con)" by (metis surj_pair)
  note s = rc_next_size [OF n, of Q "at_dep a"]
  show ?thesis
  proof (cases res)
    case (Some ca)
    obtain cand another where ca: "ca = (cand, another)" by (cases ca)
    let ?a = "a\<lparr>at_candidates := rc, at_conflicts := con\<rparr>"
    have rc: "rc_from Q (at_dep a) rc" "from_query Q (at_dep a) cand" "rc_size rc < rc_size (at_candidates a)"
      using s st(2) Some ca by (auto simp: attempt_in_def)
    have "\<exists>m. try_candidate Q cand another ?a st = Some m \<and> machine_in Q U F m \<and> cost k w U F m < budget k w U F ?a st"
      by (rule try_candidate_cost [OF b st(1)]) (use st(2) rc in \<open>auto simp: attempt_in_def\<close>)
    moreover have "budget k w U F ?a st \<le> cost k w U F (Inner a st)"
      using try_cost_mono [OF order_refl, of "Suc (rc_size rc)" "rc_size (at_candidates a)"] rc(3) by simp
    ultimately show ?thesis using n Some ca by (auto simp: inner_step_def intro: less_le_trans)
  next
    case None
    show ?thesis
    proof (cases "fst (find_candidate (st_stack st) (at_parent a) (at_backtracked a) con)")
      case no: None
      then obtain stk where "find_candidate (st_stack st) (at_parent a) (at_backtracked a) con = (None, stk)" by (metis prod.collapse)
      with n None show ?thesis by (simp add: inner_step_def try_cost_def Let_def)
    next
      case (Some x)
      then obtain cand another f stack where fc: "find_candidate (st_stack st) (at_parent a) (at_backtracked a) con = (Some (cand, another, f), stack)"
        by (metis prod.collapse)
      have frames: "\<forall>f\<in>set (st_stack st). heap_in Q U F (bf_remaining_deps f) \<and> attempt_in Q U F (bf_dep f) (bf_features f) (bf_candidates f)"
        using st(1) unfolding search_in_def by blast
      note f = find_candidate_cost [OF fc frames, of k w]
      define past where "past = (if \<not> at_just a \<and> \<not> at_backtracked a then insert_conflict (at_dep a) con (st_past st) else st_past st)"
      let ?a = "\<lparr>at_parent = bf_parent f, at_dep = bf_dep f, at_features = bf_features f, at_candidates = bf_candidates f,
                 at_conflicts = bf_conflicts f, at_backtracked = True, at_just = at_just a\<rparr>"
      let ?st = "st\<lparr>st_cx := bf_context f, st_remaining := bf_remaining_deps f, st_stack := stack, st_past := past\<rparr>"
      have "\<exists>m. try_candidate Q cand another ?a ?st = Some m \<and> machine_in Q U F m \<and> cost k w U F m < budget k w U F ?a ?st"
        by (rule try_candidate_cost [OF b]) (use f st(1) in \<open>auto simp: search_in_def\<close>)
      moreover have "budget k w U F ?a ?st \<le> cost k w U F (Inner a st)" using f by simp
      ultimately show ?thesis using n None fc by (auto simp: inner_step_def Let_def past_def [symmetric] intro: less_le_trans)
    qed
  qed
qed

lemma taken_in:
  assumes t: "taken f h just parent i (d, cs, fs) h'" and h: "heap_in Q U F h"
  shows "info_in U F (d, fs) \<and> heap_in Q U F h'"
proof -
  from t obtain sibs rest where r: "ahead (remaining_siblings f) = (d, cs, fs) # sibs" "rest \<subseteq> set h"
    "set h' = insert (f\<lparr>remaining_siblings := \<lparr>handed = handed (remaining_siblings f) @ [(d, cs, fs)], ahead = sibs\<rparr>\<rparr>) rest"
    unfolding taken_def by blast
  have "f \<in> set h" using t by (simp add: taken_def open_frames_def)
  then have f: "frame_ok Q f" "\<forall>(d, cs, fs)\<in>set (ahead (remaining_siblings f)). info_in U F (d, fs)" using h by (auto simp: heap_in_def)
  have "\<forall>g\<in>rest. frame_ok Q g \<and> (\<forall>(d, cs, fs)\<in>set (ahead (remaining_siblings g)). info_in U F (d, fs))"
    using h r(2) unfolding heap_in_def by blast
  with f r(1) show ?thesis unfolding heap_in_def r(3) by (simp add: frame_ok_def)
qed

text \<open>Without debug assertions the progress display may fail with an error, but not panic.\<close>

lemma shell_status_returns: "\<not> debug_assertions T \<Longrightarrow> \<exists>r. shell_status T pg = Some r"
  by (auto simp: shell_status_def Let_def split: option.splits)

lemma outer_step_cost:
  assumes b: "bounded_registry Q U F k w" and st: "search_in Q U F st" and rel: "\<not> debug_assertions (terminal Q)"
  shows "\<exists>m. outer_step Q st = Some m \<and> machine_in Q U F m \<and> cost k w U F m < cost k w U F (Outer st)"
proof (cases "pop_most_constrained (st_remaining st)")
  case (Pair r h)
  have pos: "0 < work k p" for p by (cases p) auto
  show ?thesis
  proof (cases r)
    case None
    with Pair pos show ?thesis by (simp add: outer_step_def)
  next
    case (Some x)
    obtain just parent i d cs fs where x: "x = (just, parent, i, d, cs, fs)" by (metis surj_pair)
    note pop = Pair [unfolded Some x]
    from pop_most_constrained_Some [OF pop] obtain f where t: "taken f (st_remaining st) just parent i (d, cs, fs) h" by blast
    have hp: "heap_in Q U F (st_remaining st)" using st by (simp add: search_in_def)
    have "info_ok Q (d, cs, fs)" "\<forall>g\<in>set h. frame_ok Q g" using taken_frames_ok [OF t] hp by (auto simp: heap_in_def)
    moreover have "info_in U F (d, fs)" "heap_in Q U F h" using taken_in [OF t hp] by simp_all
    ultimately have q: "query_candidates Q d = Some (Inr cs)" and hin: "heap_in Q U F h" and i: "info_in U F (d, fs)" by (auto simp: info_ok_def)
    have k: "length cs \<le> k" using b q i by (auto simp: bounded_registry_def info_in_def)
    have pot: "potential w U F (st_cx st) (st_remaining st) = Suc (potential w U F (st_cx st) h)"
      using pop_most_constrained_open [OF pop] by (simp add: potential_def)
    have "try_cost k w U F (st_cx st) h (length cs) \<le> try_cost k w U F (st_cx st) h (Suc k)" by (rule try_cost_mono) (use k in auto)
    then have less: "try_cost k w U F (st_cx st) h (length cs) < work k (potential w U F (st_cx st) (st_remaining st))"
      unfolding pot by (simp add: try_cost_def)
    moreover have "rc_from Q d (new_remaining cs)" using q by (auto simp: rc_from_def new_remaining_def new_iter_def from_query_def)
    moreover obtain y where y: "shell_status (terminal Q) (st_progress st) = Some y" using shell_status_returns [OF rel] by blast
    ultimately show ?thesis
    proof (cases y)
      case (Inl e)
      with pop y pos show ?thesis by (simp add: outer_step_def)
    next
      case (Inr pg)
      with \<open>rc_from Q d (new_remaining cs)\<close> less pop y st hin i show ?thesis
        by (simp add: outer_step_def search_in_def attempt_in_def rc_size_def new_remaining_def new_iter_def)
    qed
  qed
qed

lemma machine_step_cost:
  assumes "bounded_registry Q U F k w" "machine_in Q U F m" "\<not> debug_assertions (terminal Q)" "running m"
  shows "\<exists>m'. machine_step Q m = Some m' \<and> machine_in Q U F m' \<and> cost k w U F m' < cost k w U F m"
  using assms(2-) inner_step_cost [OF assms(1)] outer_step_cost [OF assms(1)] by (cases m) (auto simp: machine_step_def)

lemma run_machine_returns:
  assumes b: "bounded_registry Q U F k w" and rel: "\<not> debug_assertions (terminal Q)"
    and "machine_in Q U F m" "cost k w U F m \<le> n"
  shows "run_machine n Q m \<noteq> None"
  using assms(3,4)
proof (induction n arbitrary: m)
  case 0
  show ?case
  proof (cases "running m")
    case True
    with machine_step_cost [OF b "0.prems"(1) rel] "0.prems"(2) show ?thesis by fastforce
  qed (cases m; simp)
next
  case (Suc n)
  show ?case
  proof (cases "running m")
    case True
    then obtain m' where m': "machine_step Q m = Some m'" "machine_in Q U F m'" "cost k w U F m' < cost k w U F m"
      using machine_step_cost [OF b Suc.prems(1) rel] by blast
    with Suc.IH [OF m'(2)] Suc.prems(2) have "run_machine n Q m' \<noteq> None" by linarith
    with m'(1) True show ?thesis by (cases m) auto
  qed (cases m; simp)
qed


section \<open>The initial packages\<close>

lemma activate_root_no_conflict:
  assumes "replace cand = None"
  shows "activate Q None cand m cx cache \<noteq> Some (Inl (Conflict p reason, cx', cache'))"
proof
  assume "activate Q None cand m cx cache = Some (Inl (Conflict p reason, cx', cache'))"
  then obtain cx1 where "build_deps Q None (cand_summary cand) m cx1 cache = Some (Inl (Conflict p reason, cx', cache'))"
    using assms by (auto simp: activate_plain split: sum.splits bool.splits option.splits prod.splits)
  then have rf: "resolve_features None (cand_summary cand) m cx1 = Some (Inl (Conflict p reason, cx'))"
    by (auto simp: build_deps_def split: option.splits sum.splits)
  have "foldE (collect_dep s reqs) ds st \<noteq> Inl (Conflict p reason, cx2)" for s :: "('a, 'b) summary" and reqs ds st cx2
  proof (induction ds arbitrary: st)
    case (Cons d ds)
    then show ?case by (auto simp: bindE_eq_Inl collect_dep_def Let_def split: prod.splits if_splits option.splits)
  qed simp
  with rf show False
    by (auto simp: resolve_features_def Let_def bindR_eq_Inl split: option.splits sum.splits if_splits)
qed

definition roots_in :: "('s, 'r) summary set \<Rightarrow> string set \<Rightarrow> (('s, 'r) summary \<times> res_method) list \<Rightarrow> bool" where
  "roots_in U F roots \<longleftrightarrow> (\<forall>(s, m)\<in>set roots. s \<in> U \<and> request_in F s m)"

lemma activate_roots_in:
  assumes c: "closed_registry Q U F" and "roots_in U F roots" "search_in Q U F st"
  shows "\<exists>r. activate_roots Q roots st = Some r \<and> (\<forall>st'. r = Inr st' \<longrightarrow> search_in Q U F st')"
  using assms(2,3)
proof (induction roots arbitrary: st)
  case Nil
  then show ?case by simp
next
  case (Cons sm roots)
  obtain s m where sm: "sm = (s, m)" by (cases sm)
  let ?c = "\<lparr>cand_summary = s, replace = None\<rparr>"
  have s: "s \<in> U" "request_in F s m" "roots_in U F roots" using Cons.prems(1) sm by (auto simp: roots_in_def)
  have st: "cache_ok Q (st_cache st)" "heap_in Q U F (st_remaining st)" using Cons.prems(2) by (auto simp: search_in_def)
  obtain r where r: "activate Q None ?c m (st_cx st) (st_cache st) = Some r"
    using activate_total [OF c, of ?c None m "st_cx st" "st_cache st"] s(1) by auto
  show ?case
  proof (cases r)
    case (Inl e)
    obtain err cx1 cache1 where e: "e = (err, cx1, cache1)" by (cases e)
    with r Inl activate_root_no_conflict [of ?c Q m "st_cx st" "st_cache st"] sm show ?thesis by (cases err) auto
  next
    case (Inr x)
    obtain fo cx1 cache1 where x: "x = (fo, cx1, cache1)" by (cases x)
    note act = r [unfolded Inr x]
    note ok = activate_frame_ok [OF act st(1)]
    show ?thesis
    proof (cases fo)
      case None
      have "search_in Q U F (st\<lparr>st_cx := cx1, st_cache := cache1\<rparr>)" using Cons.prems(2) ok by (simp add: search_in_def)
      from Cons.IH [OF s(3) this] None act sm show ?thesis by simp
    next
      case (Some f)
      from activate_elim [OF act] Some obtain cx2 deps where
        b: "build_deps Q (map_option fst None) (effective ?c) m cx2 (st_cache st) = Some (Inr (deps, cx1, cache1))"
        and f: "f = \<lparr>frame_parent = effective ?c, just_for_error_messages = False, remaining_siblings = new_iter deps\<rparr>"
        by (cases rule: activate_elim [OF act]) auto
      have "effective ?c = s" by (simp add: effective_def)
      with build_deps_info [OF c s(1,2), of "map_option fst None" cx2 "st_cache st" deps cx1 cache1] b
      have "\<forall>(d, cs, fs)\<in>set deps. info_in U F (d, fs)" by simp
      then have "search_in Q U F (st\<lparr>st_cx := cx1, st_cache := cache1, st_remaining := heap_push f (st_remaining st)\<rparr>)"
        using Cons.prems(2) ok Some f by (simp add: search_in_def heap_in_def heap_push_def new_iter_def)
      from Cons.IH [OF s(3) this] Some act sm show ?thesis by simp
    qed
  qed
qed

lemma run_machine_more: "run_machine n Q m = Some r \<Longrightarrow> n \<le> n' \<Longrightarrow> run_machine n' Q m = Some r"
proof (induction n arbitrary: m n')
  case 0
  then show ?case by (cases m; cases n') auto
next
  case (Suc n)
  then obtain k where "n' = Suc k" "n \<le> k" by (cases n') auto
  with Suc show ?case by (cases m) (auto split: option.splits)
qed

lemma run_machine_running: "machine_after n Q m = Some m' \<Longrightarrow> running m' \<Longrightarrow> run_machine n Q m = None"
proof (induction n arbitrary: m)
  case 0
  then show ?case by (cases m) auto
next
  case (Suc n)
  then obtain m1 where m1: "machine_step Q m = Some m1" "machine_after n Q m1 = Some m'" by (auto split: option.splits)
  show ?case
  proof (cases "running m")
    case True
    with m1 Suc.IH [OF m1(2) Suc.prems(2)] show ?thesis by (cases m) auto
  next
    case False
    then have "machine_step Q m = Some m" by (cases m) (auto simp: machine_step_def)
    then have "machine_after k Q m = Some m" for k by (induction k) auto
    with Suc.prems False show ?thesis by (metis option.inject)
  qed
qed

section \<open>Properties\<close>

text \<open>
  C4: the search returns: from some amount of fuel on, the main loop gives one and the same result, a resolution or an
  error, and no step panics.  This holds in a build without debug assertions (with them the progress display stops a long
  search), for a registry without replacements whose answers stay among finitely many packages, none of which uses
  namespaced features or defines a feature in terms of one it does not have (\<open>features_wf\<close>, which the construction of
  a summary ensures for packages without namespaced features), when no feature with an empty name is requested.
\<close>

theorem resolver_returns:
  assumes c: "closed_registry Q U F" and roots: "roots_in U F roots" and rel: "\<not> debug_assertions (terminal Q)"
  shows "\<exists>N r. \<forall>n\<ge>N. activate_deps_loop n Q roots = Some r"
proof -
  obtain k w where b: "bounded_registry Q U F k w" using closed_registry_bounded [OF c] .
  have "search_in Q U F initial_search" by (simp add: search_in_def initial_search_def cache_ok_def heap_in_def)
  from activate_roots_in [OF c roots this] obtain r where r: "activate_roots Q roots initial_search = Some r"
    "\<And>st. r = Inr st \<Longrightarrow> search_in Q U F st" by auto
  show ?thesis
  proof (cases r)
    case (Inl e)
    with r(1) show ?thesis by (auto simp: activate_deps_loop_def)
  next
    case (Inr st)
    let ?n = "cost k w U F (Outer st)"
    have "run_machine ?n Q (Outer st) \<noteq> None" by (rule run_machine_returns [OF b rel]) (use r(2) Inr in auto)
    then obtain x where "run_machine ?n Q (Outer st) = Some x" by auto
    then have "\<forall>n\<ge>?n. activate_deps_loop n Q roots = Some x"
      using r(1) Inr run_machine_more [of ?n Q "Outer st" x] by (simp add: activate_deps_loop_def del: cost.simps)
    then show ?thesis by blast
  qed
qed

theorem resolver_returns_witness: "\<exists>N r. \<forall>n\<ge>N. activate_deps_loop n demo_queryer demo_roots = Some r"
proof (rule resolver_returns)
  show "closed_registry demo_queryer {demo_app, demo_lib 1, demo_lib 2} {}"
    by (auto simp: closed_registry_def demo_queryer_def demo_app_def demo_lib_def demo_dep_def features_wf_def fm_closed_def crates_apart_def
        split: if_splits)
  show "roots_in {demo_app, demo_lib 1, demo_lib 2} {} demo_roots"
    by (simp add: roots_in_def demo_roots_def request_in_def crate_features_def)
  show "\<not> debug_assertions (terminal demo_queryer)" by (simp add: demo_queryer_def quiet_terminal_def)
qed


section \<open>A search that never ends\<close>

text \<open>A package with a feature whose name is empty, which depends on itself and requests that feature.\<close>

definition loop_dep :: "(string, unit) dependency" where
  "loop_dep = demo_dep\<lparr>dep_name := ''a'', dep_features := [[]]\<rparr>"

definition loop_id :: "string package_id" where
  "loop_id = demo_id ''a'' 1"

definition loop_pkg :: "(string, unit) summary" where
  "loop_pkg = \<lparr>package_id = loop_id, dependencies = [loop_dep], features = [([], [])], checksum = None,
     links = None, namespaced_features = False\<rparr>"

definition loop_queryer :: "(string, unit) queryer" where
  "loop_queryer = demo_queryer\<lparr>reg_query := (\<lambda>d. Inr [loop_pkg])\<rparr>"

abbreviation loop_cand :: "(string, unit) candidate" where
  "loop_cand \<equiv> \<lparr>cand_summary = loop_pkg, replace = None\<rparr>"

definition loop_frame :: "(string, unit) deps_frame" where
  "loop_frame = \<lparr>frame_parent = loop_pkg, just_for_error_messages = False, remaining_siblings = new_iter [(loop_dep, [loop_cand], [[]])]\<rparr>"

definition spent_frame :: "(string, unit) deps_frame" where
  "spent_frame = loop_frame\<lparr>remaining_siblings := \<lparr>handed = [(loop_dep, [loop_cand], [[]])], ahead = []\<rparr>\<rparr>"

definition looping :: "(string, unit) search \<Rightarrow> bool" where
  "looping st \<longleftrightarrow>
     activations (st_cx st) = [((''a'', ''reg''), [loop_pkg])] \<and> resolved_features (st_cx st) = [] \<and> ctx_links (st_cx st) = [] \<and>
     st_cache st = [(loop_dep, [loop_cand])] \<and> st_stack st = [] \<and> st_past st = new_conflict_cache \<and>
     (st_remaining st = [loop_frame] \<or> st_remaining st = [loop_frame, spent_frame])"

lemma loop_query: "query_candidates loop_queryer loop_dep = Some (Inr [loop_cand])"
  by (simp add: query_candidates_def run_query_def loop_queryer_def demo_queryer_def apply_replacement_def sort_by_def)

lemma loop_requirements: "build_requirements loop_pkg (Required False [[]] False False) = Some (Inr new_requirements)"
  by (simp add: build_requirements_def requested_def loop_pkg_def new_feature_value_def build_value_def splitn2_def starts_with_def Let_def)

lemma loop_features:
  "resolve_features parent loop_pkg (Required False [[]] False False) cx = Some (Inr ([(loop_dep, [[]])], cx))"
  by (simp add: resolve_features_def loop_requirements)
     (simp add: loop_pkg_def loop_dep_def demo_dep_def collect_dep_def new_requirements_def dep_entry_def is_transitive_def Let_def)

lemma loop_activate:
  assumes "activations cx = [((''a'', ''reg''), [loop_pkg])]" "resolved_features cx = []"
  shows "activate loop_queryer (Some (p, d)) loop_cand (Required False [[]] False False) cx [(loop_dep, [loop_cand])] =
    Some (Inr (Some loop_frame, linked (Some (p, d)) loop_id cx, [(loop_dep, [loop_cand])]))"
proof -
  have pid: "package_id loop_pkg = loop_id" by (simp add: loop_pkg_def)
  have "flag_activated loop_pkg (Required False [[]] False False) (linked (Some (p, d)) loop_id cx) =
      Inr (False, linked (Some (p, d)) loop_id cx)"
    using assms by (simp add: flag_activated_def pid linked_def active_list_def activation_key_def loop_id_def demo_id_def summary_eq_def Let_def)
  then show ?thesis
    by (simp add: activate_plain pid build_deps_def loop_features query_def loop_frame_def)
qed

lemma loop_pop:
  assumes "h = [loop_frame] \<or> h = [loop_frame, spent_frame]"
  shows "pop_most_constrained h = (Some (False, loop_pkg, 0, loop_dep, [loop_cand], [[]]), [spent_frame])"
proof -
  have one: "pop_most_constrained [loop_frame] = (Some (False, loop_pkg, 0, loop_dep, [loop_cand], [[]]), [spent_frame])"
    by (simp add: pop_most_constrained.simps loop_frame_def spent_frame_def next_item_def new_iter_def heap_push_def)
  have "heap_pop frame_cmp [loop_frame, spent_frame] = Some (spent_frame, [loop_frame])"
    by (simp add: frame_cmp_def loop_frame_def spent_frame_def min_candidates_def peek_def new_iter_def cmp_def)
  moreover have "next_item (remaining_siblings spent_frame) = (None, remaining_siblings spent_frame)"
    by (simp add: spent_frame_def next_item_def)
  ultimately have "pop_most_constrained [loop_frame, spent_frame] = pop_most_constrained [loop_frame]"
    by (simp add: pop_most_constrained.simps [of "[loop_frame, spent_frame]"] del: heap_pop.simps)
  with one assms show ?thesis by auto
qed

lemma loop_run_steps:
  assumes l: "looping st"
  shows "\<exists>a st' st''. machine_step loop_queryer (Outer st) = Some (Inner a st') \<and>
    machine_step loop_queryer (Inner a st') = Some (Outer st'') \<and> looping st''"
proof -
  have h: "st_remaining st = [loop_frame] \<or> st_remaining st = [loop_frame, spent_frame]" using l by (simp add: looping_def)
  let ?a = "\<lparr>at_parent = loop_pkg, at_dep = loop_dep, at_features = [[]], at_candidates = new_remaining [loop_cand],
    at_conflicts = [], at_backtracked = False, at_just = False\<rparr>"
  let ?pg = "(st_progress st)\<lparr>pg_calls := pg_calls (st_progress st) + 1\<rparr>"
  let ?st = "st\<lparr>st_remaining := [spent_frame], st_progress := ?pg\<rparr>"
  let ?cx = "linked (Some (loop_pkg, loop_dep)) loop_id (st_cx st)"
  let ?st2 = "st\<lparr>st_cx := ?cx, st_stack := [], st_remaining := [loop_frame, spent_frame], st_progress := ?pg\<rparr>"
  have pg: "shell_status (terminal loop_queryer) (st_progress st) = Some (Inr ?pg)"
    by (simp add: shell_status_def loop_queryer_def demo_queryer_def quiet_terminal_def Let_def)
  have "machine_step loop_queryer (Outer st) = Some (Inner ?a ?st)"
    using loop_pop [OF h] pg by (simp add: machine_step_def outer_step_def)
  moreover have "machine_step loop_queryer (Inner ?a ?st) = Some (Outer ?st2)"
  proof -
    have prev: "prev_active (st_cx st) loop_dep = [loop_pkg]"
      using l by (simp add: prev_active_def active_list_def looping_def loop_dep_def demo_dep_def)
    have rc: "rc_next (new_remaining [loop_cand]) [] (st_cx st) loop_dep =
        (Some (loop_cand, False), \<lparr>rc_remaining = \<lparr>handed = [loop_cand], ahead = []\<rparr>, has_another = None\<rparr>, [])"
      by (simp add: rc_next_def prev new_remaining_def new_iter_def links_conflict_def semver_conflict_def summary_eq_def loop_pkg_def)
    have act: "activate loop_queryer (Some (loop_pkg, loop_dep)) loop_cand (Required False [[]] False False) (st_cx st) (st_cache st) =
        Some (Inr (Some loop_frame, ?cx, st_cache st))"
      using loop_activate [of "st_cx st" loop_pkg loop_dep] l by (simp add: looping_def)
    have df: "default_features loop_dep = False" by (simp add: loop_dep_def demo_dep_def)
    have past: "past_conflict (st_past st) ?cx pid loop_frame [spent_frame] False [] = Some ([], False)" for pid
      using l by (simp add: past_conflict_def looping_def new_conflict_cache_def conflicting_def find_conflicting_def
          dependencies_conflicting_with_def loop_frame_def new_iter_def)
    have fr: "loop_frame\<lparr>just_for_error_messages := False\<rparr> = loop_frame" by (simp add: loop_frame_def)
    have stack: "st_stack st = []" using l by (simp add: looping_def)
    show ?thesis
      by (simp add: machine_step_def inner_step_def rc try_candidate_def act df settle_frame_def past backtrack_for_def
          heap_push_def fr stack Let_def)
  qed
  moreover have "looping ?st2"
    using l by (simp add: looping_def linked_def)
  ultimately show ?thesis by blast
qed

lemma loop_forever: "looping st \<Longrightarrow> \<exists>m. machine_after n loop_queryer (Outer st) = Some m \<and> running m"
proof (induction n arbitrary: st rule: less_induct)
  case (less n)
  obtain a st' st'' where s: "machine_step loop_queryer (Outer st) = Some (Inner a st')"
    "machine_step loop_queryer (Inner a st') = Some (Outer st'')" "looping st''" using loop_run_steps [OF less.prems] by blast
  show ?case
  proof (cases "n < 2")
    case True
    then have "n = 0 \<or> n = Suc 0" by auto
    with s show ?thesis by auto
  next
    case False
    then obtain j where j: "n = Suc (Suc j)" by (metis le_add_diff_inverse2 add_2_eq_Suc' not_less)
    with s less.IH [of j st''] show ?thesis by simp
  qed
qed

text \<open>
  C10: without the restriction on feature names the search may run for ever.  A package that defines a
  feature with an empty name, depends on itself and requests that feature is activated; then, in a build without debug
  assertions, the main loop makes any number of steps without a panic and is still running, so no amount of fuel gives
  a result, although the check for cycles after the search would report the package.
\<close>

theorem resolver_diverges:
  "\<exists>st. activate_roots loop_queryer [(loop_pkg, Required False [[]] False False)] initial_search = Some (Inr st) \<and>
     (\<forall>n. \<exists>m. machine_after n loop_queryer (Outer st) = Some m \<and> running m) \<and>
     (\<forall>n. activate_deps_loop n loop_queryer [(loop_pkg, Required False [[]] False False)] = None)"
proof -
  let ?st = "initial_search\<lparr>st_cx := new_context\<lparr>resolve_graph := [Add loop_id], activations := [((''a'', ''reg''), [loop_pkg])]\<rparr>,
    st_cache := [(loop_dep, [loop_cand])], st_remaining := [loop_frame]\<rparr>"
  have pid: "package_id loop_pkg = loop_id" "links loop_pkg = None" by (simp_all add: loop_pkg_def)
  have "flag_activated loop_pkg (Required False [[]] False False) new_context =
      Inr (False, new_context\<lparr>resolve_graph := [Add loop_id], activations := [((''a'', ''reg''), [loop_pkg])]\<rparr>)"
    by (simp add: flag_activated_def pid new_context_def active_list_def activation_key_def loop_id_def demo_id_def Let_def)
  then have "activate loop_queryer None loop_cand (Required False [[]] False False) new_context [] =
      Some (Inr (Some loop_frame, new_context\<lparr>resolve_graph := [Add loop_id], activations := [((''a'', ''reg''), [loop_pkg])]\<rparr>, [(loop_dep, [loop_cand])]))"
    by (simp add: activate_plain linked_def build_deps_def loop_features query_def loop_query loop_frame_def)
  then have "activate_roots loop_queryer [(loop_pkg, Required False [[]] False False)] initial_search = Some (Inr ?st)"
    by (simp add: initial_search_def heap_push_def)
  moreover have "looping ?st" by (simp add: looping_def initial_search_def new_context_def)
  moreover from loop_forever [OF this] have "run_machine n loop_queryer (Outer ?st) = None" for n
    using run_machine_running by blast
  ultimately show ?thesis using loop_forever [of ?st] by (intro exI [of _ ?st]) (simp add: activate_deps_loop_def)
qed


end
