(* ===== verification/Registry.thy ===== *)
theory Registry
  imports Summary_Model "HOL-Library.Multiset"
begin

text \<open>
  The package registry, \<open>src/cargo/core/registry.rs\<close>: what answers the queries of the resolver.  It
  holds the loaded sources, the packages of the previous lock file (\<open>register_lock\<close>), the patches and
  the path overrides, and rewrites the summaries it hands out so that they stay with the locked
  versions (\<open>lock\<close>).  Source ids carry their precise version here; maps keyed by source ids are
  association lists keyed by \<open>sid_key\<close>, which is \<open>==\<close> on the ids the constructors make.  The
  trait \<open>Source\<close> and the loading of a source are arguments, with their state; a callback
  is the list of the summaries it was called with.  Warnings are collected; the shell does
  not fail.
\<close>

datatype 'u registry_error =
    SourceError string
  | UnableToUpdate "'u source_id" "'u registry_error"
  | FailedToLoad string "'u registry_error"
  | PatchNoCrates string 'u
  | PatchManyCandidates string 'u
  | PatchSameSource string 'u
  | FailedPatches 'u "'u registry_error"
  | OverrideButNoReal
  | PatchesAndOverride
  | NonLockedList

datatype registry_warning = DependencyAdded string string | DependencyRemoved string string

text \<open>A query answers the summaries it passed to the callback and the error that stopped it, if any.\<close>

record ('u, 'r, 'src) source_ops =
  load_source :: "'u source_id \<Rightarrow> string + 'src"
  src_id :: "'src \<Rightarrow> 'u source_id"
  src_update :: "'src \<Rightarrow> string option \<times> 'src"
  src_query :: "bool \<Rightarrow> ('u source_id, 'r) dependency \<Rightarrow> 'src \<Rightarrow>
      (('u source_id, 'r) summary list \<times> string option) \<times> 'src"
  src_describe :: "'src \<Rightarrow> string"
  src_is_replaced :: "'src \<Rightarrow> bool"

datatype source_kind = OverrideSource | LockedSource | NormalSource

type_synonym 'u locked_pair = "'u source_id package_id \<times> 'u source_id package_id list"
type_synonym 'u locked_map = "((kind \<times> 'u) \<times> (string \<times> 'u locked_pair list) list) list"
type_synonym 'u patch_ids = "('u \<times> 'u source_id package_id list) list"

record ('u, 'r, 'src) registry =
  reg_sources :: "((kind \<times> 'u) \<times> 'src) list"
  overrides :: "'u source_id list"
  source_ids :: "((kind \<times> 'u) \<times> 'u source_id \<times> source_kind) list"
  reg_locked :: "'u locked_map"
  reg_patches :: "('u \<times> ('u source_id, 'r) summary list) list"
  patches_locked :: bool
  patches_available :: "'u patch_ids"
  reg_warnings :: "registry_warning list"

definition new_registry :: "('u, 'r, 'src) registry" where
  "new_registry = \<lparr>reg_sources = [], overrides = [], source_ids = [], reg_locked = [], reg_patches = [],
                   patches_locked = False, patches_available = [], reg_warnings = []\<rparr>"

section \<open>Locking\<close>

text \<open>Package ids and dependencies up to \<open>==\<close>, which the operations of \<open>Dependency\<close> look at.\<close>

definition key_pid :: "'u source_id package_id \<Rightarrow> (kind \<times> 'u) package_id" where
  "key_pid p = \<lparr>pid_name = pid_name p, pid_version = pid_version p, pid_source = sid_key (pid_source p)\<rparr>"

definition key_dep :: "('u source_id, 'r) dependency \<Rightarrow> (kind \<times> 'u, 'r) dependency" where
  "key_dep d =
     \<lparr>dep_name = dep_name d, dep_source_id = sid_key (dep_source_id d),
      registry_id = map_option sid_key (registry_id d), dep_req = dep_req d, specified_req = specified_req d,
      dep_kind = dependency.dep_kind d, only_match_name = only_match_name d,
      explicit_name_in_toml = explicit_name_in_toml d, optional = optional d,
      default_features = default_features d, dep_features = dep_features d, dep_platform = dep_platform d\<rparr>"

abbreviation accepts :: "'r semver_ops \<Rightarrow> ('u source_id, 'r) dependency \<Rightarrow> 'u source_id package_id \<Rightarrow> bool" where
  "accepts S d p \<equiv> matches_id S (key_dep d) (key_pid p)"

text \<open>\<open>Dependency::lock_to\<close> with the precise source it leaves behind.\<close>

definition lock_dep_to ::
    "'r semver_ops \<Rightarrow> 'u source_id package_id \<Rightarrow> ('u source_id, 'r) dependency \<Rightarrow> ('u source_id, 'r) dependency option" where
  "lock_dep_to S pid d =
     (if sid_key (dep_source_id d) \<noteq> sid_key (pid_source pid) then None
      else if \<not> req_matches S (dep_req d) (pid_version pid) then None
      else Some (set_source_id (pid_source pid) (set_version_req (req_exact S (pid_version pid)) d)))"

definition register_lock ::
    "'u source_id package_id \<Rightarrow> 'u source_id package_id list \<Rightarrow> ('u, 'r, 'src) registry \<Rightarrow> ('u, 'r, 'src) registry" where
  "register_lock pid deps st =
     (let sub_map = (case map_of (reg_locked st) (sid_key (pid_source pid)) of Some m \<Rightarrow> m | None \<Rightarrow> []);
          sub_vec = (case map_of sub_map (pid_name pid) of Some v \<Rightarrow> v | None \<Rightarrow> [])
      in st\<lparr>reg_locked := AList.update (sid_key (pid_source pid))
              (AList.update (pid_name pid) (sub_vec @ [(pid, deps)]) sub_map) (reg_locked st)\<rparr>)"

definition locked_vec :: "'u locked_map \<Rightarrow> 'u source_id \<Rightarrow> string \<Rightarrow> 'u locked_pair list option" where
  "locked_vec locked sid name = Option.bind (map_of locked (sid_key sid)) (\<lambda>m. map_of m name)"

text \<open>\<open>locked.get(source).and_then(get(name)).and_then(find)\<close>.\<close>

definition locked_find ::
    "'u locked_map \<Rightarrow> 'u source_id \<Rightarrow> string \<Rightarrow> ('u source_id package_id \<Rightarrow> bool) \<Rightarrow> 'u locked_pair option" where
  "locked_find locked sid name P = Option.bind (locked_vec locked sid name) (find (\<lambda>(pid, _). P pid))"

definition patch_locked :: "'u locked_map \<Rightarrow> 'u source_id package_id \<Rightarrow> bool" where
  "patch_locked locked patch_id =
     (case locked_vec locked (pid_source patch_id) (pid_name patch_id) of
        Some v \<Rightarrow> list_ex (\<lambda>(pid, _). key_pid pid = key_pid patch_id) v
      | None \<Rightarrow> False)"

text \<open>The closure \<open>lock\<close> maps over the dependencies; \<open>None\<close> is the assertion that at most one
  patch matches, or one of those of \<open>lock_to\<close>.\<close>

definition lock_dep ::
    "'r semver_ops \<Rightarrow> 'u locked_map \<Rightarrow> 'u patch_ids \<Rightarrow> 'u locked_pair option \<Rightarrow> ('u source_id, 'r) dependency \<Rightarrow>
       ('u source_id, 'r) dependency option" where
  "lock_dep S locked patches pair dep =
     (case Option.bind pair (\<lambda>(_, locked_deps). find (accepts S dep) locked_deps) of
        Some l \<Rightarrow> lock_dep_to S l dep
      | None \<Rightarrow>
          (case locked_find locked (dep_source_id dep) (dep_name dep) (accepts S dep) of
             Some (pid, _) \<Rightarrow> lock_dep_to S pid dep
           | None \<Rightarrow>
               (case map_option (filter (matches_ignoring_source S dep)) (map_of patches (sid_url (dep_source_id dep))) of
                  Some (patch_id # remaining) \<Rightarrow>
                    if remaining \<noteq> [] then None
                    else if patch_locked locked patch_id
                    then Some (set_version_req (req_exact S (pid_version patch_id)) dep)
                    else Some dep
                | _ \<Rightarrow> Some dep)))"

text \<open>\<open>iter.map(f).collect()\<close> where \<open>f\<close> may panic.\<close>

fun map_panic :: "('a \<Rightarrow> 'b option) \<Rightarrow> 'a list \<Rightarrow> 'b list option" where
  "map_panic f [] = Some []"
| "map_panic f (x # xs) = Option.bind (f x) (\<lambda>y. map_option ((#) y) (map_panic f xs))"

definition lock ::
    "'r semver_ops \<Rightarrow> 'u locked_map \<Rightarrow> 'u patch_ids \<Rightarrow> ('u source_id, 'r) summary \<Rightarrow> ('u source_id, 'r) summary option" where
  "lock S locked patches s =
     (let pair = locked_find locked (pid_source (package_id s)) (pid_name (package_id s))
                   (\<lambda>pid. key_pid pid = key_pid (package_id s));
          s1 = (case pair of Some (prec, _) \<Rightarrow> override_id prec s | None \<Rightarrow> s)
      in map_option (\<lambda>ds. s1\<lparr>dependencies := ds\<rparr>) (map_panic (lock_dep S locked patches pair) (dependencies s1)))"

definition reg_lock ::
    "'r semver_ops \<Rightarrow> ('u source_id, 'r) summary \<Rightarrow> ('u, 'r, 'src) registry \<Rightarrow> ('u source_id, 'r) summary option" where
  "reg_lock S s st = (if patches_locked st then lock S (reg_locked st) (patches_available st) s else None)"

definition lock_patches :: "'r semver_ops \<Rightarrow> ('u, 'r, 'src) registry \<Rightarrow> ('u, 'r, 'src) registry option" where
  "lock_patches S st =
     (if patches_locked st then None
      else map_option (\<lambda>ps. st\<lparr>reg_patches := ps, patches_locked := True\<rparr>)
             (map_panic (\<lambda>(url, ss). map_option (Pair url)
                  (map_panic (lock S (reg_locked st) (patches_available st)) ss)) (reg_patches st)))"

section \<open>Sources\<close>

text \<open>The result of an operation with the state it leaves; \<open>None\<close> is a panic.\<close>

type_synonym ('u, 'r, 'src, 'a) reg_result = "(('u registry_error + 'a) \<times> ('u, 'r, 'src) registry) option"

definition add_source ::
    "('u, 'r, 'src) source_ops \<Rightarrow> 'src \<Rightarrow> source_kind \<Rightarrow> ('u, 'r, 'src) registry \<Rightarrow> ('u, 'r, 'src) registry" where
  "add_source ops src k st =
     (let sid = src_id ops src
      in st\<lparr>reg_sources := AList.update (sid_key sid) src (reg_sources st),
            source_ids := AList.update (sid_key sid) (sid, k) (source_ids st)\<rparr>)"

definition add_preloaded ::
    "('u, 'r, 'src) source_ops \<Rightarrow> 'src \<Rightarrow> ('u, 'r, 'src) registry \<Rightarrow> ('u, 'r, 'src) registry" where
  "add_preloaded ops src st = add_source ops src LockedSource st"

definition add_override ::
    "('u, 'r, 'src) source_ops \<Rightarrow> 'src \<Rightarrow> ('u, 'r, 'src) registry \<Rightarrow> ('u, 'r, 'src) registry" where
  "add_override ops src st = add_source ops src OverrideSource (st\<lparr>overrides := overrides st @ [src_id ops src]\<rparr>)"

text \<open>A source found by \<open>get_mut\<close> is changed in place.\<close>

definition get_source :: "'u source_id \<Rightarrow> ('u, 'r, 'src) registry \<Rightarrow> 'src option" where
  "get_source sid st = map_of (reg_sources st) (sid_key sid)"

definition put_source :: "'u source_id \<Rightarrow> 'src \<Rightarrow> ('u, 'r, 'src) registry \<Rightarrow> ('u, 'r, 'src) registry" where
  "put_source sid src st = st\<lparr>reg_sources := AList.update (sid_key sid) src (reg_sources st)\<rparr>"

definition reg_load ::
    "('u, 'r, 'src) source_ops \<Rightarrow> 'u source_id \<Rightarrow> source_kind \<Rightarrow> ('u, 'r, 'src) registry \<Rightarrow> ('u, 'r, 'src, unit) reg_result" where
  "reg_load ops sid k st =
     (case load_source ops sid of
        Inl e \<Rightarrow> Some (Inl (UnableToUpdate sid (SourceError e)), st)
      | Inr src \<Rightarrow>
          if sid_key (src_id ops src) \<noteq> sid_key sid then None
          else
            let st1 = (if k = OverrideSource then st\<lparr>overrides := overrides st @ [sid]\<rparr> else st);
                st2 = add_source ops src k st1
            in case get_source sid st2 of
                 None \<Rightarrow> None
               | Some src2 \<Rightarrow>
                   (case src_update ops src2 of
                      (None, src3) \<Rightarrow> Some (Inr (), put_source sid src3 st2)
                    | (Some e, src3) \<Rightarrow> Some (Inl (UnableToUpdate sid (SourceError e)), put_source sid src3 st2)))"

definition ensure_loaded ::
    "('u, 'r, 'src) source_ops \<Rightarrow> 'u source_id \<Rightarrow> source_kind \<Rightarrow> ('u, 'r, 'src) registry \<Rightarrow> ('u, 'r, 'src, unit) reg_result" where
  "ensure_loaded ops namespace k st =
     (case map_of (source_ids st) (sid_key namespace) of
        Some (_, LockedSource) \<Rightarrow> Some (Inr (), st)
      | Some (previous, _) \<Rightarrow>
          if precise previous = None then Some (Inr (), st)
          else if precise previous = precise namespace then Some (Inr (), st)
          else reg_load ops namespace k st
      | None \<Rightarrow> reg_load ops namespace k st)"

fun add_sources ::
    "('u, 'r, 'src) source_ops \<Rightarrow> 'u source_id list \<Rightarrow> ('u, 'r, 'src) registry \<Rightarrow> ('u, 'r, 'src, unit) reg_result" where
  "add_sources ops [] st = Some (Inr (), st)"
| "add_sources ops (sid # sids) st =
     (case ensure_loaded ops sid LockedSource st of
        None \<Rightarrow> None
      | Some (Inl e, st1) \<Rightarrow> Some (Inl e, st1)
      | Some (Inr _, st1) \<Rightarrow> add_sources ops sids st1)"

text \<open>\<open>Source::query_vec\<close> on a loaded source: all summaries, or the error.\<close>

definition query_source ::
    "('u, 'r, 'src) source_ops \<Rightarrow> 'u source_id \<Rightarrow> ('u source_id, 'r) dependency \<Rightarrow> ('u, 'r, 'src) registry \<Rightarrow>
       ('u, 'r, 'src, ('u source_id, 'r) summary list) reg_result" where
  "query_source ops sid dep st =
     (case get_source sid st of
        None \<Rightarrow> None
      | Some src \<Rightarrow>
          (case src_query ops False dep src of
             ((ss, None), src1) \<Rightarrow> Some (Inr ss, put_source sid src1 st)
           | ((_, Some e), src1) \<Rightarrow> Some (Inl (SourceError e), put_source sid src1 st)))"

section \<open>Patches and overrides\<close>

text \<open>One entry of a patch section, resolved to the one summary it has to name.\<close>

definition patch_summary ::
    "('u, 'r, 'src) source_ops \<Rightarrow> 'u \<Rightarrow> ('u source_id, 'r) dependency \<Rightarrow> ('u, 'r, 'src) registry \<Rightarrow>
       ('u, 'r, 'src, ('u source_id, 'r) summary) reg_result" where
  "patch_summary ops url dep st =
     (case ensure_loaded ops (dep_source_id dep) NormalSource st of
        None \<Rightarrow> None
      | Some (Inl e, st1) \<Rightarrow> Some (Inl (FailedToLoad (dep_name dep) e), st1)
      | Some (Inr _, st1) \<Rightarrow>
          (case query_source ops (dep_source_id dep) dep st1 of
             None \<Rightarrow> None
           | Some (Inl e, st2) \<Rightarrow> Some (Inl e, st2)
           | Some (Inr ss, st2) \<Rightarrow>
               Some ((case ss of
                        [] \<Rightarrow> Inl (PatchNoCrates (dep_name dep) url)
                      | s # others \<Rightarrow>
                          if others \<noteq> [] then Inl (PatchManyCandidates (dep_name dep) url)
                          else if sid_url (pid_source (package_id s)) = url then Inl (PatchSameSource (dep_name dep) url)
                          else Inr s), st2)))"

fun patch_summaries ::
    "('u, 'r, 'src) source_ops \<Rightarrow> 'u \<Rightarrow> ('u source_id, 'r) dependency list \<Rightarrow> ('u, 'r, 'src) registry \<Rightarrow>
       ('u, 'r, 'src, ('u source_id, 'r) summary list) reg_result" where
  "patch_summaries ops url [] st = Some (Inr [], st)"
| "patch_summaries ops url (dep # deps) st =
     (case patch_summary ops url dep st of
        None \<Rightarrow> None
      | Some (Inl e, st1) \<Rightarrow> Some (Inl e, st1)
      | Some (Inr s, st1) \<Rightarrow>
          (case patch_summaries ops url deps st1 of
             None \<Rightarrow> None
           | Some (Inl e, st2) \<Rightarrow> Some (Inl e, st2)
           | Some (Inr ss, st2) \<Rightarrow> Some (Inr (s # ss), st2)))"

definition reg_patch ::
    "('u, 'r, 'src) source_ops \<Rightarrow> 'u \<Rightarrow> ('u source_id, 'r) dependency list \<Rightarrow> ('u, 'r, 'src) registry \<Rightarrow>
       ('u, 'r, 'src, unit) reg_result" where
  "reg_patch ops url deps st =
     (case patch_summaries ops url deps st of
        None \<Rightarrow> None
      | Some (Inl e, st1) \<Rightarrow> Some (Inl (FailedPatches url e), st1)
      | Some (Inr ss, st1) \<Rightarrow>
          Some (Inr (), st1\<lparr>patches_available := AList.update url (map package_id ss) (patches_available st1),
                           reg_patches := AList.update url ss (reg_patches st1)\<rparr>))"

text \<open>The loop over the overrides; the first one that answers wins.\<close>

fun query_overrides ::
    "('u, 'r, 'src) source_ops \<Rightarrow> 'r semver_ops \<Rightarrow> 'u source_id list \<Rightarrow> ('u source_id, 'r) dependency \<Rightarrow>
       ('u, 'r, 'src) registry \<Rightarrow> ('u, 'r, 'src, ('u source_id, 'r) summary option) reg_result" where
  "query_overrides ops S [] dep st = Some (Inr None, st)"
| "query_overrides ops S (sid # sids) dep st =
     (case new_override S (dep_name dep) sid of
        None \<Rightarrow> None
      | Some d \<Rightarrow>
          (case query_source ops sid d st of
             None \<Rightarrow> None
           | Some (Inl e, st1) \<Rightarrow> Some (Inl e, st1)
           | Some (Inr (s # _), st1) \<Rightarrow> Some (Inr (Some s), st1)
           | Some (Inr [], st1) \<Rightarrow> query_overrides ops S sids dep st1))"

text \<open>The dependencies of an override against those of the package it replaces: the first one that
  is not among the real ones, or else the first real one that is left over.\<close>

fun remove_dep ::
    "('u source_id, 'r) dependency \<Rightarrow> ('u source_id, 'r) dependency list \<Rightarrow> ('u source_id, 'r) dependency list option" where
  "remove_dep dep [] = None"
| "remove_dep dep (d # ds) = (if key_dep dep = key_dep d then Some ds else map_option ((#) d) (remove_dep dep ds))"

fun override_warning ::
    "string \<Rightarrow> ('u source_id, 'r) dependency list \<Rightarrow> ('u source_id, 'r) dependency list \<Rightarrow> registry_warning option" where
  "override_warning name [] [] = None"
| "override_warning name [] (d # _) = Some (DependencyRemoved name (dep_name d))"
| "override_warning name (dep # deps) real_deps =
     (case remove_dep dep real_deps of
        Some real_deps' \<Rightarrow> override_warning name deps real_deps'
      | None \<Rightarrow> Some (DependencyAdded name (dep_name dep)))"

definition warn_bad_override ::
    "('u source_id, 'r) summary \<Rightarrow> ('u source_id, 'r) summary \<Rightarrow> ('u, 'r, 'src) registry \<Rightarrow> ('u, 'r, 'src) registry" where
  "warn_bad_override override_summary real_summary st =
     (case override_warning (pid_name (package_id override_summary)) (dependencies override_summary) (dependencies real_summary) of
        None \<Rightarrow> st
      | Some w \<Rightarrow> st\<lparr>reg_warnings := reg_warnings st @ [w]\<rparr>)"

section \<open>Queries\<close>

text \<open>The answer of a query: the summaries the callback got and how the query ended.\<close>

type_synonym ('u, 'r, 'src) query_result =
  "((('u source_id, 'r) summary list \<times> ('u registry_error + unit)) \<times> ('u, 'r, 'src) registry) option"

definition deliver_override ::
    "'r semver_ops \<Rightarrow> ('u source_id, 'r) summary \<Rightarrow> nat \<Rightarrow> ('u source_id, 'r) summary option \<Rightarrow>
       ('u, 'r, 'src) registry \<Rightarrow> ('u, 'r, 'src) query_result" where
  "deliver_override S override_summary n to_warn st =
     (if n > 1 then Some (([], Inl NonLockedList), st)
      else
        let st1 = (case to_warn of None \<Rightarrow> st | Some real \<Rightarrow> warn_bad_override override_summary real st)
        in case reg_lock S override_summary st1 of
             None \<Rightarrow> None
           | Some s \<Rightarrow> Some (([s], Inr ()), st1))"

definition matching_patches ::
    "'r semver_ops \<Rightarrow> ('u source_id, 'r) dependency \<Rightarrow> ('u, 'r, 'src) registry \<Rightarrow> ('u source_id, 'r) summary list" where
  "matching_patches S dep st =
     (case map_of (reg_patches st) (sid_url (dep_source_id dep)) of
        Some extra \<Rightarrow> filter (\<lambda>s. matches_ignoring_source S dep (package_id s)) extra
      | None \<Rightarrow> [])"

text \<open>The two ways to query the real source: handing its summaries on, or counting them.\<close>

definition query_real ::
    "('u, 'r, 'src) source_ops \<Rightarrow> 'r semver_ops \<Rightarrow> ('u source_id, 'r) dependency \<Rightarrow> bool \<Rightarrow>
       ('u source_id, 'r) summary list \<Rightarrow> 'src \<Rightarrow> ('u, 'r, 'src) registry \<Rightarrow> ('u, 'r, 'src) query_result" where
  "query_real ops S dep fuzzy patches src st =
     (case src_query ops fuzzy dep src of
        ((found, e), src1) \<Rightarrow>
          (case map_panic (lock S (reg_locked st) (patches_available st))
                  (filter (\<lambda>s. \<forall>p\<in>set patches. pid_version (package_id s) \<noteq> pid_version (package_id p)) found) of
             None \<Rightarrow> None
           | Some ss \<Rightarrow>
               Some ((patches @ ss, case e of None \<Rightarrow> Inr () | Some m \<Rightarrow> Inl (SourceError m)),
                     put_source (dep_source_id dep) src1 st)))"

definition query_checked ::
    "('u, 'r, 'src) source_ops \<Rightarrow> 'r semver_ops \<Rightarrow> ('u source_id, 'r) dependency \<Rightarrow> bool \<Rightarrow>
       ('u source_id, 'r) summary \<Rightarrow> 'src \<Rightarrow> ('u, 'r, 'src) registry \<Rightarrow> ('u, 'r, 'src) query_result" where
  "query_checked ops S dep fuzzy override_summary src st =
     (case src_query ops fuzzy dep src of
        ((_, Some m), src1) \<Rightarrow> Some (([], Inl (SourceError m)), put_source (dep_source_id dep) src1 st)
      | ((found, None), src1) \<Rightarrow>
          deliver_override S override_summary (length found) (if found = [] then None else Some (last found))
            (put_source (dep_source_id dep) src1 st))"

definition reg_query ::
    "('u, 'r, 'src) source_ops \<Rightarrow> 'r semver_ops \<Rightarrow> ('u source_id, 'r) dependency \<Rightarrow> bool \<Rightarrow>
       ('u, 'r, 'src) registry \<Rightarrow> ('u, 'r, 'src) query_result" where
  "reg_query ops S dep fuzzy st =
     (if \<not> patches_locked st then None
      else case query_overrides ops S (overrides st) dep st of
        None \<Rightarrow> None
      | Some (Inl e, st1) \<Rightarrow> Some (([], Inl e), st1)
      | Some (Inr override_summary, st1) \<Rightarrow>
          let patches = matching_patches S dep st1
          in if length patches = 1 \<and> is_locked S dep then
               (case override_summary of
                  Some s \<Rightarrow> deliver_override S s 1 (Some (hd patches)) st1
                | None \<Rightarrow> Some ((patches, Inr ()), st1))
             else
               (case ensure_loaded ops (dep_source_id dep) NormalSource st1 of
                  None \<Rightarrow> None
                | Some (Inl e, st2) \<Rightarrow> Some (([], Inl (FailedToLoad (dep_name dep) e)), st2)
                | Some (Inr _, st2) \<Rightarrow>
                    (case (override_summary, get_source (dep_source_id dep) st2) of
                       (Some _, None) \<Rightarrow> Some (([], Inl OverrideButNoReal), st2)
                     | (None, None) \<Rightarrow> Some (([], Inr ()), st2)
                     | (None, Some src) \<Rightarrow> query_real ops S dep fuzzy patches src st2
                     | (Some s, Some src) \<Rightarrow>
                         if patches \<noteq> [] then Some (([], Inl PatchesAndOverride), st2)
                         else query_checked ops S dep fuzzy s src st2)))"

definition describe_source :: "('u, 'r, 'src) source_ops \<Rightarrow> 'u url_ops \<Rightarrow> 'u source_id \<Rightarrow> ('u, 'r, 'src) registry \<Rightarrow> string" where
  "describe_source ops U sid st = (case get_source sid st of Some src \<Rightarrow> src_describe ops src | None \<Rightarrow> sid_display U sid)"

definition reg_is_replaced :: "('u, 'r, 'src) source_ops \<Rightarrow> 'u source_id \<Rightarrow> ('u, 'r, 'src) registry \<Rightarrow> bool" where
  "reg_is_replaced ops sid st = (case get_source sid st of Some src \<Rightarrow> src_is_replaced ops src | None \<Rightarrow> False)"

end
