(* ===== verification/Registry_Correct.thy ===== *)
theory Registry_Correct
  imports Registry
begin

text \<open>
  What the registry guarantees.  Locking a summary only narrows what its dependencies accept, pins the
  dependencies that the lock file recorded and is idempotent; the nested map of locked packages is a
  search in the list of registered packages.  Queries on a registry built by its operations
  do not panic, and answer the patches and the versions of the source that are not patched.
\<close>

section \<open>Maps that may panic\<close>

lemma map_panic_Some: "map_panic f xs = Some ys \<longleftrightarrow> list_all2 (\<lambda>x y. f x = Some y) xs ys"
proof (induction xs arbitrary: ys)
  case Nil
  then show ?case by auto
next
  case (Cons x xs)
  then show ?case by (cases ys) (auto split: bind_splits)
qed

lemma map_panic_None: "map_panic f xs = None \<longleftrightarrow> (\<exists>x\<in>set xs. f x = None)"
  by (induction xs) (auto split: bind_splits)

lemma list_all2_from: "list_all2 R xs ys \<Longrightarrow> y \<in> set ys \<Longrightarrow> \<exists>x\<in>set xs. R x y"
  by (induction rule: list_all2_induct) auto

lemma find_narrow:
  assumes "find P xs = Some x" "Q x" "\<And>y. Q y \<Longrightarrow> P y"
  shows "find Q xs = Some x"
  using assms by (induction xs) (auto split: if_splits)

lemma find_None_narrow:
  assumes "find P xs = None" "\<And>y. Q y \<Longrightarrow> P y"
  shows "find Q xs = None"
  using assms by (auto simp: find_None_iff)

lemma find_SomeD: "find P xs = Some x \<Longrightarrow> x \<in> set xs \<and> P x"
  by (auto simp: find_Some_iff)

section \<open>Dependencies up to equality\<close>

lemma key_pid_simps [simp]:
  "pid_name (key_pid p) = pid_name p" "pid_version (key_pid p) = pid_version p"
  "pid_source (key_pid p) = sid_key (pid_source p)"
  by (simp_all add: key_pid_def)

lemma key_dep_simps [simp]:
  "dep_name (key_dep d) = dep_name d" "dep_source_id (key_dep d) = sid_key (dep_source_id d)"
  "dep_req (key_dep d) = dep_req d" "only_match_name (key_dep d) = only_match_name d"
  by (simp_all add: key_dep_def)

lemma key_pid_eq_iff:
  "key_pid p = key_pid q \<longleftrightarrow>
     pid_name p = pid_name q \<and> pid_version p = pid_version q \<and> sid_key (pid_source p) = sid_key (pid_source q)"
  by (simp add: key_pid_def)

lemma accepts_iff:
  "accepts S d p \<longleftrightarrow> dep_name d = pid_name p \<and>
     (only_match_name d \<or> req_matches S (dep_req d) (pid_version p) \<and> sid_key (dep_source_id d) = sid_key (pid_source p))"
  by (simp add: matches_id_def)

text \<open>The model of the semver crate the theorems on locking use.\<close>

definition exact_reqs :: "'r semver_ops \<Rightarrow> bool" where
  "exact_reqs S \<longleftrightarrow> (\<forall>v. (\<forall>w. req_matches S (req_exact S v) w \<longleftrightarrow> w = v) \<and> starts_with ''='' (req_str S (req_exact S v)))"

definition locked_to :: "'r semver_ops \<Rightarrow> 'u source_id package_id \<Rightarrow> ('u source_id, 'r) dependency \<Rightarrow> ('u source_id, 'r) dependency" where
  "locked_to S pid d = set_source_id (pid_source pid) (set_version_req (req_exact S (pid_version pid)) d)"

lemma lock_dep_to_accepts: "accepts S d p \<Longrightarrow> \<not> only_match_name d \<Longrightarrow> lock_dep_to S p d = Some (locked_to S p d)"
  by (simp add: accepts_iff lock_dep_to_def locked_to_def)

lemma locked_to_simps [simp]:
  "dep_name (locked_to S p d) = dep_name d" "only_match_name (locked_to S p d) = only_match_name d"
  "dep_source_id (locked_to S p d) = pid_source p" "dep_req (locked_to S p d) = req_exact S (pid_version p)"
  by (simp_all add: locked_to_def set_source_id_def set_version_req_def)

lemma locked_to_accepts:
  assumes "exact_reqs S" "accepts S d p" "\<not> only_match_name d"
  shows "accepts S (locked_to S p d) q \<longleftrightarrow> key_pid q = key_pid p"
  using assms by (auto simp: accepts_iff exact_reqs_def key_pid_eq_iff)

lemma locked_to_again: "locked_to S p (locked_to S p d) = locked_to S p d"
  by (simp add: locked_to_def set_source_id_def set_version_req_def)

lemma accepts_key: "key_pid p = key_pid q \<Longrightarrow> accepts S d p \<longleftrightarrow> accepts S d q"
  by simp

section \<open>One dependency\<close>

text \<open>The four ends of the closure: locked through the entry of the package, locked to another known
  package, pinned to the version of a patch, left alone.\<close>

definition first_hit :: "'r semver_ops \<Rightarrow> 'u locked_pair option \<Rightarrow> ('u source_id, 'r) dependency \<Rightarrow> 'u source_id package_id option" where
  "first_hit S pair dep = Option.bind pair (\<lambda>(_, locked_deps). find (accepts S dep) locked_deps)"

definition second_hit :: "'r semver_ops \<Rightarrow> 'u locked_map \<Rightarrow> ('u source_id, 'r) dependency \<Rightarrow> 'u source_id package_id option" where
  "second_hit S locked dep = map_option fst (locked_find locked (dep_source_id dep) (dep_name dep) (accepts S dep))"

definition patch_hits :: "'r semver_ops \<Rightarrow> 'u patch_ids \<Rightarrow> ('u source_id, 'r) dependency \<Rightarrow> 'u source_id package_id list" where
  "patch_hits S patches dep =
     filter (matches_ignoring_source S dep)
       (case map_of patches (sid_url (dep_source_id dep)) of Some v \<Rightarrow> v | None \<Rightarrow> [])"

lemma lock_dep_hits:
  "lock_dep S locked patches pair dep =
     (case first_hit S pair dep of
        Some l \<Rightarrow> lock_dep_to S l dep
      | None \<Rightarrow>
          (case second_hit S locked dep of
             Some l \<Rightarrow> lock_dep_to S l dep
           | None \<Rightarrow>
               (case patch_hits S patches dep of
                  [] \<Rightarrow> Some dep
                | p # ps \<Rightarrow>
                    if ps \<noteq> [] then None
                    else if patch_locked locked p then Some (set_version_req (req_exact S (pid_version p)) dep)
                    else Some dep)))"
  by (simp add: lock_dep_def first_hit_def second_hit_def patch_hits_def split: option.split list.split prod.split)

lemma first_hit_accepts: "first_hit S pair dep = Some l \<Longrightarrow> accepts S dep l \<and> (\<exists>q ld. pair = Some (q, ld) \<and> l \<in> set ld)"
  by (auto simp: first_hit_def bind_eq_Some_conv dest!: find_SomeD)

lemma second_hit_accepts: "second_hit S locked dep = Some l \<Longrightarrow> accepts S dep l"
  by (auto simp: second_hit_def locked_find_def bind_eq_Some_conv dest!: find_SomeD)

lemma patch_hits_match: "p \<in> set (patch_hits S patches dep) \<Longrightarrow> matches_ignoring_source S dep p"
  by (simp add: patch_hits_def)

text \<open>A dependency that accepts less, of the same name and source, has the same hits as long as it accepts them.\<close>

definition narrower :: "'r semver_ops \<Rightarrow> ('u source_id, 'r) dependency \<Rightarrow> ('u source_id, 'r) dependency \<Rightarrow> bool" where
  "narrower S d' d \<longleftrightarrow> dep_name d' = dep_name d \<and> sid_key (dep_source_id d') = sid_key (dep_source_id d) \<and>
     (\<forall>p. accepts S d' p \<longrightarrow> accepts S d p)"

lemma first_hit_narrower:
  assumes "narrower S d' d"
  shows "first_hit S pair d = None \<Longrightarrow> first_hit S pair d' = None"
    and "first_hit S pair d = Some l \<Longrightarrow> accepts S d' l \<Longrightarrow> first_hit S pair d' = Some l"
  using assms find_narrow [of "accepts S d" _ l "accepts S d'"] find_None_narrow [of "accepts S d" _ "accepts S d'"]
  unfolding first_hit_def narrower_def by (cases pair; force)+

lemma second_hit_narrower:
  assumes n: "narrower S d' d"
  shows "second_hit S locked d = None \<Longrightarrow> second_hit S locked d' = None"
    and "second_hit S locked d = Some l \<Longrightarrow> accepts S d' l \<Longrightarrow> second_hit S locked d' = Some l"
proof -
  have vec: "locked_vec locked (dep_source_id d') (dep_name d') = locked_vec locked (dep_source_id d) (dep_name d)"
    using n by (simp add: locked_vec_def narrower_def)
  have imp: "(case y of (pid, _) \<Rightarrow> accepts S d' pid) \<Longrightarrow> (case y of (pid, _) \<Rightarrow> accepts S d pid)" for y
    using n by (auto simp: narrower_def split: prod.splits)
  show "second_hit S locked d = None \<Longrightarrow> second_hit S locked d' = None"
    using find_None_narrow [OF _ imp] by (cases "locked_vec locked (dep_source_id d) (dep_name d)") (auto simp: second_hit_def locked_find_def vec)
  show "second_hit S locked d' = Some l" if hit: "second_hit S locked d = Some l" and "accepts S d' l"
  proof -
    from hit obtain v ds where "locked_vec locked (dep_source_id d) (dep_name d) = Some v" "find (\<lambda>(pid, _). accepts S d pid) v = Some (l, ds)"
      by (auto simp: second_hit_def locked_find_def bind_eq_Some_conv)
    with find_narrow [OF this(2) _ imp] \<open>accepts S d' l\<close> show ?thesis by (simp add: second_hit_def locked_find_def vec)
  qed
qed

lemma lock_dep_cases:
  assumes "lock_dep S locked patches pair d = Some d'" "\<not> only_match_name d"
  obtains (First) l where "first_hit S pair d = Some l" "accepts S d l" "d' = locked_to S l d"
    | (Second) l where "first_hit S pair d = None" "second_hit S locked d = Some l" "accepts S d l" "d' = locked_to S l d"
    | (Third) p where "first_hit S pair d = None" "second_hit S locked d = None" "patch_hits S patches d = [p]"
        "patch_locked locked p" "d' = set_version_req (req_exact S (pid_version p)) d"
    | (Unlocked) "first_hit S pair d = None" "second_hit S locked d = None" "d' = d"
proof (cases "first_hit S pair d")
  case (Some l)
  with assms First lock_dep_to_accepts [of S d l] first_hit_accepts [OF Some] show ?thesis
    by (auto simp: lock_dep_hits)
next
  case None
  note 1 = None
  show ?thesis
  proof (cases "second_hit S locked d")
    case (Some l)
    with 1 assms Second lock_dep_to_accepts [of S d l] second_hit_accepts [OF Some] show ?thesis
      by (auto simp: lock_dep_hits)
  next
    case None
    with 1 assms(1) Third Unlocked show ?thesis
      by (auto simp: lock_dep_hits split: list.splits if_splits)
  qed
qed

lemma lock_dep_narrower:
  assumes ex: "exact_reqs S" and d: "lock_dep S locked patches pair d = Some d'" "\<not> only_match_name d"
  shows "narrower S d' d"
  using d
proof (cases rule: lock_dep_cases)
  case (First l)
  then show ?thesis
    using locked_to_accepts [OF ex First(2) d(2)] accepts_key [of _ l S d] d(2) by (auto simp: narrower_def accepts_iff key_pid_eq_iff)
next
  case (Second l)
  then show ?thesis
    using locked_to_accepts [OF ex Second(3) d(2)] d(2) by (auto simp: narrower_def accepts_iff key_pid_eq_iff)
next
  case (Third p)
  have "matches_ignoring_source S d p" using patch_hits_match [of p S patches d] Third(3) by simp
  with Third ex d(2) show ?thesis
    by (auto simp: narrower_def accepts_iff set_version_req_def exact_reqs_def matches_ignoring_source_def)
next
  case Unlocked
  then show ?thesis by (simp add: narrower_def)
qed

lemma lock_dep_again:
  assumes ex: "exact_reqs S" and d: "lock_dep S locked patches pair d = Some d'" "\<not> only_match_name d"
  shows "lock_dep S locked patches pair d' = Some d'"
proof -
  note n = lock_dep_narrower [OF ex d]
  have relock: "lock_dep_to S l (locked_to S l d) = Some (locked_to S l d)" for l
    using ex by (simp add: lock_dep_to_def exact_reqs_def locked_to_def set_source_id_def set_version_req_def)
  from d show ?thesis
  proof (cases rule: lock_dep_cases)
    case (First l)
    have "accepts S d' l" using locked_to_accepts [OF ex First(2) d(2)] First(3) by simp
    with first_hit_narrower(2) [OF n First(1)] First(3) relock show ?thesis by (simp add: lock_dep_hits)
  next
    case (Second l)
    have "accepts S d' l" using locked_to_accepts [OF ex Second(3) d(2)] Second(4) by simp
    with second_hit_narrower(2) [OF n Second(2)] first_hit_narrower(1) [OF n Second(1)] Second(4) relock show ?thesis
      by (simp add: lock_dep_hits)
  next
    case (Third p)
    have "matches_ignoring_source S d p" using patch_hits_match [of p S patches d] Third(3) by simp
    then have sub: "matches_ignoring_source S d' q \<Longrightarrow> matches_ignoring_source S d q" and p: "matches_ignoring_source S d' p" for q
      using ex Third(5) by (auto simp: matches_ignoring_source_def exact_reqs_def set_version_req_def)
    have "patch_hits S patches d' = filter (matches_ignoring_source S d') (patch_hits S patches d)"
      using sub Third(5) by (auto simp: patch_hits_def set_version_req_def intro!: filter_cong)
    also have "\<dots> = [p]" using Third(3) p by simp
    finally show ?thesis
      using first_hit_narrower(1) [OF n Third(1)] second_hit_narrower(1) [OF n Third(2)] Third(4,5)
      by (simp add: lock_dep_hits set_version_req_def)
  next
    case Unlocked
    with d(1) show ?thesis by simp
  qed
qed

lemma lock_dep_panics:
  assumes "\<not> only_match_name d"
  shows "lock_dep S locked patches pair d = None \<longleftrightarrow>
    first_hit S pair d = None \<and> second_hit S locked d = None \<and> length (patch_hits S patches d) > 1"
  using first_hit_accepts [of S pair d] second_hit_accepts [of S locked d] lock_dep_to_accepts [OF _ assms, of S]
  by (auto simp: lock_dep_hits split: option.splits list.splits)

section \<open>Summaries\<close>

definition locked_entry :: "'u locked_map \<Rightarrow> 'u source_id package_id \<Rightarrow> 'u locked_pair option" where
  "locked_entry locked p = locked_find locked (pid_source p) (pid_name p) (\<lambda>pid. key_pid pid = key_pid p)"

lemma locked_entry_key: "key_pid p = key_pid q \<Longrightarrow> locked_entry locked p = locked_entry locked q"
  by (simp add: locked_entry_def locked_find_def locked_vec_def key_pid_eq_iff)

lemma locked_entry_SomeD: "locked_entry locked p = Some (q, ld) \<Longrightarrow> key_pid q = key_pid p"
  by (auto simp: locked_entry_def locked_find_def bind_eq_Some_conv dest!: find_SomeD)

definition entry_id :: "'u locked_map \<Rightarrow> 'u source_id package_id \<Rightarrow> 'u source_id package_id" where
  "entry_id locked p = (case locked_entry locked p of Some (q, _) \<Rightarrow> q | None \<Rightarrow> p)"

lemma entry_id_key [simp]: "key_pid (entry_id locked p) = key_pid p"
  by (auto simp: entry_id_def locked_entry_SomeD split: option.split)

lemma lock_Some:
  "lock S locked patches s = Some s' \<longleftrightarrow>
     (\<exists>ds. list_all2 (\<lambda>d d'. lock_dep S locked patches (locked_entry locked (package_id s)) d = Some d') (dependencies s) ds \<and>
           s' = s\<lparr>package_id := entry_id locked (package_id s), dependencies := ds\<rparr>)"
  by (auto simp: lock_def locked_entry_def [symmetric] entry_id_def override_id_def map_panic_Some Let_def
      split: option.splits)

lemma lock_None:
  "lock S locked patches s = None \<longleftrightarrow>
     (\<exists>d\<in>set (dependencies s). lock_dep S locked patches (locked_entry locked (package_id s)) d = None)"
  by (auto simp: lock_def locked_entry_def [symmetric] override_id_def map_panic_None Let_def split: option.splits)

definition plain_summary :: "('u source_id, 'r) summary \<Rightarrow> bool" where
  "plain_summary s \<longleftrightarrow> (\<forall>d\<in>set (dependencies s). \<not> only_match_name d)"

text \<open>What locking promises of a dependency, given the entry of the lock file for its package.\<close>

definition dep_locked ::
    "'r semver_ops \<Rightarrow> 'u locked_pair option \<Rightarrow> ('u source_id, 'r) dependency \<Rightarrow> ('u source_id, 'r) dependency \<Rightarrow> bool" where
  "dep_locked S entry d d' \<longleftrightarrow>
     narrower S d' d \<and> (d' = d \<or> is_locked S d') \<and>
     (\<forall>q ld. entry = Some (q, ld) \<and> (\<exists>p\<in>set ld. accepts S d p) \<longrightarrow>
        (\<exists>p\<in>set ld. accepts S d p \<and> dep_source_id d' = pid_source p \<and> (\<forall>r. accepts S d' r \<longleftrightarrow> key_pid r = key_pid p)))"

lemma lock_dep_locked:
  assumes ex: "exact_reqs S" and d: "lock_dep S locked patches entry d = Some d'" "\<not> only_match_name d"
  shows "dep_locked S entry d d'"
  unfolding dep_locked_def
proof (intro conjI allI impI)
  show "narrower S d' d" using lock_dep_narrower [OF ex d] .
  show "d' = d \<or> is_locked S d'"
    using d by (cases rule: lock_dep_cases) (use ex in \<open>auto simp: is_locked_def exact_reqs_def set_version_req_def\<close>)
  fix q ld
  assume e: "entry = Some (q, ld) \<and> (\<exists>p\<in>set ld. accepts S d p)"
  then obtain p where p: "first_hit S entry d = Some p"
    by (cases "find (accepts S d) ld") (auto simp: first_hit_def find_None_iff)
  from d show "\<exists>p\<in>set ld. accepts S d p \<and> dep_source_id d' = pid_source p \<and> (\<forall>r. accepts S d' r \<longleftrightarrow> key_pid r = key_pid p)"
    by (cases rule: lock_dep_cases)
      (use p e first_hit_accepts [OF p] locked_to_accepts [OF ex _ d(2)] in auto)
qed

text \<open>
  C14: locking a summary keeps its package id (up to the precise version) and everything but its
  dependencies; each dependency keeps its name and source and accepts no package it did not accept before, and
  if it changed at all it has become an exact requirement.  Where the lock file recorded the package
  together with a package the dependency accepts, the dependency afterwards accepts one such recorded package
  and nothing else, and takes on its precise source.
\<close>

theorem lock_narrows:
  assumes ex: "exact_reqs S" and s: "plain_summary s" and l: "lock S locked patches s = Some s'"
  shows "key_pid (package_id s') = key_pid (package_id s) \<and>
    s' = s\<lparr>package_id := package_id s', dependencies := dependencies s'\<rparr> \<and>
    list_all2 (dep_locked S (locked_entry locked (package_id s))) (dependencies s) (dependencies s')"
proof -
  from l obtain ds where ds: "list_all2 (\<lambda>d d'. lock_dep S locked patches (locked_entry locked (package_id s)) d = Some d') (dependencies s) ds"
    and s': "s' = s\<lparr>package_id := entry_id locked (package_id s), dependencies := ds\<rparr>" by (auto simp: lock_Some)
  have "list_all2 (dep_locked S (locked_entry locked (package_id s))) (dependencies s) ds"
    by (rule list.rel_mono_strong [OF ds]) (rule lock_dep_locked [OF ex], use s in \<open>auto simp: plain_summary_def\<close>)
  with s' show ?thesis by simp
qed

text \<open>
  Locking is idempotent: a summary that was locked (as the patches are, before queries lock
  what refers to them) is unchanged by locking it again.
\<close>

theorem lock_idempotent:
  assumes ex: "exact_reqs S" and s: "plain_summary s" and l: "lock S locked patches s = Some s'"
  shows "lock S locked patches s' = Some s'"
proof -
  from l obtain ds where ds: "list_all2 (\<lambda>d d'. lock_dep S locked patches (locked_entry locked (package_id s)) d = Some d') (dependencies s) ds"
    and s': "s' = s\<lparr>package_id := entry_id locked (package_id s), dependencies := ds\<rparr>" by (auto simp: lock_Some)
  have same: "locked_entry locked (package_id s') = locked_entry locked (package_id s)"
    by (rule locked_entry_key) (simp add: s')
  then have "entry_id locked (package_id s') = package_id s'"
    by (cases "locked_entry locked (package_id s)") (auto simp: entry_id_def s')
  moreover have "list_all2 (\<lambda>d d'. lock_dep S locked patches (locked_entry locked (package_id s)) d = Some d') ds ds"
  proof (rule list.rel_refl_strong)
    fix d' assume "d' \<in> set ds"
    then obtain d where "d \<in> set (dependencies s)" "lock_dep S locked patches (locked_entry locked (package_id s)) d = Some d'"
      using list_all2_from [OF ds] by blast
    with lock_dep_again [OF ex this(2)] s show "lock_dep S locked patches (locked_entry locked (package_id s)) d' = Some d'"
      by (auto simp: plain_summary_def)
  qed
  ultimately show ?thesis
    unfolding lock_Some same by (intro exI [of _ ds]) (simp add: s')
qed

section \<open>The map of locked packages\<close>

text \<open>The packages registered so far, in order, are what the nested map holds.\<close>

definition vec_of :: "'u locked_pair list \<Rightarrow> 'u source_id \<Rightarrow> string \<Rightarrow> 'u locked_pair list" where
  "vec_of hs sid name = filter (\<lambda>(p, _). sid_key (pid_source p) = sid_key sid \<and> pid_name p = name) hs"

definition holds_locks :: "'u locked_map \<Rightarrow> 'u locked_pair list \<Rightarrow> bool" where
  "holds_locks locked hs \<longleftrightarrow>
     (\<forall>sid name. locked_vec locked sid name = (if vec_of hs sid name = [] then None else Some (vec_of hs sid name)))"

definition register_locks :: "'u locked_pair list \<Rightarrow> ('u, 'r, 'src) registry \<Rightarrow> ('u, 'r, 'src) registry" where
  "register_locks hs st = fold (\<lambda>(p, ds). register_lock p ds) hs st"

lemma locked_vec_register_lock:
  "locked_vec (reg_locked (register_lock p ds st)) sid name =
     (if sid_key (pid_source p) = sid_key sid \<and> pid_name p = name
      then Some ((case locked_vec (reg_locked st) sid name of Some v \<Rightarrow> v | None \<Rightarrow> []) @ [(p, ds)])
      else locked_vec (reg_locked st) sid name)"
  by (auto simp: locked_vec_def register_lock_def Let_def update_conv' split: option.splits)

lemma holds_locks_register:
  "holds_locks (reg_locked st) hs \<Longrightarrow> holds_locks (reg_locked (register_lock p ds st)) (hs @ [(p, ds)])"
  by (auto simp: holds_locks_def locked_vec_register_lock vec_of_def)

lemma holds_locks_register_locks:
  "holds_locks (reg_locked st) old \<Longrightarrow> holds_locks (reg_locked (register_locks hs st)) (old @ hs)"
  unfolding register_locks_def
proof (induction hs arbitrary: st old)
  case Nil
  then show ?case by simp
next
  case (Cons h hs)
  obtain p ds where h: "h = (p, ds)" by (cases h)
  from Cons.IH [OF holds_locks_register [OF Cons.prems, of p ds]] h show ?case by simp
qed

lemma find_filter: "find P (filter Q xs) = find (\<lambda>x. Q x \<and> P x) xs"
  by (induction xs) auto

lemma holds_locks_find:
  assumes "holds_locks locked hs"
  shows "locked_find locked sid name P = find (\<lambda>(p, _). sid_key (pid_source p) = sid_key sid \<and> pid_name p = name \<and> P p) hs"
proof -
  have "locked_find locked sid name P = find (\<lambda>(p, _). P p) (vec_of hs sid name)"
    using assms by (simp add: locked_find_def holds_locks_def)
  then show ?thesis by (simp add: vec_of_def find_filter case_prod_unfold)
qed

text \<open>The reference: locking by searching the list of registered packages.\<close>

definition flat_lock_dep ::
    "'r semver_ops \<Rightarrow> 'u locked_pair list \<Rightarrow> 'u patch_ids \<Rightarrow> 'u locked_pair option \<Rightarrow> ('u source_id, 'r) dependency \<Rightarrow>
       ('u source_id, 'r) dependency option" where
  "flat_lock_dep S hs patches entry d =
     (case find (accepts S d) ((case entry of Some (_, ld) \<Rightarrow> ld | None \<Rightarrow> []) @ map fst hs) of
        Some p \<Rightarrow> Some (locked_to S p d)
      | None \<Rightarrow>
          (case patch_hits S patches d of
             [] \<Rightarrow> Some d
           | [p] \<Rightarrow> Some (if key_pid p \<in> key_pid ` fst ` set hs then set_version_req (req_exact S (pid_version p)) d else d)
           | _ \<Rightarrow> None))"

definition flat_lock ::
    "'r semver_ops \<Rightarrow> 'u locked_pair list \<Rightarrow> 'u patch_ids \<Rightarrow> ('u source_id, 'r) summary \<Rightarrow> ('u source_id, 'r) summary option" where
  "flat_lock S hs patches s =
     (let entry = find (\<lambda>(p, _). key_pid p = key_pid (package_id s)) hs
      in map_option (\<lambda>ds. s\<lparr>package_id := (case entry of Some (p, _) \<Rightarrow> p | None \<Rightarrow> package_id s), dependencies := ds\<rparr>)
           (map_panic (flat_lock_dep S hs patches entry) (dependencies s)))"

lemma find_append: "find P (xs @ ys) = (case find P xs of Some x \<Rightarrow> Some x | None \<Rightarrow> find P ys)"
  by (induction xs) auto

lemma find_map_fst: "find P (map fst xs) = map_option fst (find (\<lambda>(a, _). P a) xs)"
  by (induction xs) auto

lemma second_hit_flat:
  assumes "holds_locks locked hs" "\<not> only_match_name d"
  shows "second_hit S locked d = find (accepts S d) (map fst hs)"
proof -
  have "(\<lambda>(p, _). sid_key (pid_source p) = sid_key (dep_source_id d) \<and> pid_name p = dep_name d \<and> accepts S d p) =
      (\<lambda>(p, _ :: 'a source_id package_id list). accepts S d p)"
    using assms(2) by (auto simp: accepts_iff)
  then show ?thesis by (simp add: second_hit_def holds_locks_find [OF assms(1)] find_map_fst)
qed

lemma first_hit_flat: "first_hit S entry d = find (accepts S d) (case entry of Some (_, ld) \<Rightarrow> ld | None \<Rightarrow> [])"
  by (simp add: first_hit_def split: option.split prod.split)

lemma patch_locked_flat:
  assumes "holds_locks locked hs"
  shows "patch_locked locked p \<longleftrightarrow> key_pid p \<in> key_pid ` fst ` set hs"
proof -
  have "patch_locked locked p \<longleftrightarrow> (\<exists>h\<in>set (vec_of hs (pid_source p) (pid_name p)). key_pid (fst h) = key_pid p)"
    using assms by (simp add: patch_locked_def holds_locks_def list_ex_iff case_prod_unfold)
  also have "\<dots> \<longleftrightarrow> (\<exists>h\<in>set hs. key_pid (fst h) = key_pid p)"
    by (fastforce simp: vec_of_def key_pid_eq_iff)
  finally show ?thesis by (metis (no_types) image_iff)
qed

lemma lock_dep_flat:
  assumes h: "holds_locks locked hs" and d: "\<not> only_match_name d"
  shows "lock_dep S locked patches entry d = flat_lock_dep S hs patches entry d"
  using lock_dep_to_accepts [OF _ d, of S] first_hit_accepts [of S entry d] second_hit_accepts [of S locked d]
  by (auto simp: lock_dep_hits flat_lock_dep_def find_append first_hit_flat [symmetric] second_hit_flat [OF h d, symmetric]
      patch_locked_flat [OF h] split: option.splits list.splits)

lemma map_panic_cong: "(\<And>x. x \<in> set xs \<Longrightarrow> f x = g x) \<Longrightarrow> map_panic f xs = map_panic g xs"
  by (induction xs) auto

lemma lock_flat:
  assumes h: "holds_locks locked hs" and s: "plain_summary s"
  shows "lock S locked patches s = flat_lock S hs patches s"
proof -
  have e: "locked_entry locked (package_id s) = find (\<lambda>(p, _). key_pid p = key_pid (package_id s)) hs"
    unfolding locked_entry_def holds_locks_find [OF h] by (rule arg_cong [where f = "\<lambda>P. find P hs"]) (auto simp: key_pid_eq_iff)
  have "map_panic (lock_dep S locked patches entry) (dependencies s) = map_panic (flat_lock_dep S hs patches entry) (dependencies s)" for entry
    by (rule map_panic_cong) (rule lock_dep_flat [OF h], use s in \<open>auto simp: plain_summary_def\<close>)
  then show ?thesis
    by (simp add: lock_def flat_lock_def locked_entry_def [symmetric] e override_id_def Let_def split: option.split)
qed

text \<open>
  C15: the registry's nested map, built by registering the packages of the lock file one after the
  other, refines the list of those packages: locking through it is locking by searching the list, first
  the dependencies recorded for the package and then every registered package, in order.
\<close>

theorem lock_refines_history:
  assumes "plain_summary s"
  shows "lock S (reg_locked (register_locks hs (new_registry :: ('u, 'r, 'src) registry))) patches s = flat_lock S hs patches s"
proof (rule lock_flat [OF _ assms])
  have "holds_locks (reg_locked (new_registry :: ('u, 'r, 'src) registry)) []"
    by (simp add: holds_locks_def locked_vec_def vec_of_def new_registry_def)
  from holds_locks_register_locks [OF this] show "holds_locks (reg_locked (register_locks hs (new_registry :: ('u, 'r, 'src) registry))) hs" by simp
qed

section \<open>Warnings about overrides\<close>

lemma remove_dep_mset:
  "remove_dep d ds = Some ds' \<Longrightarrow> mset (map key_dep ds) = add_mset (key_dep d) (mset (map key_dep ds'))"
  by (induction ds arbitrary: ds') (auto split: if_splits)

lemma remove_dep_None: "remove_dep d ds = None \<longleftrightarrow> key_dep d \<notin> set (map key_dep ds)"
  by (induction ds) auto

lemma override_warning_None:
  "override_warning name ds real = None \<longleftrightarrow> mset (map key_dep ds) = mset (map key_dep real)"
proof (induction name ds real rule: override_warning.induct)
  case (3 name dep deps real)
  show ?case
  proof (cases "remove_dep dep real")
    case None
    then have "key_dep dep \<notin># mset (map key_dep real)" by (simp add: remove_dep_None)
    moreover have "key_dep dep \<in># mset (map key_dep (dep # deps))" by simp
    ultimately have "mset (map key_dep (dep # deps)) \<noteq> mset (map key_dep real)" by metis
    with None show ?thesis by simp
  next
    case (Some real')
    with 3 [OF Some] remove_dep_mset [OF Some] show ?thesis by simp
  qed
qed simp_all

text \<open>
  A path override draws a warning exactly when its dependencies are not the dependencies of the
  package it stands for, as multisets up to \<open>==\<close>; nothing else of the registry changes.
\<close>

theorem warn_bad_override_iff:
  "(reg_warnings (warn_bad_override ovr real st) = reg_warnings st \<longleftrightarrow>
      mset (map key_dep (dependencies ovr)) = mset (map key_dep (dependencies real))) \<and>
   warn_bad_override ovr real st = st\<lparr>reg_warnings := reg_warnings (warn_bad_override ovr real st)\<rparr>"
  using override_warning_None [of "pid_name (package_id ovr)" "dependencies ovr" "dependencies real"]
  by (auto simp: warn_bad_override_def split: option.split)

section \<open>Loaded sources\<close>

text \<open>The invariant between the map of the sources and the record of what was loaded.\<close>

definition registry_ok :: "('u, 'r, 'src) registry \<Rightarrow> bool" where
  "registry_ok st \<longleftrightarrow>
     dom (map_of (reg_sources st)) = dom (map_of (source_ids st)) \<and>
     (\<forall>sid\<in>set (overrides st). get_source sid st \<noteq> None) \<and>
     (\<forall>k sid kd. map_of (source_ids st) k = Some (sid, kd) \<longrightarrow> sid_key sid = k)"

definition honest_loads :: "('u, 'r, 'src) source_ops \<Rightarrow> bool" where
  "honest_loads ops \<longleftrightarrow> (\<forall>sid src. load_source ops sid = Inr src \<longrightarrow> sid_key (src_id ops src) = sid_key sid)"

text \<open>What no operation on sources touches, and that loaded sources stay.\<close>

definition later :: "('u, 'r, 'src) registry \<Rightarrow> ('u, 'r, 'src) registry \<Rightarrow> bool" where
  "later st st' \<longleftrightarrow> reg_locked st' = reg_locked st \<and> reg_patches st' = reg_patches st \<and>
     patches_available st' = patches_available st \<and> patches_locked st' = patches_locked st \<and>
     (\<forall>k. map_of (reg_sources st) k \<noteq> None \<longrightarrow> map_of (reg_sources st') k \<noteq> None)"

lemma later_refl [simp]: "later st st"
  by (simp add: later_def)

lemma later_trans [trans]: "later a b \<Longrightarrow> later b c \<Longrightarrow> later a c"
  unfolding later_def by metis

lemma put_source_ok:
  assumes "registry_ok st" "get_source sid st \<noteq> None"
  shows "registry_ok (put_source sid src st) \<and> later st (put_source sid src st)"
proof -
  have "sid_key sid \<in> dom (map_of (source_ids st))" using assms by (auto simp: registry_ok_def get_source_def)
  then show ?thesis using assms(1)
    by (auto simp: registry_ok_def put_source_def get_source_def later_def update_conv' insert_absorb split: if_splits)
qed

lemma add_source_ok:
  assumes "registry_ok st"
  shows "registry_ok (add_source ops src k st) \<and> later st (add_source ops src k st) \<and>
    get_source (src_id ops src) (add_source ops src k st) \<noteq> None"
  using assms by (auto simp: registry_ok_def add_source_def get_source_def later_def update_conv' Let_def split: if_splits)

text \<open>The state and result of an operation on sources that does not panic.\<close>

definition went_well :: "('u, 'r, 'src) registry \<Rightarrow> ('a \<Rightarrow> ('u, 'r, 'src) registry \<Rightarrow> bool) \<Rightarrow> ('u, 'r, 'src, 'a) reg_result \<Rightarrow> bool" where
  "went_well st P r \<longleftrightarrow>
     (case r of None \<Rightarrow> False
      | Some (Inl e, st') \<Rightarrow> registry_ok st' \<and> later st st' \<and> overrides st' = overrides st
      | Some (Inr a, st') \<Rightarrow> registry_ok st' \<and> later st st' \<and> overrides st' = overrides st \<and> P a st')"

lemma reg_load_ok:
  assumes ok: "registry_ok st" and h: "honest_loads ops" and k: "k \<noteq> OverrideSource"
  shows "went_well st (\<lambda>_. \<lambda>st'. get_source sid st' \<noteq> None) (reg_load ops sid k st)"
proof (cases "load_source ops sid")
  case (Inl e)
  with ok show ?thesis by (simp add: reg_load_def went_well_def)
next
  case (Inr src)
  with h have key: "sid_key (src_id ops src) = sid_key sid" by (simp add: honest_loads_def)
  define st2 where "st2 = add_source ops src k st"
  note a = add_source_ok [OF ok, of ops src k, folded st2_def]
  have ov: "overrides (put_source sid src' st2) = overrides st" for src'
    by (simp add: st2_def add_source_def put_source_def Let_def)
  obtain src2 where g: "get_source sid st2 = Some src2" using a key by (auto simp: get_source_def)
  have p: "registry_ok (put_source sid src' st2)" "later st (put_source sid src' st2)" "get_source sid (put_source sid src' st2) \<noteq> None" for src'
    using put_source_ok [of st2 sid src'] a g later_trans [of st st2] by (auto simp: put_source_def get_source_def update_conv')
  show ?thesis
    using Inr key k g p ov by (auto simp: reg_load_def went_well_def st2_def [symmetric] split: prod.split option.split)
qed

lemma ensure_loaded_ok:
  assumes ok: "registry_ok st" and h: "honest_loads ops" and k: "k \<noteq> OverrideSource"
  shows "went_well st (\<lambda>_. \<lambda>st'. get_source sid st' \<noteq> None) (ensure_loaded ops sid k st)"
proof (cases "map_of (source_ids st) (sid_key sid)")
  case None
  then show ?thesis using reg_load_ok [OF assms] by (simp add: ensure_loaded_def)
next
  case (Some prev)
  then have "get_source sid st \<noteq> None" using ok by (auto simp: registry_ok_def get_source_def)
  then have "went_well st (\<lambda>_. \<lambda>st'. get_source sid st' \<noteq> None) (Some (Inr (), st))" using ok by (simp add: went_well_def)
  with Some show ?thesis using reg_load_ok [OF assms]
    by (cases prev) (simp add: ensure_loaded_def split: source_kind.split)
qed

lemma query_source_ok:
  assumes "registry_ok st" "get_source sid st \<noteq> None"
  shows "went_well st (\<lambda>_ _. True) (query_source ops sid d st)"
  using assms put_source_ok [OF assms]
  by (auto simp: query_source_def went_well_def put_source_def split: prod.split option.split)

section \<open>Reachable registries\<close>

inductive reg_run :: "('u, 'r, 'src) source_ops \<Rightarrow> 'r semver_ops \<Rightarrow> ('u, 'r, 'src) registry \<Rightarrow> bool"
  for ops :: "('u, 'r, 'src) source_ops" and S :: "'r semver_ops" where
  at_start: "reg_run ops S new_registry"
| preloaded: "reg_run ops S st \<Longrightarrow> reg_run ops S (add_preloaded ops src st)"
| overridden: "reg_run ops S st \<Longrightarrow> reg_run ops S (add_override ops src st)"
| sources: "reg_run ops S st \<Longrightarrow> add_sources ops sids st = Some (r, st') \<Longrightarrow> reg_run ops S st'"
| lock_registered: "reg_run ops S st \<Longrightarrow> reg_run ops S (register_lock p ds st)"
| patched: "reg_run ops S st \<Longrightarrow> reg_patch ops url deps st = Some (res, st') \<Longrightarrow> reg_run ops S st'"
| patches_fixed: "reg_run ops S st \<Longrightarrow> lock_patches S st = Some st' \<Longrightarrow> reg_run ops S st'"
| queried: "reg_run ops S st \<Longrightarrow> dep_name dep \<noteq> [] \<Longrightarrow> reg_query ops S dep fuzzy st = Some (ans, st') \<Longrightarrow> reg_run ops S st'"

lemma went_wellD:
  "went_well st P (Some (r, st')) \<Longrightarrow> registry_ok st' \<and> later st st' \<and> overrides st' = overrides st \<and> (\<forall>a. r = Inr a \<longrightarrow> P a st')"
  by (cases r) (auto simp: went_well_def)

lemma went_well_run: "went_well st P r \<Longrightarrow> \<exists>a st'. r = Some (a, st')"
  by (auto simp: went_well_def split: option.splits prod.splits)

lemma registry_ok_only_sources:
  assumes "registry_ok st" "reg_sources st' = reg_sources st" "source_ids st' = source_ids st" "overrides st' = overrides st"
  shows "registry_ok st'"
  using assms by (simp add: registry_ok_def get_source_def)

lemma add_sources_ok:
  assumes "registry_ok st" "honest_loads ops" "add_sources ops sids st = Some (r, st')"
  shows "registry_ok st'"
  using assms
proof (induction sids arbitrary: st)
  case Nil
  then show ?case by simp
next
  case (Cons sid sids)
  from went_well_run [OF ensure_loaded_ok [OF Cons.prems(1,2), of LockedSource sid]] obtain a st1
    where e: "ensure_loaded ops sid LockedSource st = Some (a, st1)" by auto
  with went_wellD [OF ensure_loaded_ok [OF Cons.prems(1,2), of LockedSource sid, unfolded e]] have "registry_ok st1" by simp
  with Cons e show ?case by (cases a) auto
qed

lemma patch_summary_ok:
  assumes "registry_ok st" "honest_loads ops"
  shows "went_well st (\<lambda>_ _. True) (patch_summary ops url d st)"
proof -
  note l = ensure_loaded_ok [OF assms, of NormalSource "dep_source_id d"]
  from went_well_run [OF l] obtain a st1 where e: "ensure_loaded ops (dep_source_id d) NormalSource st = Some (a, st1)" by auto
  note l1 = went_wellD [OF l [unfolded e]]
  show ?thesis
  proof (cases a)
    case (Inl x)
    with e l1 show ?thesis by (simp add: patch_summary_def went_well_def)
  next
    case (Inr u)
    with l1 have "registry_ok st1" "get_source (dep_source_id d) st1 \<noteq> None" by simp_all
    note q = query_source_ok [OF this, of ops d]
    from went_well_run [OF q] obtain b st2 where b: "query_source ops (dep_source_id d) d st1 = Some (b, st2)" by auto
    note q1 = went_wellD [OF q [unfolded b]]
    have "later st st2" "overrides st2 = overrides st" using l1 q1 later_trans [of st st1 st2] by simp_all
    with e b Inr q1 show ?thesis
      by (cases b) (auto simp: patch_summary_def went_well_def split: list.split)
  qed
qed

lemma patch_summaries_ok:
  assumes "registry_ok st" "honest_loads ops" "patch_summaries ops url ds st = Some (r, st')"
  shows "registry_ok st'"
  using assms
proof (induction ds arbitrary: st r)
  case Nil
  then show ?case by simp
next
  case (Cons d ds)
  note p = patch_summary_ok [OF Cons.prems(1,2), of url d]
  from went_well_run [OF p] obtain a st1 where e: "patch_summary ops url d st = Some (a, st1)" by auto
  have ok: "registry_ok st1" using went_wellD [OF p [unfolded e]] by simp
  show ?case
    using Cons.prems(3) e Cons.IH [OF ok Cons.prems(2)] ok
    by (auto split: sum.splits option.splits prod.splits)
qed

definition plain_sources :: "('u, 'r, 'src) source_ops \<Rightarrow> bool" where
  "plain_sources ops \<longleftrightarrow>
     (\<forall>fuzzy d src found e src'. src_query ops fuzzy d src = ((found, e), src') \<longrightarrow> (\<forall>s\<in>set found. plain_summary s))"

lemma plain_sourcesD:
  "plain_sources ops \<Longrightarrow> src_query ops fuzzy d src = ((found, e), src') \<Longrightarrow> s \<in> set found \<Longrightarrow> plain_summary s"
  unfolding plain_sources_def by blast

lemma query_source_plain:
  "plain_sources ops \<Longrightarrow> query_source ops sid d st = Some (Inr ss, st') \<Longrightarrow> s \<in> set ss \<Longrightarrow> plain_summary s"
  by (auto simp: query_source_def dest: plain_sourcesD split: option.splits prod.splits)

lemma query_overrides_ok:
  assumes "registry_ok st" "set sids \<subseteq> set (overrides st)" "dep_name d \<noteq> []"
  shows "went_well st (\<lambda>o_s _. plain_sources ops \<longrightarrow> pred_option plain_summary o_s) (query_overrides ops S sids d st)"
  using assms
proof (induction sids arbitrary: st)
  case Nil
  then show ?case by (simp add: went_well_def)
next
  case (Cons sid sids)
  obtain d' where d': "new_override S (dep_name d) sid = Some d'" using Cons.prems(3) by (simp add: new_override_def)
  have "get_source sid st \<noteq> None" using Cons.prems by (auto simp: registry_ok_def)
  note q = query_source_ok [OF Cons.prems(1) this, of ops d']
  from went_well_run [OF q] obtain b st1 where b: "query_source ops sid d' st = Some (b, st1)" by auto
  note q1 = went_wellD [OF q [unfolded b]]
  show ?case
  proof (cases "b = Inr []")
    case True
    have "set sids \<subseteq> set (overrides st1)" using q1 Cons.prems(2) by simp
    note r = Cons.IH [OF conjunct1 [OF q1] this Cons.prems(3)]
    from went_well_run [OF r] obtain c st2 where c: "query_overrides ops S sids d st1 = Some (c, st2)" by auto
    note r1 = went_wellD [OF r [unfolded c]]
    have "later st st2" "overrides st2 = overrides st" using q1 r1 later_trans [of st st1 st2] by simp_all
    with r1 True d' b c show ?thesis by (cases c) (simp_all add: went_well_def)
  next
    case False
    with d' b q1 show ?thesis
      using query_source_plain [of ops sid d' st _ st1] by (cases b) (auto simp: went_well_def split: list.split)
  qed
qed

text \<open>No two patches of one url have the same name.\<close>

definition patches_apart :: "'u patch_ids \<Rightarrow> bool" where
  "patches_apart patches \<longleftrightarrow> (\<forall>url ids. map_of patches url = Some ids \<longrightarrow> distinct (map pid_name ids))"

lemma filter_one: "distinct (map f xs) \<Longrightarrow> length (filter (\<lambda>x. a = f x \<and> P x) xs) \<le> 1"
  by (induction xs) (auto simp: filter_empty_conv)

lemma lock_total:
  assumes "plain_summary s" "patches_apart patches"
  shows "\<exists>s'. lock S locked patches s = Some s'"
proof (rule ccontr)
  assume "\<nexists>s'. lock S locked patches s = Some s'"
  then obtain d where d: "d \<in> set (dependencies s)" "lock_dep S locked patches (locked_entry locked (package_id s)) d = None"
    using lock_None [of S locked patches s] by auto
  then have "\<not> only_match_name d" using assms(1) by (simp add: plain_summary_def)
  with d(2) have "length (patch_hits S patches d) > 1" by (simp add: lock_dep_panics)
  then obtain ids where "map_of patches (sid_url (dep_source_id d)) = Some ids" "length (filter (matches_ignoring_source S d) ids) > 1"
    by (auto simp: patch_hits_def split: option.splits)
  with assms(2) filter_one [of pid_name ids "dep_name d" "\<lambda>p. req_matches S (dep_req d) (pid_version p)"] show False
    by (auto simp: patches_apart_def matches_ignoring_source_def [abs_def])
qed

lemma lock_all_total:
  assumes "\<forall>s\<in>set xs. plain_summary s" "patches_apart patches"
  shows "map_panic (lock S locked patches) xs \<noteq> None"
proof
  assume "map_panic (lock S locked patches) xs = None"
  then obtain s where "s \<in> set xs" "lock S locked patches s = None" by (auto simp: map_panic_None)
  with lock_total [of s patches S locked] assms show False by simp
qed

text \<open>The same for queries, whose result holds the summaries handed out before an error.\<close>

definition answered :: "('u, 'r, 'src) registry \<Rightarrow> ('u, 'r, 'src) query_result \<Rightarrow> bool" where
  "answered st r \<longleftrightarrow>
     (case r of None \<Rightarrow> False
      | Some ((ss, e), st') \<Rightarrow> registry_ok st' \<and> later st st' \<and> overrides st' = overrides st \<and> e \<noteq> Inl OverrideButNoReal)"

lemma warn_bad_override_ok:
  "registry_ok st \<Longrightarrow> registry_ok (warn_bad_override ovr real st) \<and> later st (warn_bad_override ovr real st) \<and>
     overrides (warn_bad_override ovr real st) = overrides st"
  using registry_ok_only_sources [of st "warn_bad_override ovr real st"]
  by (simp add: warn_bad_override_def later_def split: option.split)

lemma deliver_override_ok:
  assumes "registry_ok st" "plain_summary s" "patches_apart (patches_available st)" "patches_locked st"
  shows "answered st (deliver_override S s n w st)"
proof -
  define st1 where "st1 = (case w of None \<Rightarrow> st | Some real \<Rightarrow> warn_bad_override s real st)"
  have 1: "registry_ok st1" "later st st1" "overrides st1 = overrides st"
    using assms(1) warn_bad_override_ok [of st s] by (auto simp: st1_def split: option.split)
  then have "patches_available st1 = patches_available st" "patches_locked st1" using assms(4) by (simp_all add: later_def)
  with lock_total [OF assms(2,3)] obtain s' where "reg_lock S s st1 = Some s'" by (auto simp: reg_lock_def)
  with 1 assms(1) show ?thesis by (simp add: answered_def deliver_override_def st1_def [symmetric])
qed

lemma query_real_ok:
  assumes "registry_ok st" "get_source (dep_source_id d) st \<noteq> None" "plain_sources ops" "patches_apart (patches_available st)"
  shows "answered st (query_real ops S d fuzzy ps src st)"
proof -
  obtain found e src1 where q: "src_query ops fuzzy d src = ((found, e), src1)" by (metis surj_pair)
  define xs where "xs = filter (\<lambda>s. \<forall>p\<in>set ps. pid_version (package_id s) \<noteq> pid_version (package_id p)) found"
  have "\<forall>s\<in>set xs. plain_summary s" using plain_sourcesD [OF assms(3) q] by (simp add: xs_def)
  from lock_all_total [OF this assms(4), of S "reg_locked st"] obtain ss
    where "map_panic (lock S (reg_locked st) (patches_available st)) xs = Some ss" by auto
  with put_source_ok [OF assms(1,2), of src1] q show ?thesis
    by (simp add: answered_def query_real_def put_source_def xs_def [symmetric] split: option.split)
qed

lemma query_checked_ok:
  assumes "registry_ok st" "get_source (dep_source_id d) st \<noteq> None" "plain_summary s" "patches_apart (patches_available st)" "patches_locked st"
  shows "answered st (query_checked ops S d fuzzy s src st)"
proof -
  obtain found e src1 where q: "src_query ops fuzzy d src = ((found, e), src1)" by (metis surj_pair)
  define st1 where "st1 = put_source (dep_source_id d) src1 st"
  have 1: "registry_ok st1" "later st st1" "overrides st1 = overrides st"
    using put_source_ok [OF assms(1,2), of src1] by (simp_all add: st1_def put_source_def)
  then have "patches_available st1 = patches_available st" "patches_locked st1" using assms(5) by (simp_all add: later_def)
  with deliver_override_ok [OF 1(1) assms(3)] assms(4) have "answered st1 (deliver_override S s n w st1)" for n w by simp
  then have "answered st (deliver_override S s n w st1)" for n w
    using 1 later_trans [OF 1(2)] by (fastforce simp: answered_def split: option.splits)
  with q 1 show ?thesis
    by (cases e) (simp_all add: query_checked_def st1_def [symmetric] answered_def)
qed

lemma query_overrides_error:
  "query_overrides ops S sids d st = Some (Inl e, st') \<Longrightarrow> \<exists>m. e = SourceError m"
  by (induction sids arbitrary: st) (auto simp: query_source_def split: option.splits prod.splits sum.splits list.splits)

lemma reg_query_ok:
  assumes ok: "registry_ok st" and h: "honest_loads ops" "plain_sources ops" and p: "patches_apart (patches_available st)" "patches_locked st"
    and d: "dep_name d \<noteq> []"
  shows "answered st (reg_query ops S d fuzzy st)"
proof -
  note o = query_overrides_ok [OF ok subset_refl d, of ops S]
  from went_well_run [OF o] obtain a st1 where a: "query_overrides ops S (overrides st) d st = Some (a, st1)" by auto
  note o1 = went_wellD [OF o [unfolded a]]
  have st1: "registry_ok st1" "later st st1" "overrides st1 = overrides st" "patches_apart (patches_available st1)" "patches_locked st1"
    using o1 p by (auto simp: later_def)
  have step: "answered st r" if "answered st' r" "later st st'" "overrides st' = overrides st" for r st'
    using that later_trans [OF that(2)] by (fastforce simp: answered_def split: option.splits)
  show ?thesis
  proof (cases a)
    case (Inl e)
    moreover have "e \<noteq> OverrideButNoReal"
      using query_overrides_error [of ops S "overrides st" d st e st1] a Inl by auto
    ultimately show ?thesis using st1 a p by (simp add: reg_query_def answered_def)
  next
    case (Inr ov)
    have ov: "plain_summary s" if "ov = Some s" for s using o1 Inr h(2) that by simp
    show ?thesis
    proof (cases "length (matching_patches S d st1) = 1 \<and> is_locked S d")
      case True
      have "answered st (deliver_override S s n w st1)" if "ov = Some s" for s n w
        by (rule step [OF deliver_override_ok [OF st1(1) ov [OF that] st1(4,5)] st1(2,3)])
      moreover have "answered st (Some ((ps, Inr ()), st1))" for ps using st1 by (simp add: answered_def)
      ultimately show ?thesis
        using True Inr a p by (cases ov) (simp_all add: reg_query_def Let_def)
    next
      case False
      note l = ensure_loaded_ok [OF st1(1) h(1), of NormalSource "dep_source_id d"]
      from went_well_run [OF l] obtain b st2 where b: "ensure_loaded ops (dep_source_id d) NormalSource st1 = Some (b, st2)" by auto
      note l1 = went_wellD [OF l [unfolded b]]
      have st2: "later st st2" "overrides st2 = overrides st" "patches_apart (patches_available st2)" "patches_locked st2"
        using l1 st1 later_trans [OF st1(2), of st2] by (auto simp: later_def)
      show ?thesis
      proof (cases b)
        case (Inl e)
        with Inr a b False p have "reg_query ops S d fuzzy st = Some (([], Inl (FailedToLoad (dep_name d) e)), st2)"
          by (auto simp: reg_query_def Let_def)
        with l1 st2 show ?thesis by (simp add: answered_def)
      next
        case (Inr u)
        with l1 obtain src where g: "get_source (dep_source_id d) st2 = Some src" by auto
        have "answered st (query_real ops S d fuzzy (matching_patches S d st1) src st2)"
          by (rule step [OF query_real_ok]) (use l1 st2 h g in auto)
        moreover have "answered st (query_checked ops S d fuzzy s src st2)" if "ov = Some s" for s
          by (rule step [OF query_checked_ok]) (use l1 st2 ov that g in auto)
        moreover have "answered st (Some (([], Inl PatchesAndOverride), st2))"
          using l1 st2 by (simp add: answered_def)
        ultimately show ?thesis
          using \<open>a = Inr ov\<close> Inr a b False p g by (auto simp: reg_query_def Let_def split: option.split)
      qed
    qed
  qed
qed

text \<open>A query leaves a well-formed registry on every path, also where it stops at an error.\<close>

lemma reg_query_registry_ok:
  assumes ok: "registry_ok st" and h: "honest_loads ops" and d: "dep_name d \<noteq> []"
    and q: "reg_query ops S d fuzzy st = Some (ans, st')"
  shows "registry_ok st'"
proof -
  note o = query_overrides_ok [OF ok subset_refl d, of ops S]
  from went_well_run [OF o] obtain a st1 where a: "query_overrides ops S (overrides st) d st = Some (a, st1)" by auto
  have st1: "registry_ok st1" using went_wellD [OF o [unfolded a]] by simp
  note l = ensure_loaded_ok [OF st1 h, of NormalSource "dep_source_id d"]
  from went_well_run [OF l] obtain b st2 where b: "ensure_loaded ops (dep_source_id d) NormalSource st1 = Some (b, st2)" by auto
  have st2: "registry_ok st2" using went_wellD [OF l [unfolded b]] by simp
  have deliver: "deliver_override S s n w st0 = Some (ans, st') \<Longrightarrow> registry_ok st0 \<Longrightarrow> registry_ok st'" for s n w st0
    using warn_bad_override_ok [of st0 s] by (auto simp: deliver_override_def Let_def split: if_splits option.splits)
  have put: "get_source (dep_source_id d) st2 = Some src \<Longrightarrow> registry_ok (put_source (dep_source_id d) src1 st2)" for src src1
    using put_source_ok [OF st2] by simp
  have real: "query_real ops S d fuzzy ps src st2 = Some (ans, st') \<Longrightarrow> get_source (dep_source_id d) st2 = Some src \<Longrightarrow> registry_ok st'" for ps src
    using put by (auto simp: query_real_def split: prod.splits option.splits)
  have checked: "query_checked ops S d fuzzy s src st2 = Some (ans, st') \<Longrightarrow> get_source (dep_source_id d) st2 = Some src \<Longrightarrow> registry_ok st'" for s src
    using put deliver by (auto simp: query_checked_def split: prod.splits option.splits)
  show ?thesis
    using q a b st1 st2 deliver real checked
    by (auto simp: reg_query_def Let_def split: if_splits sum.splits option.splits)
qed

lemma lock_patches_sources:
  "lock_patches S st = Some st' \<Longrightarrow> reg_sources st' = reg_sources st \<and> source_ids st' = source_ids st \<and> overrides st' = overrides st"
  by (auto simp: lock_patches_def split: if_splits)

lemma reg_run_ok:
  assumes h: "honest_loads ops"
  shows "reg_run ops S st \<Longrightarrow> registry_ok st"
proof (induction rule: reg_run.induct)
  case at_start
  show ?case by (simp add: registry_ok_def new_registry_def)
next
  case (preloaded st src)
  then show ?case by (simp add: add_preloaded_def add_source_ok)
next
  case (overridden st src)
  let ?sts = "add_source ops src OverrideSource st"
  have "registry_ok ?sts" "get_source (src_id ops src) ?sts \<noteq> None" using add_source_ok [OF overridden.IH] by auto
  then have "registry_ok (?sts\<lparr>overrides := overrides ?sts @ [src_id ops src]\<rparr>)"
    by (simp add: registry_ok_def get_source_def)
  then show ?case by (rule registry_ok_only_sources) (simp_all add: add_override_def add_source_def Let_def)
next
  case (sources st sids r st')
  then show ?case using add_sources_ok h by blast
next
  case (lock_registered st p ds)
  from lock_registered.IH show ?case by (rule registry_ok_only_sources) (simp_all add: register_lock_def Let_def)
next
  case (patched st url deps res st')
  from patched.hyps obtain r st1 where p: "patch_summaries ops url deps st = Some (r, st1)"
    and st': "reg_sources st' = reg_sources st1" "source_ids st' = source_ids st1" "overrides st' = overrides st1"
    by (auto simp: reg_patch_def split: option.splits sum.splits)
  from registry_ok_only_sources [OF patch_summaries_ok [OF patched.IH h p] st'] show ?case .
next
  case (patches_fixed st st')
  then show ?case using registry_ok_only_sources lock_patches_sources by blast
next
  case (queried st dep fuzzy ans st')
  then show ?case using reg_query_registry_ok h by blast
qed

text \<open>
  C16: a registry that its operations built and whose patches have been locked answers a query for a named dependency
  without a panic, provided no two patches of one url have the same package name (two would fail the assertion that
  at most one patch is left when a dependency is locked), the sources answer ordinary summaries and a source loaded for an
  id has that id: no source it looks up is missing, so none of its \<open>unwrap\<close>s and \<open>expect\<close>s fails and "override found but
  no real ones" is never reported; a query changes neither the locked packages nor the patches, and keeps every source
  that was loaded.
\<close>

theorem registry_query_answers:
  assumes run: "reg_run ops S st" and ops: "honest_loads ops" "plain_sources ops"
    and st: "patches_locked st" "patches_apart (patches_available st)" and d: "dep_name d \<noteq> []"
  shows "\<exists>ss e st'. reg_query ops S d fuzzy st = Some ((ss, e), st') \<and> e \<noteq> Inl OverrideButNoReal \<and>
    reg_run ops S st' \<and> registry_ok st' \<and> later st st'"
proof -
  have "answered st (reg_query ops S d fuzzy st)"
    by (rule reg_query_ok [OF reg_run_ok [OF ops(1) run] ops st(2,1) d])
  then obtain ss e st' where q: "reg_query ops S d fuzzy st = Some ((ss, e), st')"
    "registry_ok st'" "later st st'" "e \<noteq> Inl OverrideButNoReal"
    by (auto simp: answered_def split: option.splits)
  with reg_run.queried [OF run d q(1)] show ?thesis by blast
qed

section \<open>What a query answers\<close>

lemma lock_version: "lock S locked patches s = Some s' \<Longrightarrow> pid_version (package_id s') = pid_version (package_id s) \<and> pid_name (package_id s') = pid_name (package_id s)"
proof -
  assume "lock S locked patches s = Some s'"
  then have "key_pid (package_id s') = key_pid (package_id s)" by (auto simp: lock_Some)
  then show ?thesis by (simp add: key_pid_eq_iff)
qed

lemma lock_all_versions:
  "list_all2 (\<lambda>s s'. lock S locked patches s = Some s') xs ys \<Longrightarrow>
     map (pid_version \<circ> package_id) ys = map (pid_version \<circ> package_id) xs"
  by (induction rule: list_all2_induct) (auto simp: lock_version)

abbreviation versions :: "('u source_id, 'r) summary list \<Rightarrow> version list" where
  "versions ss \<equiv> map (pid_version \<circ> package_id) ss"

text \<open>
  C17: without path overrides, a query that ends well answers as follows.  A locked dependency with exactly
  one matching patch gets that patch and the registry is left alone.  Any other gets the
  matching patches and then, locked, the summaries the source found whose version no patch has: every
  version of a patch or of the source once, if neither has a version twice.
\<close>

theorem registry_query_selects:
  assumes q: "reg_query ops S d fuzzy st = Some ((ss, Inr ()), st')" and o: "overrides st = []"
    and ok: "registry_ok st" "honest_loads ops"
  defines "ps \<equiv> matching_patches S d st"
  shows "if length ps = 1 \<and> is_locked S d then ss = ps \<and> st' = st
    else \<exists>src found src1 xs.
      src_query ops fuzzy d src = ((found, None), src1) \<and> get_source (dep_source_id d) st' = Some src1 \<and> ss = ps @ xs \<and>
      list_all2 (\<lambda>s x. lock S (reg_locked st) (patches_available st) s = Some x)
        (filter (\<lambda>s. pid_version (package_id s) \<notin> set (versions ps)) found) xs \<and>
      set (versions ss) = set (versions ps) \<union> set (versions found) \<and>
      (distinct (versions ps) \<and> distinct (versions found) \<longrightarrow> distinct (versions ss))"
proof (cases "length ps = 1 \<and> is_locked S d")
  case True
  with q o show ?thesis by (auto simp: reg_query_def Let_def ps_def split: if_splits)
next
  case False
  note l = ensure_loaded_ok [OF ok, of NormalSource "dep_source_id d"]
  from went_well_run [OF l] obtain b st2 where b: "ensure_loaded ops (dep_source_id d) NormalSource st = Some (b, st2)" by auto
  note l1 = went_wellD [OF l [unfolded b]]
  from q o b False obtain u where u: "b = Inr u" by (cases b) (auto simp: reg_query_def Let_def ps_def split: if_splits)
  with l1 obtain src where g: "get_source (dep_source_id d) st2 = Some src" by auto
  have "query_real ops S d fuzzy ps src st2 = Some ((ss, Inr ()), st')"
    using q o b u g False by (auto simp: reg_query_def Let_def ps_def split: if_splits)
  then obtain found src1 xs where r: "src_query ops fuzzy d src = ((found, None), src1)" "ss = ps @ xs" "st' = put_source (dep_source_id d) src1 st2"
    and xs: "map_panic (lock S (reg_locked st2) (patches_available st2))
        (filter (\<lambda>s. \<forall>p\<in>set ps. pid_version (package_id s) \<noteq> pid_version (package_id p)) found) = Some xs"
    by (auto simp: query_real_def split: prod.splits option.splits)
  have p: "(\<lambda>s. \<forall>p\<in>set ps. pid_version (package_id s) \<noteq> pid_version (package_id p)) = (\<lambda>s. pid_version (package_id s) \<notin> set (versions ps))"
    by (auto simp: fun_eq_iff)
  have xs': "list_all2 (\<lambda>s x. lock S (reg_locked st) (patches_available st) s = Some x)
        (filter (\<lambda>s. pid_version (package_id s) \<notin> set (versions ps)) found) xs"
    using xs l1 unfolding p map_panic_Some by (simp add: later_def)
  have v: "versions xs = filter (\<lambda>v. v \<notin> set (versions ps)) (versions found)"
    using lock_all_versions [OF xs'] by (simp add: filter_map comp_def)
  have "set (versions ss) = set (versions ps) \<union> set (versions found)" "distinct (versions ps) \<and> distinct (versions found) \<longrightarrow> distinct (versions ss)"
    unfolding r(2) map_append v by auto
  with r xs' False show ?thesis by (auto simp: put_source_def get_source_def update_conv')
qed

section \<open>A registry\<close>

text \<open>One git source with two versions of a package \<open>a\<close>, and an application that depends on it and was
  locked to the older one.\<close>

definition bare :: "string source_id package_id \<Rightarrow> (string source_id, (bool \<times> version) option) summary" where
  "bare p = \<lparr>package_id = p, dependencies = [], features = [], checksum = None, links = None, namespaced_features = False\<rparr>"

definition rdemo_found :: "(string source_id, (bool \<times> version) option) summary list" where
  "rdemo_found = [bare (pkg ''a'' (vers 1 0 0)), bare (pkg ''a'' (vers 1 1 0))]"

definition rdemo_ops :: "(string, (bool \<times> version) option, string source_id) source_ops" where
  "rdemo_ops =
     \<lparr>load_source = Inr, src_id = (\<lambda>s. s), src_update = (\<lambda>s. (None, s)),
      src_query = (\<lambda>_. \<lambda>d. \<lambda>s. ((filter (\<lambda>x. accepts unary_semver d (package_id x))
          rdemo_found, None), s)),
      src_describe = (\<lambda>_. ''demo''), src_is_replaced = (\<lambda>_. False)\<rparr>"

definition rdemo_app :: "(string source_id, (bool \<times> version) option) summary" where
  "rdemo_app = (bare (pkg ''app'' (vers 1 0 0)))\<lparr>dependencies := [example_dep]\<rparr>"

definition rdemo_locks :: "string locked_pair list" where
  "rdemo_locks = [(pkg ''app'' (vers 1 0 0), [pkg ''a'' (vers 1 0 0)]), (pkg ''a'' (vers 1 0 0), [])]"

definition rdemo_registry :: "(string, (bool \<times> version) option, string source_id) registry" where
  "rdemo_registry = register_locks rdemo_locks new_registry"

definition rdemo_ready :: "(string, (bool \<times> version) option, string source_id) registry" where
  "rdemo_ready = rdemo_registry\<lparr>patches_locked := True\<rparr>"

lemma exact_reqs_unary: "exact_reqs unary_semver"
  by (auto simp: exact_reqs_def unary_semver_def starts_with_def)

lemma plain_rdemo: "plain_summary rdemo_app" "plain_summary (bare p)"
  by (simp_all add: plain_summary_def rdemo_app_def bare_def example_dep_def)

lemma rdemo_flat: "flat_lock unary_semver rdemo_locks [] rdemo_app = Some (rdemo_app\<lparr>dependencies := [locked_to unary_semver (pkg ''a'' (vers 1 0 0)) example_dep]\<rparr>)"
  by (simp add: flat_lock_def flat_lock_dep_def rdemo_locks_def rdemo_app_def bare_def pkg_def example_dep_def
      accepts_iff unary_semver_def vers_def Let_def)

theorem lock_refines_history_witness:
  "lock unary_semver (reg_locked rdemo_registry) [] rdemo_app =
     Some (rdemo_app\<lparr>dependencies := [locked_to unary_semver (pkg ''a'' (vers 1 0 0)) example_dep]\<rparr>)"
  unfolding rdemo_registry_def
  using lock_refines_history [OF plain_rdemo(1), of unary_semver rdemo_locks "[]"] rdemo_flat by simp

lemma rdemo_lock:
  "lock unary_semver (reg_locked rdemo_registry) [] rdemo_app =
     Some (rdemo_app\<lparr>dependencies := [locked_to unary_semver (pkg ''a'' (vers 1 0 0)) example_dep]\<rparr>)"
proof -
  have "holds_locks (reg_locked (new_registry :: (string, (bool \<times> version) option, string source_id) registry)) []"
    by (simp add: holds_locks_def locked_vec_def vec_of_def new_registry_def)
  from holds_locks_register_locks [OF this, of rdemo_locks] have "holds_locks (reg_locked rdemo_registry) rdemo_locks"
    by (simp add: rdemo_registry_def)
  from lock_flat [OF this plain_rdemo(1)] rdemo_flat show ?thesis by simp
qed

theorem lock_narrows_witness:
  "\<not> accepts unary_semver (locked_to unary_semver (pkg ''a'' (vers 1 0 0)) example_dep) (pkg ''a'' (vers 1 1 0))"
proof -
  have "locked_entry (reg_locked rdemo_registry) (package_id rdemo_app) = Some (pkg ''app'' (vers 1 0 0), [pkg ''a'' (vers 1 0 0)])"
    by (simp add: locked_entry_def rdemo_registry_def register_locks_def rdemo_locks_def register_lock_def new_registry_def
        rdemo_app_def bare_def pkg_def locked_find_def locked_vec_def key_pid_eq_iff vers_def Let_def)
  moreover have "accepts unary_semver example_dep (pkg ''a'' (vers 1 0 0))"
    by (simp add: accepts_iff example_dep_def pkg_def unary_semver_def)
  moreover have "key_pid (pkg ''a'' (vers 1 1 0)) \<noteq> key_pid (pkg ''a'' (vers 1 0 0))"
    by (simp add: key_pid_eq_iff pkg_def vers_def)
  ultimately show ?thesis
    using lock_narrows [OF exact_reqs_unary plain_rdemo(1) rdemo_lock] by (simp add: rdemo_app_def bare_def dep_locked_def)
qed

theorem lock_idempotent_witness:
  "lock unary_semver (reg_locked rdemo_registry) [] (rdemo_app\<lparr>dependencies := [locked_to unary_semver (pkg ''a'' (vers 1 0 0)) example_dep]\<rparr>) =
     Some (rdemo_app\<lparr>dependencies := [locked_to unary_semver (pkg ''a'' (vers 1 0 0)) example_dep]\<rparr>)"
  by (rule lock_idempotent [OF exact_reqs_unary plain_rdemo(1) rdemo_lock])

lemma rdemo_ops_ok: "honest_loads rdemo_ops" "plain_sources rdemo_ops"
  by (auto simp: honest_loads_def rdemo_ops_def plain_sources_def plain_rdemo rdemo_found_def)

lemma rdemo_run: "reg_run rdemo_ops unary_semver rdemo_ready"
proof -
  have "reg_run rdemo_ops unary_semver rdemo_registry"
    by (simp add: rdemo_registry_def register_locks_def rdemo_locks_def at_start lock_registered)
  moreover have "lock_patches unary_semver rdemo_registry = Some rdemo_ready"
    by (simp add: lock_patches_def rdemo_ready_def rdemo_registry_def register_locks_def rdemo_locks_def register_lock_def new_registry_def Let_def)
  ultimately show ?thesis by (rule patches_fixed)
qed

lemma rdemo_ready_simps:
  "patches_locked rdemo_ready" "patches_available rdemo_ready = []" "overrides rdemo_ready = []" "reg_patches rdemo_ready = []"
  "reg_sources rdemo_ready = []" "source_ids rdemo_ready = []"
  by (simp_all add: rdemo_ready_def rdemo_registry_def register_locks_def rdemo_locks_def register_lock_def new_registry_def Let_def)

theorem registry_query_answers_witness:
  "\<exists>ss e st'. reg_query rdemo_ops unary_semver example_dep False rdemo_ready = Some ((ss, e), st') \<and> later rdemo_ready st'"
proof -
  have "patches_apart (patches_available rdemo_ready)" "dep_name example_dep \<noteq> []"
    by (simp_all add: rdemo_ready_simps patches_apart_def example_dep_def)
  with registry_query_answers [OF rdemo_run rdemo_ops_ok rdemo_ready_simps(1), of example_dep False] show ?thesis by blast
qed

definition rdemo_loaded :: "(string, (bool \<times> version) option, string source_id) registry" where
  "rdemo_loaded = rdemo_ready\<lparr>reg_sources := [(sid_key (git_id ''x'' ''x''), git_id ''x'' ''x'')],
     source_ids := [(sid_key (git_id ''x'' ''x''), git_id ''x'' ''x'', NormalSource)]\<rparr>"

lemma rdemo_query:
  "reg_query rdemo_ops unary_semver example_dep False rdemo_ready =
     Some ((rdemo_found, Inr ()), rdemo_loaded)"
  by (simp add: reg_query_def rdemo_ready_simps matching_patches_def ensure_loaded_def reg_load_def rdemo_ops_def example_dep_def
      add_source_def get_source_def put_source_def query_real_def Let_def accepts_iff bare_def pkg_def unary_semver_def
      lock_def locked_find_def locked_vec_def rdemo_loaded_def rdemo_ready_def rdemo_registry_def register_locks_def rdemo_locks_def
      register_lock_def new_registry_def vers_def key_pid_eq_iff is_locked_def starts_with_def override_id_def rdemo_found_def)

theorem registry_query_selects_witness:
  "set (versions rdemo_found) = {vers 1 0 0, vers 1 1 0} \<and>
   (\<exists>src found src1. src_query rdemo_ops False example_dep src = ((found, None), src1) \<and> set (versions found) = {vers 1 0 0, vers 1 1 0})"
proof -
  have v: "set (versions rdemo_found) = {vers 1 0 0, vers 1 1 0}"
    by (simp add: rdemo_found_def bare_def pkg_def)
  have p: "matching_patches unary_semver example_dep rdemo_ready = []" by (simp add: matching_patches_def rdemo_ready_simps)
  note sel = registry_query_selects [OF rdemo_query rdemo_ready_simps(3) reg_run_ok [OF rdemo_ops_ok(1) rdemo_run] rdemo_ops_ok(1), unfolded p]
  obtain src found src1 where "src_query rdemo_ops False example_dep src = ((found, None), src1)"
    "set (versions rdemo_found) = set (versions found)"
    using sel by (auto simp del: set_map)
  with v show ?thesis by metis
qed

end
