(* ===== verification/Hex.thy ===== *)
theory Hex
  imports Prelude "HOL-Library.Word"
begin

text \<open>
  Short hashes, \<open>src/cargo/util/hex.rs\<close>: the eight bytes of a 64-bit number, least significant first,
  as hexadecimal text.  The encoder \<open>hex::encode\<close> of the crate \<open>hex\<close> and the hasher are
  arguments.  The theory shows that the text has sixteen digits and determines the number.
\<close>

type_synonym u64 = "64 word"
type_synonym u8 = "8 word"

definition to_hex :: "(u8 list \<Rightarrow> string) \<Rightarrow> u64 \<Rightarrow> string" where
  "to_hex encode num =
     encode [ucast (drop_bit 0 num), ucast (drop_bit 8 num), ucast (drop_bit 16 num), ucast (drop_bit 24 num),
             ucast (drop_bit 32 num), ucast (drop_bit 40 num), ucast (drop_bit 48 num), ucast (drop_bit 56 num)]"

definition short_hash :: "(u8 list \<Rightarrow> string) \<Rightarrow> ('h \<Rightarrow> u64) \<Rightarrow> 'h \<Rightarrow> string" where
  "short_hash encode hash_u64 x = to_hex encode (hash_u64 x)"

definition bytes_of :: "u64 \<Rightarrow> u8 list" where
  "bytes_of num = map (\<lambda>i. ucast (drop_bit (8 * i) num)) [0..<8]"

lemma to_hex_bytes: "to_hex encode num = encode (bytes_of num)"
  by (simp add: to_hex_def bytes_of_def upt_rec)

lemma bytes_of_bit: "k < 64 \<Longrightarrow> bit (bytes_of num ! (k div 8)) (k mod 8) = bit num k"
proof -
  assume "k < 64"
  then have "k div 8 < 8" by simp
  then show ?thesis by (simp add: bytes_of_def bit_ucast_iff bit_drop_bit_eq)
qed

lemma bytes_of_inj: "bytes_of a = bytes_of b \<longleftrightarrow> a = b"
proof
  assume "bytes_of a = bytes_of b"
  then have "bit a k = bit b k" if "k < 64" for k using bytes_of_bit [OF that] by metis
  then show "a = b" by (intro bit_word_eqI) simp
qed simp

text \<open>
  C40: for an encoder that writes every byte as two digits and different byte strings as
  different texts, the text of a number is sixteen characters of the encoder's alphabet long, two numbers have the
  same text only if they are equal, and so two values have the same short hash exactly when their 64-bit hashes
  agree.
\<close>

theorem to_hex_bounds:
  assumes len: "\<And>bs. length (encode bs) = 2 * length bs" and inj: "inj encode"
    and digits: "\<And>bs. set (encode bs) \<subseteq> D"
  shows "length (to_hex encode a) = 16 \<and> set (to_hex encode a) \<subseteq> D \<and> (to_hex encode a = to_hex encode b \<longleftrightarrow> a = b) \<and>
    (short_hash encode h x = short_hash encode h y \<longleftrightarrow> h x = h y)"
proof -
  have "to_hex encode a = to_hex encode b \<longleftrightarrow> a = b" for a b
    using inj bytes_of_inj by (simp add: to_hex_bytes inj_eq)
  then show ?thesis
    using len digits by (simp add: short_hash_def to_hex_bytes bytes_of_def)
qed

text \<open>The lower-case encoder.\<close>

definition hex_digit :: "nat \<Rightarrow> char" where
  "hex_digit n = ''0123456789abcdef'' ! n"

definition hex_encode :: "u8 list \<Rightarrow> string" where
  "hex_encode bs = concat (map (\<lambda>b. [hex_digit (unat b div 16), hex_digit (unat b mod 16)]) bs)"

lemma hex_digit_inj: "m < 16 \<Longrightarrow> n < 16 \<Longrightarrow> hex_digit m = hex_digit n \<longleftrightarrow> m = n"
proof -
  assume "m < 16" "n < 16"
  moreover have "distinct ''0123456789abcdef''" by simp
  ultimately show ?thesis unfolding hex_digit_def by (subst nth_eq_iff_index_eq) auto
qed

lemma hex_encode_inj: "hex_encode a = hex_encode b \<Longrightarrow> a = b"
proof (induction a arbitrary: b)
  case Nil
  then show ?case by (cases b) (auto simp: hex_encode_def)
next
  case (Cons x xs)
  then obtain y ys where b: "b = y # ys" by (cases b) (auto simp: hex_encode_def)
  have "unat x < 256" "unat y < 256" using unsigned_less [of x, where 'a = nat] unsigned_less [of y, where 'a = nat] by simp_all
  then have "unat x div 16 < 16" "unat y div 16 < 16" by auto
  moreover from Cons.prems b have "hex_digit (unat x div 16) = hex_digit (unat y div 16)"
    "hex_digit (unat x mod 16) = hex_digit (unat y mod 16)" "hex_encode xs = hex_encode ys"
    by (auto simp: hex_encode_def)
  ultimately have "unat x div 16 = unat y div 16" "unat x mod 16 = unat y mod 16" "xs = ys"
    using Cons.IH by (auto simp: hex_digit_inj)
  then have "unat x = unat y" by (metis div_mult_mod_eq)
  with b \<open>xs = ys\<close> show ?case by (simp add: word_unat_eq_iff)
qed

theorem to_hex_bounds_witness:
  "length (to_hex hex_encode 258) = 16 \<and> to_hex hex_encode 258 = ''0201000000000000'' \<and> to_hex hex_encode 258 \<noteq> to_hex hex_encode 513"
proof -
  have len: "length (hex_encode bs) = 2 * length bs" for bs by (induction bs) (auto simp: hex_encode_def)
  have inj: "inj hex_encode" by (auto intro!: injI dest: hex_encode_inj)
  have "to_hex hex_encode 258 = ''0201000000000000''"
    by (simp add: to_hex_def hex_encode_def hex_digit_def drop_bit_eq_div)
  with to_hex_bounds [OF len inj, of UNIV 258 513] show ?thesis by auto
qed

end
