(* ===== verification/Interning.thy ===== *)
theory Interning
  imports Prelude "HOL-Library.List_Lexorder" "HOL-Library.Char_ord"
begin

text \<open>
  Interned strings, \<open>src/cargo/core/interning.rs\<close>.  A leaked string lives for ever at an address of
  its own; the cache holds the addresses handed out.  Equality of interned strings is equality of
  addresses, their order and hash look at the text.  The theory shows that, whatever was interned
  before and in between, comparing addresses is comparing texts, so that \<open>Eq\<close> agrees with \<open>Ord\<close> and
  \<open>Hash\<close>; this is what lets the other theories use plain strings for them.  The mutex around
  the cache makes every call of \<open>new\<close> one atomic step.
\<close>

type_synonym address = nat

record interner =
  leaked :: "string list"
  string_cache :: "address list"

definition no_strings :: interner where
  "no_strings = \<lparr>leaked = [], string_cache = []\<rparr>"

definition leak :: "string \<Rightarrow> interner \<Rightarrow> address \<times> interner" where
  "leak s st = (length (leaked st), st\<lparr>leaked := leaked st @ [s]\<rparr>)"

definition interned_str :: "interner \<Rightarrow> address \<Rightarrow> string" where
  "interned_str st a = leaked st ! a"

definition interned_new :: "string \<Rightarrow> interner \<Rightarrow> address \<times> interner" where
  "interned_new s st =
     (case find (\<lambda>a. interned_str st a = s) (string_cache st) of
        Some a \<Rightarrow> (a, st)
      | None \<Rightarrow> (case leak s st of (a, st') \<Rightarrow> (a, st'\<lparr>string_cache := a # string_cache st'\<rparr>)))"

definition interned_eq :: "address \<Rightarrow> address \<Rightarrow> bool" where
  "interned_eq a b \<longleftrightarrow> a = b"

definition interned_cmp :: "interner \<Rightarrow> address \<Rightarrow> address \<Rightarrow> ordering" where
  "interned_cmp st a b = cmp (interned_str st a) (interned_str st b)"

definition interned_hash :: "interner \<Rightarrow> address \<Rightarrow> string" where
  "interned_hash st a = interned_str st a"

text \<open>The results of a sequence of calls, and the state after them.\<close>

fun intern_all :: "string list \<Rightarrow> interner \<Rightarrow> address list \<times> interner" where
  "intern_all [] st = ([], st)"
| "intern_all (s # ss) st =
     (let (a, st1) = interned_new s st; (as, st2) = intern_all ss st1 in (a # as, st2))"

section \<open>Addresses stand for texts\<close>

definition interner_ok :: "interner \<Rightarrow> bool" where
  "interner_ok st \<longleftrightarrow> set (string_cache st) = {..<length (leaked st)} \<and> distinct (leaked st)"

lemma interned_new_spec:
  assumes "interner_ok st" "interned_new s st = (a, st')"
  shows "interner_ok st' \<and> a < length (leaked st') \<and> interned_str st' a = s \<and> (\<exists>more_strings. leaked st' = leaked st @ more_strings)"
proof (cases "find (\<lambda>a. interned_str st a = s) (string_cache st)")
  case None
  then have "interned_str st b \<noteq> s" if "b < length (leaked st)" for b
    using assms(1) that by (auto simp: find_None_iff interner_ok_def)
  then have "s \<notin> set (leaked st)" by (auto simp: interned_str_def in_set_conv_nth)
  moreover have "a = length (leaked st)" "leaked st' = leaked st @ [s]" "string_cache st' = length (leaked st) # string_cache st"
    using None assms(2) by (auto simp: interned_new_def leak_def)
  ultimately show ?thesis using assms(1)
    by (simp add: interner_ok_def interned_str_def lessThan_Suc)
next
  case (Some b)
  then have "b \<in> set (string_cache st)" "interned_str st b = s" by (auto simp: find_Some_iff)
  with Some assms show ?thesis by (auto simp: interned_new_def interner_ok_def)
qed

lemma intern_all_spec:
  assumes "interner_ok st" "intern_all ss st = (as, st')"
  shows "interner_ok st' \<and> (\<exists>more_strings. leaked st' = leaked st @ more_strings) \<and>
    list_all2 (\<lambda>s a. a < length (leaked st') \<and> interned_str st' a = s) ss as"
  using assms
proof (induction ss arbitrary: st as)
  case Nil
  then show ?case by simp
next
  case (Cons s ss)
  obtain a st1 where 1: "interned_new s st = (a, st1)" by (cases "interned_new s st")
  obtain as1 st2 where 2: "intern_all ss st1 = (as1, st2)" by (cases "intern_all ss st1")
  from 1 2 Cons.prems(2) have eq: "as = a # as1" "st' = st2" by auto
  note n = interned_new_spec [OF Cons.prems(1) 1]
  from Cons.IH [OF conjunct1 [OF n], of as1] 2 n eq show ?case by (auto simp: interned_str_def nth_append)
qed

text \<open>
  After any sequence of interning calls, two interned strings are equal (as addresses) exactly
  when the texts they were made from are equal, which is exactly when their order is \<open>Equal\<close> and when their
  hashes agree; and each still reads back as its text, however many strings were interned after it.
\<close>

theorem interned_eq_iff:
  assumes "intern_all ss no_strings = (as, st)" "i < length ss" "j < length ss"
  shows "interned_str st (as ! i) = ss ! i \<and> (interned_eq (as ! i) (as ! j) \<longleftrightarrow> ss ! i = ss ! j) \<and>
    (interned_eq (as ! i) (as ! j) \<longleftrightarrow> interned_cmp st (as ! i) (as ! j) = Equal) \<and>
    (interned_eq (as ! i) (as ! j) \<longleftrightarrow> interned_hash st (as ! i) = interned_hash st (as ! j))"
proof -
  have "interner_ok no_strings" by (simp add: interner_ok_def no_strings_def)
  from intern_all_spec [OF this assms(1)] have ok: "interner_ok st"
    and all: "list_all2 (\<lambda>s a. a < length (leaked st) \<and> interned_str st a = s) ss as" by auto
  have at: "as ! k < length (leaked st)" "interned_str st (as ! k) = ss ! k" if "k < length ss" for k
    using list_all2_nthD [OF all that] by auto
  have "as ! i = as ! j \<longleftrightarrow> ss ! i = ss ! j"
    using ok at [OF assms(2)] at [OF assms(3)] nth_eq_iff_index_eq [of "leaked st" "as ! i" "as ! j"]
    by (simp add: interner_ok_def interned_str_def)
  then show ?thesis
    using at [OF assms(2)] at [OF assms(3)] by (simp add: interned_eq_def interned_cmp_def interned_hash_def)
qed

theorem interned_eq_iff_witness:
  "fst (intern_all [''a'', ''b'', ''a''] no_strings) = [0, 1, 0] \<and>
   interned_eq (fst (intern_all [''a'', ''b'', ''a''] no_strings) ! 0) (fst (intern_all [''a'', ''b'', ''a''] no_strings) ! 2)"
proof -
  have run: "intern_all [''a'', ''b'', ''a''] no_strings = ([0, 1, 0], \<lparr>leaked = [''a'', ''b''], string_cache = [1, 0]\<rparr>)"
    by (simp add: interned_new_def leak_def interned_str_def no_strings_def)
  from interned_eq_iff [OF run, of 0 2] show ?thesis unfolding run by simp
qed

end
