(* ===== verification/Paths.thy ===== *)
theory Paths
  imports Prelude
begin

text \<open>
  Paths, \<open>std::path\<close> as the code uses it on Unix, and the pure part of
  \<open>src/cargo/util/paths.rs\<close>.  A path is the list of its components: that is how \<open>Path\<close> compares,
  hashes and iterates, so two texts with the same components are the same path here as there.  The
  component \<open>Prefix\<close> exists on Windows only and has no constructor.
\<close>

section \<open>Components\<close>

datatype component = RootDir | CurDir | ParentDir | NormalComp string

type_synonym path = "component list"

text \<open>\<open>s.split(c)\<close>, and \<open>join\<close>.\<close>

fun split_char :: "char \<Rightarrow> string \<Rightarrow> string list" where
  "split_char c [] = [[]]"
| "split_char c (x # s) =
     (if x = c then [] # split_char c s
      else (case split_char c s of [] \<Rightarrow> [[x]] | p # ps \<Rightarrow> (x # p) # ps))"

fun join_str :: "string \<Rightarrow> string list \<Rightarrow> string" where
  "join_str sep [] = []"
| "join_str sep [p] = p"
| "join_str sep (p # q # ps) = p @ sep @ join_str sep (q # ps)"

lemma split_char_not_Nil [simp]: "split_char c s \<noteq> []"
  by (induction s) (auto split: list.splits)

lemma join_str_Cons: "ps \<noteq> [] \<Longrightarrow> join_str sep (p # ps) = p @ sep @ join_str sep ps"
  by (cases ps) auto

lemma join_split_char [simp]: "join_str [c] (split_char c s) = s"
proof (induction s)
  case Nil
  show ?case by simp
next
  case (Cons x s)
  obtain p ps where ps: "split_char c s = p # ps" by (cases "split_char c s") auto
  with Cons show ?case by (cases ps) (auto simp: join_str_Cons)
qed

lemma split_char_pieces: "p \<in> set (split_char c s) \<Longrightarrow> c \<notin> set p"
proof (induction s arbitrary: p)
  case (Cons x s)
  then show ?case by (cases "split_char c s") (auto split: if_splits)
qed simp

lemma split_char_none [simp]: "c \<notin> set s \<Longrightarrow> split_char c s = [s]"
  by (induction s) auto

lemma split_char_append [simp]: "c \<notin> set p \<Longrightarrow> split_char c (p @ c # s) = p # split_char c s"
  by (induction p) auto

lemma split_join_str:
  "ps \<noteq> [] \<Longrightarrow> \<forall>p\<in>set ps. c \<notin> set p \<Longrightarrow> split_char c (join_str [c] ps) = ps"
proof (induction "[c]" ps rule: join_str.induct)
  case (3 p q ps)
  then show ?case by simp
qed auto

fun comp_of_str :: "string \<Rightarrow> component" where
  "comp_of_str s = (if s = ''..'' then ParentDir else NormalComp s)"

fun comp_str :: "component \<Rightarrow> string" where
  "comp_str RootDir = ''/''"
| "comp_str CurDir = ''.''"
| "comp_str ParentDir = ''..''"
| "comp_str (NormalComp s) = s"

text \<open>\<open>Path::new(s).components()\<close>: separators repeat without effect, and \<open>.\<close> counts only at the
  start of a relative path.\<close>

definition path_of_str :: "string \<Rightarrow> path" where
  "path_of_str s =
     (let pieces = split_char CHR ''/'' s
      in (if starts_with ''/'' s then [RootDir]
          else if hd pieces = ''.'' then [CurDir] else []) @
         map comp_of_str (filter (\<lambda>p. p \<noteq> [] \<and> p \<noteq> ''.'') pieces))"

fun path_str :: "path \<Rightarrow> string" where
  "path_str [] = []"
| "path_str (RootDir # p) = CHR ''/'' # join_str ''/'' (map comp_str p)"
| "path_str p = join_str ''/'' (map comp_str p)"

text \<open>A path as \<open>components\<close> gives it: the root and \<open>.\<close> only in front, and names that are names.\<close>

fun comp_ok :: "component \<Rightarrow> bool" where
  "comp_ok (NormalComp s) \<longleftrightarrow> s \<noteq> [] \<and> s \<noteq> ''.'' \<and> s \<noteq> ''..'' \<and> CHR ''/'' \<notin> set s"
| "comp_ok ParentDir \<longleftrightarrow> True"
| "comp_ok _ \<longleftrightarrow> False"

fun path_wf :: "path \<Rightarrow> bool" where
  "path_wf [] \<longleftrightarrow> True"
| "path_wf (c # p) \<longleftrightarrow> (c = RootDir \<or> c = CurDir \<or> comp_ok c) \<and> list_all comp_ok p"

lemma path_of_str_wf: "path_wf (path_of_str s)"
proof -
  have rest: "list_all comp_ok (map comp_of_str (filter (\<lambda>p. p \<noteq> [] \<and> p \<noteq> ''.'') (split_char CHR ''/'' s)))"
    using split_char_pieces [of _ "CHR ''/''" s] by (auto simp: list_all_iff)
  then show ?thesis
    by (cases "map comp_of_str (filter (\<lambda>p. p \<noteq> [] \<and> p \<noteq> ''.'') (split_char CHR ''/'' s))")
       (auto simp: path_of_str_def Let_def)
qed


section \<open>Operations of \<open>Path\<close> and \<open>PathBuf\<close>\<close>

definition is_absolute :: "path \<Rightarrow> bool" where
  "is_absolute p \<longleftrightarrow> p \<noteq> [] \<and> hd p = RootDir"

definition path_join :: "path \<Rightarrow> path \<Rightarrow> path" where
  "path_join p q =
     (if is_absolute q \<or> p = [] then q
      else p @ (case q of CurDir # r \<Rightarrow> r | _ \<Rightarrow> q))"

definition path_parent :: "path \<Rightarrow> path option" where
  "path_parent p = (if p = [] \<or> last p = RootDir then None else Some (butlast p))"

text \<open>\<open>PathBuf::pop\<close> leaves a path without a parent alone.\<close>

definition path_pop :: "path \<Rightarrow> path" where
  "path_pop p = (case path_parent p of Some q \<Rightarrow> q | None \<Rightarrow> p)"

lemma path_parent_length: "path_parent p = Some q \<Longrightarrow> length q < length p"
  by (auto simp: path_parent_def split: if_splits)

lemma path_wf_append: "path_wf (p @ q) \<Longrightarrow> path_wf p"
  by (cases p) auto

lemma path_wf_comps: "path_wf p \<Longrightarrow> c \<in> set p \<Longrightarrow> c = hd p \<or> comp_ok c"
  by (cases p) (auto simp: list_all_iff)

lemma path_wf_join: "path_wf p \<Longrightarrow> path_wf q \<Longrightarrow> path_wf (path_join p q)"
  by (cases p; cases q) (auto simp: path_join_def is_absolute_def split: component.splits)

lemma path_wf_parent: "path_wf p \<Longrightarrow> path_parent p = Some q \<Longrightarrow> path_wf q"
  by (metis append_butlast_last_id option.distinct(1) option.inject path_parent_def path_wf_append)

section \<open>\<open>util/paths.rs\<close>\<close>

definition normalize_step :: "component \<Rightarrow> path \<Rightarrow> path" where
  "normalize_step c ret =
     (case c of
        RootDir \<Rightarrow> path_join ret [RootDir]
      | CurDir \<Rightarrow> ret
      | ParentDir \<Rightarrow> path_pop ret
      | NormalComp s \<Rightarrow> path_join ret [NormalComp s])"

definition normalize_path :: "path \<Rightarrow> path" where
  "normalize_path p = fold normalize_step p []"

fun without_prefix :: "path \<Rightarrow> path \<Rightarrow> path option" where
  "without_prefix a [] = Some a"
| "without_prefix (x # a) (y # b) = (if x = y then without_prefix a b else None)"
| "without_prefix [] (y # b) = None"

text \<open>The iterator \<open>PathAncestors\<close>, run to its end; \<open>stop_at\<close> is the test root of the environment.\<close>

function ancestors :: "path option \<Rightarrow> path \<Rightarrow> path list" where
  "ancestors stop_at p =
     p # (if stop_at = Some p then []
          else case path_parent p of Some q \<Rightarrow> ancestors stop_at q | None \<Rightarrow> [])"
  by pat_completeness auto
termination
  by (relation "measure (length \<circ> snd)") (auto dest: path_parent_length)

declare ancestors.simps [simp del]

lemma without_prefix_iff: "without_prefix a b = Some r \<longleftrightarrow> a = b @ r"
  by (induction a b rule: without_prefix.induct) auto

text \<open>The ancestors are the nonempty beginnings of an absolute path, the longest first.\<close>

lemma ancestors_absolute:
  "ancestors None (RootDir # map NormalComp ns) = map (\<lambda>i. RootDir # map NormalComp (take i ns)) (rev [0..<Suc (length ns)])"
proof (induction ns rule: rev_induct)
  case Nil
  show ?case by (simp add: ancestors.simps path_parent_def)
next
  case (snoc n ns)
  then show ?case
    by (subst ancestors.simps) (auto simp: path_parent_def butlast_append)
qed

section \<open>What a path denotes\<close>

text \<open>
  In a tree without symbolic links a path leads from a directory, given by the names from the root
  down, to another one.
\<close>

fun walk_comp :: "component \<Rightarrow> string list \<Rightarrow> string list" where
  "walk_comp RootDir d = []"
| "walk_comp CurDir d = d"
| "walk_comp ParentDir d = butlast d"
| "walk_comp (NormalComp s) d = d @ [s]"

definition walk :: "path \<Rightarrow> string list \<Rightarrow> string list" where
  "walk p d = fold walk_comp p d"

text \<open>A relative path stays below its start when no \<open>..\<close> climbs out of it.\<close>

fun stays_below :: "path \<Rightarrow> nat \<Rightarrow> bool" where
  "stays_below [] n \<longleftrightarrow> True"
| "stays_below (RootDir # p) n \<longleftrightarrow> True"
| "stays_below (CurDir # p) n \<longleftrightarrow> stays_below p n"
| "stays_below (ParentDir # p) n \<longleftrightarrow> n > 0 \<and> stays_below p (n - 1)"
| "stays_below (NormalComp s # p) n \<longleftrightarrow> stays_below p (Suc n)"

text \<open>The form of a normalized path.\<close>

definition rooted :: "bool \<Rightarrow> string list \<Rightarrow> path" where
  "rooted r ns = (if r then [RootDir] else []) @ map NormalComp ns"

lemma normalize_step_rooted:
  "normalize_step c (rooted r ns) =
     (case c of RootDir \<Rightarrow> rooted True [] | _ \<Rightarrow> rooted r (walk_comp c ns))"
  by (cases c; cases ns rule: rev_cases)
     (auto simp: normalize_step_def rooted_def path_join_def is_absolute_def path_pop_def path_parent_def
       butlast_append last_map map_butlast)

lemma fold_normalize_rooted:
  "\<exists>r' ns'. fold normalize_step p (rooted r ns) = rooted r' ns' \<and> (r \<longrightarrow> r') \<and> (RootDir \<in> set p \<longrightarrow> r')"
proof (induction p arbitrary: r ns)
  case (Cons c p)
  show ?case
  proof (cases "c = RootDir")
    case True
    with Cons.IH [of True "[]"] show ?thesis by (auto simp: normalize_step_rooted)
  next
    case False
    then have "normalize_step c (rooted r ns) = rooted r (walk_comp c ns)"
      by (cases c) (auto simp: normalize_step_rooted)
    with Cons.IH [of r "walk_comp c ns"] False show ?thesis by auto
  qed
qed auto

lemma walk_rooted: "walk (rooted r ns) d = (if r then ns else d @ ns)"
proof -
  have "fold walk_comp (map NormalComp ns) d = d @ ns" for d
    by (induction ns arbitrary: d) auto
  then show ?thesis by (simp add: walk_def rooted_def)
qed

lemma walk_normalize:
  "r \<or> stays_below p (length ns) \<Longrightarrow>
   walk (fold normalize_step p (rooted r ns)) d = walk p (walk (rooted r ns) d)"
proof (induction p arbitrary: r ns)
  case Nil
  then show ?case by (simp add: walk_def)
next
  case (Cons c p)
  show ?case
  proof (cases "c = RootDir")
    case True
    with Cons.IH [of True "[]"] show ?thesis by (simp add: normalize_step_rooted walk_rooted) (simp add: walk_def)
  next
    case False
    have step: "normalize_step c (rooted r ns) = rooted r (walk_comp c ns)"
      using False by (cases c) (auto simp: normalize_step_rooted)
    have below: "r \<or> stays_below p (length (walk_comp c ns))"
      using Cons.prems False by (cases c) auto
    have "walk_comp c (walk (rooted r ns) d) = walk (rooted r (walk_comp c ns)) d"
      using Cons.prems False by (cases c; cases "ns = []") (auto simp: walk_rooted butlast_append)
    with Cons.IH [OF below] step show ?thesis by (simp add: walk_def)
  qed
qed

text \<open>C37: \<open>normalize_path\<close> removes every \<open>.\<close> and \<open>..\<close> from a path, and in a tree without symbolic links
  the result leads to the same place as the path did, whatever the current directory: always for an
  absolute path, and for a relative one that does not climb above its start.\<close>

theorem normalize_path_denotes:
  assumes "is_absolute p \<or> stays_below p 0"
  shows "walk (normalize_path p) d = walk p d \<and>
         CurDir \<notin> set (normalize_path p) \<and> ParentDir \<notin> set (normalize_path p) \<and>
         normalize_path (normalize_path p) = normalize_path p"
proof -
  have start: "rooted False [] = []" by (simp add: rooted_def)
  have "stays_below p 0"
    using assms by (cases p) (auto simp: is_absolute_def)
  then have w: "walk (normalize_path p) d = walk p d"
    using walk_normalize [of False p "[]" d] by (simp add: start normalize_path_def) (simp add: walk_def)
  obtain r ns where n: "normalize_path p = rooted r ns"
    using fold_normalize_rooted [of p False "[]"] by (auto simp: start normalize_path_def)
  have again: "fold normalize_step (map NormalComp ms) (rooted r us) = rooted r (us @ ms)" for ms us
    by (induction ms arbitrary: us) (simp_all add: normalize_step_rooted)
  have "normalize_path (rooted r ns) = rooted r ns"
    using again [of ns "[]"] normalize_step_rooted [of RootDir False "[]"]
    by (cases r) (simp_all add: normalize_path_def rooted_def)
  with w n show ?thesis by (auto simp: rooted_def)
qed

theorem normalize_path_denotes_witness:
  "walk (normalize_path (path_of_str ''/a/./b/../c'')) [] = [''a'', ''c''] \<and>
   walk (normalize_path (path_of_str ''x/../y'')) [''z''] = [''z'', ''y'']"
proof -
  have "is_absolute (path_of_str ''/a/./b/../c'') \<or> stays_below (path_of_str ''/a/./b/../c'') 0"
       "is_absolute (path_of_str ''x/../y'') \<or> stays_below (path_of_str ''x/../y'') 0"
    by code_simp+
  from this(1) [THEN normalize_path_denotes, of "[]"] this(2) [THEN normalize_path_denotes, of "[''z'']"]
  have "walk (normalize_path (path_of_str ''/a/./b/../c'')) [] = walk (path_of_str ''/a/./b/../c'') []"
       "walk (normalize_path (path_of_str ''x/../y'')) [''z''] = walk (path_of_str ''x/../y'') [''z'']"
    by blast+
  moreover have "walk (path_of_str ''/a/./b/../c'') [] = [''a'', ''c'']"
       "walk (path_of_str ''x/../y'') [''z''] = [''z'', ''y'']"
    by code_simp+
  ultimately show ?thesis by simp
qed

text \<open>A leading \<open>..\<close> of a relative path is lost.\<close>

lemma normalize_path_loses_parent: "normalize_path (path_of_str ''../a'') = path_of_str ''a''"
  by code_simp

end
