(* ===== verification/Config_Value.thy ===== *)
theory Config_Value
  imports Paths
begin

text \<open>
  Configuration values, \<open>src/cargo/util/config.rs\<close>: the tree of values read from configuration
  files, its reading from TOML, and the merge of the trees of several files.  A table is an
  association list with distinct keys, so every statement about it holds for every order in which
  the \<open>HashMap\<close> is iterated.  Of \<open>toml::Value\<close> the code looks at the variants below; the others it only
  names by their \<open>type_str\<close>.
\<close>

section \<open>Values\<close>

datatype config_value =
    CInteger int path
  | CString string path
  | CList "(string \<times> path) list" path
  | CTable "(string \<times> config_value) list" path
  | CBoolean bool path

type_synonym config_table = "(string \<times> config_value) list"

datatype definition_site = DefPath path | DefEnvironment string

record 'a config_val =
  val :: 'a
  val_definition :: definition_site

type_synonym 'a opt_value = "'a config_val option"

datatype toml_value =
    TomlString string
  | TomlInteger int
  | TomlBoolean bool
  | TomlArray "toml_value list"
  | TomlTable "(string \<times> toml_value) list"
  | TomlOther string

fun toml_type_str :: "toml_value \<Rightarrow> string" where
  "toml_type_str (TomlString _) = ''string''"
| "toml_type_str (TomlInteger _) = ''integer''"
| "toml_type_str (TomlBoolean _) = ''boolean''"
| "toml_type_str (TomlArray _) = ''array''"
| "toml_type_str (TomlTable _) = ''table''"
| "toml_type_str (TomlOther s) = s"

datatype config_error =
    ListElement string
  | UnknownType string
  | ParseKey string config_error
  | MergeExpected string string
  | MergeKey string path path config_error
  | ValueExpected string string string path
  | ExpectedTable string string path
  | InvalidForKey string config_error
  | KeyExpected string string string path
  | EnvInvalid string string
  | MissingKey string
  | NotListSyntax string string
  | BadTomlList string
  | ListItemNotString string string
  | ReadFailed path
  | ParseFailed path
  | LoadFailed path config_error
  | MergeFailed path config_error
  | CouldNotLoad config_error
  | ValuesAlreadyFound
  | InvalidRegistryUrl string
  | RegistryUrlCredentials
  | NoRegistryIndex string

fun desc :: "config_value \<Rightarrow> string" where
  "desc (CTable _ _) = ''table''"
| "desc (CList _ _) = ''array''"
| "desc (CString _ _) = ''string''"
| "desc (CBoolean _ _) = ''boolean''"
| "desc (CInteger _ _) = ''integer''"

fun definition_path :: "config_value \<Rightarrow> path" where
  "definition_path (CBoolean _ p) = p"
| "definition_path (CInteger _ p) = p"
| "definition_path (CString _ p) = p"
| "definition_path (CList _ p) = p"
| "definition_path (CTable _ p) = p"

definition value_expected :: "config_value \<Rightarrow> string \<Rightarrow> string \<Rightarrow> config_error + 'a" where
  "value_expected cv wanted key = Inl (ValueExpected wanted (desc cv) key (definition_path cv))"

definition cv_i64 :: "config_value \<Rightarrow> string \<Rightarrow> config_error + int \<times> path" where
  "cv_i64 cv key = (case cv of CInteger i p \<Rightarrow> Inr (i, p) | _ \<Rightarrow> value_expected cv ''integer'' key)"

definition cv_string :: "config_value \<Rightarrow> string \<Rightarrow> config_error + string \<times> path" where
  "cv_string cv key = (case cv of CString s p \<Rightarrow> Inr (s, p) | _ \<Rightarrow> value_expected cv ''string'' key)"

definition cv_table :: "config_value \<Rightarrow> string \<Rightarrow> config_error + config_table \<times> path" where
  "cv_table cv key = (case cv of CTable t p \<Rightarrow> Inr (t, p) | _ \<Rightarrow> value_expected cv ''table'' key)"

definition cv_list :: "config_value \<Rightarrow> string \<Rightarrow> config_error + (string \<times> path) list" where
  "cv_list cv key = (case cv of CList l _ \<Rightarrow> Inr l | _ \<Rightarrow> value_expected cv ''list'' key)"

definition cv_boolean :: "config_value \<Rightarrow> string \<Rightarrow> config_error + bool \<times> path" where
  "cv_boolean cv key = (case cv of CBoolean b p \<Rightarrow> Inr (b, p) | _ \<Rightarrow> value_expected cv ''bool'' key)"

section \<open>From and to TOML\<close>

definition list_element :: "path \<Rightarrow> toml_value \<Rightarrow> config_error + string \<times> path" where
  "list_element p v =
     (case v of TomlString s \<Rightarrow> Inr (s, p) | _ \<Rightarrow> Inl (ListElement (toml_type_str v)))"

definition map_err :: "('e \<Rightarrow> 'f) \<Rightarrow> 'e + 'a \<Rightarrow> 'f + 'a" where
  "map_err f r = (case r of Inl e \<Rightarrow> Inl (f e) | Inr a \<Rightarrow> Inr a)"

lemma map_err_simps [simp]:
  "map_err f (Inl e) = Inl (f e)"
  "map_err f (Inr a) = Inr a"
  "map_err f r = Inr a \<longleftrightarrow> r = Inr a"
  by (auto simp: map_err_def split: sum.splits)

fun from_toml :: "path \<Rightarrow> toml_value \<Rightarrow> config_error + config_value"
  and from_toml_entries :: "path \<Rightarrow> (string \<times> toml_value) list \<Rightarrow> config_error + config_table" where
  "from_toml p (TomlString s) = Inr (CString s p)"
| "from_toml p (TomlBoolean b) = Inr (CBoolean b p)"
| "from_toml p (TomlInteger i) = Inr (CInteger i p)"
| "from_toml p (TomlArray vs) = bindE (collectE (list_element p) vs) (\<lambda>l. Inr (CList l p))"
| "from_toml p (TomlTable es) = bindE (from_toml_entries p es) (\<lambda>t. Inr (CTable t p))"
| "from_toml p (TomlOther s) = Inl (UnknownType s)"
| "from_toml_entries p [] = Inr []"
| "from_toml_entries p ((k, v) # es) =
     bindE (map_err (ParseKey k) (from_toml p v)) (\<lambda>cv.
     bindE (from_toml_entries p es) (\<lambda>t. Inr ((k, cv) # t)))"

fun into_toml :: "config_value \<Rightarrow> toml_value" where
  "into_toml (CBoolean b _) = TomlBoolean b"
| "into_toml (CString s _) = TomlString s"
| "into_toml (CInteger i _) = TomlInteger i"
| "into_toml (CList l _) = TomlArray (map (\<lambda>(s, _). TomlString s) l)"
| "into_toml (CTable t _) = TomlTable (map (\<lambda>(k, v). (k, into_toml v)) t)"

section \<open>Merge\<close>

fun merge :: "config_value \<Rightarrow> config_value \<Rightarrow> config_error + config_value"
  and merge_entries :: "config_table \<Rightarrow> config_table \<Rightarrow> config_error + config_table" where
  "merge (CList old p) (CList new _) = Inr (CList (old @ new) p)"
| "merge (CTable old p) (CTable new _) = bindE (merge_entries old new) (\<lambda>t. Inr (CTable t p))"
| "merge (CList old p) found = Inl (MergeExpected (desc (CList old p)) (desc found))"
| "merge (CTable old p) found = Inl (MergeExpected (desc (CTable old p)) (desc found))"
| "merge expected (CList new q) = Inl (MergeExpected (desc expected) (desc (CList new q)))"
| "merge expected (CTable new q) = Inl (MergeExpected (desc expected) (desc (CTable new q)))"
| "merge expected found = Inr expected"
| "merge_entries old [] = Inr old"
| "merge_entries old ((key, v) # new) =
     (case map_of old key of
        Some entry \<Rightarrow>
          bindE (map_err (MergeKey key (definition_path entry) (definition_path v)) (merge entry v)) (\<lambda>merged.
            merge_entries (AList.update key merged old) new)
      | None \<Rightarrow> merge_entries (AList.update key v old) new)"

section \<open>Lookup, and what a merge does to it\<close>

text \<open>The value at a path of keys, and the three shapes a merge keeps apart.\<close>

fun at :: "config_value \<Rightarrow> string list \<Rightarrow> config_value option" where
  "at cv [] = Some cv"
| "at (CTable t p) (k # ks) = (case map_of t k of Some v \<Rightarrow> at v ks | None \<Rightarrow> None)"
| "at _ (k # ks) = None"

datatype value_shape = ScalarShape | ListShape | TableShape

fun shape :: "config_value \<Rightarrow> value_shape" where
  "shape (CTable _ _) = TableShape"
| "shape (CList _ _) = ListShape"
| "shape _ = ScalarShape"

fun cv_wf :: "config_value \<Rightarrow> bool" where
  "cv_wf (CTable t _) \<longleftrightarrow> wf_alist t \<and> list_all (\<lambda>(k, v). cv_wf v) t"
| "cv_wf _ \<longleftrightarrow> True"

text \<open>A value that may be there merged with one that may be there.\<close>

definition merges :: "config_value option \<Rightarrow> config_value option \<Rightarrow> config_value option \<Rightarrow> bool" where
  "merges x y z \<longleftrightarrow>
     (case x of None \<Rightarrow> z = y
      | Some a \<Rightarrow> (case y of None \<Rightarrow> z = x | Some b \<Rightarrow> \<exists>m. merge a b = Inr m \<and> z = Some m))"

lemma merges_None [simp]: "merges None y z \<longleftrightarrow> z = y" "merges x None z \<longleftrightarrow> z = x"
  by (auto simp: merges_def split: option.splits)

lemma merges_Some [simp]: "merges (Some a) (Some b) z \<longleftrightarrow> (\<exists>m. merge a b = Inr m \<and> z = Some m)"
  by (simp add: merges_def)

lemma cv_wf_table: "cv_wf (CTable t p) \<longleftrightarrow> wf_alist t \<and> (\<forall>k v. map_of t k = Some v \<longrightarrow> cv_wf v)"
proof -
  have "(\<forall>e\<in>set t. cv_wf (snd e)) \<longleftrightarrow> (\<forall>k v. map_of t k = Some v \<longrightarrow> cv_wf v)" if "wf_alist t"
    using map_of_in_set_iff [OF that] by (metis surj_pair snd_conv)
  then show ?thesis by (auto simp: list_all_iff split_beta)
qed

lemma merge_entries_at:
  assumes "merge_entries old new = Inr t" "wf_alist new"
  shows "merges (map_of old k) (map_of new k) (map_of t k)"
  using assms
proof (induction new arbitrary: old)
  case (Cons e new)
  obtain key v where e: "e = (key, v)" by fastforce
  with Cons.prems have fresh: "map_of new key = None" by (auto simp: map_of_eq_None_iff)
  from Cons.prems e obtain w where
    w: "merges (map_of old key) (Some v) (Some w)" and
    rest: "merge_entries (AList.update key w old) new = Inr t"
    by (auto split: option.splits)
  have "merges (map_of (AList.update key w old) k) (map_of new k) (map_of t k)"
    using Cons.IH [OF rest] Cons.prems by simp
  then show ?case using w fresh e by (auto split: if_splits)
qed simp

lemma merge_entries_wf: "merge_entries old new = Inr t \<Longrightarrow> wf_alist old \<Longrightarrow> wf_alist t"
  by (induction new arbitrary: old) (auto split: option.splits)

lemma merge_entries_total:
  assumes "\<And>k e v. map_of old k = Some e \<Longrightarrow> map_of new k = Some v \<Longrightarrow> \<exists>m. merge e v = Inr m" "wf_alist new"
  shows "\<exists>t. merge_entries old new = Inr t"
  using assms
proof (induction new arbitrary: old)
  case (Cons e new)
  obtain key v where e: "e = (key, v)" by fastforce
  obtain w where w: "merges (map_of old key) (Some v) (Some w)"
    using Cons.prems(1) [of key _ v] e by (cases "map_of old key") auto
  have "\<exists>t. merge_entries (AList.update key w old) new = Inr t"
  proof (rule Cons.IH)
    fix k a b
    assume "map_of (AList.update key w old) k = Some a" "map_of new k = Some b"
    moreover from this(2) Cons.prems(2) e have "k \<noteq> key" by (force dest: map_of_SomeD)
    ultimately show "\<exists>m. merge a b = Inr m" using Cons.prems(1) [of k a b] e by simp
  qed (use Cons.prems e in simp)
  with w e show ?case by (auto split: option.splits)
qed simp

text \<open>How a merge acts on values that are not both tables.\<close>

lemma merge_shape: "merge a b = Inr c \<Longrightarrow> shape a = shape b \<and> shape c = shape a"
  by (cases a; cases b) auto

lemma merge_scalar: "shape a = ScalarShape \<Longrightarrow> merge a b = Inr c \<Longrightarrow> c = a"
  by (cases a; cases b) auto

lemma at_not_table: "shape a \<noteq> TableShape \<Longrightarrow> ks \<noteq> [] \<Longrightarrow> at a ks = None"
  by (cases a; cases ks) auto

lemma at_wf: "cv_wf a \<Longrightarrow> at a ks = Some x \<Longrightarrow> cv_wf x"
proof (induction ks arbitrary: a)
  case (Cons k ks)
  then show ?case by (cases a) (auto simp: cv_wf_table simp del: cv_wf.simps split: option.splits)
qed simp

lemma shape_table: "shape a = TableShape \<longleftrightarrow> (\<exists>t p. a = CTable t p)"
  by (cases a) auto

text \<open>A merge commutes with lookup: at every path of keys it merges what the two values have there.\<close>

lemma merge_at:
  "merge a b = Inr c \<Longrightarrow> cv_wf b \<Longrightarrow> merges (at a ks) (at b ks) (at c ks)"
proof (induction ks arbitrary: a b c)
  case (Cons k ks)
  show ?case
  proof (cases "shape a = TableShape")
    case False
    with merge_shape [OF Cons.prems(1)] show ?thesis by (simp add: at_not_table)
  next
    case True
    with merge_shape [OF Cons.prems(1)] have "shape a = TableShape" "shape b = TableShape" by auto
    then obtain old p new q where ab: "a = CTable old p" "b = CTable new q" by (auto simp: shape_table)
    with Cons.prems obtain t where t: "merge_entries old new = Inr t" "c = CTable t p" by auto
    have "merges (map_of old k) (map_of new k) (map_of t k)"
      using merge_entries_at [OF t(1)] Cons.prems ab by simp
    moreover have "\<And>v. map_of new k = Some v \<Longrightarrow> cv_wf v"
      using Cons.prems(2) ab by (simp add: cv_wf_table del: cv_wf.simps)
    ultimately show ?thesis using Cons.IH ab t
      by (cases "map_of old k"; cases "map_of new k") auto
  qed
qed simp

lemma merge_wf_leaf: "merge a b = Inr c \<Longrightarrow> shape b \<noteq> TableShape \<Longrightarrow> cv_wf c"
  by (cases a; cases b) auto

lemma merge_wf:
  "merge a b = Inr c \<Longrightarrow> cv_wf a \<Longrightarrow> cv_wf b \<Longrightarrow> cv_wf c"
proof (induction b arbitrary: a c)
  case (CTable new q)
  from merge_shape [OF CTable.prems(1)] obtain old p where a: "a = CTable old p" by (auto simp: shape_table)
  with CTable.prems obtain t where t: "merge_entries old new = Inr t" "c = CTable t p" by auto
  have "cv_wf v" if v: "map_of t k = Some v" for k v
  proof (cases "map_of old k")
    case None
    with merge_entries_at [OF t(1), of k] CTable.prems v have "map_of new k = Some v" by simp
    with CTable.prems(3) show ?thesis by (simp add: cv_wf_table del: cv_wf.simps)
  next
    case (Some e)
    show ?thesis
    proof (cases "map_of new k")
      case None
      with merge_entries_at [OF t(1), of k] CTable.prems v Some have "v = e" by simp
      with CTable.prems(2) a Some show ?thesis by (simp add: cv_wf_table del: cv_wf.simps)
    next
      case (Some b)
      with merge_entries_at [OF t(1), of k] CTable.prems v \<open>map_of old k = Some e\<close>
      have "merge e b = Inr v" by auto
      moreover have "(k, b) \<in> set new" using Some by (rule map_of_SomeD)
      moreover have "cv_wf e" "cv_wf b"
        using CTable.prems a Some \<open>map_of old k = Some e\<close> by (auto simp: cv_wf_table simp del: cv_wf.simps)
      ultimately show ?thesis using CTable.IH [of "(k, b)" b e v] by simp
    qed
  qed
  moreover have "wf_alist t" using merge_entries_wf [OF t(1)] CTable.prems(2) a by simp
  ultimately show ?case using t by (simp add: cv_wf_table del: cv_wf.simps)
qed (metis merge_wf_leaf shape.simps value_shape.distinct)+


text \<open>A merge succeeds exactly when the two values have the same shape wherever both have one.\<close>

definition same_shapes :: "config_value \<Rightarrow> config_value \<Rightarrow> bool" where
  "same_shapes a b \<longleftrightarrow> (\<forall>ks x y. at a ks = Some x \<and> at b ks = Some y \<longrightarrow> shape x = shape y)"

lemma same_shapesD: "same_shapes a b \<Longrightarrow> at a ks = Some x \<Longrightarrow> at b ks = Some y \<Longrightarrow> shape x = shape y"
  by (auto simp: same_shapes_def)

lemma same_shapes_entry:
  assumes "same_shapes (CTable old p) (CTable new q)" "map_of old k = Some e" "map_of new k = Some v"
  shows "same_shapes e v"
  using same_shapesD [OF assms(1), of "k # _"] assms(2,3) by (auto simp: same_shapes_def)

lemma merge_leaf_total: "shape a = shape b \<Longrightarrow> shape b \<noteq> TableShape \<Longrightarrow> \<exists>c. merge a b = Inr c"
  by (cases a; cases b) auto

lemma merge_total: "same_shapes a b \<Longrightarrow> cv_wf b \<Longrightarrow> \<exists>c. merge a b = Inr c"
proof (induction b arbitrary: a)
  case (CTable new q)
  from same_shapesD [OF CTable.prems(1), of "[]"] have "shape a = TableShape" by simp
  then obtain old p where a: "a = CTable old p" by (auto simp: shape_table)
  have "\<exists>t. merge_entries old new = Inr t"
  proof (rule merge_entries_total)
    fix k e v
    assume k: "map_of old k = Some e" "map_of new k = Some v"
    from CTable.prems(1) a k have "same_shapes e v" by (metis same_shapes_entry)
    moreover have "cv_wf v" using CTable.prems(2) k by (simp add: cv_wf_table del: cv_wf.simps)
    moreover have "(k, v) \<in> set new" using k(2) by (rule map_of_SomeD)
    ultimately show "\<exists>m. merge e v = Inr m" using CTable.IH [of "(k, v)" v e] by simp
  qed (use CTable.prems in simp)
  with a show ?case by auto
qed (metis merge_leaf_total same_shapesD at.simps(1) shape.simps value_shape.distinct)+

text \<open>C21: Merging one configuration into another succeeds exactly when, wherever both have a value, the
  two are both tables, both lists or neither; then at every path of keys the result is what one of
  them has, or the merge of what both have: the older scalar, the older list followed by the
  newer one, or a table again.\<close>

theorem merge_correct:
  assumes "cv_wf a" "cv_wf b"
  shows "((\<exists>c. merge a b = Inr c) \<longleftrightarrow> same_shapes a b) \<and>
         (\<forall>c. merge a b = Inr c \<longrightarrow> cv_wf c \<and> (\<forall>ks. merges (at a ks) (at b ks) (at c ks))) \<and>
         (\<forall>l p m q. merge (CList l p) (CList m q) = Inr (CList (l @ m) p)) \<and>
         (\<forall>x y c. shape x = ScalarShape \<and> merge x y = Inr c \<longrightarrow> c = x)"
proof (intro conjI allI impI)
  show "(\<exists>c. merge a b = Inr c) \<longleftrightarrow> same_shapes a b"
  proof
    assume "\<exists>c. merge a b = Inr c"
    then obtain c where "merge a b = Inr c" ..
    from merge_at [OF this assms(2)] show "same_shapes a b"
      unfolding same_shapes_def by (metis merge_shape merges_Some)
  qed (use assms in \<open>auto intro: merge_total\<close>)
qed (use assms in \<open>auto intro: merge_wf merge_at merge_scalar\<close>)

definition near_config :: config_value where
  "near_config = CTable [(''build'', CTable [(''jobs'', CInteger 4 (path_of_str ''/a/.cargo/config''))]
     (path_of_str ''/a/.cargo/config'')), (''paths'', CList [(''x'', path_of_str ''/a/.cargo/config'')]
     (path_of_str ''/a/.cargo/config''))] (path_of_str ''/a/.cargo/config'')"

definition far_config :: config_value where
  "far_config = CTable [(''paths'', CList [(''y'', path_of_str ''/.cargo/config'')] (path_of_str ''/.cargo/config'')),
     (''build'', CTable [(''jobs'', CInteger 8 (path_of_str ''/.cargo/config'')),
        (''rustc'', CString ''r'' (path_of_str ''/.cargo/config''))] (path_of_str ''/.cargo/config''))]
     (path_of_str ''/.cargo/config'')"

theorem merge_correct_witness:
  "\<exists>c. merge near_config far_config = Inr c \<and> same_shapes near_config far_config \<and>
     at c [''build'', ''jobs''] = Some (CInteger 4 (path_of_str ''/a/.cargo/config''))"
proof -
  have wf: "cv_wf near_config" "cv_wf far_config" by code_simp+
  obtain c where c: "merge near_config far_config = Inr c"
    by (simp add: near_config_def far_config_def)
  have at: "at near_config [''build'', ''jobs''] = Some (CInteger 4 (path_of_str ''/a/.cargo/config''))"
    "at far_config [''build'', ''jobs''] = Some (CInteger 8 (path_of_str ''/.cargo/config''))"
    by (simp_all add: near_config_def far_config_def)
  from merge_correct [OF wf] c
  have "same_shapes near_config far_config"
    "merges (at near_config [''build'', ''jobs'']) (at far_config [''build'', ''jobs'']) (at c [''build'', ''jobs''])"
    by blast+
  with c at show ?thesis by auto
qed

section \<open>Several files\<close>

text \<open>The files in the order in which they are merged into what was read before.\<close>

definition merge_all :: "config_value list \<Rightarrow> config_value \<Rightarrow> config_error + config_value" where
  "merge_all files cfg = foldE (\<lambda>f cfg. merge cfg f) files cfg"

lemma merge_all_simps [simp]:
  "merge_all [] cfg = Inr cfg"
  "merge_all (f # files) cfg = bindE (merge cfg f) (merge_all files)"
  by (simp_all add: merge_all_def [abs_def])

lemma merge_all_wf:
  "merge_all files cfg = Inr c \<Longrightarrow> cv_wf cfg \<Longrightarrow> \<forall>f\<in>set files. cv_wf f \<Longrightarrow> cv_wf c"
  by (induction files arbitrary: cfg) (auto dest: merge_wf)

lemma merge_all_shape: "merge_all files cfg = Inr c \<Longrightarrow> shape c = shape cfg"
  by (induction files arbitrary: cfg) (auto dest: merge_shape)

text \<open>At a path of keys, several files merge the values of those that have one there.\<close>

lemma merge_all_at:
  assumes "merge_all files cfg = Inr c" "\<forall>f\<in>set files. cv_wf f"
  shows "case List.map_filter (\<lambda>f. at f ks) (cfg # files) of
           [] \<Rightarrow> at c ks = None
         | x # xs \<Rightarrow> \<exists>m. merge_all xs x = Inr m \<and> at c ks = Some m"
  using assms
proof (induction files arbitrary: cfg)
  case Nil
  then show ?case by (auto simp: List.map_filter_def)
next
  case (Cons f files)
  from Cons.prems obtain d where d: "merge cfg f = Inr d" "merge_all files d = Inr c" by auto
  have step: "merges (at cfg ks) (at f ks) (at d ks)" using merge_at [OF d(1)] Cons.prems by simp
  show ?case
    using Cons.IH [OF d(2)] Cons.prems step
    by (cases "at cfg ks"; cases "at f ks") (auto simp: map_filter_simps)
qed

lemma merge_all_scalar: "merge_all xs x = Inr m \<Longrightarrow> shape x = ScalarShape \<Longrightarrow> m = x"
  by (induction xs) (auto dest!: merge_scalar [rotated])

fun list_items :: "config_value \<Rightarrow> (string \<times> path) list" where
  "list_items (CList l p) = l"
| "list_items _ = []"

lemma merge_all_list:
  "merge_all xs x = Inr m \<Longrightarrow> shape x = ListShape \<Longrightarrow>
   m = CList (concat (map list_items (x # xs))) (definition_path x)"
proof (induction xs arbitrary: x)
  case Nil
  then show ?case by (cases x) auto
next
  case (Cons y ys)
  from Cons.prems obtain d where d: "merge x y = Inr d" "merge_all ys d = Inr m" by auto
  from Cons.prems(2) obtain l p where x: "x = CList l p" by (cases x) auto
  with d(1) obtain k q where y: "y = CList k q" and d': "d = CList (l @ k) p" by (cases y) auto
  from Cons.IH [OF d(2)] have "m = CList (concat (map list_items (d # ys))) (definition_path d)"
    by (simp add: d')
  then show ?case unfolding x y d' by simp
qed

text \<open>Values read from a file are well formed, come from that file, and print as they were read.\<close>

fun toml_wf :: "toml_value \<Rightarrow> bool" where
  "toml_wf (TomlTable es) \<longleftrightarrow> wf_alist es \<and> list_all (\<lambda>(k, v). toml_wf v) es"
| "toml_wf _ \<longleftrightarrow> True"

lemma from_toml_entries_keys: "from_toml_entries p es = Inr t \<Longrightarrow> keys t = keys es"
  by (induction es arbitrary: t) auto

lemma from_toml_wf:
  "from_toml p v = Inr cv \<Longrightarrow> toml_wf v \<Longrightarrow> cv_wf cv"
  "from_toml_entries p es = Inr t \<Longrightarrow> list_all (\<lambda>(k, v). toml_wf v) es \<Longrightarrow> list_all (\<lambda>(k, v). cv_wf v) t"
proof (induction p v and p es arbitrary: cv and t rule: from_toml_from_toml_entries.induct)
  case (5 p es)
  then show ?case using from_toml_entries_keys by fastforce
qed auto

lemma list_elements_printed:
  "collectE (list_element p) vs = Inr l \<Longrightarrow> map (\<lambda>(s, _). TomlString s) l = vs"
proof (induction vs arbitrary: l)
  case (Cons v vs)
  then show ?case by (cases v) (auto simp: list_element_def)
qed simp

lemma from_toml_printed:
  "from_toml p v = Inr cv \<Longrightarrow> into_toml cv = v"
  "from_toml_entries p es = Inr t \<Longrightarrow> map (\<lambda>(k, v). (k, into_toml v)) t = es"
  by (induction p v and p es arbitrary: cv and t rule: from_toml_from_toml_entries.induct)
     (auto dest: list_elements_printed)

lemma from_toml_table: "from_toml p (TomlTable es) = Inr cv \<Longrightarrow> \<exists>t. cv = CTable t p"
  by auto

end
