(* ===== verification/Cargo_Features.thy ===== *)
theory Cargo_Features
  imports Prelude
begin

text \<open>
  Editions, the features a manifest switches on, and the flags of the command line,
  \<open>src/cargo/core/features.rs\<close>.  A \<open>Features\<close> struct has one boolean per feature of the table; here it is
  the list of the names whose boolean is set, with the texts \<open>activated\<close>.  Whether nightly features are
  allowed depends on the release channel and two cells of the thread.
\<close>

section \<open>Editions\<close>

datatype edition = Edition2015 | Edition2018

datatype cargo_feature_error =
    UnknownEdition string
  | UnknownFeature string
  | AlreadyActivated string
  | RequiresNightly string string
  | FeatureRequired string bool
  | ZFlagNotAllowed
  | ExpectedYesNo string
  | UnknownZFlag string

fun edition_display :: "edition \<Rightarrow> string" where
  "edition_display Edition2015 = ''2015''"
| "edition_display Edition2018 = ''2018''"

definition edition_from_str :: "string \<Rightarrow> cargo_feature_error + edition" where
  "edition_from_str s =
     (if s = ''2015'' then Inr Edition2015
      else if s = ''2018'' then Inr Edition2018
      else Inl (UnknownEdition s))"

lemma edition_roundtrip: "edition_from_str s = Inr e \<longleftrightarrow> s = edition_display e"
  by (cases e) (auto simp: edition_from_str_def)

section \<open>Nightly features\<close>

record channel_state =
  override_channel :: "string option"
  rustc_bootstrap :: "string option"
  release_channel :: "string option"
  nightly_allowed_cell :: bool
  enable_nightly_cell :: bool

definition channel :: "channel_state \<Rightarrow> string" where
  "channel w =
     (case override_channel w of
        Some c \<Rightarrow> c
      | None \<Rightarrow>
          if rustc_bootstrap w = Some ''1'' then ''dev''
          else (case release_channel w of Some c \<Rightarrow> c | None \<Rightarrow> ''dev''))"

definition nightly_features_allowed :: "channel_state \<Rightarrow> bool" where
  "nightly_features_allowed w =
     (if enable_nightly_cell w then True
      else if channel w = ''nightly'' \<or> channel w = ''dev'' then nightly_allowed_cell w
      else False)"

definition maybe_allow_nightly_features :: "channel_state \<Rightarrow> channel_state" where
  "maybe_allow_nightly_features w = w\<lparr>nightly_allowed_cell := True\<rparr>"

definition enable_nightly_features :: "channel_state \<Rightarrow> channel_state" where
  "enable_nightly_features w = w\<lparr>enable_nightly_cell := True\<rparr>"

section \<open>Features of a manifest\<close>

datatype feature_status = Stable | Unstable

definition feature_table :: "(string \<times> feature_status) list" where
  "feature_table =
     [(''test_dummy_stable'', Stable), (''test_dummy_unstable'', Unstable),
      (''alternative_registries'', Unstable), (''edition'', Stable), (''rename_dependency'', Stable),
      (''publish_lockfile'', Unstable), (''profile_overrides'', Unstable),
      (''namespaced_features'', Unstable), (''default_run'', Unstable), (''metabuild'', Unstable)]"

record cargo_features =
  slots :: "string list"
  activated :: "string list"

definition replace_char :: "char \<Rightarrow> char \<Rightarrow> string \<Rightarrow> string" where
  "replace_char a b s = map (\<lambda>c. if c = a then b else c) s"

text \<open>\<open>Features::status\<close>: the slot of a feature and its status.\<close>

definition feature_slot :: "string \<Rightarrow> (string \<times> feature_status) option" where
  "feature_slot feature =
     (if CHR ''_'' \<in> set feature then None
      else let f = replace_char CHR ''-'' CHR ''_'' feature
           in map_option (\<lambda>s. (f, s)) (map_of feature_table f))"

definition add_feature ::
    "channel_state \<Rightarrow> string \<Rightarrow> cargo_features \<times> string list \<Rightarrow> cargo_feature_error + cargo_features \<times> string list" where
  "add_feature w feature st =
     (case st of (fs, warnings) \<Rightarrow>
        (case feature_slot feature of
           None \<Rightarrow> Inl (UnknownFeature feature)
         | Some (slot, status) \<Rightarrow>
             if slot \<in> set (slots fs) then Inl (AlreadyActivated feature)
             else
               bindE (case status of
                        Stable \<Rightarrow> Inr (warnings @ [feature])
                      | Unstable \<Rightarrow>
                          if \<not> nightly_features_allowed w then Inl (RequiresNightly feature (channel w))
                          else Inr warnings) (\<lambda>warnings.
                 Inr (fs\<lparr>slots := slots fs @ [slot]\<rparr>, warnings))))"

definition activate_feature ::
    "channel_state \<Rightarrow> string \<Rightarrow> cargo_features \<times> string list \<Rightarrow> cargo_feature_error + cargo_features \<times> string list" where
  "activate_feature w feature st =
     bindE (add_feature w feature st) (\<lambda>(fs, warnings).
       Inr (fs\<lparr>activated := activated fs @ [feature]\<rparr>, warnings))"

definition new_features ::
    "channel_state \<Rightarrow> string list \<Rightarrow> string list \<Rightarrow> cargo_feature_error + cargo_features \<times> string list" where
  "new_features w features warnings =
     foldE (activate_feature w) features (\<lparr>slots = [], activated = []\<rparr>, warnings)"

definition feature_enabled :: "string \<Rightarrow> cargo_features \<Rightarrow> bool" where
  "feature_enabled name fs \<longleftrightarrow> map_of feature_table name = Some Stable \<or> name \<in> set (slots fs)"

definition features_require :: "channel_state \<Rightarrow> string \<Rightarrow> cargo_features \<Rightarrow> cargo_feature_error + unit" where
  "features_require w name fs =
     (if feature_enabled name fs then Inr ()
      else Inl (FeatureRequired (replace_char CHR ''_'' CHR ''-'' name) (nightly_features_allowed w)))"

section \<open>Flags of the command line\<close>

record cli_unstable =
  print_im_a_teapot :: bool
  unstable_options :: bool
  offline :: bool
  no_index_update :: bool
  avoid_dev_deps :: bool
  minimal_versions :: bool
  package_features :: bool
  advanced_env :: bool
  config_profile :: bool

definition default_cli_unstable :: cli_unstable where
  "default_cli_unstable =
     \<lparr>print_im_a_teapot = False, unstable_options = False, offline = False, no_index_update = False,
      avoid_dev_deps = False, minimal_versions = False, package_features = False, advanced_env = False,
      config_profile = False\<rparr>"

definition parse_yes_no :: "string option \<Rightarrow> cargo_feature_error + bool" where
  "parse_yes_no v =
     (case v of
        None \<Rightarrow> Inr True
      | Some s \<Rightarrow> if s = ''yes'' then Inr True else if s = ''no'' then Inr False else Inl (ExpectedYesNo s))"

definition add_flag :: "string \<Rightarrow> cli_unstable \<Rightarrow> cargo_feature_error + cli_unstable" where
  "add_flag flag c =
     (case splitn2 CHR ''='' flag of (k, v) \<Rightarrow>
        if k = ''print-im-a-teapot'' then
          bindE (parse_yes_no v) (\<lambda>b. Inr (c\<lparr>print_im_a_teapot := b\<rparr>))
        else if k = ''unstable-options'' then Inr (c\<lparr>unstable_options := True\<rparr>)
        else if k = ''offline'' then Inr (c\<lparr>offline := True\<rparr>)
        else if k = ''no-index-update'' then Inr (c\<lparr>no_index_update := True\<rparr>)
        else if k = ''avoid-dev-deps'' then Inr (c\<lparr>avoid_dev_deps := True\<rparr>)
        else if k = ''minimal-versions'' then Inr (c\<lparr>minimal_versions := True\<rparr>)
        else if k = ''package-features'' then Inr (c\<lparr>package_features := True\<rparr>)
        else if k = ''advanced-env'' then Inr (c\<lparr>advanced_env := True\<rparr>)
        else if k = ''config-profile'' then Inr (c\<lparr>config_profile := True\<rparr>)
        else Inl (UnknownZFlag k))"

definition parse_flags :: "channel_state \<Rightarrow> string list \<Rightarrow> cli_unstable \<Rightarrow> cargo_feature_error + cli_unstable" where
  "parse_flags w flags c =
     (if flags \<noteq> [] \<and> \<not> nightly_features_allowed w then Inl ZFlagNotAllowed
      else foldE add_flag flags c)"

section \<open>Which lists of features are accepted\<close>

definition feature_ok :: "channel_state \<Rightarrow> string \<Rightarrow> bool" where
  "feature_ok w feature \<longleftrightarrow>
     (case feature_slot feature of
        None \<Rightarrow> False | Some (_, s) \<Rightarrow> s = Stable \<or> nightly_features_allowed w)"

definition slot_name :: "string \<Rightarrow> string" where
  "slot_name feature = replace_char CHR ''-'' CHR ''_'' feature"

definition is_stable :: "string \<Rightarrow> bool" where
  "is_stable feature \<longleftrightarrow> map_of feature_table (slot_name feature) = Some Stable"

lemma feature_slot_Some:
  "feature_slot f = Some (slot, s) \<longleftrightarrow>
     CHR ''_'' \<notin> set f \<and> slot = slot_name f \<and> map_of feature_table slot = Some s"
  by (auto simp: feature_slot_def slot_name_def Let_def)

lemma activate_feature_iff:
  "activate_feature w f (fs, ws) = Inr st \<longleftrightarrow>
     feature_ok w f \<and> slot_name f \<notin> set (slots fs) \<and>
     st = (fs\<lparr>slots := slots fs @ [slot_name f], activated := activated fs @ [f]\<rparr>,
           ws @ (if is_stable f then [f] else []))"
proof (cases "feature_slot f")
  case None
  then show ?thesis by (simp add: activate_feature_def add_feature_def feature_ok_def)
next
  case (Some p)
  obtain slot s where p: "p = (slot, s)" by fastforce
  with Some have slot: "slot = slot_name f" "map_of feature_table (slot_name f) = Some s"
    using feature_slot_Some by auto
  have ok: "feature_ok w f \<longleftrightarrow> s = Stable \<or> nightly_features_allowed w"
    using Some p by (simp add: feature_ok_def)
  have stable: "is_stable f \<longleftrightarrow> s = Stable" using slot by (simp add: is_stable_def)
  show ?thesis
    unfolding ok stable activate_feature_def add_feature_def
    using Some p slot(1) by (cases s) auto
qed

text \<open>The texts of a feature without \<open>_\<close> and its slot determine each other.\<close>

lemma slot_name_inj: "CHR ''_'' \<notin> set f \<Longrightarrow> CHR ''_'' \<notin> set g \<Longrightarrow> slot_name f = slot_name g \<longleftrightarrow> f = g"
proof (induction f arbitrary: g)
  case Nil
  then show ?case by (auto simp: slot_name_def replace_char_def)
next
  case (Cons c f)
  then show ?case by (cases g) (auto simp: slot_name_def replace_char_def split: if_splits)
qed

lemma features_loop:
  "foldE (activate_feature w) fl (fs, ws) = Inr st \<longleftrightarrow>
   (\<forall>f\<in>set fl. feature_ok w f) \<and> distinct (map slot_name fl) \<and> set (slots fs) \<inter> slot_name ` set fl = {} \<and>
   st = (fs\<lparr>slots := slots fs @ map slot_name fl, activated := activated fs @ fl\<rparr>, ws @ filter is_stable fl)"
proof (induction fl arbitrary: fs ws)
  case Nil
  then show ?case by auto
next
  case (Cons f fl)
  show ?case
    unfolding foldE.simps bindE_eq_Inr activate_feature_iff
    by (simp add: Cons.IH ex_simps(1) [symmetric] conj_assoc del: ex_simps) auto
qed

text \<open>The features listed in a manifest are accepted exactly when each is known, none is listed twice, and
  the unstable ones are listed only where nightly features are allowed; then the switched-on features
  are exactly the listed ones, and a warning is given for each that is stable.\<close>

theorem new_features_iff:
  "new_features w fl ws = Inr st \<longleftrightarrow>
     (\<forall>f\<in>set fl. feature_ok w f) \<and> distinct fl \<and>
     st = (\<lparr>slots = map slot_name fl, activated = fl\<rparr>, ws @ filter is_stable fl)"
proof -
  have "inj_on slot_name (set fl)" if "\<forall>f\<in>set fl. feature_ok w f"
  proof (rule inj_onI)
    fix f g
    assume "f \<in> set fl" "g \<in> set fl" and eq: "slot_name f = slot_name g"
    with that have "CHR ''_'' \<notin> set f" "CHR ''_'' \<notin> set g"
      by (auto simp: feature_ok_def feature_slot_def split: option.splits if_splits)
    with eq show "f = g" by (simp add: slot_name_inj)
  qed
  then show ?thesis by (auto simp: new_features_def features_loop distinct_map)
qed

theorem new_features_iff_witness:
  "\<exists>w. new_features w [''edition'', ''profile-overrides''] [] =
     Inr (\<lparr>slots = [''edition'', ''profile_overrides''], activated = [''edition'', ''profile-overrides'']\<rparr>, [''edition''])"
proof -
  let ?w = "\<lparr>override_channel = None, rustc_bootstrap = None, release_channel = Some ''nightly'',
    nightly_allowed_cell = True, enable_nightly_cell = False\<rparr>"
  have "feature_ok ?w ''edition''" "feature_ok ?w ''profile-overrides''"
    "slot_name ''edition'' = ''edition''" "slot_name ''profile-overrides'' = ''profile_overrides''"
    "is_stable ''edition''" "\<not> is_stable ''profile-overrides''"
    by code_simp+
  then show ?thesis by (intro exI [of _ ?w]) (simp add: new_features_iff)
qed

end
