(* ===== verification/Config_Load.thy ===== *)
theory Config_Load
  imports Config_Value Cargo_Features
begin

text \<open>
  The configuration, \<open>struct Config\<close> of \<open>src/cargo/util/config.rs\<close>: which files are read and how they
  are layered, the credentials file, and the lookup of keys in the environment and in the loaded
  values.  The file system and the TOML parser are arguments.  \<open>Config\<close> keeps the loaded values in a cell
  that is filled by the first read; the lookups below read the cell or what it would be filled
  with.  Text is ASCII, so positions count bytes and characters alike.
\<close>

section \<open>Keys\<close>

datatype config_key_part = Part string | CasePart string

type_synonym config_key = "config_key_part list"

definition to_uppercase :: "string \<Rightarrow> string" where
  "to_uppercase s =
     map (\<lambda>c. let n = of_char c :: nat in if 97 \<le> n \<and> n \<le> 122 then char_of (n - 32) else c) s"

fun part_to_env :: "config_key_part \<Rightarrow> string" where
  "part_to_env (Part s) = to_uppercase (replace_char CHR ''-'' CHR ''_'' s)"
| "part_to_env (CasePart s) = s"

fun part_to_config :: "config_key_part \<Rightarrow> string" where
  "part_to_config (Part s) = s"
| "part_to_config (CasePart s) = s"

definition key_from_str :: "string \<Rightarrow> config_key" where
  "key_from_str key = map Part (split_char CHR ''.'' key)"

definition key_join :: "config_key \<Rightarrow> config_key_part \<Rightarrow> config_key" where
  "key_join key part = key @ [part]"

definition key_to_env :: "config_key \<Rightarrow> string" where
  "key_to_env key = ''CARGO_'' @ join_str ''_'' (map part_to_env key)"

definition key_to_config :: "config_key \<Rightarrow> string" where
  "key_to_config key = join_str ''.'' (map part_to_config key)"

section \<open>State\<close>

datatype verbosity = Verbose | NormalVerbosity | Quiet

datatype color_choice = Always | Never | CargoAuto

text \<open>\<open>core/shell.rs\<close>: a stream knows its color choice, a plain writer has none.\<close>

datatype shell_out = ShellStream bool color_choice | ShellWrite

record shell =
  shell_err :: shell_out
  shell_verbosity :: verbosity

record config =
  cfg_cwd :: path
  cfg_home :: path
  cfg_env :: "(string \<times> string) list"
  cfg_values :: "config_table option"
  cfg_shell :: shell
  cfg_extra_verbose :: bool
  cfg_frozen :: bool
  cfg_locked :: bool
  cfg_target_dir :: "path option"
  cfg_cli :: cli_unstable

text \<open>The file system: which paths exist, the text of a file that can be read, the result of the parser, and
  the test root of the environment.\<close>

record config_world =
  path_exists :: "path \<Rightarrow> bool"
  read_file :: "path \<Rightarrow> string option"
  parse_toml :: "string \<Rightarrow> path \<Rightarrow> toml_value option"
  test_root :: "path option"
  env_target_dir :: "path option"

section \<open>Reading the files\<close>

definition config_file :: "path \<Rightarrow> path" where
  "config_file dir = path_join (path_join dir [NormalComp ''.cargo'']) [NormalComp ''config'']"

definition walk_dir ::
    "config_world \<Rightarrow> (path \<Rightarrow> 's \<Rightarrow> 'e + 's) \<Rightarrow> path \<Rightarrow> path list \<times> 's \<Rightarrow> 'e + path list \<times> 's" where
  "walk_dir W f current st =
     (case st of (stash, s) \<Rightarrow>
        let possible = config_file current
        in if path_exists W possible then
             bindE (f possible s) (\<lambda>s. Inr (List.insert possible stash, s))
           else Inr st)"

definition walk_tree :: "config_world \<Rightarrow> path \<Rightarrow> path \<Rightarrow> (path \<Rightarrow> 's \<Rightarrow> 'e + 's) \<Rightarrow> 's \<Rightarrow> 'e + 's" where
  "walk_tree W pwd home f s =
     bindE (foldE (walk_dir W f) (ancestors (test_root W) pwd) ([], s)) (\<lambda>(stash, s).
       let cfg = path_join home [NormalComp ''config'']
       in if cfg \<notin> set stash \<and> path_exists W cfg then f cfg s else Inr s)"

text \<open>One file as a value: open and read, parse, convert.\<close>

definition read_config :: "config_world \<Rightarrow> path \<Rightarrow> config_error + config_value" where
  "read_config W p =
     bindE (ok_or (ReadFailed p) (read_file W p)) (\<lambda>contents.
     bindE (ok_or (ParseFailed p) (parse_toml W contents p)) (\<lambda>toml.
       map_err (LoadFailed p) (from_toml p toml)))"

definition load_file :: "config_world \<Rightarrow> path \<Rightarrow> config_value \<Rightarrow> config_error + config_value" where
  "load_file W p cfg =
     bindE (read_config W p) (\<lambda>v. map_err (MergeFailed p) (merge cfg v))"

text \<open>\<open>load_credentials\<close>: an old file has its token at the top.\<close>

definition relocate_token :: "config_table \<Rightarrow> config_table" where
  "relocate_token t =
     (case map_of t ''token'' of
        None \<Rightarrow> t
      | Some token \<Rightarrow>
          let t = AList.delete ''token'' t
          in case map_of t ''registry'' of
               None \<Rightarrow> AList.update ''registry'' (CTable [(''token'', token)] [CurDir]) t
             | Some _ \<Rightarrow> t)"

definition load_credentials :: "config_world \<Rightarrow> path \<Rightarrow> config_value \<Rightarrow> (config_error, config_value) run" where
  "load_credentials W home cfg =
     (let credentials = path_join home [NormalComp ''credentials'']
      in if \<not> path_exists W credentials then Some (Inr cfg)
         else bindR (Some (read_config W credentials)) (\<lambda>v.
                case v of
                  CTable t p \<Rightarrow> Some (merge (CTable (relocate_token t) p) cfg)
                | _ \<Rightarrow> None))"

definition load_values_from :: "config_world \<Rightarrow> path \<Rightarrow> path \<Rightarrow> (config_error, config_table) run" where
  "load_values_from W home p =
     bindR (Some (map_err CouldNotLoad (walk_tree W p home (load_file W) (CTable [] [CurDir])))) (\<lambda>cfg.
     bindR (load_credentials W home cfg) (\<lambda>cfg.
       case cfg of CTable t _ \<Rightarrow> Some (Inr t) | _ \<Rightarrow> None))"

definition load_values :: "config_world \<Rightarrow> config \<Rightarrow> (config_error, config_table) run" where
  "load_values W cfg = load_values_from W (cfg_home cfg) (cfg_cwd cfg)"

definition config_values :: "config_world \<Rightarrow> config \<Rightarrow> (config_error, config_table) run" where
  "config_values W cfg = (case cfg_values cfg of Some t \<Rightarrow> Some (Inr t) | None \<Rightarrow> load_values W cfg)"

definition set_values :: "config_table \<Rightarrow> config \<Rightarrow> config_error + config" where
  "set_values t cfg =
     (if cfg_values cfg \<noteq> None then Inl ValuesAlreadyFound else Inr (cfg\<lparr>cfg_values := Some t\<rparr>))"

definition reload_rooted_at_cargo_home :: "config_world \<Rightarrow> config \<Rightarrow> (config_error, config) run" where
  "reload_rooted_at_cargo_home W cfg =
     bindR (load_values_from W (cfg_home cfg) (cfg_home cfg)) (\<lambda>t. Some (Inr (cfg\<lparr>cfg_values := Some t\<rparr>)))"

section \<open>Looking up keys\<close>

text \<open>The loop of \<open>get_cv\<close> over the parts of the key after the first; \<open>i\<close> counts them.\<close>

fun descend :: "string \<Rightarrow> nat \<Rightarrow> config_value \<Rightarrow> string list \<Rightarrow> config_error + config_value option" where
  "descend key i v [] = Inr (Some v)"
| "descend key i v (part # parts) =
     (case v of
        CTable m _ \<Rightarrow>
          (case map_of m part of Some w \<Rightarrow> descend key (Suc i) w parts | None \<Rightarrow> Inr None)
      | _ \<Rightarrow>
          let idx = fold (\<lambda>s n. n + length s) (take i (split_char CHR ''.'' key)) 0 + i - 1
          in Inl (ExpectedTable (take idx key) (desc v) (definition_path v)))"

definition get_cv :: "config_world \<Rightarrow> config \<Rightarrow> string \<Rightarrow> (config_error, config_value option) run" where
  "get_cv W cfg key =
     bindR (config_values W cfg) (\<lambda>vals.
       case split_char CHR ''.'' key of
         [] \<Rightarrow> None
       | part # parts \<Rightarrow>
           (case map_of vals part of
              None \<Rightarrow> Some (Inr None)
            | Some v \<Rightarrow> Some (descend key 1 v parts)))"

text \<open>\<open>FromStr\<close> for the types the lookups read from the environment.\<close>

definition parse_bool :: "string \<Rightarrow> bool option" where
  "parse_bool s = (if s = ''true'' then Some True else if s = ''false'' then Some False else None)"

definition digit_value :: "char \<Rightarrow> int option" where
  "digit_value c = (let n = of_char c :: nat in if 48 \<le> n \<and> n \<le> 57 then Some (int (n - 48)) else None)"

fun parse_digits :: "string \<Rightarrow> int \<Rightarrow> int option" where
  "parse_digits [] acc = Some acc"
| "parse_digits (c # s) acc =
     (case digit_value c of None \<Rightarrow> None | Some d \<Rightarrow> parse_digits s (acc * 10 + d))"

definition parse_i64 :: "string \<Rightarrow> int option" where
  "parse_i64 s =
     (let (neg, digits) =
        (case s of [] \<Rightarrow> (False, [])
         | c # r \<Rightarrow> if c = CHR ''-'' then (True, r) else if c = CHR ''+'' then (False, r) else (False, s))
      in if digits = [] then None
         else (case parse_digits digits 0 of
                 None \<Rightarrow> None
               | Some n \<Rightarrow>
                   let i = (if neg then - n else n)
                   in if - (2 ^ 63) \<le> i \<and> i < 2 ^ 63 then Some i else None))"

definition get_env :: "(string \<Rightarrow> 'a option) \<Rightarrow> config \<Rightarrow> config_key \<Rightarrow> config_error + 'a opt_value" where
  "get_env parse cfg key =
     (let k = key_to_env key
      in case map_of (cfg_env cfg) k of
           Some text \<Rightarrow>
             bindE (ok_or (EnvInvalid k text) (parse text)) (\<lambda>x.
               Inr (Some \<lparr>val = x, val_definition = DefEnvironment k\<rparr>))
         | None \<Rightarrow> Inr None)"

definition has_key :: "config_world \<Rightarrow> config \<Rightarrow> config_key \<Rightarrow> bool option" where
  "has_key W cfg key =
     (let env_key = key_to_env key
      in if map_of (cfg_env cfg) env_key \<noteq> None then Some True
         else if list_ex (starts_with (env_key @ ''_'')) (map fst (cfg_env cfg)) then Some True
         else (case get_cv W cfg (key_to_config key) of
                 None \<Rightarrow> None
               | Some (Inr o_cv) \<Rightarrow> Some (o_cv \<noteq> None)
               | Some (Inl _) \<Rightarrow> Some False))"

text \<open>The environment first, then the files; \<open>pick\<close> is the type the value has to have.\<close>

definition get_typed ::
    "config_world \<Rightarrow> config \<Rightarrow> (string \<Rightarrow> 'a option) \<Rightarrow> (config_value \<Rightarrow> 'a option) \<Rightarrow> string \<Rightarrow> config_key \<Rightarrow>
     (config_error, 'a opt_value) run" where
  "get_typed W cfg parse pick expected key =
     bindR (Some (get_env parse cfg key)) (\<lambda>v.
       case v of
         Some v \<Rightarrow> Some (Inr (Some v))
       | None \<Rightarrow>
           bindR (get_cv W cfg (key_to_config key)) (\<lambda>o_cv.
             case o_cv of
               None \<Rightarrow> Some (Inr None)
             | Some cv \<Rightarrow>
                 (case pick cv of
                    Some x \<Rightarrow> Some (Inr (Some \<lparr>val = x, val_definition = DefPath (definition_path cv)\<rparr>))
                  | None \<Rightarrow> Some (Inl (KeyExpected (key_to_config key) expected (desc cv) (definition_path cv))))))"

definition pick_string :: "config_value \<Rightarrow> string option" where
  "pick_string cv = (case cv of CString s _ \<Rightarrow> Some s | _ \<Rightarrow> None)"

definition pick_bool :: "config_value \<Rightarrow> bool option" where
  "pick_bool cv = (case cv of CBoolean b _ \<Rightarrow> Some b | _ \<Rightarrow> None)"

definition pick_integer :: "config_value \<Rightarrow> int option" where
  "pick_integer cv = (case cv of CInteger i _ \<Rightarrow> Some i | _ \<Rightarrow> None)"

definition get_string_priv :: "config_world \<Rightarrow> config \<Rightarrow> config_key \<Rightarrow> (config_error, string opt_value) run" where
  "get_string_priv W cfg = get_typed W cfg Some pick_string ''a string''"

definition get_bool_priv :: "config_world \<Rightarrow> config \<Rightarrow> config_key \<Rightarrow> (config_error, bool opt_value) run" where
  "get_bool_priv W cfg = get_typed W cfg parse_bool pick_bool ''true/false''"

definition get_integer :: "config_world \<Rightarrow> config \<Rightarrow> config_key \<Rightarrow> (config_error, int opt_value) run" where
  "get_integer W cfg = get_typed W cfg parse_i64 pick_integer ''an integer''"

definition get_string :: "config_world \<Rightarrow> config \<Rightarrow> string \<Rightarrow> (config_error, string opt_value) run" where
  "get_string W cfg key = get_string_priv W cfg (key_from_str key)"

definition get_bool :: "config_world \<Rightarrow> config \<Rightarrow> string \<Rightarrow> (config_error, bool opt_value) run" where
  "get_bool W cfg key = get_bool_priv W cfg (key_from_str key)"

definition get_i64 :: "config_world \<Rightarrow> config \<Rightarrow> string \<Rightarrow> (config_error, int opt_value) run" where
  "get_i64 W cfg key = get_integer W cfg (key_from_str key)"

text \<open>\<open>Definition::root\<close>; \<open>None\<close> is the \<open>unwrap\<close> of a missing parent.\<close>

definition definition_root :: "config \<Rightarrow> definition_site \<Rightarrow> path option" where
  "definition_root cfg d =
     (case d of
        DefPath p \<Rightarrow> Option.bind (path_parent p) path_parent
      | DefEnvironment _ \<Rightarrow> Some (cfg_cwd cfg))"

definition string_to_path :: "config \<Rightarrow> string \<Rightarrow> definition_site \<Rightarrow> path option" where
  "string_to_path cfg s d =
     (if CHR ''/'' \<in> set s then map_option (\<lambda>r. path_join r (path_of_str s)) (definition_root cfg d)
      else Some (path_of_str s))"

definition get_path :: "config_world \<Rightarrow> config \<Rightarrow> string \<Rightarrow> (config_error, path opt_value) run" where
  "get_path W cfg key =
     bindR (get_string W cfg key) (\<lambda>v.
       case v of
         None \<Rightarrow> Some (Inr None)
       | Some v \<Rightarrow>
           bindR (unwrap (string_to_path cfg (val v) (val_definition v))) (\<lambda>p.
             Some (Inr (Some \<lparr>val = p, val_definition = val_definition v\<rparr>))))"

definition config_expected :: "string \<Rightarrow> string \<Rightarrow> config_value \<Rightarrow> config_error + 'a" where
  "config_expected ty key cv = map_err (InvalidForKey key) (value_expected cv ty key)"

definition get_list :: "config_world \<Rightarrow> config \<Rightarrow> string \<Rightarrow> (config_error, (string \<times> path) list opt_value) run" where
  "get_list W cfg key =
     bindR (get_cv W cfg key) (\<lambda>o_cv.
       case o_cv of
         None \<Rightarrow> Some (Inr None)
       | Some (CList i p) \<Rightarrow> Some (Inr (Some \<lparr>val = i, val_definition = DefPath p\<rparr>))
       | Some cv \<Rightarrow> Some (config_expected ''list'' key cv))"

definition get_list_or_split_string ::
    "config_world \<Rightarrow> config \<Rightarrow> string \<Rightarrow> (config_error, string list opt_value) run" where
  "get_list_or_split_string W cfg key =
     bindR (Some (get_env Some cfg (key_from_str key))) (\<lambda>v.
       case v of
         Some v \<Rightarrow> Some (Inr (Some \<lparr>val = split_char CHR '' '' (val v), val_definition = val_definition v\<rparr>))
       | None \<Rightarrow>
           bindR (get_cv W cfg key) (\<lambda>o_cv.
             case o_cv of
               None \<Rightarrow> Some (Inr None)
             | Some (CList i p) \<Rightarrow> Some (Inr (Some \<lparr>val = map fst i, val_definition = DefPath p\<rparr>))
             | Some (CString i p) \<Rightarrow>
                 Some (Inr (Some \<lparr>val = split_char CHR '' '' i, val_definition = DefPath p\<rparr>))
             | Some cv \<Rightarrow> Some (config_expected ''list or string'' key cv)))"

definition get_path_and_args ::
    "config_world \<Rightarrow> config \<Rightarrow> string \<Rightarrow> (config_error, (path \<times> string list) opt_value) run" where
  "get_path_and_args W cfg key =
     bindR (get_list_or_split_string W cfg key) (\<lambda>v.
       case v of
         None \<Rightarrow> Some (Inr None)
       | Some v \<Rightarrow>
           (case val v of
              [] \<Rightarrow> Some (Inr None)
            | tool # args \<Rightarrow>
                bindR (unwrap (string_to_path cfg tool (val_definition v))) (\<lambda>p.
                  Some (Inr (Some \<lparr>val = (p, args), val_definition = val_definition v\<rparr>)))))"

definition get_table :: "config_world \<Rightarrow> config \<Rightarrow> string \<Rightarrow> (config_error, config_table opt_value) run" where
  "get_table W cfg key =
     bindR (get_cv W cfg key) (\<lambda>o_cv.
       case o_cv of
         None \<Rightarrow> Some (Inr None)
       | Some (CTable t p) \<Rightarrow> Some (Inr (Some \<lparr>val = t, val_definition = DefPath p\<rparr>))
       | Some cv \<Rightarrow> Some (config_expected ''table'' key cv))"

definition default_registry :: "config_world \<Rightarrow> config \<Rightarrow> (config_error, string option) run" where
  "default_registry W cfg =
     bindR (get_string W cfg ''registry.default'') (\<lambda>v. Some (Inr (map_option val v)))"

definition target_dir :: "config_world \<Rightarrow> config \<Rightarrow> (config_error, path option) run" where
  "target_dir W cfg =
     (case cfg_target_dir cfg of
        Some dir \<Rightarrow> Some (Inr (Some dir))
      | None \<Rightarrow>
          (case env_target_dir W of
             Some dir \<Rightarrow> Some (Inr (Some (path_join (cfg_cwd cfg) dir)))
           | None \<Rightarrow>
               bindR (get_path W cfg ''build.target-dir'') (\<lambda>v.
                 Some (Inr (map_option (\<lambda>v. path_join (cfg_cwd cfg) (val v)) v)))))"


text \<open>\<open>get_registry_index\<close>; the url crate's parser and the test for a user name or password are
  arguments.\<close>

definition get_registry_index ::
    "config_world \<Rightarrow> (string \<Rightarrow> 'u option) \<Rightarrow> ('u \<Rightarrow> bool) \<Rightarrow> config \<Rightarrow> string \<Rightarrow> (config_error, 'u) run" where
  "get_registry_index W to_url has_login cfg registry =
     bindR (get_string W cfg (''registries.'' @ registry @ ''.index'')) (\<lambda>v.
       case v of
         None \<Rightarrow> Some (Inl (NoRegistryIndex registry))
       | Some index \<Rightarrow>
           bindR (Some (ok_or (InvalidRegistryUrl (val index)) (to_url (val index)))) (\<lambda>url.
             if has_login url then Some (Inl RegistryUrlCredentials) else Some (Inr url)))"

section \<open>Keys for the deserializer\<close>

text \<open>\<open>ConfigMapAccess::new_map\<close>: the keys of the table and, with \<open>-Z advanced-env\<close>, of the environment.\<close>

definition env_parts :: "config \<Rightarrow> config_key \<Rightarrow> config_key_part list" where
  "env_parts cfg key =
     (let env_pattern = key_to_env key @ ''_''
      in map (\<lambda>k. CasePart (fst (splitn2 CHR ''_'' (drop (length env_pattern) k))))
           (filter (starts_with env_pattern) (map fst (cfg_env cfg))))"

definition new_map :: "config_world \<Rightarrow> config \<Rightarrow> config_key \<Rightarrow> (config_error, config_key_part set) run" where
  "new_map W cfg key =
     bindR (get_table W cfg (key_to_config key)) (\<lambda>v.
       Some (Inr ((case v of None \<Rightarrow> {} | Some v \<Rightarrow> CasePart ` set (map fst (val v))) \<union>
                  (if advanced_env (cfg_cli cfg) then set (env_parts cfg key) else {}))))"

text \<open>\<open>ConfigMapAccess::new_struct\<close>: the fields, and a warning for every other key of the table.\<close>

definition new_struct ::
    "config_world \<Rightarrow> config \<Rightarrow> config_key \<Rightarrow> string list \<Rightarrow> (config_error, config_key_part set \<times> (string \<times> path) list) run" where
  "new_struct W cfg key fds =
     (let fs = Part ` set fds
      in bindR (get_table W cfg (key_to_config key)) (\<lambda>v.
           Some (Inr (fs, case v of
               None \<Rightarrow> []
             | Some v \<Rightarrow>
                 map (\<lambda>(t_key, w). (key_to_config (key_join key (Part t_key)), definition_path w))
                   (filter (\<lambda>(t_key, w). Part t_key \<notin> fs) (val v))))))"

text \<open>\<open>ConfigSeqAccess::new\<close>: the list of the files, then the one of the environment, which the TOML parser
  reads as the value of a key.  The \<open>unwrap\<close>s and \<open>expect\<close> on the parsed text are the outer \<open>None\<close>.\<close>

definition env_list_items ::
    "(string \<Rightarrow> toml_value option) \<Rightarrow> config_key \<Rightarrow> string \<Rightarrow> (config_error, (string \<times> definition_site) list) run" where
  "env_list_items parse key v =
     (let def = DefEnvironment (key_to_env key)
      in if \<not> (starts_with ''['' v \<and> ends_with_char CHR '']'' v) then Some (Inl (NotListSyntax v (key_to_env key)))
         else if key = [] then None
         else
           let temp_key = part_to_env (last key)
           in case parse (temp_key @ ''='' @ v) of
                None \<Rightarrow> Some (Inl (BadTomlList (key_to_env key)))
              | Some (TomlTable es) \<Rightarrow>
                  (case map_of es temp_key of
                     Some (TomlArray vs) \<Rightarrow>
                       Some (collectE (\<lambda>x. case x of
                           TomlString s \<Rightarrow> Inr (s, def)
                         | _ \<Rightarrow> Inl (ListItemNotString (toml_type_str x) (key_to_env key))) vs)
                   | _ \<Rightarrow> None)
              | Some _ \<Rightarrow> None)"

definition new_seq ::
    "config_world \<Rightarrow> (string \<Rightarrow> toml_value option) \<Rightarrow> config \<Rightarrow> config_key \<Rightarrow>
     (config_error, (string \<times> definition_site) list) run" where
  "new_seq W parse cfg key =
     bindR (get_list W cfg (key_to_config key)) (\<lambda>v.
       let res = (case v of None \<Rightarrow> [] | Some v \<Rightarrow> map (\<lambda>(s, p). (s, DefPath p)) (val v))
       in if \<not> advanced_env (cfg_cli cfg) then Some (Inr res)
          else case map_of (cfg_env cfg) (key_to_env key) of
                 None \<Rightarrow> Some (Inr res)
               | Some text \<Rightarrow> bindR (env_list_items parse key text) (\<lambda>more. Some (Inr (res @ more))))"

section \<open>Saving a token\<close>

text \<open>\<open>save_credentials\<close>, from the parsed credentials file to the TOML that is written back; \<open>None\<close> where
  the file is not a table.\<close>

definition credential_entry :: "path \<Rightarrow> string \<Rightarrow> string option \<Rightarrow> string \<times> config_value" where
  "credential_entry file token registry =
     (let table = CTable [(''token'', CString token file)] file
      in case registry of
           Some r \<Rightarrow> (''registries'', CTable [(r, table)] file)
         | None \<Rightarrow> (''registry'', table))"

definition save_credentials :: "path \<Rightarrow> string \<Rightarrow> string option \<Rightarrow> toml_value \<Rightarrow> toml_value option" where
  "save_credentials file token registry toml =
     (case toml of
        TomlTable es \<Rightarrow>
          let (key, v) = credential_entry file token registry;
              es = (case map_of es ''token'' of
                      None \<Rightarrow> es
                    | Some old \<Rightarrow> AList.update ''registry'' (TomlTable [(''token'', old)]) (AList.delete ''token'' es))
          in Some (TomlTable (AList.update key (into_toml v) es))
      | _ \<Rightarrow> None)"

section \<open>Command line options\<close>

definition set_verbosity :: "verbosity \<Rightarrow> shell \<Rightarrow> shell" where
  "set_verbosity v sh = sh\<lparr>shell_verbosity := v\<rparr>"

datatype configure_error = BothVerboseAndQuiet | BadColor string | BadFlag cargo_feature_error

definition set_color_choice :: "string option \<Rightarrow> shell \<Rightarrow> configure_error + shell" where
  "set_color_choice color sh =
     (case shell_err sh of
        ShellWrite \<Rightarrow> Inr sh
      | ShellStream tty _ \<Rightarrow>
          bindE (case color of
                   None \<Rightarrow> Inr CargoAuto
                 | Some c \<Rightarrow>
                     if c = ''always'' then Inr Always
                     else if c = ''never'' then Inr Never
                     else if c = ''auto'' then Inr CargoAuto
                     else Inl (BadColor c)) (\<lambda>cfg.
            Inr (sh\<lparr>shell_err := ShellStream tty cfg\<rparr>)))"

definition shell_color_choice :: "shell \<Rightarrow> color_choice" where
  "shell_color_choice sh = (case shell_err sh of ShellStream _ c \<Rightarrow> c | ShellWrite \<Rightarrow> Never)"

text \<open>Errors of the configuration files are ignored here; a panic is not.\<close>

definition unwrap_or_none :: "(config_error, 'a opt_value) run \<Rightarrow> 'a option option" where
  "unwrap_or_none r =
     (case r of None \<Rightarrow> None | Some (Inl _) \<Rightarrow> Some None | Some (Inr v) \<Rightarrow> Some (map_option val v))"

definition choose_verbosity :: "bool option \<Rightarrow> bool option \<Rightarrow> bool option \<Rightarrow> configure_error + verbosity" where
  "choose_verbosity verbose cfg_verbose quiet =
     (if (verbose = Some True \<and> quiet = None) \<or> (verbose = None \<and> cfg_verbose = Some True \<and> quiet = None)
      then Inr Verbose
      else if verbose = None \<and> quiet = Some True then Inr Quiet
      else if verbose = Some True \<and> quiet = Some True then Inl BothVerboseAndQuiet
      else Inr NormalVerbosity)"

definition configure ::
    "config_world \<Rightarrow> channel_state \<Rightarrow> nat \<Rightarrow> bool option \<Rightarrow> string option \<Rightarrow> bool \<Rightarrow> bool \<Rightarrow> path option \<Rightarrow> string list \<Rightarrow>
     config \<Rightarrow> (configure_error, config) run" where
  "configure W ch verbose quiet color frozen locked tdir flags cfg =
     (let extra_verbose = verbose \<ge> 2;
          verb = (if verbose = 0 then None else Some True)
      in Option.bind (unwrap_or_none (get_bool W cfg ''term.verbose'')) (\<lambda>cfg_verbose.
         Option.bind (unwrap_or_none (get_string W cfg ''term.color'')) (\<lambda>cfg_color.
         bindR (Some (choose_verbosity verb cfg_verbose quiet)) (\<lambda>v.
         bindR (Some (set_color_choice (case color of Some c \<Rightarrow> Some c | None \<Rightarrow> cfg_color)
                        (set_verbosity v (cfg_shell cfg)))) (\<lambda>sh.
         bindR (Some (map_err BadFlag (parse_flags ch flags (cfg_cli cfg)))) (\<lambda>cli.
           Some (Inr (cfg\<lparr>cfg_shell := sh, cfg_extra_verbose := extra_verbose, cfg_frozen := frozen,
                          cfg_locked := locked, cfg_target_dir := tdir, cfg_cli := cli\<rparr>))))))))"

definition network_allowed :: "config \<Rightarrow> bool" where
  "network_allowed cfg \<longleftrightarrow> \<not> cfg_frozen cfg \<and> \<not> offline (cfg_cli cfg)"

definition lock_update_allowed :: "config \<Rightarrow> bool" where
  "lock_update_allowed cfg \<longleftrightarrow> \<not> cfg_frozen cfg \<and> \<not> cfg_locked cfg"

end
