(* ===== verification/Config_Correct.thy ===== *)
theory Config_Correct
  imports Config_Load
begin

text \<open>
  What the configuration of \<open>src/cargo/util/config.rs\<close> answers: the files are visited in the documented
  order and each at most once, the loaded values are the layers laid over each other, a key is looked up
  in the environment before the layers, and a token that is saved is read back.
\<close>

section \<open>The files that are visited\<close>

definition config_files :: "config_world \<Rightarrow> path \<Rightarrow> path \<Rightarrow> path list" where
  "config_files W home pwd =
     (let near = filter (path_exists W) (map config_file (ancestors (test_root W) pwd));
          cfg = path_join home [NormalComp ''config'']
      in near @ (if cfg \<notin> set near \<and> path_exists W cfg then [cfg] else []))"

lemma walk_dir_pair:
  "walk_dir W f d (stash, s) =
     (if path_exists W (config_file d) then bindE (f (config_file d) s) (\<lambda>s. Inr (List.insert (config_file d) stash, s))
      else Inr (stash, s))"
  by (simp add: walk_dir_def Let_def)

lemma walk_dirs:
  "foldE (walk_dir W f) dirs (stash, s) =
     bindE (foldE f (filter (path_exists W) (map config_file dirs)) s) (\<lambda>s'.
       Inr (fold List.insert (filter (path_exists W) (map config_file dirs)) stash, s'))"
proof (induction dirs arbitrary: stash s)
  case (Cons d dirs)
  show ?case by (cases "f (config_file d) s") (simp_all add: walk_dir_pair Cons.IH)
qed simp

lemma set_fold_insert: "set (fold List.insert xs ys) = set ys \<union> set xs"
  by (induction xs arbitrary: ys) auto

lemma foldE_append: "foldE f (xs @ ys) s = bindE (foldE f xs s) (foldE f ys)"
proof (induction xs arbitrary: s)
  case (Cons x xs)
  then show ?case by (cases "f x s") auto
qed simp

lemma bindE_foldE_Nil [simp]: "bindE r (foldE f []) = r"
  by (cases r) auto

lemma walk_tree_files: "walk_tree W pwd home f s = foldE f (config_files W home pwd) s"
proof -
  define near where "near = filter (path_exists W) (map config_file (ancestors (test_root W) pwd))"
  have "set (fold List.insert near []) = set near" by (simp add: set_fold_insert)
  then show ?thesis
    unfolding walk_tree_def walk_dirs config_files_def near_def [symmetric]
    by (cases "foldE f near s") (simp_all add: foldE_append Let_def)
qed

text \<open>No file is read twice.\<close>

lemma ancestors_length: "q \<in> set (ancestors r p) \<Longrightarrow> length q \<le> length p"
proof (induction r p rule: ancestors.induct)
  case (1 r p)
  have "q \<in> set (p # (if r = Some p then [] else case path_parent p of Some q \<Rightarrow> ancestors r q | None \<Rightarrow> []))"
    using "1.prems" ancestors.simps [of r p] by simp
  then consider "q = p" | p' where "r \<noteq> Some p" "path_parent p = Some p'" "q \<in> set (ancestors r p')"
    by (cases "path_parent p") (auto split: if_splits)
  then show ?case using "1.IH" path_parent_length by cases fastforce+
qed

lemma distinct_ancestors: "distinct (ancestors r p)"
proof (induction r p rule: ancestors.induct)
  case (1 r p)
  have "p \<notin> set (ancestors r q)" if "path_parent p = Some q" for q
    using path_parent_length [OF that] ancestors_length [of p r q] by auto
  with "1.IH" show ?case by (subst ancestors.simps) (auto split: option.splits)
qed

lemma config_file_inj: "config_file p = config_file q \<longleftrightarrow> p = q"
  by (auto simp: config_file_def path_join_def is_absolute_def split: if_splits)

lemma distinct_config_files: "distinct (config_files W home pwd)"
proof -
  have "inj config_file" by (simp add: inj_def config_file_inj)
  then show ?thesis
    using distinct_ancestors
    by (simp add: config_files_def Let_def distinct_map inj_on_subset) force
qed


section \<open>The layers\<close>

text \<open>The values that make up the configuration, the one that wins first: the credentials, then the files
  in the order in which they are visited.\<close>

definition credentials_file :: "path \<Rightarrow> path" where
  "credentials_file home = path_join home [NormalComp ''credentials'']"

definition credentials_layer :: "config_world \<Rightarrow> path \<Rightarrow> config_error + config_value list" where
  "credentials_layer W home =
     (if \<not> path_exists W (credentials_file home) then Inr []
      else bindE (read_config W (credentials_file home)) (\<lambda>v.
             case v of CTable t p \<Rightarrow> Inr [CTable (relocate_token t) p] | _ \<Rightarrow> Inr []))"

definition layers :: "config_world \<Rightarrow> path \<Rightarrow> path \<Rightarrow> config_error + config_value list" where
  "layers W home pwd =
     bindE (credentials_layer W home) (\<lambda>c.
     bindE (collectE (read_config W) (config_files W home pwd)) (\<lambda>fs. Inr (c @ fs)))"

text \<open>What the parser promises: a document is a table, with distinct keys throughout.\<close>

definition documents_are_tables :: "config_world \<Rightarrow> bool" where
  "documents_are_tables W \<longleftrightarrow>
     (\<forall>s p v. parse_toml W s p = Some v \<longrightarrow> toml_wf v \<and> (\<exists>es. v = TomlTable es))"

lemma read_config_table:
  assumes "documents_are_tables W" "read_config W p = Inr v"
  shows "cv_wf v \<and> (\<exists>t. v = CTable t p)"
proof -
  from assms(2) obtain s toml where toml: "parse_toml W s p = Some toml" "from_toml p toml = Inr v"
    by (auto simp: read_config_def)
  with assms(1) obtain es where "toml = TomlTable es" "toml_wf toml"
    unfolding documents_are_tables_def by blast
  with toml show ?thesis using from_toml_wf(1) [OF toml(2)] by auto
qed

lemma load_files:
  "foldE (load_file W) ps cfg = Inr c \<longleftrightarrow>
     (\<exists>vs. collectE (read_config W) ps = Inr vs \<and> merge_all vs cfg = Inr c)"
proof (induction ps arbitrary: cfg)
  case (Cons p ps)
  have step: "load_file W p cfg = Inr d \<longleftrightarrow> (\<exists>v. read_config W p = Inr v \<and> merge cfg v = Inr d)" for d
    by (simp add: load_file_def)
  show ?case by (auto simp: step Cons.IH)
qed simp

lemma collectE_all: "collectE f xs = Inr ys \<Longrightarrow> y \<in> set ys \<Longrightarrow> \<exists>x\<in>set xs. f x = Inr y"
  by (induction xs arbitrary: ys) auto

lemma relocate_token_wf: "cv_wf (CTable t p) \<Longrightarrow> cv_wf (CTable (relocate_token t) q)"
proof -
  assume t: "cv_wf (CTable t p)"
  have "wf_alist (relocate_token t)"
    using t by (auto simp: relocate_token_def Let_def split: option.splits)
  moreover have "cv_wf v" if kv: "map_of (relocate_token t) k = Some v" for k v
  proof -
    have below: "cv_wf w" if "map_of t k = Some w" for k w
      using t that by (simp add: cv_wf_table del: cv_wf.simps)
    consider "map_of t k = Some v" | token where "map_of t ''token'' = Some token" "v = CTable [(''token'', token)] [CurDir]"
      using kv by (auto simp: relocate_token_def Let_def split: option.splits if_splits)
    then show ?thesis using below by cases auto
  qed
  ultimately show ?thesis by (simp add: cv_wf_table del: cv_wf.simps)
qed

lemma merge_table: "shape a = TableShape \<Longrightarrow> merge a b = Inr c \<Longrightarrow> \<exists>t p. c = CTable t p"
  by (auto dest!: merge_shape simp: shape_table)

lemma table_or_panic: "(case a of CTable t _ \<Rightarrow> Some (Inr t) | _ \<Rightarrow> None) = Some (Inr t) \<longleftrightarrow> (\<exists>p. a = CTable t p)"
  by (cases a) auto

text \<open>Loading merges the layers, the credentials over the files.\<close>

lemma load_values_from_cases:
  assumes "documents_are_tables W" "load_values_from W home pwd = Some (Inr t)"
  obtains cs vs cfg p where "credentials_layer W home = Inr cs"
    "collectE (read_config W) (config_files W home pwd) = Inr vs"
    "merge_all vs (CTable [] [CurDir]) = Inr cfg"
    "cs = [] \<and> cfg = CTable t p \<or> (\<exists>c. cs = [c] \<and> cv_wf c \<and> merge c cfg = Inr (CTable t p))"
    "cv_wf cfg" "\<forall>v\<in>set vs. cv_wf v"
proof -
  from assms(2) obtain cfg final where
    walked: "foldE (load_file W) (config_files W home pwd) (CTable [] [CurDir]) = Inr cfg" and
    creds: "load_credentials W home cfg = Some (Inr final)" and
    final: "\<exists>p. final = CTable t p"
    by (auto simp: load_values_from_def walk_tree_files table_or_panic)
  from walked obtain vs where vs: "collectE (read_config W) (config_files W home pwd) = Inr vs"
    "merge_all vs (CTable [] [CurDir]) = Inr cfg" by (auto simp: load_files)
  have wf: "\<forall>v\<in>set vs. cv_wf v"
    using read_config_table [OF assms(1)] collectE_all [OF vs(1)] by blast
  have "cv_wf cfg" using merge_all_wf [OF vs(2)] wf by simp
  obtain cs p where "credentials_layer W home = Inr cs"
    "cs = [] \<and> cfg = CTable t p \<or> (\<exists>c. cs = [c] \<and> cv_wf c \<and> merge c cfg = Inr (CTable t p))"
  proof (cases "path_exists W (credentials_file home)")
    case False
    with creds final that [of "[]"] show ?thesis
      by (auto simp: credentials_layer_def load_credentials_def credentials_file_def)
  next
    case True
    with creds obtain v where v: "read_config W (credentials_file home) = Inr v"
      by (auto simp: load_credentials_def credentials_file_def)
    from read_config_table [OF assms(1) v] obtain ct where ct: "v = CTable ct (credentials_file home)" "cv_wf v"
      by auto
    have "merge (CTable (relocate_token ct) (credentials_file home)) cfg = Inr final"
      using creds True v ct by (auto simp: load_credentials_def credentials_file_def Let_def)
    moreover have "credentials_layer W home = Inr [CTable (relocate_token ct) (credentials_file home)]"
      using True v ct by (simp add: credentials_layer_def)
    moreover have "cv_wf (CTable (relocate_token ct) (credentials_file home))"
      using ct relocate_token_wf by auto
    ultimately show ?thesis using that final by blast
  qed
  with that vs wf \<open>cv_wf cfg\<close> show thesis by blast
qed

text \<open>A scalar of the first layer that has one, all the lists, or a table.\<close>

definition laid_over :: "config_value list \<Rightarrow> config_value option \<Rightarrow> bool" where
  "laid_over found r \<longleftrightarrow>
     (case found of
        [] \<Rightarrow> r = None
      | x # _ \<Rightarrow>
          (\<forall>y\<in>set found. shape y = shape x) \<and>
          (case shape x of
             ScalarShape \<Rightarrow> r = Some x
           | ListShape \<Rightarrow> r = Some (CList (concat (map list_items found)) (definition_path x))
           | TableShape \<Rightarrow> (\<exists>t. r = Some (CTable t (definition_path x)))))"

lemma merge_all_shapes: "merge_all xs x = Inr m \<Longrightarrow> \<forall>y\<in>set xs. shape y = shape x"
  by (induction xs arbitrary: x) (auto dest: merge_shape)

lemma merge_path: "merge a b = Inr c \<Longrightarrow> definition_path c = definition_path a"
  by (cases a; cases b) auto

lemma merge_all_path: "merge_all xs x = Inr m \<Longrightarrow> definition_path m = definition_path x"
  by (induction xs arbitrary: x) (auto dest: merge_path)

lemma laid_over_merge_all: "merge_all xs x = Inr m \<Longrightarrow> laid_over (x # xs) (Some m)"
proof (cases "shape x")
  case TableShape
  assume m: "merge_all xs x = Inr m"
  with TableShape merge_all_shape [OF m] obtain t p where "m = CTable t p" by (auto simp: shape_table)
  with m TableShape merge_all_shapes [OF m] merge_all_path [OF m] show ?thesis by (auto simp: laid_over_def)
qed (use merge_all_shapes merge_all_scalar merge_all_list in \<open>auto simp: laid_over_def\<close>)

lemma laid_over_merge:
  assumes "laid_over found (Some m)" "merge c m = Inr d"
  shows "laid_over (c # found) (Some d)"
proof -
  from assms(1) obtain x xs where found: "found = x # xs" by (auto simp: laid_over_def split: list.splits)
  with assms have same: "shape m = shape x" "\<forall>y\<in>set found. shape y = shape x"
    by (cases x; auto simp: laid_over_def)+
  from merge_shape [OF assms(2)] same have shapes: "shape c = shape x" "shape d = shape x" by auto
  show ?thesis
  proof (cases "shape c")
    case ScalarShape
    with merge_scalar [OF _ assms(2)] same shapes show ?thesis by (auto simp: laid_over_def)
  next
    case ListShape
    with shapes obtain l p where c: "c = CList l p" by (cases c) auto
    from ListShape shapes assms(1) have m: "m = CList (concat (map list_items found)) (definition_path x)"
      unfolding found by (simp add: laid_over_def)
    with c assms(2) have d: "d = CList (l @ concat (map list_items found)) p" by simp
    show ?thesis unfolding c d laid_over_def using same shapes ListShape c by simp
  next
    case TableShape
    with shapes obtain t p where "d = CTable t p" by (auto simp: shape_table)
    with TableShape same shapes merge_path [OF assms(2)] show ?thesis by (auto simp: laid_over_def)
  qed
qed


lemma at_top: "ks \<noteq> [] \<Longrightarrow> at (CTable t p) ks = at (CTable t q) ks"
  by (cases ks) auto

lemma at_empty: "ks \<noteq> [] \<Longrightarrow> at (CTable [] p) ks = None"
  by (cases ks) auto

lemma laid_over_files:
  assumes "merge_all vs (CTable [] p) = Inr cfg" "\<forall>v\<in>set vs. cv_wf v" "ks \<noteq> []"
  shows "laid_over (List.map_filter (\<lambda>l. at l ks) vs) (at cfg ks)"
  using merge_all_at [OF assms(1,2), of ks] laid_over_merge_all
  by (auto simp: map_filter_simps at_empty assms(3) laid_over_def [of "[]"] split: list.splits)

lemma laid_over_layers:
  assumes "documents_are_tables W" "load_values_from W home pwd = Some (Inr t)"
  obtains ls where "layers W home pwd = Inr ls"
    "\<forall>ks. ks \<noteq> [] \<longrightarrow> laid_over (List.map_filter (\<lambda>l. at l ks) ls) (at (CTable t []) ks)"
proof -
  obtain cs vs cfg p where l: "credentials_layer W home = Inr cs"
    "collectE (read_config W) (config_files W home pwd) = Inr vs"
    and cfg: "merge_all vs (CTable [] [CurDir]) = Inr cfg"
    and last: "cs = [] \<and> cfg = CTable t p \<or> (\<exists>c. cs = [c] \<and> cv_wf c \<and> merge c cfg = Inr (CTable t p))"
    and wf: "cv_wf cfg" "\<forall>v\<in>set vs. cv_wf v"
    using assms by (rule load_values_from_cases)
  have "laid_over (List.map_filter (\<lambda>l. at l ks) (cs @ vs)) (at (CTable t []) ks)" if ks: "ks \<noteq> []" for ks
  proof -
    note files = laid_over_files [OF cfg wf(2) ks]
    from last show ?thesis
    proof
      assume "cs = [] \<and> cfg = CTable t p"
      with files show ?thesis by (simp add: at_top [OF ks, of t p "[]"])
    next
      assume "\<exists>c. cs = [c] \<and> cv_wf c \<and> merge c cfg = Inr (CTable t p)"
      then obtain c where c: "cs = [c]" "merge c cfg = Inr (CTable t p)" by blast
      from merge_at [OF c(2) wf(1), of ks] have m: "merges (at c ks) (at cfg ks) (at (CTable t []) ks)"
        by (simp add: at_top [OF ks, of t p "[]"])
      show ?thesis
      proof (cases "at c ks")
        case None
        with m files c show ?thesis by (simp add: map_filter_simps)
      next
        case (Some x)
        show ?thesis
        proof (cases "at cfg ks")
          case None
          with files have "List.map_filter (\<lambda>l. at l ks) vs = []"
            by (auto simp: laid_over_def split: list.splits value_shape.splits)
          with Some None m c show ?thesis
            using laid_over_merge_all [of "[]" x] by (simp add: map_filter_simps)
        next
          case (Some y)
          with m \<open>at c ks = Some x\<close> files c show ?thesis
            by (auto simp: map_filter_simps intro: laid_over_merge)
        qed
      qed
    qed
  qed
  with l that [of "cs @ vs"] show thesis by (simp add: layers_def)
qed

lemma load_credentials_table:
  assumes doc: "documents_are_tables W"
  obtains e where "load_credentials W home (CTable t p) = Some (Inl e)"
  | d q where "load_credentials W home (CTable t p) = Some (Inr (CTable d q))"
proof (cases "path_exists W (credentials_file home)")
  case False
  then show ?thesis using that by (simp add: load_credentials_def credentials_file_def)
next
  case True
  show ?thesis
  proof (cases "read_config W (credentials_file home)")
    case (Inl e)
    with True show ?thesis using that by (simp add: load_credentials_def credentials_file_def)
  next
    case (Inr v)
    from read_config_table [OF doc Inr] obtain ct where ct: "v = CTable ct (credentials_file home)" by blast
    have "load_credentials W home (CTable t p) = Some (merge (CTable (relocate_token ct) (credentials_file home)) (CTable t p))"
      using True Inr ct by (simp add: load_credentials_def credentials_file_def)
    then show ?thesis using that by (cases "merge_entries (relocate_token ct) t") auto
  qed
qed

lemma load_values_no_panic:
  assumes "documents_are_tables W"
  shows "load_values_from W home pwd \<noteq> None"
proof (cases "walk_tree W pwd home (load_file W) (CTable [] [CurDir])")
  case (Inl e)
  then show ?thesis by (simp add: load_values_from_def)
next
  case (Inr c)
  then obtain vs where "merge_all vs (CTable [] [CurDir]) = Inr c" by (auto simp: walk_tree_files load_files)
  from merge_all_shape [OF this] obtain t p where "c = CTable t p" by (auto simp: shape_table)
  with Inr have *: "load_values_from W home pwd = bindR (load_credentials W home (CTable t p)) (\<lambda>cfg.
      case cfg of CTable t _ \<Rightarrow> Some (Inr t) | _ \<Rightarrow> None)"
    by (simp add: load_values_from_def)
  show ?thesis
    unfolding * by (rule load_credentials_table [OF assms, of home t p]) simp_all
qed

section \<open>Lookup\<close>

definition prefix_index :: "string \<Rightarrow> nat \<Rightarrow> nat" where
  "prefix_index key i = fold (\<lambda>s n. n + length s) (take i (split_char CHR ''.'' key)) 0 + i - 1"

lemma fold_lengths: "fold (\<lambda>s n. n + length s) ps m = m + sum_list (map length ps)"
  by (induction ps arbitrary: m) auto

lemma join_take:
  "0 < i \<Longrightarrow> i \<le> length ps \<Longrightarrow>
   take (sum_list (map length (take i ps)) + i - 1) (join_str [c] ps) = join_str [c] (take i ps)"
proof (induction ps arbitrary: i)
  case (Cons p ps)
  show ?case
  proof (cases "ps = [] \<or> i = 1")
    case True
    with Cons.prems show ?thesis by (cases ps) auto
  next
    case False
    then obtain j where j: "i = Suc j" "0 < j" using Cons.prems(1) by (cases i) auto
    have "j \<le> length ps" using Cons.prems j by simp
    with Cons.IH [OF j(2)] j False show ?thesis
      by (cases j) (auto simp: join_str_Cons)
  qed
qed simp

text \<open>The key so far that an error names is the dotted prefix of the key.\<close>

lemma prefix_index_take:
  assumes "0 < i" "i \<le> length (split_char CHR ''.'' key)"
  shows "take (prefix_index key i) key = join_str ''.'' (take i (split_char CHR ''.'' key))"
  using join_take [OF assms, of "CHR ''.''"] by (simp add: prefix_index_def fold_lengths)

lemma descend_spec:
  "descend key i v parts = Inr (at v parts) \<or>
   at v parts = None \<and>
   (\<exists>j w. j < length parts \<and> at v (take j parts) = Some w \<and> shape w \<noteq> TableShape \<and>
      descend key i v parts = Inl (ExpectedTable (take (prefix_index key (i + j)) key) (desc w) (definition_path w)))"
proof (induction parts arbitrary: i v)
  case (Cons part parts)
  show ?case
  proof (cases "shape v = TableShape")
    case False
    then have "at v (part # parts) = None" by (simp add: at_not_table)
    moreover have "descend key i v (part # parts) =
        Inl (ExpectedTable (take (prefix_index key (i + 0)) key) (desc v) (definition_path v))"
      using False by (cases v) (simp_all add: prefix_index_def)
    ultimately show ?thesis using False by (metis at.simps(1) length_greater_0_conv list.distinct(1) take_0)
  next
    case True
    then obtain m p where v: "v = CTable m p" by (auto simp: shape_table)
    show ?thesis
    proof (cases "map_of m part")
      case None
      with v show ?thesis by simp
    next
      case (Some w)
      from Cons.IH [of "Suc i" w] show ?thesis
      proof
        assume "descend key (Suc i) w parts = Inr (at w parts)"
        with v Some show ?thesis by simp
      next
        assume "at w parts = None \<and> (\<exists>j u. j < length parts \<and> at w (take j parts) = Some u \<and> shape u \<noteq> TableShape \<and>
          descend key (Suc i) w parts = Inl (ExpectedTable (take (prefix_index key (Suc i + j)) key) (desc u) (definition_path u)))"
        then obtain j u where "at w parts = None" "j < length parts" "at w (take j parts) = Some u" "shape u \<noteq> TableShape"
          "descend key (Suc i) w parts = Inl (ExpectedTable (take (prefix_index key (Suc i + j)) key) (desc u) (definition_path u))"
          by blast
        with v Some show ?thesis by (intro disjI2 conjI exI [of _ "Suc j"] exI [of _ u]) simp_all
      qed
    qed
  qed
qed simp

text \<open>A lookup answers what is at the path of keys, or names the first part of the key that holds
  something else than a table.\<close>

lemma get_cv_spec:
  fixes key :: string
  defines "parts \<equiv> split_char CHR ''.'' key"
  assumes vals: "config_values W cfg = Some (Inr t)"
  shows "get_cv W cfg key = Some (Inr (at (CTable t []) parts)) \<or>
    at (CTable t []) parts = None \<and>
    (\<exists>i v. 0 < i \<and> i < length parts \<and> at (CTable t []) (take i parts) = Some v \<and> shape v \<noteq> TableShape \<and>
       get_cv W cfg key = Some (Inl (ExpectedTable (join_str ''.'' (take i parts)) (desc v) (definition_path v))))"
proof -
  obtain part rest where p: "parts = part # rest" unfolding parts_def by (cases "split_char CHR ''.'' key") auto
  show ?thesis
  proof (cases "map_of t part")
    case None
    with p vals show ?thesis by (simp add: get_cv_def parts_def)
  next
    case (Some v)
    then have cv: "get_cv W cfg key = Some (descend key 1 v rest)" and top: "at (CTable t []) parts = at v rest"
      using p vals by (simp_all add: get_cv_def parts_def)
    from descend_spec [of key 1 v rest] show ?thesis
    proof
      assume "at v rest = None \<and> (\<exists>j w. j < length rest \<and> at v (take j rest) = Some w \<and> shape w \<noteq> TableShape \<and>
        descend key 1 v rest = Inl (ExpectedTable (take (prefix_index key (1 + j)) key) (desc w) (definition_path w)))"
      then obtain j w where j: "at v rest = None" "j < length rest" "at v (take j rest) = Some w" "shape w \<noteq> TableShape"
        "descend key 1 v rest = Inl (ExpectedTable (take (prefix_index key (Suc j)) key) (desc w) (definition_path w))"
        by auto
      have "take (prefix_index key (Suc j)) key = join_str ''.'' (take (Suc j) parts)"
        using prefix_index_take [of "Suc j" key] j(2) p by (simp add: parts_def)
      with j cv top p Some show ?thesis by (intro disjI2 conjI exI [of _ "Suc j"] exI [of _ w]) simp_all
    qed (use cv top in simp)
  qed
qed


lemma key_from_str_to_config [simp]: "key_to_config (key_from_str key) = key"
  by (simp add: key_to_config_def key_from_str_def o_def)

lemma laid_over_Nil: "laid_over [] r \<longleftrightarrow> r = None"
  by (simp add: laid_over_def)

text \<open>The first layer that has a value decides its type, place and, for a string, its text.\<close>

lemma laid_over_first:
  assumes "laid_over (x # xs) r"
  obtains y where "r = Some y" "desc y = desc x" "definition_path y = definition_path x" "pick_string y = pick_string x"
  using assms by (cases x) (auto simp: laid_over_def pick_string_def)

text \<open>What a lookup of a string has to answer, given the layers and the values they make up.\<close>

definition string_answer :: "config \<Rightarrow> config_table \<Rightarrow> config_value list \<Rightarrow> string \<Rightarrow> (config_error, string opt_value) run \<Rightarrow> bool" where
  "string_answer cfg t ls key r \<longleftrightarrow>
     (let parts = split_char CHR ''.'' key; env_key = key_to_env (key_from_str key)
      in case map_of (cfg_env cfg) env_key of
           Some text \<Rightarrow> r = Some (Inr (Some \<lparr>val = text, val_definition = DefEnvironment env_key\<rparr>))
         | None \<Rightarrow>
             (case List.map_filter (\<lambda>l. at l parts) ls of
                x # _ \<Rightarrow>
                  r = Some (case pick_string x of
                        Some s \<Rightarrow> Inr (Some \<lparr>val = s, val_definition = DefPath (definition_path x)\<rparr>)
                      | None \<Rightarrow> Inl (KeyExpected key ''a string'' (desc x) (definition_path x)))
              | [] \<Rightarrow>
                  r = Some (Inr None) \<or>
                  (\<exists>i v. 0 < i \<and> i < length parts \<and> at (CTable t []) (take i parts) = Some v \<and> shape v \<noteq> TableShape \<and>
                     r = Some (Inl (ExpectedTable (join_str ''.'' (take i parts)) (desc v) (definition_path v))))))"

lemma get_string_answers:
  assumes vals: "config_values W cfg = Some (Inr t)"
    and laid: "\<forall>ks. ks \<noteq> [] \<longrightarrow> laid_over (List.map_filter (\<lambda>l. at l ks) ls) (at (CTable t []) ks)"
  shows "string_answer cfg t ls key (get_string W cfg key)"
proof (cases "map_of (cfg_env cfg) (key_to_env (key_from_str key))")
  case (Some s)
  then show ?thesis
    by (simp add: string_answer_def get_string_def get_string_priv_def get_typed_def get_env_def)
next
  case None
  define parts where "parts = split_char CHR ''.'' key"
  have str: "get_string W cfg key =
      bindR (get_cv W cfg key) (\<lambda>o_cv. case o_cv of None \<Rightarrow> Some (Inr None)
        | Some cv \<Rightarrow> (case pick_string cv of
              Some x \<Rightarrow> Some (Inr (Some \<lparr>val = x, val_definition = DefPath (definition_path cv)\<rparr>))
            | None \<Rightarrow> Some (Inl (KeyExpected key ''a string'' (desc cv) (definition_path cv)))))"
    unfolding get_string_def get_string_priv_def get_typed_def key_from_str_to_config
    using None by (simp add: get_env_def)
  have over: "laid_over (List.map_filter (\<lambda>l. at l parts) ls) (at (CTable t []) parts)"
    using laid by (simp add: parts_def)
  note cv = get_cv_spec [OF vals, of key, folded parts_def]
  show ?thesis
  proof (cases "List.map_filter (\<lambda>l. at l parts) ls")
    case Nil
    with over have "at (CTable t []) parts = None" by (simp add: laid_over_Nil)
    with cv str None Nil show ?thesis by (auto simp: string_answer_def Let_def parts_def [symmetric])
  next
    case (Cons x xs)
    with over obtain y where y: "at (CTable t []) parts = Some y" "desc y = desc x"
      "definition_path y = definition_path x" "pick_string y = pick_string x"
      by (metis laid_over_first)
    with cv have "get_cv W cfg key = Some (Inr (Some y))" by simp
    with str None Cons y show ?thesis
      by (cases "pick_string x") (simp_all add: string_answer_def parts_def [symmetric])
  qed
qed

text \<open>C20: Loading the configuration never panics where a TOML document is a table, and every key is layered in the
  documented order: at each path of keys the loaded values have the scalar of the first layer that has
  one there, or the lists of all layers joined, where the layers are the credentials file, the
  configuration files of the working directory and its parents from the inside out, and that of the home
  directory; no file is a layer twice.  A string is looked up in the environment first and then
  in these layers; a value of another type is an error that names the file of the first layer, and
  so is a key that goes on below a value that is not a table.\<close>

theorem config_layered:
  assumes "documents_are_tables W"
  shows "load_values W cfg \<noteq> None \<and> distinct (config_files W (cfg_home cfg) (cfg_cwd cfg)) \<and>
    (\<forall>t. cfg_values cfg = None \<and> load_values W cfg = Some (Inr t) \<longrightarrow>
      (\<exists>ls. layers W (cfg_home cfg) (cfg_cwd cfg) = Inr ls \<and>
        (\<forall>ks. ks \<noteq> [] \<longrightarrow> laid_over (List.map_filter (\<lambda>l. at l ks) ls) (at (CTable t []) ks)) \<and>
        (\<forall>key. string_answer cfg t ls key (get_string W cfg key))))"
proof (intro conjI allI impI)
  show "load_values W cfg \<noteq> None" unfolding load_values_def by (rule load_values_no_panic [OF assms])
  show "distinct (config_files W (cfg_home cfg) (cfg_cwd cfg))" by (rule distinct_config_files)
next
  fix t
  assume "cfg_values cfg = None \<and> load_values W cfg = Some (Inr t)"
  then have vals: "config_values W cfg = Some (Inr t)" and loaded: "load_values_from W (cfg_home cfg) (cfg_cwd cfg) = Some (Inr t)"
    by (simp_all add: config_values_def load_values_def)
  obtain ls where ls: "layers W (cfg_home cfg) (cfg_cwd cfg) = Inr ls"
    and laid: "\<forall>ks. ks \<noteq> [] \<longrightarrow> laid_over (List.map_filter (\<lambda>l. at l ks) ls) (at (CTable t []) ks)"
    by (rule laid_over_layers [OF assms loaded])
  show "\<exists>ls. layers W (cfg_home cfg) (cfg_cwd cfg) = Inr ls \<and>
        (\<forall>ks. ks \<noteq> [] \<longrightarrow> laid_over (List.map_filter (\<lambda>l. at l ks) ls) (at (CTable t []) ks)) \<and>
        (\<forall>key. string_answer cfg t ls key (get_string W cfg key))"
    using ls laid get_string_answers [OF vals laid] by blast
qed


section \<open>Saving a token\<close>

lemma from_toml_entries_update:
  "from_toml_entries p es = Inr t \<Longrightarrow> from_toml p v = Inr cv \<Longrightarrow>
   from_toml_entries p (AList.update k v es) = Inr (AList.update k cv t)"
  by (induction es arbitrary: t) auto

lemma from_toml_entries_delete:
  "from_toml_entries p es = Inr t \<Longrightarrow> from_toml_entries p (AList.delete k es) = Inr (AList.delete k t)"
  by (induction es arbitrary: t) auto

lemma from_toml_entries_lookup:
  "from_toml_entries p es = Inr t \<Longrightarrow>
   (case map_of es k of None \<Rightarrow> map_of t k = None | Some v \<Rightarrow> \<exists>cv. from_toml p v = Inr cv \<and> map_of t k = Some cv)"
  by (induction es arbitrary: t) (auto split: option.splits)

text \<open>The table that is read after a save: the old one with its token moved and the new entry put in.\<close>

definition saved_table :: "path \<Rightarrow> string \<Rightarrow> string option \<Rightarrow> config_table \<Rightarrow> config_table" where
  "saved_table file token registry t =
     (case credential_entry file token registry of (key, v) \<Rightarrow>
        AList.update key v
          (case map_of t ''token'' of
             None \<Rightarrow> t
           | Some old \<Rightarrow> AList.update ''registry'' (CTable [(''token'', old)] file) (AList.delete ''token'' t)))"

lemma from_into_entry:
  "credential_entry file token registry = (key, v) \<Longrightarrow> from_toml file (into_toml v) = Inr v"
  by (cases registry) (auto simp: credential_entry_def Let_def)

lemma save_credentials_table:
  assumes "from_toml_entries file es = Inr t"
  shows "\<exists>es'. save_credentials file token registry (TomlTable es) = Some (TomlTable es') \<and>
           from_toml_entries file es' = Inr (saved_table file token registry t)"
proof -
  obtain key v where kv: "credential_entry file token registry = (key, v)" by fastforce
  note v = from_into_entry [OF kv]
  show ?thesis
  proof (cases "map_of es ''token''")
    case None
    with from_toml_entries_lookup [OF assms, of "''token''"] have "map_of t ''token'' = None" by simp
    with None kv show ?thesis
      using from_toml_entries_update [OF assms v] by (simp add: save_credentials_def saved_table_def)
  next
    case (Some old)
    with from_toml_entries_lookup [OF assms, of "''token''"] obtain cv where
      cv: "from_toml file old = Inr cv" "map_of t ''token'' = Some cv" by auto
    have "from_toml_entries file (AList.update ''registry'' (TomlTable [(''token'', old)]) (AList.delete ''token'' es)) =
        Inr (AList.update ''registry'' (CTable [(''token'', cv)] file) (AList.delete ''token'' t))"
      by (rule from_toml_entries_update [OF from_toml_entries_delete [OF assms]]) (simp add: cv)
    from from_toml_entries_update [OF this v] Some cv kv show ?thesis
      by (simp add: save_credentials_def saved_table_def)
  qed
qed

text \<open>C22: After a token was saved, for a registry or for the default one, the file that is written reads back
  with that token at the place where it is looked up, and the keys other than \<open>registry\<close>, \<open>registries\<close>
  and \<open>token\<close> keep their values; but saving a token for one registry drops whatever the file had for
  every other registry.\<close>

theorem save_credentials_effect:
  assumes "from_toml file toml = Inr (CTable t p)"
  shows "\<exists>toml' t'. save_credentials file token registry toml = Some toml' \<and>
     from_toml file toml' = Inr (CTable t' file) \<and>
     at (CTable (relocate_token t') file)
       (case registry of Some r \<Rightarrow> [''registries'', r, ''token''] | None \<Rightarrow> [''registry'', ''token'']) = Some (CString token file) \<and>
     (\<forall>k. k \<notin> {''registry'', ''registries'', ''token''} \<longrightarrow> map_of (relocate_token t') k = map_of t k) \<and>
     (\<forall>r r'. registry = Some r \<and> r' \<noteq> r \<longrightarrow> at (CTable (relocate_token t') file) [''registries'', r'] = None)"
proof -
  from assms obtain es where toml: "toml = TomlTable es" and t: "from_toml_entries file es = Inr t"
    by (cases toml) auto
  obtain es' where es': "save_credentials file token registry toml = Some (TomlTable es')"
    "from_toml_entries file es' = Inr (saved_table file token registry t)"
    using save_credentials_table [OF t] toml by blast
  have "map_of (saved_table file token registry t) ''token'' = None"
    by (cases registry) (auto simp: saved_table_def credential_entry_def Let_def split: option.splits)
  then have same: "relocate_token (saved_table file token registry t) = saved_table file token registry t"
    by (simp add: relocate_token_def)
  show ?thesis
    using es' same
    by (intro exI [of _ "TomlTable es'"] exI [of _ "saved_table file token registry t"])
       (cases registry; auto simp: saved_table_def credential_entry_def Let_def split: option.splits)
qed

theorem save_credentials_effect_witness:
  "\<exists>file toml toml' t'. toml = TomlTable [(''registries'', TomlTable [(''a'', TomlTable [(''token'', TomlString ''x'')])])] \<and>
     save_credentials file ''y'' (Some ''b'') toml = Some toml' \<and> from_toml file toml' = Inr (CTable t' file) \<and>
     at (CTable (relocate_token t') file) [''registries'', ''b'', ''token''] = Some (CString ''y'' file) \<and>
     at (CTable (relocate_token t') file) [''registries'', ''a''] = None"
proof -
  let ?file = "path_of_str ''/h/.cargo/credentials''"
  let ?toml = "TomlTable [(''registries'', TomlTable [(''a'', TomlTable [(''token'', TomlString ''x'')])])]"
  have "from_toml ?file ?toml =
      Inr (CTable [(''registries'', CTable [(''a'', CTable [(''token'', CString ''x'' ?file)] ?file)] ?file)] ?file)"
    by simp
  from save_credentials_effect [OF this, of "''y''" "Some ''b''"] obtain toml' t' where
    "save_credentials ?file ''y'' (Some ''b'') ?toml = Some toml'" "from_toml ?file toml' = Inr (CTable t' ?file)"
    "at (CTable (relocate_token t') ?file) [''registries'', ''b'', ''token''] = Some (CString ''y'' ?file)"
    and others: "\<forall>r r'. Some ''b'' = Some r \<and> r' \<noteq> r \<longrightarrow> at (CTable (relocate_token t') ?file) [''registries'', r'] = None"
    by (auto simp only: option.case)
  moreover have "at (CTable (relocate_token t') ?file) [''registries'', ''a''] = None"
    by (rule others [rule_format, of "''b''"]) simp
  ultimately show ?thesis by blast
qed

section \<open>An example\<close>

definition demo_world :: config_world where
  "demo_world =
     \<lparr>path_exists = (\<lambda>p. p \<in> set (map path_of_str [''/h/p/.cargo/config'', ''/h/.cargo/config''])),
      read_file = (\<lambda>p. if p = path_of_str ''/h/p/.cargo/config'' then Some ''near'' else Some ''far''),
      parse_toml = (\<lambda>s _. Some (TomlTable
        [(''build'', TomlTable (if s = ''near'' then [(''rustc'', TomlString ''n'')]
           else [(''rustc'', TomlString ''f''), (''jobs'', TomlInteger 2)]))])),
      test_root = None, env_target_dir = None\<rparr>"

definition demo_config :: config where
  "demo_config =
     \<lparr>cfg_cwd = path_of_str ''/h/p'', cfg_home = path_of_str ''/h/.cargo'', cfg_env = [], cfg_values = None,
      cfg_shell = \<lparr>shell_err = ShellWrite, shell_verbosity = Verbose\<rparr>, cfg_extra_verbose = False,
      cfg_frozen = False, cfg_locked = False, cfg_target_dir = None, cfg_cli = default_cli_unstable\<rparr>"

lemma demo_documents: "documents_are_tables demo_world"
  by (simp add: documents_are_tables_def demo_world_def)

theorem config_layered_witness:
  "load_values demo_world demo_config \<noteq> None \<and>
   (\<exists>t ls. load_values demo_world demo_config = Some (Inr t) \<and>
      layers demo_world (cfg_home demo_config) (cfg_cwd demo_config) = Inr ls \<and>
      string_answer demo_config t ls ''build.rustc'' (get_string demo_world demo_config ''build.rustc''))"
proof -
  have "case load_values demo_world demo_config of Some (Inr _) \<Rightarrow> True | _ \<Rightarrow> False" by code_simp
  then obtain t where "load_values demo_world demo_config = Some (Inr t)" by (auto split: option.splits sum.splits)
  moreover have "cfg_values demo_config = None" by (simp add: demo_config_def)
  ultimately show ?thesis using config_layered [OF demo_documents, of demo_config] by blast
qed

lemma demo_lookup:
  "get_string demo_world demo_config ''build.rustc'' =
     Some (Inr (Some \<lparr>val = ''n'', val_definition = DefPath (path_of_str ''/h/p/.cargo/config'')\<rparr>))"
  "get_i64 demo_world demo_config ''build.jobs'' =
     Some (Inr (Some \<lparr>val = 2, val_definition = DefPath (path_of_str ''/h/.cargo/config'')\<rparr>))"
  by code_simp+

end
