(* ===== verification/Source_Config.thy ===== *)
theory Source_Config
  imports Registry Config_Value
begin

text \<open>
  Source replacement: the table \<open>[source]\<close> of the configuration, \<open>src/cargo/sources/config.rs\<close>, a source
  that answers in the name of another, \<open>src/cargo/sources/replaced.rs\<close>, and the vendored directory that is
  its most common target, \<open>src/cargo/sources/directory.rs\<close>.  The file system is an argument.  Source ids
  are compared with their own \<open>==\<close>, which leaves the precise version out.
\<close>

section \<open>The configured sources\<close>

record 'u source_config =
  sc_id :: "'u source_id"
  sc_replace_with :: "(string \<times> path) option"

text \<open>\<open>id2name\<close> is keyed by source ids up to \<open>==\<close>.\<close>

record 'u source_config_map =
  sc_cfgs :: "(string \<times> 'u source_config) list"
  sc_id2name :: "((kind \<times> 'u) \<times> string) list"

datatype source_config_error =
    BadConfig config_error
  | BadSource source_error
  | BadUrlKey string path
  | NoSourceUrl string
  | MoreThanOneUrl string
  | SourceNotFound string string path
  | ReplacementCycle string path
  | LosesChecksums string string
  | NeedsLockFile string

definition CRATES_IO_REGISTRY :: string where
  "CRATES_IO_REGISTRY = ''crates-io''"

definition lift_err :: "('e \<Rightarrow> 'f) \<Rightarrow> ('e, 'a) run \<Rightarrow> ('f, 'a) run" where
  "lift_err f r = map_option (map_err f) r"

definition add_source_config :: "string \<Rightarrow> 'u source_config \<Rightarrow> 'u source_config_map \<Rightarrow> 'u source_config_map" where
  "add_source_config name cfg m =
     m\<lparr>sc_id2name := AList.update (sid_key (sc_id cfg)) name (sc_id2name m),
       sc_cfgs := AList.update name cfg (sc_cfgs m)\<rparr>"

text \<open>\<open>index\<close> is the registry index of the configuration, which \<open>SourceId::crates_io\<close> looks up.\<close>

definition empty_map :: "'u url_ops \<Rightarrow> string option \<Rightarrow> (source_config_error, 'u source_config_map) run" where
  "empty_map U index =
     bindR (lift_err BadSource (crates_io U index)) (\<lambda>sid.
       Some (Inr (add_source_config CRATES_IO_REGISTRY \<lparr>sc_id = sid, sc_replace_with = None\<rparr> \<lparr>sc_cfgs = [], sc_id2name = []\<rparr>)))"

text \<open>The nested function \<open>url\<close>, and the directory a relative path of a configuration file is taken from.\<close>

definition url_of_key :: "'u url_ops \<Rightarrow> config_value \<Rightarrow> string \<Rightarrow> source_config_error + 'u" where
  "url_of_key U cv key =
     bindE (map_err BadConfig (cv_string cv key)) (\<lambda>(s, p). ok_or (BadUrlKey key p) (url_parse U s))"

definition path_of_key :: "config_value \<Rightarrow> string \<Rightarrow> source_config_error + string" where
  "path_of_key cv key =
     bindE (map_err BadConfig (cv_string cv key)) (\<lambda>(s, p).
       Inr (path_str (path_join (path_pop (path_pop p)) (path_of_str s))))"

definition source_key :: "string \<Rightarrow> string \<Rightarrow> string" where
  "source_key name field = ''source.'' @ name @ ''.'' @ field"

text \<open>One of the keys that give a source: no source id where the table does not have it.\<close>

definition opt_source ::
    "config_table \<Rightarrow> string \<Rightarrow> (config_value \<Rightarrow> (source_config_error, 'u source_id) run) \<Rightarrow>
     (source_config_error, 'u source_id list) run" where
  "opt_source table field mk =
     (case map_of table field of
        None \<Rightarrow> Some (Inr [])
      | Some cv \<Rightarrow> bindR (mk cv) (\<lambda>sid. Some (Inr [sid])))"

definition try_string :: "config_table \<Rightarrow> string \<Rightarrow> string \<Rightarrow> source_config_error + string option" where
  "try_string table name field =
     (case map_of table field of
        None \<Rightarrow> Inr None
      | Some cv \<Rightarrow> map_err BadConfig (bindE (cv_string cv (source_key name field)) (\<lambda>(s, _). Inr (Some s))))"

definition git_reference_of :: "config_table \<Rightarrow> string \<Rightarrow> source_config_error + git_reference" where
  "git_reference_of table name =
     bindE (try_string table name ''branch'') (\<lambda>b.
       case b of
         Some b \<Rightarrow> Inr (Branch b)
       | None \<Rightarrow>
           bindE (try_string table name ''tag'') (\<lambda>tg.
             case tg of
               Some b \<Rightarrow> Inr (Tag b)
             | None \<Rightarrow>
                 bindE (try_string table name ''rev'') (\<lambda>rv.
                   case rv of Some b \<Rightarrow> Inr (Rev b) | None \<Rightarrow> Inr (Branch ''master''))))"

definition table_sources ::
    "'u url_ops \<Rightarrow> string option \<Rightarrow> string \<Rightarrow> config_table \<Rightarrow> (source_config_error, 'u source_id list) run" where
  "table_sources U index name table =
     bindR (opt_source table ''registry'' (\<lambda>cv.
       bindR (Some (url_of_key U cv (source_key name ''registry''))) (\<lambda>url.
         lift_err BadSource (for_registry U url)))) (\<lambda>a.
     bindR (opt_source table ''local-registry'' (\<lambda>cv.
       bindR (Some (path_of_key cv (source_key name ''local-registry''))) (\<lambda>p.
         lift_err BadSource (for_local_registry U p)))) (\<lambda>b.
     bindR (opt_source table ''directory'' (\<lambda>cv.
       bindR (Some (path_of_key cv (source_key name ''directory''))) (\<lambda>p.
         lift_err BadSource (for_directory U p)))) (\<lambda>c.
     bindR (opt_source table ''git'' (\<lambda>cv.
       bindR (Some (url_of_key U cv (source_key name ''git''))) (\<lambda>url.
       bindR (Some (git_reference_of table name)) (\<lambda>reference.
         lift_err BadSource (for_git U url reference))))) (\<lambda>d.
     let srcs = a @ b @ c @ d
     in if name = ''crates-io'' \<and> srcs = [] then
          bindR (lift_err BadSource (crates_io U index)) (\<lambda>sid. Some (Inr [sid]))
        else Some (Inr srcs)))))"

definition replace_with_of :: "config_table \<Rightarrow> string \<Rightarrow> source_config_error + (string \<times> path) option" where
  "replace_with_of table name =
     (case map_of table ''replace-with'' of
        None \<Rightarrow> Inr None
      | Some cv \<Rightarrow>
          map_err BadConfig (bindE (cv_string cv (source_key name ''replace-with'')) (\<lambda>sp. Inr (Some sp))))"

definition add_config ::
    "'u url_ops \<Rightarrow> string option \<Rightarrow> string \<Rightarrow> config_value \<Rightarrow> 'u source_config_map \<Rightarrow>
     (source_config_error, 'u source_config_map) run" where
  "add_config U index name cfg m =
     bindR (Some (map_err BadConfig (cv_table cfg (''source.'' @ name)))) (\<lambda>(table, _).
     bindR (table_sources U index name table) (\<lambda>srcs.
       case srcs of
         [] \<Rightarrow> Some (Inl (NoSourceUrl name))
       | [src] \<Rightarrow>
           bindR (Some (replace_with_of table name)) (\<lambda>rw.
             Some (Inr (add_source_config name \<lparr>sc_id = src, sc_replace_with = rw\<rparr> m)))
       | _ \<Rightarrow> Some (Inl (MoreThanOneUrl name))))"

definition new_source_config_map ::
    "'u url_ops \<Rightarrow> string option \<Rightarrow> config_table option \<Rightarrow> (source_config_error, 'u source_config_map) run" where
  "new_source_config_map U index table =
     bindR (empty_map U index) (\<lambda>base.
       case table of
         None \<Rightarrow> Some (Inr base)
       | Some t \<Rightarrow> foldR (\<lambda>(key, cv). add_config U index key cv) t base)"

section \<open>Following replacements\<close>

text \<open>The loop of \<open>SourceConfigMap::load\<close>, to the configuration it ends at; \<open>None\<close> where it does not end.\<close>

partial_function (option) follow ::
    "(string \<times> 'u source_config) list \<Rightarrow> string \<Rightarrow> string \<Rightarrow> path \<Rightarrow>
     (source_config_error + (string \<times> 'u source_config)) option" where
  "follow cfgs orig_name name p =
     (case map_of cfgs name of
        None \<Rightarrow> Some (Inl (SourceNotFound name orig_name p))
      | Some cfg \<Rightarrow>
          (case sc_replace_with cfg of
             None \<Rightarrow> Some (Inr (name, cfg))
           | Some (s, q) \<Rightarrow>
               if s = orig_name then Some (Inl (ReplacementCycle s q))
               else follow cfgs orig_name s q))"

text \<open>What the kinds of source say of themselves.\<close>

fun supports_checksums :: "'u source_impl \<Rightarrow> bool" where
  "supports_checksums (GitSource _) = False"
| "supports_checksums (PathSource _ _) = False"
| "supports_checksums (RemoteRegistry _) = True"
| "supports_checksums (LocalRegistry _ _) = True"
| "supports_checksums (DirectorySource _ _) = True"

fun requires_precise :: "'u source_impl \<Rightarrow> bool" where
  "requires_precise (GitSource _) = True"
| "requires_precise (PathSource _ _) = False"
| "requires_precise (RemoteRegistry _) = False"
| "requires_precise (LocalRegistry _ _) = False"
| "requires_precise (DirectorySource _ _) = True"

datatype 'u loaded_source =
    PlainSource "'u source_impl"
  | ReplacedBy "'u source_id" "'u source_id" "'u source_impl"

definition load_configured ::
    "'u url_ops \<Rightarrow> 'u source_config_map \<Rightarrow> 'u source_id \<Rightarrow> (source_config_error, 'u loaded_source) run" where
  "load_configured U m sid =
     (case map_of (sc_id2name m) (sid_key sid) of
        None \<Rightarrow> map_option (\<lambda>s. Inr (PlainSource s)) (load U sid)
      | Some orig_name \<Rightarrow>
          bindR (follow (sc_cfgs m) orig_name orig_name [RootDir]) (\<lambda>(name, cfg).
            if sid_eq sid (sc_id cfg) then map_option (\<lambda>s. Inr (PlainSource s)) (load U sid)
            else
              let new_id = with_precise (precise sid) (sc_id cfg)
              in Option.bind (load U new_id) (\<lambda>new_src.
                 Option.bind (load U sid) (\<lambda>old_src.
                   if \<not> supports_checksums new_src \<and> supports_checksums old_src then
                     Some (Inl (LosesChecksums orig_name name))
                   else if requires_precise old_src \<and> precise sid = None then
                     Some (Inl (NeedsLockFile orig_name))
                   else Some (Inr (ReplacedBy sid new_id new_src))))))"


section \<open>When the replacements end\<close>

text \<open>One replacement, and the name after \<open>n\<close> of them.\<close>

definition replaced_by :: "(string \<times> 'u source_config) list \<Rightarrow> string \<Rightarrow> string option" where
  "replaced_by cfgs name =
     (case map_of cfgs name of None \<Rightarrow> None | Some cfg \<Rightarrow> map_option fst (sc_replace_with cfg))"

fun hops :: "(string \<times> 'u source_config) list \<Rightarrow> nat \<Rightarrow> string \<Rightarrow> string option" where
  "hops cfgs 0 name = Some name"
| "hops cfgs (Suc n) name = (case replaced_by cfgs name of None \<Rightarrow> None | Some s \<Rightarrow> hops cfgs n s)"

lemma follow_stops:
  "replaced_by cfgs name = None \<Longrightarrow>
   follow cfgs orig name p =
     Some (case map_of cfgs name of None \<Rightarrow> Inl (SourceNotFound name orig p) | Some cfg \<Rightarrow> Inr (name, cfg))"
  by (subst follow.simps) (auto simp: replaced_by_def split: option.splits)

lemma follow_step:
  "replaced_by cfgs name = Some s \<Longrightarrow>
   \<exists>q. follow cfgs orig name p = (if s = orig then Some (Inl (ReplacementCycle s q)) else follow cfgs orig s q)"
  by (subst follow.simps) (auto simp: replaced_by_def split: option.splits)

text \<open>The loop can be unrolled as often as the names it meets are replaced and are not the first one.\<close>

lemma follow_hops:
  "hops cfgs n name = Some s \<Longrightarrow> \<forall>k. 0 < k \<and> k \<le> n \<longrightarrow> hops cfgs k name \<noteq> Some orig \<Longrightarrow>
   \<exists>q. follow cfgs orig name p = follow cfgs orig s q"
proof (induction n arbitrary: name p)
  case (Suc n)
  from Suc.prems(1) obtain u where u: "replaced_by cfgs name = Some u" "hops cfgs n u = Some s"
    by (auto split: option.splits)
  have "hops cfgs (Suc 0) name = Some u" using u by simp
  with Suc.prems(2) [rule_format, of "Suc 0"] have "u \<noteq> orig" by auto
  with follow_step [OF u(1), of orig p] obtain q where "follow cfgs orig name p = follow cfgs orig u q" by auto
  moreover have "\<forall>k. 0 < k \<and> k \<le> n \<longrightarrow> hops cfgs k u \<noteq> Some orig"
    using Suc.prems(2) u(1) by (metis Suc_le_mono hops.simps(2) option.simps(5) zero_less_Suc)
  ultimately show ?case using Suc.IH [OF u(2)] by metis
qed auto

lemma follow_returns_only:
  assumes "follow cfgs orig name p = Some r"
  shows "\<exists>n s. hops cfgs n name = Some s \<and> (replaced_by cfgs s = None \<or> replaced_by cfgs s = Some orig)"
proof (rule follow.raw_induct [where P = "\<lambda>cfgs orig name p r. \<exists>n s. hops cfgs n name = Some s \<and>
    (replaced_by cfgs s = None \<or> replaced_by cfgs s = Some orig)", OF _ assms])
  fix rec :: "(string \<times> 'a source_config) list \<Rightarrow> string \<Rightarrow> string \<Rightarrow> path \<Rightarrow>
     (source_config_error + (string \<times> 'a source_config)) option"
    and cfgs :: "(string \<times> 'a source_config) list" and orig name p r
  assume IH: "\<And>cfgs orig name p r. rec cfgs orig name p = Some r \<Longrightarrow>
      \<exists>n s. hops cfgs n name = Some s \<and> (replaced_by cfgs s = None \<or> replaced_by cfgs s = Some orig)"
    and body: "(case map_of cfgs name of
        None \<Rightarrow> Some (Inl (SourceNotFound name orig p))
      | Some cfg \<Rightarrow>
          (case sc_replace_with cfg of
             None \<Rightarrow> Some (Inr (name, cfg))
           | Some (s, q) \<Rightarrow> if s = orig then Some (Inl (ReplacementCycle s q)) else rec cfgs orig s q)) = Some r"
  show "\<exists>n s. hops cfgs n name = Some s \<and> (replaced_by cfgs s = None \<or> replaced_by cfgs s = Some orig)"
  proof (cases "replaced_by cfgs name = None \<or> replaced_by cfgs name = Some orig")
    case True
    then show ?thesis by (metis hops.simps(1))
  next
    case False
    then obtain s where s: "replaced_by cfgs name = Some s" "s \<noteq> orig" by auto
    with body have "\<exists>q. rec cfgs orig s q = Some r"
      by (auto simp: replaced_by_def split: option.splits)
    with IH obtain n u where "hops cfgs n s = Some u" "replaced_by cfgs u = None \<or> replaced_by cfgs u = Some orig"
      by blast
    with s show ?thesis by (metis hops.simps(2) option.simps(5))
  qed
qed

lemma hops_add: "hops cfgs (m + n) name = Option.bind (hops cfgs m name) (hops cfgs n)"
  by (induction m arbitrary: name) (auto split: option.splits)

lemma hops_Suc: "hops cfgs (Suc n) name = Option.bind (hops cfgs n name) (replaced_by cfgs)"
proof -
  have "hops cfgs 1 = replaced_by cfgs" by (rule ext) (simp split: option.splits)
  with hops_add [of cfgs n 1 name] show ?thesis by simp
qed

text \<open>The first name of the chain at which the loop stops.\<close>

lemma follow_result:
  assumes "hops cfgs n name = Some s" "replaced_by cfgs s = None \<or> replaced_by cfgs s = Some orig"
  shows "\<exists>r. follow cfgs orig name p = Some r"
proof -
  define stops where "stops = (\<lambda>n. \<exists>s. hops cfgs n name = Some s \<and> (replaced_by cfgs s = None \<or> replaced_by cfgs s = Some orig))"
  have "stops n" using assms by (auto simp: stops_def)
  then have least: "stops (LEAST n. stops n)" by (rule LeastI)
  define m where "m = (LEAST n. stops n)"
  from least obtain u where u: "hops cfgs m name = Some u" "replaced_by cfgs u = None \<or> replaced_by cfgs u = Some orig"
    by (auto simp: stops_def m_def)
  have before: "\<not> stops k" if "k < m" for k using that not_less_Least unfolding m_def by blast
  have "hops cfgs k name \<noteq> Some orig" if k: "0 < k" "k \<le> m" for k
  proof
    assume orig: "hops cfgs k name = Some orig"
    from k(1) obtain j where j: "k = Suc j" by (cases k) auto
    with orig obtain v where "hops cfgs j name = Some v" "replaced_by cfgs v = Some orig"
      by (auto simp: hops_Suc simp del: hops.simps split: Option.bind_splits)
    with before [of j] j k show False by (auto simp: stops_def)
  qed
  with u obtain q where q: "follow cfgs orig name p = follow cfgs orig u q" using follow_hops by blast
  show ?thesis
  proof (cases "replaced_by cfgs u")
    case None
    with follow_stops [OF None, of orig q] q show ?thesis by simp
  next
    case (Some w)
    with u follow_step [OF Some, of orig q] q show ?thesis by auto
  qed
qed

lemma follow_returns_iff:
  "(\<exists>r. follow cfgs orig name p = Some r) \<longleftrightarrow>
     (\<exists>n s. hops cfgs n name = Some s \<and> (replaced_by cfgs s = None \<or> replaced_by cfgs s = Some orig))"
  using follow_returns_only follow_result by blast

lemma follow_Inr:
  assumes "follow cfgs orig name p = Some (Inr (final, cfg))"
  shows "\<exists>n. hops cfgs n name = Some final \<and> map_of cfgs final = Some cfg \<and> sc_replace_with cfg = None"
proof -
  obtain n s where n: "hops cfgs n name = Some s" "replaced_by cfgs s = None \<or> replaced_by cfgs s = Some orig"
    using follow_returns_only [OF assms] by blast
  then show ?thesis
    using assms
  proof (induction n arbitrary: name p)
    case 0
    then show ?case using follow_stops [of cfgs name orig p] follow_step [of cfgs name orig orig p]
      by (auto simp: replaced_by_def split: option.splits intro!: exI [of _ 0])
  next
    case (Suc n)
    then obtain u where u: "replaced_by cfgs name = Some u" "hops cfgs n u = Some s" by (auto split: option.splits)
    from follow_step [OF u(1), of orig p] Suc.prems(3) obtain q where "follow cfgs orig u q = Some (Inr (final, cfg))"
      by (auto split: if_splits)
    from Suc.IH [OF u(2) Suc.prems(2) this] u(1) show ?case by (metis hops.simps(2) option.simps(5))
  qed
qed


lemma follow_None_iff:
  "follow cfgs orig name p = None \<longleftrightarrow>
     (\<forall>n. \<exists>s t. hops cfgs n name = Some s \<and> replaced_by cfgs s = Some t \<and> t \<noteq> orig)"
proof
  assume "follow cfgs orig name p = None"
  then have on: "\<And>n s. hops cfgs n name = Some s \<Longrightarrow> \<exists>t. replaced_by cfgs s = Some t \<and> t \<noteq> orig"
    using follow_result [of cfgs _ name _ orig p] by (metis not_None_eq option.distinct(1))
  have "\<exists>s. hops cfgs n name = Some s" for n
    by (induction n) (use on in \<open>fastforce simp: hops_Suc simp del: hops.simps(2)\<close>)+
  with on show "\<forall>n. \<exists>s t. hops cfgs n name = Some s \<and> replaced_by cfgs s = Some t \<and> t \<noteq> orig" by blast
next
  assume "\<forall>n. \<exists>s t. hops cfgs n name = Some s \<and> replaced_by cfgs s = Some t \<and> t \<noteq> orig"
  then show "follow cfgs orig name p = None"
    using follow_returns_only [of cfgs orig name p] by (metis not_None_eq option.inject option.distinct(1))
qed

text \<open>C23: Loading a configured source follows \<open>replace-with\<close> from name to name.  It comes back exactly when the chain
  of names ends, at a source that is not replaced or not configured, or comes back to the name it
  started from; a chain that runs into a cycle that its start is not on is followed for ever.  A source that
  is put in the place of another is the end of the chain, carries over the locked version of the
  source it replaces, and has checksums if that one has.\<close>

theorem source_replacement:
  assumes "map_of (sc_id2name m) (sid_key sid) = Some orig"
  shows "(follow (sc_cfgs m) orig orig [RootDir] = None \<longleftrightarrow>
      (\<forall>n. \<exists>s t. hops (sc_cfgs m) n orig = Some s \<and> replaced_by (sc_cfgs m) s = Some t \<and> t \<noteq> orig)) \<and>
    (follow (sc_cfgs m) orig orig [RootDir] = None \<longrightarrow> load_configured U m sid = None) \<and>
    (\<forall>a b src. load_configured U m sid = Some (Inr (ReplacedBy a b src)) \<longrightarrow>
      a = sid \<and> load U b = Some src \<and>
      (\<exists>n name cfg. hops (sc_cfgs m) n orig = Some name \<and> map_of (sc_cfgs m) name = Some cfg \<and>
         sc_replace_with cfg = None \<and> \<not> sid_eq sid (sc_id cfg) \<and> b = with_precise (precise sid) (sc_id cfg)) \<and>
      (\<forall>old. load U sid = Some old \<longrightarrow>
         (supports_checksums old \<longrightarrow> supports_checksums src) \<and> (requires_precise old \<longrightarrow> precise b \<noteq> None)))"
proof (intro conjI allI impI)
  show "follow (sc_cfgs m) orig orig [RootDir] = None \<longleftrightarrow>
      (\<forall>n. \<exists>s t. hops (sc_cfgs m) n orig = Some s \<and> replaced_by (sc_cfgs m) s = Some t \<and> t \<noteq> orig)"
    by (rule follow_None_iff)
  show "follow (sc_cfgs m) orig orig [RootDir] = None \<Longrightarrow> load_configured U m sid = None"
    using assms by (simp add: load_configured_def)
next
  fix a b src
  assume loaded: "load_configured U m sid = Some (Inr (ReplacedBy a b src))"
  with assms obtain name cfg where
    f: "follow (sc_cfgs m) orig orig [RootDir] = Some (Inr (name, cfg))" and other: "\<not> sid_eq sid (sc_id cfg)"
    by (auto simp: load_configured_def split: if_splits)
  with loaded assms have new: "a = sid" "b = with_precise (precise sid) (sc_id cfg)" "load U b = Some src" and
    old: "\<And>old. load U sid = Some old \<Longrightarrow>
       (supports_checksums old \<longrightarrow> supports_checksums src) \<and> (requires_precise old \<longrightarrow> precise sid \<noteq> None)"
    by (auto simp: load_configured_def Let_def split: if_splits Option.bind_splits)
  show "a = sid" "load U b = Some src" by (fact new)+
  show "\<exists>n name cfg. hops (sc_cfgs m) n orig = Some name \<and> map_of (sc_cfgs m) name = Some cfg \<and>
         sc_replace_with cfg = None \<and> \<not> sid_eq sid (sc_id cfg) \<and> b = with_precise (precise sid) (sc_id cfg)"
    using follow_Inr [OF f] other new(2) by blast
  fix oldsrc
  assume l: "load U sid = Some oldsrc"
  show "supports_checksums oldsrc \<Longrightarrow> supports_checksums src" using old [OF l] by blast
  show "requires_precise oldsrc \<Longrightarrow> precise b \<noteq> None" using old [OF l] new(2) by (simp add: with_precise_def)
qed

text \<open>\<open>crates-io\<close> replaced by \<open>b\<close>, and \<open>b\<close> and \<open>c\<close> by each other.\<close>

definition cyclic_sources :: "string source_config_map" where
  "cyclic_sources =
     (let c = (\<lambda>u to. \<lparr>sc_id = \<lparr>sid_url = u, canonical_url = u, kind = KRegistry, precise = None, sid_name = None\<rparr>,
                     sc_replace_with = Some (to, path_of_str ''/.cargo/config'')\<rparr>)
      in add_source_config ''crates-io'' (c ''https://x/a'' ''b'') (add_source_config ''b'' (c ''https://x/b'' ''c'')
           (add_source_config ''c'' (c ''https://x/c'' ''b'') \<lparr>sc_cfgs = [], sc_id2name = []\<rparr>)))"

lemma cyclic_replacements:
  "replaced_by (sc_cfgs cyclic_sources) ''crates-io'' = Some ''b''"
  "replaced_by (sc_cfgs cyclic_sources) ''b'' = Some ''c''"
  "replaced_by (sc_cfgs cyclic_sources) ''c'' = Some ''b''"
  "map_of (sc_id2name cyclic_sources) (KRegistry, ''https://x/a'') = Some ''crates-io''"
  by (simp_all add: cyclic_sources_def replaced_by_def add_source_config_def sid_key_def)

theorem source_replacement_witness:
  "\<exists>sid. load_configured plain_ops cyclic_sources sid = None \<and> load plain_ops sid \<noteq> None"
proof -
  let ?sid = "\<lparr>sid_url = ''https://x/a'', canonical_url = ''https://x/a'', kind = KRegistry, precise = None, sid_name = None\<rparr>"
  have name: "map_of (sc_id2name cyclic_sources) (sid_key ?sid) = Some ''crates-io''"
    by (simp add: sid_key_def cyclic_replacements)
  have on: "hops (sc_cfgs cyclic_sources) n ''crates-io'' \<in> {Some ''crates-io'', Some ''b'', Some ''c''}" for n
    by (induction n) (auto simp: hops_Suc cyclic_replacements simp del: hops.simps(2))
  have "\<exists>s t. hops (sc_cfgs cyclic_sources) n ''crates-io'' = Some s \<and>
      replaced_by (sc_cfgs cyclic_sources) s = Some t \<and> t \<noteq> ''crates-io''" for n
    using on [of n] by (auto simp: cyclic_replacements)
  with source_replacement [OF name, of plain_ops] have "load_configured plain_ops cyclic_sources ?sid = None" by blast
  moreover have "load plain_ops ?sid \<noteq> None" by (simp add: load_def)
  ultimately show ?thesis by blast
qed

end
