(* ===== verification/Replaced_Source.thy ===== *)
theory Replaced_Source
  imports Source_Config Registry_Correct
begin

text \<open>
  Sources that answer queries: the vendored directory of \<open>src/cargo/sources/directory.rs\<close> and the source
  that stands for another one, \<open>src/cargo/sources/replaced.rs\<close>.  What a client of the trait \<open>Source\<close>
  relies on is a locale; it holds of the directory, and of a replaced source whenever it holds of the
  source inside.  Reading directories, manifests and files is an argument.
\<close>

section \<open>Packages\<close>

text \<open>Of a package the sources use its summary and the place of its manifest.\<close>

record ('u, 'r) package =
  pkg_summary :: "('u source_id, 'r) summary"
  pkg_manifest_path :: path

abbreviation pkg_id :: "('u, 'r) package \<Rightarrow> 'u source_id package_id" where
  "pkg_id p \<equiv> package_id (pkg_summary p)"

text \<open>\<open>map_source\<close> of dependencies, summaries and packages.  Source ids are compared by their keys, which
  for the ids a program can hold is their \<open>==\<close>.\<close>

definition sid_map_dep ::
    "'u source_id \<Rightarrow> 'u source_id \<Rightarrow> ('u source_id, 'r) dependency \<Rightarrow> ('u source_id, 'r) dependency" where
  "sid_map_dep to_replace replace_with d =
     (if sid_key (dep_source_id d) \<noteq> sid_key to_replace then d else set_source_id replace_with d)"

definition sid_map_summary ::
    "'u source_id \<Rightarrow> 'u source_id \<Rightarrow> ('u source_id, 'r) summary \<Rightarrow> ('u source_id, 'r) summary" where
  "sid_map_summary to_replace replace_with s =
     (let me = (if sid_key (pid_source (package_id s)) = sid_key to_replace
                then override_id (with_source_id replace_with (package_id s)) s
                else s)
      in map_dependencies (sid_map_dep to_replace replace_with) me)"

definition sid_map_package ::
    "'u source_id \<Rightarrow> 'u source_id \<Rightarrow> ('u, 'r) package \<Rightarrow> ('u, 'r) package" where
  "sid_map_package to_replace replace_with p =
     p\<lparr>pkg_summary := sid_map_summary to_replace replace_with (pkg_summary p)\<rparr>"

datatype ('u, 'r) maybe_package = Ready "('u, 'r) package" | Download string string

type_synonym ('u, 'r) answers = "('u source_id, 'r) summary list \<times> string option"

section \<open>The trait\<close>

text \<open>The operations of a source; an answer to a query is what was passed to the callback before the end
  or the error.\<close>

record ('u, 'r, 'src) source_impl_ops =
  so_source_id :: "'src \<Rightarrow> 'u source_id"
  so_supports_checksums :: "'src \<Rightarrow> bool"
  so_requires_precise :: "'src \<Rightarrow> bool"
  so_query :: "bool \<Rightarrow> ('u source_id, 'r) dependency \<Rightarrow> 'src \<Rightarrow> ('u, 'r) answers \<times> 'src"
  so_update :: "'src \<Rightarrow> string option \<times> 'src"
  so_download :: "'u source_id package_id \<Rightarrow> 'src \<Rightarrow> (string + ('u, 'r) maybe_package) \<times> 'src"
  so_finish_download :: "'u source_id package_id \<Rightarrow> string \<Rightarrow> 'src \<Rightarrow> ((string + ('u, 'r) package) \<times> 'src) option"
  so_fingerprint :: "('u, 'r) package \<Rightarrow> 'src \<Rightarrow> string + string"
  so_verify :: "'u source_id package_id \<Rightarrow> 'src \<Rightarrow> string option"
  so_describe :: "'src \<Rightarrow> string"
  so_replaced_source_id :: "'src \<Rightarrow> 'u source_id"
  so_is_replaced :: "'src \<Rightarrow> bool"

section \<open>A replaced source\<close>

record ('u, 'src) replaced_source =
  rs_to_replace :: "'u source_id"
  rs_replace_with :: "'u source_id"
  rs_inner :: 'src

definition replaced_query ::
    "'u url_ops \<Rightarrow> ('u, 'r, 'src) source_impl_ops \<Rightarrow> bool \<Rightarrow> ('u source_id, 'r) dependency \<Rightarrow> ('u, 'src) replaced_source \<Rightarrow>
     ('u, 'r) answers \<times> ('u, 'src) replaced_source" where
  "replaced_query U P fuzzy dep s =
     (let dep = sid_map_dep (rs_to_replace s) (rs_replace_with s) dep
      in case so_query P fuzzy dep (rs_inner s) of ((found, err), inner) \<Rightarrow>
           ((map (sid_map_summary (rs_replace_with s) (rs_to_replace s)) found,
             map_option (\<lambda>_. ''failed to query replaced source '' @ sid_display U (rs_to_replace s)) err),
            s\<lparr>rs_inner := inner\<rparr>))"

definition rs_update ::
    "'u url_ops \<Rightarrow> ('u, 'r, 'src) source_impl_ops \<Rightarrow> ('u, 'src) replaced_source \<Rightarrow>
     string option \<times> ('u, 'src) replaced_source" where
  "rs_update U P s =
     (case so_update P (rs_inner s) of (err, inner) \<Rightarrow>
        (map_option (\<lambda>_. ''failed to update replaced source '' @ sid_display U (rs_to_replace s)) err,
         s\<lparr>rs_inner := inner\<rparr>))"

definition rs_download ::
    "'u url_ops \<Rightarrow> ('u, 'r, 'src) source_impl_ops \<Rightarrow> 'u source_id package_id \<Rightarrow> ('u, 'src) replaced_source \<Rightarrow>
     (string + ('u, 'r) maybe_package) \<times> ('u, 'src) replaced_source" where
  "rs_download U P pid s =
     (case so_download P (with_source_id (rs_replace_with s) pid) (rs_inner s) of (r, inner) \<Rightarrow>
        (case r of
           Inl _ \<Rightarrow> Inl (''failed to download replaced source '' @ sid_display U (rs_to_replace s))
         | Inr (Ready p) \<Rightarrow> Inr (Ready (sid_map_package (rs_replace_with s) (rs_to_replace s) p))
         | Inr (Download u d) \<Rightarrow> Inr (Download u d),
         s\<lparr>rs_inner := inner\<rparr>))"

definition rs_finish_download ::
    "'u url_ops \<Rightarrow> ('u, 'r, 'src) source_impl_ops \<Rightarrow> 'u source_id package_id \<Rightarrow> string \<Rightarrow> ('u, 'src) replaced_source \<Rightarrow>
     ((string + ('u, 'r) package) \<times> ('u, 'src) replaced_source) option" where
  "rs_finish_download U P pid data s =
     map_option (\<lambda>(r, inner).
        (case r of
           Inl _ \<Rightarrow> Inl (''failed to download replaced source '' @ sid_display U (rs_to_replace s))
         | Inr p \<Rightarrow> Inr (sid_map_package (rs_replace_with s) (rs_to_replace s) p),
         s\<lparr>rs_inner := inner\<rparr>))
       (so_finish_download P (with_source_id (rs_replace_with s) pid) data (rs_inner s))"

definition rs_verify ::
    "('u, 'r, 'src) source_impl_ops \<Rightarrow> 'u source_id package_id \<Rightarrow> ('u, 'src) replaced_source \<Rightarrow> string option" where
  "rs_verify P pid s = so_verify P (with_source_id (rs_replace_with s) pid) (rs_inner s)"

definition rs_describe ::
    "'u url_ops \<Rightarrow> ('u, 'r, 'src) source_impl_ops \<Rightarrow> ('u, 'src) replaced_source \<Rightarrow> string" where
  "rs_describe U P s =
     so_describe P (rs_inner s) @ '' (which is replacing '' @ sid_display U (rs_to_replace s) @ '')''"

definition replaced_ops ::
    "'u url_ops \<Rightarrow> ('u, 'r, 'src) source_impl_ops \<Rightarrow> ('u, 'r, ('u, 'src) replaced_source) source_impl_ops" where
  "replaced_ops U P =
     \<lparr>so_source_id = rs_to_replace,
      so_supports_checksums = (\<lambda>s. so_supports_checksums P (rs_inner s)),
      so_requires_precise = (\<lambda>s. so_requires_precise P (rs_inner s)),
      so_query = replaced_query U P, so_update = rs_update U P, so_download = rs_download U P,
      so_finish_download = rs_finish_download U P,
      so_fingerprint = (\<lambda>p s. so_fingerprint P p (rs_inner s)),
      so_verify = rs_verify P, so_describe = rs_describe U P,
      so_replaced_source_id = rs_replace_with, so_is_replaced = (\<lambda>_. True)\<rparr>"

section \<open>A directory of packages\<close>

record checksum_file =
  ck_package :: "string option"
  ck_files :: "(string \<times> string) list"

record ('u, 'r) directory_source =
  ds_source_id :: "'u source_id"
  ds_root :: path
  ds_packages :: "((kind \<times> 'u) package_id \<times> ('u, 'r) package \<times> checksum_file) list"

text \<open>What the directory source reads: the entries of a directory, whether there is a manifest, the root package a
  path source finds, the checksum file, and the SHA-256 of a file in hexadecimal.\<close>

record ('u, 'r) directory_world =
  read_dir :: "path \<Rightarrow> (string + path) list option"
  file_exists :: "path \<Rightarrow> bool"
  root_package :: "path \<Rightarrow> 'u source_id \<Rightarrow> string + ('u, 'r) package"
  read_checksum :: "path \<Rightarrow> checksum_file option"
  file_sha256 :: "path \<Rightarrow> string option"

definition new_directory_source :: "path \<Rightarrow> 'u source_id \<Rightarrow> ('u, 'r) directory_source" where
  "new_directory_source p sid = \<lparr>ds_source_id = sid, ds_root = p, ds_packages = []\<rparr>"

definition hidden :: "path \<Rightarrow> bool" where
  "hidden p \<longleftrightarrow> p \<noteq> [] \<and> (case last p of NormalComp s \<Rightarrow> starts_with ''.'' s | _ \<Rightarrow> False)"

definition add_package ::
    "('u, 'r) package \<Rightarrow> checksum_file \<Rightarrow> ('u, 'r) directory_source \<Rightarrow> ('u, 'r) directory_source" where
  "add_package p cksum s =
     (let p = (case ck_package cksum of
                 Some c \<Rightarrow> p\<lparr>pkg_summary := set_checksum c (pkg_summary p)\<rparr>
               | None \<Rightarrow> p)
      in s\<lparr>ds_packages := AList.update (key_pid (pkg_id p)) (p, cksum) (ds_packages s)\<rparr>)"

definition ds_entry ::
    "('u, 'r) directory_world \<Rightarrow> string + path \<Rightarrow> ('u, 'r) directory_source \<Rightarrow> string + ('u, 'r) directory_source" where
  "ds_entry W entry s =
     bindE entry (\<lambda>p.
       if hidden p then Inr s
       else if \<not> file_exists W (path_join p [NormalComp ''Cargo.toml'']) then Inr s
       else
         bindE (root_package W p (ds_source_id s)) (\<lambda>pkg0.
         let cksum_file = path_join p [NormalComp ''.cargo-checksum.json'']
         in bindE (ok_or (''failed to load checksum of '' @ pid_name (pkg_id pkg0)) (read_checksum W (path_join p cksum_file))) (\<lambda>cksum.
              Inr (add_package pkg0 cksum s))))"

fun ds_entries ::
    "('u, 'r) directory_world \<Rightarrow> (string + path) list \<Rightarrow> ('u, 'r) directory_source \<Rightarrow> string option \<times> ('u, 'r) directory_source" where
  "ds_entries W [] s = (None, s)"
| "ds_entries W (e # es) s =
     (case ds_entry W e s of Inl err \<Rightarrow> (Some err, s) | Inr s' \<Rightarrow> ds_entries W es s')"

definition ds_update ::
    "('u, 'r) directory_world \<Rightarrow> ('u, 'r) directory_source \<Rightarrow> string option \<times> ('u, 'r) directory_source" where
  "ds_update W s =
     (let s = s\<lparr>ds_packages := []\<rparr>
      in case read_dir W (ds_root s) of
           None \<Rightarrow> (Some (''failed to read root of directory source: '' @ path_str (ds_root s)), s)
         | Some es \<Rightarrow> ds_entries W es s)"

definition ds_query ::
    "'r semver_ops \<Rightarrow> bool \<Rightarrow> ('u source_id, 'r) dependency \<Rightarrow> ('u, 'r) directory_source \<Rightarrow>
     ('u, 'r) answers \<times> ('u, 'r) directory_source" where
  "ds_query S fuzzy dep s =
     (let packages = map (fst \<circ> snd) (ds_packages s);
          found = (if fuzzy then packages else filter (\<lambda>p. accepts S dep (pkg_id p)) packages)
      in ((map pkg_summary found, None), s))"

definition ds_download ::
    "'u source_id package_id \<Rightarrow> ('u, 'r) directory_source \<Rightarrow> (string + ('u, 'r) maybe_package) \<times> ('u, 'r) directory_source" where
  "ds_download pid s =
     (case map_of (ds_packages s) (key_pid pid) of
        Some (p, _) \<Rightarrow> Inr (Ready p)
      | None \<Rightarrow> Inl (''failed to find package with id: '' @ pid_name pid), s)"

text \<open>\<open>pkg.root()\<close> is the parent of the manifest; a manifest has one.\<close>

fun verify_files :: "('u, 'r) directory_world \<Rightarrow> path \<Rightarrow> (string \<times> string) list \<Rightarrow> string option" where
  "verify_files W root [] = None"
| "verify_files W root ((file, cksum) # rest) =
     (let f = path_join root (path_of_str file)
      in case file_sha256 W f of
           None \<Rightarrow> Some (''failed to calculate checksum of: '' @ path_str f)
         | Some actual \<Rightarrow>
             if actual \<noteq> cksum then Some (''the listed checksum of `'' @ path_str f @ ''` has changed'')
             else verify_files W root rest)"

definition ds_verify ::
    "('u, 'r) directory_world \<Rightarrow> 'u source_id package_id \<Rightarrow> ('u, 'r) directory_source \<Rightarrow> string option" where
  "ds_verify W pid s =
     (case map_of (ds_packages s) (key_pid pid) of
        None \<Rightarrow> Some (''failed to find entry for `'' @ pid_name pid @ ''` in directory source'')
      | Some (p, cksum) \<Rightarrow> verify_files W (path_pop (pkg_manifest_path p)) (ck_files cksum))"

definition directory_ops ::
    "'r semver_ops \<Rightarrow> ('u, 'r) directory_world \<Rightarrow> ('u, 'r, ('u, 'r) directory_source) source_impl_ops" where
  "directory_ops S W =
     \<lparr>so_source_id = ds_source_id, so_supports_checksums = (\<lambda>_. True), so_requires_precise = (\<lambda>_. True),
      so_query = ds_query S, so_update = ds_update W, so_download = ds_download,
      so_finish_download = (\<lambda>_ _ _. None),
      so_fingerprint = (\<lambda>p _. Inr (version_str S (pid_version (pkg_id p)))),
      so_verify = ds_verify W,
      so_describe = (\<lambda>s. ''directory source `'' @ path_str (ds_root s) @ ''`''),
      so_replaced_source_id = ds_source_id, so_is_replaced = (\<lambda>_. False)\<rparr>"


section \<open>What a client relies on\<close>

text \<open>The answers to a query belong to the source and match the dependency, and a download gives the package it
  was asked for.\<close>

locale source_contract =
  fixes S :: "'r semver_ops"
    and P :: "('u, 'r, 'src) source_impl_ops"
    and ok :: "'src \<Rightarrow> bool"
  assumes query_own: "ok s \<Longrightarrow> x \<in> set (fst (fst (so_query P fuzzy dep s))) \<Longrightarrow>
      sid_key (pid_source (package_id x)) = sid_key (so_source_id P s)"
    and query_matches: "ok s \<Longrightarrow> sid_key (dep_source_id dep) = sid_key (so_source_id P s) \<Longrightarrow>
      x \<in> set (fst (fst (so_query P False dep s))) \<Longrightarrow> accepts S dep (package_id x)"
    and query_keeps: "ok s \<Longrightarrow> ok (snd (so_query P fuzzy dep s)) \<and>
      so_source_id P (snd (so_query P fuzzy dep s)) = so_source_id P s"
    and download_own: "ok s \<Longrightarrow> sid_key (pid_source pid) = sid_key (so_source_id P s) \<Longrightarrow>
      fst (so_download P pid s) = Inr (Ready p) \<Longrightarrow> key_pid (pkg_id p) = key_pid pid"
begin

lemma replaced_contract:
  "source_contract S (replaced_ops U P)
     (\<lambda>s. ok (rs_inner s) \<and> sid_key (so_source_id P (rs_inner s)) = sid_key (rs_replace_with s))"
proof
  fix s :: "('u, 'src) replaced_source" and x fuzzy and dep :: "('u source_id, 'r) dependency"
  assume s: "ok (rs_inner s) \<and> sid_key (so_source_id P (rs_inner s)) = sid_key (rs_replace_with s)"
  let ?dep = "sid_map_dep (rs_to_replace s) (rs_replace_with s) dep"
  {
    assume "x \<in> set (fst (fst (so_query (replaced_ops U P) fuzzy dep s)))"
    then obtain y where y: "y \<in> set (fst (fst (so_query P fuzzy ?dep (rs_inner s))))"
      "x = sid_map_summary (rs_replace_with s) (rs_to_replace s) y"
      by (auto simp: replaced_ops_def replaced_query_def Let_def split: prod.splits)
    with query_own [of "rs_inner s"] s
    show "sid_key (pid_source (package_id x)) = sid_key (so_source_id (replaced_ops U P) s)"
      by (auto simp: replaced_ops_def sid_map_summary_def Let_def map_dependencies_def override_id_def with_source_id_def)
  }
  {
    assume dep: "sid_key (dep_source_id dep) = sid_key (so_source_id (replaced_ops U P) s)"
      and "x \<in> set (fst (fst (so_query (replaced_ops U P) False dep s)))"
    then obtain y where y: "y \<in> set (fst (fst (so_query P False ?dep (rs_inner s))))"
      "x = sid_map_summary (rs_replace_with s) (rs_to_replace s) y"
      by (auto simp: replaced_ops_def replaced_query_def Let_def split: prod.splits)
    from dep have "?dep = set_source_id (rs_replace_with s) dep"
      by (simp add: sid_map_dep_def replaced_ops_def)
    with y(1) s query_matches [of "rs_inner s" ?dep y] have "accepts S (set_source_id (rs_replace_with s) dep) (package_id y)"
      by (simp add: set_source_id_def)
    with y dep query_own [of "rs_inner s" y False ?dep] s show "accepts S dep (package_id x)"
      by (auto simp: accepts_iff replaced_ops_def sid_map_summary_def Let_def map_dependencies_def override_id_def
          with_source_id_def set_source_id_def)
  }
  show "(ok (rs_inner (snd (so_query (replaced_ops U P) fuzzy dep s))) \<and>
      sid_key (so_source_id P (rs_inner (snd (so_query (replaced_ops U P) fuzzy dep s)))) =
      sid_key (rs_replace_with (snd (so_query (replaced_ops U P) fuzzy dep s)))) \<and>
      so_source_id (replaced_ops U P) (snd (so_query (replaced_ops U P) fuzzy dep s)) = so_source_id (replaced_ops U P) s"
    using query_keeps [of "rs_inner s" fuzzy ?dep] s
    by (auto simp: replaced_ops_def replaced_query_def Let_def split: prod.splits)
next
  fix s :: "('u, 'src) replaced_source" and pid p
  assume s: "ok (rs_inner s) \<and> sid_key (so_source_id P (rs_inner s)) = sid_key (rs_replace_with s)"
    and pid: "sid_key (pid_source pid) = sid_key (so_source_id (replaced_ops U P) s)"
    and got: "fst (so_download (replaced_ops U P) pid s) = Inr (Ready p)"
  from got obtain q where q: "fst (so_download P (with_source_id (rs_replace_with s) pid) (rs_inner s)) = Inr (Ready q)"
    "p = sid_map_package (rs_replace_with s) (rs_to_replace s) q"
    by (auto simp: replaced_ops_def rs_download_def split: prod.splits sum.splits maybe_package.splits)
  with download_own [of "rs_inner s" "with_source_id (rs_replace_with s) pid" q] s pid
  show "key_pid (pkg_id p) = key_pid pid"
    by (auto simp: key_pid_eq_iff with_source_id_def sid_map_package_def sid_map_summary_def Let_def
        map_dependencies_def override_id_def replaced_ops_def)
qed

end

section \<open>Directories and replaced directories keep the contract\<close>

definition ds_ok :: "('u, 'r) directory_source \<Rightarrow> bool" where
  "ds_ok s \<longleftrightarrow> wf_alist (ds_packages s) \<and>
     (\<forall>(k, p, c)\<in>set (ds_packages s). k = key_pid (pkg_id p) \<and> sid_key (pid_source (pkg_id p)) = sid_key (ds_source_id s))"

lemma ds_okD:
  assumes "ds_ok s" "map_of (ds_packages s) k = Some (p, c)"
  shows "k = key_pid (pkg_id p)" "sid_key (pid_source (pkg_id p)) = sid_key (ds_source_id s)"
  using assms map_of_SomeD by (fastforce simp: ds_ok_def)+

lemma directory_contract: "source_contract S (directory_ops S W) ds_ok"
proof
  fix s :: "('b, 'a) directory_source" and x fuzzy dep
  assume "ds_ok s" "x \<in> set (fst (fst (so_query (directory_ops S W) fuzzy dep s)))"
  then show "sid_key (pid_source (package_id x)) = sid_key (so_source_id (directory_ops S W) s)"
    by (fastforce simp: directory_ops_def ds_query_def ds_ok_def Let_def split: if_splits)
next
  fix s :: "('b, 'a) directory_source" and pid p
  assume "ds_ok s" "fst (so_download (directory_ops S W) pid s) = Inr (Ready p)"
  then show "key_pid (pkg_id p) = key_pid pid"
    using ds_okD(1) [of s "key_pid pid"] by (fastforce simp: directory_ops_def ds_download_def split: option.splits)
qed (auto simp: directory_ops_def ds_query_def Let_def)

interpretation dir: source_contract S "directory_ops S W" ds_ok for S W
  by (rule directory_contract)

definition vendored_ok :: "('u, ('u, 'r) directory_source) replaced_source \<Rightarrow> bool" where
  "vendored_ok s \<longleftrightarrow> ds_ok (rs_inner s) \<and> sid_key (ds_source_id (rs_inner s)) = sid_key (rs_replace_with s)"

interpretation vendored: source_contract S "replaced_ops U (directory_ops S W)" vendored_ok for S U W
  using dir.replaced_contract [where U = U] by (simp add: vendored_ok_def [abs_def] directory_ops_def)

text \<open>What reading a package for a source promises.\<close>

definition loads_for_source :: "('u, 'r) directory_world \<Rightarrow> bool" where
  "loads_for_source W \<longleftrightarrow>
     (\<forall>p sid x. root_package W p sid = Inr x \<longrightarrow> sid_key (pid_source (pkg_id x)) = sid_key sid)"

lemma ds_entry_ok:
  assumes "loads_for_source W" "ds_ok s" "ds_entry W e s = Inr s'"
  shows "ds_ok s' \<and> ds_source_id s' = ds_source_id s"
proof -
  have added: "ds_ok (add_package p c s) \<and> ds_source_id (add_package p c s) = ds_source_id s"
    if "sid_key (pid_source (pkg_id p)) = sid_key (ds_source_id s)" for p c
    using assms(2) that set_alist_update_subset
    by (fastforce simp: ds_ok_def add_package_def Let_def set_checksum_def split: option.splits)
  from assms(3) show ?thesis
    using assms(1,2) added by (auto simp: ds_entry_def Let_def loads_for_source_def split: if_splits)
qed

lemma ds_entries_ok:
  "loads_for_source W \<Longrightarrow> ds_ok s \<Longrightarrow> ds_entries W es s = (err, s') \<Longrightarrow> ds_ok s' \<and> ds_source_id s' = ds_source_id s"
  by (induction es arbitrary: s) (auto split: sum.splits dest: ds_entry_ok)

lemma ds_update_ok:
  assumes "loads_for_source W" "ds_update W s = (err, s')"
  shows "ds_ok s' \<and> ds_source_id s' = ds_source_id s"
proof -
  have "ds_ok (s\<lparr>ds_packages := []\<rparr>)" by (simp add: ds_ok_def)
  with assms show ?thesis
    by (auto simp: ds_update_def Let_def split: option.splits dest: ds_entries_ok)
qed

text \<open>C24: A vendored directory that was put in the place of a source answers, once it was read, in the name of
  that source: a query for a dependency on it answers exactly the packages of the directory with the
  wanted name and a version the requirement accepts, every answer carries the id of the
  replaced source and is accepted by the dependency, and every package that was answered can then be
  downloaded under the answered id.  The hypothesis is that a package read for a source belongs to it.\<close>

theorem vendored_source_answers:
  assumes world: "loads_for_source W"
    and src: "sid_key (ds_source_id (rs_inner s)) = sid_key (rs_replace_with s)"
    and read: "rs_update U (directory_ops S W) s = (err, s')"
    and dep: "sid_key (dep_source_id dep) = sid_key (rs_to_replace s)"
    and ask: "so_query (replaced_ops U (directory_ops S W)) False dep s' = ((found, e), s'')"
  shows "e = None \<and> s'' = s' \<and>
    set found = {sid_map_summary (rs_replace_with s) (rs_to_replace s) (pkg_summary p) | p k c.
        map_of (ds_packages (rs_inner s')) k = Some (p, c) \<and> pid_name (pkg_id p) = dep_name dep \<and>
        (only_match_name dep \<or> req_matches S (dep_req dep) (pid_version (pkg_id p)))} \<and>
    (\<forall>x\<in>set found. pid_source (package_id x) = rs_to_replace s \<and> accepts S dep (package_id x) \<and>
       (\<exists>p. so_download (replaced_ops U (directory_ops S W)) (package_id x) s' = (Inr (Ready p), s') \<and> pkg_summary p = x))"
proof -
  obtain inner err' where inner: "s' = s\<lparr>rs_inner := inner\<rparr>" "ds_update W (rs_inner s) = (err', inner)"
    using read by (auto simp: rs_update_def directory_ops_def split: prod.splits)
  then have ok: "ds_ok inner" "ds_source_id inner = ds_source_id (rs_inner s)"
    using ds_update_ok [OF world inner(2)] by blast+
  then have vok: "vendored_ok s'" using src inner(1) by (simp add: vendored_ok_def)
  let ?dep = "sid_map_dep (rs_to_replace s) (rs_replace_with s) dep"
  have dep': "?dep = set_source_id (rs_replace_with s) dep" using dep by (simp add: sid_map_dep_def)
  define pkgs where "pkgs = map (fst \<circ> snd) (ds_packages inner)"
  have answers: "found = map (sid_map_summary (rs_replace_with s) (rs_to_replace s) \<circ> pkg_summary)
      (filter (\<lambda>p. accepts S ?dep (pkg_id p)) pkgs)" "e = None" "s'' = s'"
    using ask inner(1) by (auto simp: replaced_ops_def replaced_query_def directory_ops_def ds_query_def Let_def pkgs_def)
  have entries: "p \<in> set pkgs \<longleftrightarrow>
      (\<exists>k c. map_of (ds_packages inner) k = Some (p, c))" for p
    using ok(1) unfolding pkgs_def by (force simp: ds_ok_def map_of_in_set_iff [symmetric] image_iff)
  have wanted: "accepts S ?dep (pkg_id p) \<longleftrightarrow> pid_name (pkg_id p) = dep_name dep \<and>
        (only_match_name dep \<or> req_matches S (dep_req dep) (pid_version (pkg_id p)))"
    if "map_of (ds_packages inner) k = Some (p, c)" for p k c
    using ds_okD(2) [OF ok(1) that] ok(2) src by (auto simp: accepts_iff dep' set_source_id_def)
  have set_found: "set found = {sid_map_summary (rs_replace_with s) (rs_to_replace s) (pkg_summary p) | p k c.
        map_of (ds_packages inner) k = Some (p, c) \<and> pid_name (pkg_id p) = dep_name dep \<and>
        (only_match_name dep \<or> req_matches S (dep_req dep) (pid_version (pkg_id p)))}"
  proof (rule set_eqI)
    fix y
    have "y \<in> set found \<longleftrightarrow> (\<exists>p k c. map_of (ds_packages inner) k = Some (p, c) \<and> accepts S ?dep (pkg_id p) \<and>
        y = sid_map_summary (rs_replace_with s) (rs_to_replace s) (pkg_summary p))"
      unfolding answers(1) set_map set_filter image_iff Bex_def mem_Collect_eq entries comp_def by blast
    with wanted show "y \<in> set found \<longleftrightarrow> y \<in> {sid_map_summary (rs_replace_with s) (rs_to_replace s) (pkg_summary p) | p k c.
        map_of (ds_packages inner) k = Some (p, c) \<and> pid_name (pkg_id p) = dep_name dep \<and>
        (only_match_name dep \<or> req_matches S (dep_req dep) (pid_version (pkg_id p)))}"
      unfolding mem_Collect_eq by blast
  qed
  have "pid_source (package_id x) = rs_to_replace s \<and> accepts S dep (package_id x) \<and>
      (\<exists>p. so_download (replaced_ops U (directory_ops S W)) (package_id x) s' = (Inr (Ready p), s') \<and> pkg_summary p = x)"
    if x: "x \<in> set found" for x
  proof (intro conjI)
    from x set_found obtain p k c where p: "map_of (ds_packages inner) k = Some (p, c)"
      "x = sid_map_summary (rs_replace_with s) (rs_to_replace s) (pkg_summary p)" by auto
    note own = ds_okD [OF ok(1) p(1)]
    have pid: "package_id x = with_source_id (rs_to_replace s) (pkg_id p)"
      using p(2) own(2) ok(2) src
      by (simp add: sid_map_summary_def Let_def map_dependencies_def override_id_def)
    then show "pid_source (package_id x) = rs_to_replace s" by (simp add: with_source_id_def)
    show "accepts S dep (package_id x)"
      by (rule vendored.query_matches [OF vok, where dep = dep and x = x and U = U and W = W]) (use dep x ask inner(1) in \<open>simp_all add: replaced_ops_def\<close>)
    have "key_pid (with_source_id (rs_replace_with s) (package_id x)) = k"
      using own ok(2) src by (simp add: pid key_pid_def with_source_id_def)
    with p show "\<exists>p. so_download (replaced_ops U (directory_ops S W)) (package_id x) s' = (Inr (Ready p), s') \<and> pkg_summary p = x"
      by (simp add: replaced_ops_def rs_download_def directory_ops_def ds_download_def inner(1) sid_map_package_def)
  qed
  with answers set_found inner(1) show ?thesis by simp
qed


section \<open>An example\<close>

definition vendor_id :: "string source_id" where
  "vendor_id = \<lparr>sid_url = ''/v'', canonical_url = ''/v'', kind = KDirectory, precise = None, sid_name = None\<rparr>"

definition vendor_world :: "(string, (bool \<times> version) option) directory_world" where
  "vendor_world =
     \<lparr>read_dir = (\<lambda>_. Some [Inr (path_of_str ''/v/a''), Inr (path_of_str ''/v/.git'')]),
      file_exists = (\<lambda>_. True),
      root_package = (\<lambda>p sid. Inr \<lparr>pkg_summary = \<lparr>package_id = with_source_id sid (pkg ''a'' (vers 1 0 0)), dependencies = [],
        features = [], checksum = None, links = None, namespaced_features = False\<rparr>,
        pkg_manifest_path = path_join p [NormalComp ''Cargo.toml'']\<rparr>),
      read_checksum = (\<lambda>_. Some \<lparr>ck_package = Some ''abc'', ck_files = []\<rparr>),
      file_sha256 = (\<lambda>_. None)\<rparr>"

definition vendor_source :: "(string, (string, (bool \<times> version) option) directory_source) replaced_source" where
  "vendor_source =
     \<lparr>rs_to_replace = git_id ''x'' ''x'', rs_replace_with = vendor_id,
      rs_inner = new_directory_source (path_of_str ''/v'') vendor_id\<rparr>"

theorem vendored_source_answers_witness:
  "\<exists>s' found. snd (rs_update plain_ops (directory_ops unary_semver vendor_world) vendor_source) = s' \<and>
     fst (fst (so_query (replaced_ops plain_ops (directory_ops unary_semver vendor_world)) False example_dep s')) = found \<and>
     found \<noteq> [] \<and> (\<forall>x\<in>set found. pid_source (package_id x) = git_id ''x'' ''x'')"
proof -
  let ?P = "directory_ops unary_semver vendor_world"
  obtain err s' where read: "rs_update plain_ops ?P vendor_source = (err, s')" by fastforce
  obtain found e s'' where ask: "so_query (replaced_ops plain_ops ?P) False example_dep s' = ((found, e), s'')"
    by (metis prod.exhaust)
  have loads: "loads_for_source vendor_world"
    by (simp add: loads_for_source_def vendor_world_def with_source_id_def)
  have src: "sid_key (ds_source_id (rs_inner vendor_source)) = sid_key (rs_replace_with vendor_source)"
    by (simp add: vendor_source_def new_directory_source_def)
  have dep: "sid_key (dep_source_id example_dep) = sid_key (rs_to_replace vendor_source)"
    by (simp add: vendor_source_def example_dep_def)
  note answers = vendored_source_answers [OF loads src read dep ask]
  have "fst (fst (so_query (replaced_ops plain_ops ?P) False example_dep (snd (rs_update plain_ops ?P vendor_source)))) \<noteq> []"
    by code_simp
  with read ask have "found \<noteq> []" by simp
  moreover have "\<forall>x\<in>set found. pid_source (package_id x) = git_id ''x'' ''x''"
    using answers by (simp add: vendor_source_def)
  ultimately show ?thesis using read ask by simp
qed

end
