(* ===== verification/Manifest_Targets.thy ===== *)
theory Manifest_Targets
  imports Paths Cargo_Features Resolve_Result
begin

text \<open>
  The targets of a package, \<open>Target\<close> of \<open>src/cargo/core/manifest.rs\<close>: the kinds of targets and of
  libraries, the constructors with their defaults, and the questions the rest of Cargo asks of a target.
\<close>

section \<open>Kinds\<close>

datatype lib_kind = KindLib | KindRlib | KindDylib | KindProcMacro | KindOther string

fun crate_type :: "lib_kind \<Rightarrow> string" where
  "crate_type KindLib = ''lib''"
| "crate_type KindRlib = ''rlib''"
| "crate_type KindDylib = ''dylib''"
| "crate_type KindProcMacro = ''proc-macro''"
| "crate_type (KindOther s) = s"

fun lib_kind_linkable :: "lib_kind \<Rightarrow> bool" where
  "lib_kind_linkable (KindOther _) = False"
| "lib_kind_linkable _ = True"

definition lib_kind_of_string :: "string \<Rightarrow> lib_kind" where
  "lib_kind_of_string s =
     (if s = ''lib'' then KindLib
      else if s = ''rlib'' then KindRlib
      else if s = ''dylib'' then KindDylib
      else if s = ''proc-macro'' then KindProcMacro
      else KindOther s)"

lemma crate_type_of_string [simp]: "crate_type (lib_kind_of_string s) = s"
  by (simp add: lib_kind_of_string_def)

datatype target_kind =
    TargetLib "lib_kind list" | TargetBin | TargetTest | TargetBench
  | TargetExampleLib "lib_kind list" | TargetExampleBin | TargetCustomBuild

fun target_kind_serialize :: "target_kind \<Rightarrow> string list" where
  "target_kind_serialize (TargetLib kinds) = map crate_type kinds"
| "target_kind_serialize TargetBin = [''bin'']"
| "target_kind_serialize TargetExampleBin = [''example'']"
| "target_kind_serialize (TargetExampleLib _) = [''example'']"
| "target_kind_serialize TargetTest = [''test'']"
| "target_kind_serialize TargetCustomBuild = [''custom-build'']"
| "target_kind_serialize TargetBench = [''bench'']"

section \<open>Targets\<close>

datatype target_source_path = SourcePath path | Metabuild

record target =
  tg_kind :: target_kind
  tg_name :: string
  tg_src_path :: target_source_path
  tg_required_features :: "string list option"
  tg_tested :: bool
  tg_benched :: bool
  tg_doc :: bool
  tg_doctest :: bool
  tg_harness :: bool
  tg_for_host :: bool
  tg_edition :: edition

definition new_target :: "target_source_path \<Rightarrow> edition \<Rightarrow> target" where
  "new_target p e =
     \<lparr>tg_kind = TargetBin, tg_name = '''', tg_src_path = p, tg_required_features = None, tg_tested = True,
      tg_benched = True, tg_doc = False, tg_doctest = False, tg_harness = True, tg_for_host = False, tg_edition = e\<rparr>"

text \<open>\<open>with_path\<close>; the conversion of the path asserts that it is absolute.\<close>

definition with_path :: "path \<Rightarrow> edition \<Rightarrow> target option" where
  "with_path p e = (if is_absolute p then Some (new_target (SourcePath p) e) else None)"

definition lib_target :: "string \<Rightarrow> lib_kind list \<Rightarrow> path \<Rightarrow> edition \<Rightarrow> target option" where
  "lib_target name kinds p e =
     map_option (\<lambda>t. t\<lparr>tg_kind := TargetLib kinds, tg_name := name, tg_doctest := True, tg_doc := True\<rparr>) (with_path p e)"

definition bin_target :: "string \<Rightarrow> path \<Rightarrow> string list option \<Rightarrow> edition \<Rightarrow> target option" where
  "bin_target name p rf e =
     map_option (\<lambda>t. t\<lparr>tg_kind := TargetBin, tg_name := name, tg_required_features := rf, tg_doc := True\<rparr>) (with_path p e)"

definition custom_build_target :: "string \<Rightarrow> path \<Rightarrow> edition \<Rightarrow> target option" where
  "custom_build_target name p e =
     map_option (\<lambda>t. t\<lparr>tg_kind := TargetCustomBuild, tg_name := name, tg_for_host := True, tg_benched := False,
       tg_tested := False\<rparr>) (with_path p e)"

definition metabuild_target :: "string \<Rightarrow> target" where
  "metabuild_target name =
     (new_target Metabuild Edition2015)\<lparr>tg_kind := TargetCustomBuild, tg_name := name, tg_for_host := True,
       tg_benched := False, tg_tested := False\<rparr>"

definition example_target ::
    "string \<Rightarrow> lib_kind list \<Rightarrow> path \<Rightarrow> string list option \<Rightarrow> edition \<Rightarrow> target option" where
  "example_target name kinds p rf e =
     map_option (\<lambda>t. t\<lparr>tg_kind := (if kinds = [] then TargetExampleBin else TargetExampleLib kinds), tg_name := name,
       tg_required_features := rf, tg_tested := False, tg_benched := False\<rparr>) (with_path p e)"

definition test_target :: "string \<Rightarrow> path \<Rightarrow> string list option \<Rightarrow> edition \<Rightarrow> target option" where
  "test_target name p rf e =
     map_option (\<lambda>t. t\<lparr>tg_kind := TargetTest, tg_name := name, tg_required_features := rf, tg_benched := False\<rparr>)
       (with_path p e)"

definition bench_target :: "string \<Rightarrow> path \<Rightarrow> string list option \<Rightarrow> edition \<Rightarrow> target option" where
  "bench_target name p rf e =
     map_option (\<lambda>t. t\<lparr>tg_kind := TargetBench, tg_name := name, tg_required_features := rf, tg_tested := False\<rparr>)
       (with_path p e)"

section \<open>Questions\<close>

definition target_crate_name :: "target \<Rightarrow> string" where
  "target_crate_name t = crate_name (tg_name t)"

definition is_lib :: "target \<Rightarrow> bool" where
  "is_lib t = (case tg_kind t of TargetLib _ \<Rightarrow> True | _ \<Rightarrow> False)"

definition is_dylib :: "target \<Rightarrow> bool" where
  "is_dylib t = (case tg_kind t of TargetLib libs \<Rightarrow> KindDylib \<in> set libs | _ \<Rightarrow> False)"

definition is_cdylib :: "target \<Rightarrow> bool" where
  "is_cdylib t = (case tg_kind t of TargetLib libs \<Rightarrow> KindOther ''cdylib'' \<in> set libs | _ \<Rightarrow> False)"

definition linkable :: "target \<Rightarrow> bool" where
  "linkable t = (case tg_kind t of TargetLib kinds \<Rightarrow> list_ex lib_kind_linkable kinds | _ \<Rightarrow> False)"

definition is_bin :: "target \<Rightarrow> bool" where
  "is_bin t \<longleftrightarrow> tg_kind t = TargetBin"

definition is_example :: "target \<Rightarrow> bool" where
  "is_example t = (case tg_kind t of TargetExampleBin \<Rightarrow> True | TargetExampleLib _ \<Rightarrow> True | _ \<Rightarrow> False)"

definition is_bin_example :: "target \<Rightarrow> bool" where
  "is_bin_example t \<longleftrightarrow> tg_kind t = TargetExampleBin"

definition is_test :: "target \<Rightarrow> bool" where
  "is_test t \<longleftrightarrow> tg_kind t = TargetTest"

definition is_bench :: "target \<Rightarrow> bool" where
  "is_bench t \<longleftrightarrow> tg_kind t = TargetBench"

definition is_custom_build :: "target \<Rightarrow> bool" where
  "is_custom_build t \<longleftrightarrow> tg_kind t = TargetCustomBuild"

definition doctestable :: "target \<Rightarrow> bool" where
  "doctestable t =
     (case tg_kind t of
        TargetLib kinds \<Rightarrow> list_ex (\<lambda>k. k = KindRlib \<or> k = KindLib \<or> k = KindProcMacro) kinds
      | _ \<Rightarrow> False)"

definition allows_underscores :: "target \<Rightarrow> bool" where
  "allows_underscores t \<longleftrightarrow> is_bin t \<or> is_example t \<or> is_custom_build t"

definition rustc_crate_types :: "target \<Rightarrow> string list" where
  "rustc_crate_types t =
     (case tg_kind t of
        TargetLib kinds \<Rightarrow> map crate_type kinds
      | TargetExampleLib kinds \<Rightarrow> map crate_type kinds
      | _ \<Rightarrow> [''bin''])"

definition can_lto :: "target \<Rightarrow> bool" where
  "can_lto t =
     (case tg_kind t of
        TargetLib v \<Rightarrow> KindRlib \<notin> set v \<and> KindDylib \<notin> set v \<and> KindLib \<notin> set v
      | _ \<Rightarrow> True)"

definition target_display :: "target \<Rightarrow> string" where
  "target_display t =
     (case tg_kind t of
        TargetLib _ \<Rightarrow> ''Target(lib)''
      | TargetBin \<Rightarrow> ''Target(bin: '' @ tg_name t @ '')''
      | TargetTest \<Rightarrow> ''Target(test: '' @ tg_name t @ '')''
      | TargetBench \<Rightarrow> ''Target(bench: '' @ tg_name t @ '')''
      | TargetExampleBin \<Rightarrow> ''Target(example: '' @ tg_name t @ '')''
      | TargetExampleLib _ \<Rightarrow> ''Target(example: '' @ tg_name t @ '')''
      | TargetCustomBuild \<Rightarrow> ''Target(script)'')"

text \<open>The kinds exclude each other.\<close>

lemmas target_kind_defs = is_lib_def is_bin_def is_example_def is_test_def is_bench_def is_custom_build_def linkable_def

lemma linkable_is_lib: "linkable t \<Longrightarrow> is_lib t"
  by (simp add: target_kind_defs split: target_kind.splits)

lemma is_lib_not:
  assumes "is_lib t"
  shows "\<not> is_bin t" "\<not> is_test t" "\<not> is_bench t" "\<not> is_example t" "\<not> is_custom_build t"
  using assms by (auto simp: target_kind_defs split: target_kind.splits)

text \<open>A target that \<open>rustdoc\<close> can test is a library.\<close>

lemma doctestable_is_lib: "doctestable t \<Longrightarrow> is_lib t"
  by (simp add: doctestable_def is_lib_def split: target_kind.splits)

end
