(* ===== verification/Profiles.thy ===== *)
theory Profiles
  imports Package_Id Lev_Distance Cargo_Features Config_Value "HOL-Library.Word"
begin

text \<open>
  Profiles, \<open>src/cargo/core/profiles.rs\<close>, with the part of \<open>src/cargo/util/toml/mod.rs\<close> that validates
  them: which settings a package is compiled with, from the defaults, the manifest and the
  configuration, and the checks that keep the choice from being ambiguous.  A failed assertion is \<open>None\<close>.
  Reading the tables is done by serde; a profile here is the table read.
\<close>

section \<open>Profiles in manifests and configuration\<close>

datatype string_or_bool = SString string | SBool bool

datatype u32_or_bool = U32 "32 word" | UBool bool

text \<open>\<open>visit_i64\<close> and \<open>visit_bool\<close>: an integer is cut to 32 bits.\<close>

fun u32_or_bool_of_toml :: "toml_value \<Rightarrow> u32_or_bool option" where
  "u32_or_bool_of_toml (TomlBoolean b) = Some (UBool b)"
| "u32_or_bool_of_toml (TomlInteger i) = Some (U32 (word_of_int i))"
| "u32_or_bool_of_toml _ = None"

datatype 'u profile_package_spec = ProfileSpec "'u package_id_spec" | ProfileAll

datatype 'u toml_profile = TomlProfile
  (tp_opt_level: "string option")
  (tp_lto: "string_or_bool option")
  (tp_codegen_units: "32 word option")
  (tp_debug: "u32_or_bool option")
  (tp_debug_assertions: "bool option")
  (tp_rpath: "bool option")
  (tp_panic: "string option")
  (tp_overflow_checks: "bool option")
  (tp_incremental: "bool option")
  (tp_overrides: "('u profile_package_spec \<times> 'u toml_profile) list option")
  (tp_build_override: "'u toml_profile option")

record 'u toml_profiles =
  tps_test :: "'u toml_profile option"
  tps_doc :: "'u toml_profile option"
  tps_bench :: "'u toml_profile option"
  tps_dev :: "'u toml_profile option"
  tps_release :: "'u toml_profile option"

datatype profile_error =
    FeatureMissing cargo_feature_error
  | NestedOverride
  | PanicInOverride
  | LtoInOverride
  | RpathInOverride
  | OverrideNotAllowed string
  | ConfigProfileInvalid string profile_error

datatype profile_warning = DocDeprecated | PanicIgnored string

definition validate_override :: "'u toml_profile \<Rightarrow> profile_error + unit" where
  "validate_override t =
     (if tp_overrides t \<noteq> None \<or> tp_build_override t \<noteq> None then Inl NestedOverride
      else if tp_panic t \<noteq> None then Inl PanicInOverride
      else if tp_lto t \<noteq> None then Inl LtoInOverride
      else if tp_rpath t \<noteq> None then Inl RpathInOverride
      else Inr ())"

definition require_overrides :: "channel_state \<Rightarrow> cargo_features \<Rightarrow> profile_error + unit" where
  "require_overrides w fs = map_err FeatureMissing (features_require w ''profile_overrides'' fs)"

definition validate_profile ::
    "channel_state \<Rightarrow> string \<Rightarrow> cargo_features \<Rightarrow> 'u toml_profile \<Rightarrow> profile_warning list \<Rightarrow>
     profile_error + profile_warning list" where
  "validate_profile w name fs t warnings =
     bindE (case tp_build_override t of
              None \<Rightarrow> Inr ()
            | Some b \<Rightarrow> bindE (require_overrides w fs) (\<lambda>_. validate_override b)) (\<lambda>_.
     bindE (case tp_overrides t of
              None \<Rightarrow> Inr ()
            | Some ov \<Rightarrow>
                bindE (require_overrides w fs) (\<lambda>_. foldE (\<lambda>p _. validate_override p) (map snd ov) ())) (\<lambda>_.
     if name \<noteq> ''dev'' \<and> name \<noteq> ''release'' \<and> (tp_overrides t \<noteq> None \<or> tp_build_override t \<noteq> None)
     then Inl (OverrideNotAllowed name)
     else if name = ''doc'' then Inr (warnings @ [DocDeprecated])
     else if (name = ''test'' \<or> name = ''bench'') \<and> tp_panic t \<noteq> None then Inr (warnings @ [PanicIgnored name])
     else Inr warnings))"

definition validate_opt ::
    "channel_state \<Rightarrow> string \<Rightarrow> cargo_features \<Rightarrow> 'u toml_profile option \<Rightarrow> profile_warning list \<Rightarrow>
     profile_error + profile_warning list" where
  "validate_opt w name fs t warnings =
     (case t of None \<Rightarrow> Inr warnings | Some t \<Rightarrow> validate_profile w name fs t warnings)"

definition validate_profiles ::
    "channel_state \<Rightarrow> cargo_features \<Rightarrow> 'u toml_profiles \<Rightarrow> profile_warning list \<Rightarrow>
     profile_error + profile_warning list" where
  "validate_profiles w fs ps warnings =
     bindE (validate_opt w ''test'' fs (tps_test ps) warnings) (\<lambda>warnings.
     bindE (validate_opt w ''doc'' fs (tps_doc ps) warnings) (\<lambda>warnings.
     bindE (validate_opt w ''bench'' fs (tps_bench ps) warnings) (\<lambda>warnings.
     bindE (validate_opt w ''dev'' fs (tps_dev ps) warnings) (\<lambda>warnings.
       validate_opt w ''release'' fs (tps_release ps) warnings))))"

section \<open>Settings of a unit\<close>

datatype lto = LtoBool bool | LtoNamed string

record profile =
  prof_name :: string
  opt_level :: string
  prof_lto :: lto
  codegen_units :: "32 word option"
  debuginfo :: "32 word option"
  debug_assertions :: bool
  overflow_checks :: bool
  rpath :: bool
  incremental :: bool
  panic_strategy :: "string option"

definition profile_default :: profile where
  "profile_default =
     \<lparr>prof_name = '''', opt_level = ''0'', prof_lto = LtoBool False, codegen_units = None, debuginfo = None,
      debug_assertions = False, overflow_checks = False, rpath = False, incremental = False, panic_strategy = None\<rparr>"

definition default_dev :: profile where
  "default_dev = profile_default\<lparr>prof_name := ''dev'', debuginfo := Some 2, debug_assertions := True,
     overflow_checks := True, incremental := True\<rparr>"

definition default_release :: profile where
  "default_release = profile_default\<lparr>prof_name := ''release'', opt_level := ''3''\<rparr>"

definition default_test :: profile where
  "default_test = default_dev\<lparr>prof_name := ''test''\<rparr>"

definition default_bench :: profile where
  "default_bench = default_release\<lparr>prof_name := ''bench''\<rparr>"

definition default_doc :: profile where
  "default_doc = default_dev\<lparr>prof_name := ''doc''\<rparr>"

text \<open>\<open>comparable\<close>, which \<open>==\<close> and \<open>Hash\<close> use: all fields but the name.\<close>

definition comparable ::
    "profile \<Rightarrow> string \<times> lto \<times> 32 word option \<times> 32 word option \<times> bool \<times> bool \<times> bool \<times> bool \<times> string option" where
  "comparable p =
     (opt_level p, prof_lto p, codegen_units p, debuginfo p, debug_assertions p, overflow_checks p, rpath p,
      incremental p, panic_strategy p)"

definition profile_eq :: "profile \<Rightarrow> profile \<Rightarrow> bool" where
  "profile_eq a b \<longleftrightarrow> comparable a = comparable b"

definition lto_of :: "string_or_bool \<Rightarrow> lto" where
  "lto_of v = (case v of SBool b \<Rightarrow> LtoBool b | SString n \<Rightarrow> LtoNamed n)"

definition debuginfo_of :: "u32_or_bool \<Rightarrow> 32 word option" where
  "debuginfo_of v = (case v of U32 d \<Rightarrow> Some d | UBool b \<Rightarrow> if b then Some 2 else None)"

definition set_if :: "'b option \<Rightarrow> ('b \<Rightarrow> 'p \<Rightarrow> 'p) \<Rightarrow> 'p \<Rightarrow> 'p" where
  "set_if v f p = (case v of None \<Rightarrow> p | Some x \<Rightarrow> f x p)"

definition merge_profile :: "profile \<Rightarrow> 'u toml_profile \<Rightarrow> profile" where
  "merge_profile p t =
     (let p = set_if (tp_opt_level t) (\<lambda>v p. p\<lparr>opt_level := v\<rparr>) p;
          p = set_if (tp_lto t) (\<lambda>v p. p\<lparr>prof_lto := lto_of v\<rparr>) p;
          p = set_if (tp_codegen_units t) (\<lambda>v p. p\<lparr>codegen_units := Some v\<rparr>) p;
          p = set_if (tp_debug t) (\<lambda>v p. p\<lparr>debuginfo := debuginfo_of v\<rparr>) p;
          p = set_if (tp_debug_assertions t) (\<lambda>v p. p\<lparr>debug_assertions := v\<rparr>) p;
          p = set_if (tp_rpath t) (\<lambda>v p. p\<lparr>rpath := v\<rparr>) p;
          p = set_if (tp_panic t) (\<lambda>v p. p\<lparr>panic_strategy := Some v\<rparr>) p;
          p = set_if (tp_overflow_checks t) (\<lambda>v p. p\<lparr>overflow_checks := v\<rparr>) p
      in set_if (tp_incremental t) (\<lambda>v p. p\<lparr>incremental := v\<rparr>) p)"

record unit_for =
  custom_build :: bool
  panic_ok :: bool

definition new_normal :: unit_for where "new_normal = \<lparr>custom_build = False, panic_ok = True\<rparr>"
definition new_build :: unit_for where "new_build = \<lparr>custom_build = True, panic_ok = False\<rparr>"
definition new_compiler :: unit_for where "new_compiler = \<lparr>custom_build = False, panic_ok = False\<rparr>"
definition new_test :: unit_for where "new_test = \<lparr>custom_build = False, panic_ok = False\<rparr>"

definition with_for_host :: "bool \<Rightarrow> unit_for \<Rightarrow> unit_for" where
  "with_for_host for_host u = u\<lparr>panic_ok := panic_ok u \<and> \<not> for_host\<rparr>"

definition all_unit_for :: "unit_for list" where
  "all_unit_for =
     [\<lparr>custom_build = False, panic_ok = True\<rparr>, \<lparr>custom_build = True, panic_ok = False\<rparr>,
      \<lparr>custom_build = False, panic_ok = False\<rparr>]"

definition spec_profiles ::
    "('u profile_package_spec \<times> 'u toml_profile) list \<Rightarrow> 'u source_id package_id \<Rightarrow> 'u toml_profile list" where
  "spec_profiles ov pid =
     List.map_filter (\<lambda>(key, t). case key of
         ProfileAll \<Rightarrow> None
       | ProfileSpec s \<Rightarrow> if spec_matches s pid then Some t else None) ov"

definition merge_toml ::
    "'u source_id package_id option \<Rightarrow> bool \<Rightarrow> unit_for \<Rightarrow> profile \<Rightarrow> 'u toml_profile \<Rightarrow> profile option" where
  "merge_toml pid is_member uf p t =
     (let p = merge_profile p t;
          p = (if custom_build uf then set_if (tp_build_override t) (\<lambda>b p. merge_profile p b) p else p)
      in case tp_overrides t of
           None \<Rightarrow> Some p
         | Some ov \<Rightarrow>
             let p = (if \<not> is_member then set_if (map_of ov ProfileAll) (\<lambda>a p. merge_profile p a) p else p)
             in case pid of
                  None \<Rightarrow> Some p
                | Some pid \<Rightarrow>
                    (case spec_profiles ov pid of
                       [] \<Rightarrow> Some p
                     | [t] \<Rightarrow> Some (merge_profile p t)
                     | _ \<Rightarrow> None))"

record 'u profile_maker =
  pm_default :: profile
  pm_toml :: "'u toml_profile option"
  pm_config :: "'u toml_profile option"

definition maker_get_profile ::
    "'u profile_maker \<Rightarrow> 'u source_id package_id option \<Rightarrow> bool \<Rightarrow> unit_for \<Rightarrow> profile option" where
  "maker_get_profile m pid is_member uf =
     Option.bind (case pm_toml m of None \<Rightarrow> Some (pm_default m) | Some t \<Rightarrow> merge_toml pid is_member uf (pm_default m) t)
       (\<lambda>p. case pm_config m of None \<Rightarrow> Some p | Some t \<Rightarrow> merge_toml pid is_member uf p t)"

record 'u profiles =
  prof_dev :: "'u profile_maker"
  prof_release :: "'u profile_maker"
  prof_test :: "'u profile_maker"
  prof_bench :: "'u profile_maker"
  prof_doc :: "'u profile_maker"

record 'u config_profiles =
  cp_dev :: "'u toml_profile option"
  cp_release :: "'u toml_profile option"

definition validate_config_profiles ::
    "channel_state \<Rightarrow> cargo_features \<Rightarrow> 'u config_profiles \<Rightarrow> profile_warning list \<Rightarrow>
     profile_error + profile_warning list" where
  "validate_config_profiles w fs cp warnings =
     bindE (map_err (ConfigProfileInvalid ''dev'') (validate_opt w ''dev'' fs (cp_dev cp) warnings)) (\<lambda>warnings.
       map_err (ConfigProfileInvalid ''release'') (validate_opt w ''release'' fs (cp_release cp) warnings))"

definition new_profiles ::
    "channel_state \<Rightarrow> cargo_features \<Rightarrow> 'u toml_profiles option \<Rightarrow> 'u config_profiles \<Rightarrow> profile_warning list \<Rightarrow>
     profile_error + 'u profiles \<times> profile_warning list" where
  "new_profiles w fs ps cp warnings =
     bindE (case ps of None \<Rightarrow> Inr warnings | Some ps \<Rightarrow> validate_profiles w fs ps warnings) (\<lambda>warnings.
     bindE (validate_config_profiles w fs cp warnings) (\<lambda>warnings.
       Inr (\<lparr>prof_dev = \<lparr>pm_default = default_dev, pm_toml = Option.bind ps tps_dev, pm_config = cp_dev cp\<rparr>,
             prof_release = \<lparr>pm_default = default_release, pm_toml = Option.bind ps tps_release, pm_config = cp_release cp\<rparr>,
             prof_test = \<lparr>pm_default = default_test, pm_toml = Option.bind ps tps_test, pm_config = None\<rparr>,
             prof_bench = \<lparr>pm_default = default_bench, pm_toml = Option.bind ps tps_bench, pm_config = None\<rparr>,
             prof_doc = \<lparr>pm_default = default_doc, pm_toml = Option.bind ps tps_doc, pm_config = None\<rparr>\<rparr>, warnings)))"

section \<open>Choice of the profile\<close>

datatype compile_mode = ModeTest | ModeBuild | ModeCheck bool | ModeBench | ModeDoc bool | ModeDoctest | ModeRunCustomBuild

fun is_any_test :: "compile_mode \<Rightarrow> bool" where
  "is_any_test ModeTest = True"
| "is_any_test ModeBench = True"
| "is_any_test (ModeCheck t) = t"
| "is_any_test ModeDoctest = True"
| "is_any_test _ = False"

definition maker_for :: "'u profiles \<Rightarrow> compile_mode \<Rightarrow> bool \<Rightarrow> 'u profile_maker" where
  "maker_for ps mode release =
     (case mode of
        ModeTest \<Rightarrow> if release then prof_bench ps else prof_test ps
      | ModeBench \<Rightarrow> prof_bench ps
      | ModeDoc _ \<Rightarrow> prof_doc ps
      | _ \<Rightarrow> if release then prof_release ps else prof_dev ps)"

definition get_profile ::
    "'u profiles \<Rightarrow> 'u source_id package_id \<Rightarrow> bool \<Rightarrow> unit_for \<Rightarrow> compile_mode \<Rightarrow> bool \<Rightarrow> profile option" where
  "get_profile ps pid is_member uf mode release =
     map_option (\<lambda>p. if \<not> panic_ok uf \<or> is_any_test mode then p\<lparr>panic_strategy := None\<rparr> else p)
       (maker_get_profile (maker_for ps mode release) (Some pid) is_member uf)"

definition get_profile_run_custom_build :: "profile \<Rightarrow> profile" where
  "get_profile_run_custom_build p = profile_default\<lparr>debuginfo := debuginfo p, opt_level := opt_level p\<rparr>"

definition base_profile :: "'u profiles \<Rightarrow> bool \<Rightarrow> profile option" where
  "base_profile ps release =
     maker_get_profile (if release then prof_release ps else prof_dev ps) None True new_normal"

section \<open>Checking the overrides against the packages\<close>

datatype 'u override_warning =
    DidYouMean "'u package_id_spec" string
  | NoSuchPackage "'u package_id_spec"
  | NoSuchVersion "'u package_id_spec" "'u source_id package_id list"

datatype 'u override_error = MultipleOverrides string "'u source_id package_id" "'u package_id_spec list"

definition specs_of :: "('u profile_package_spec \<times> 'u toml_profile) list \<Rightarrow> 'u package_id_spec list" where
  "specs_of ov = List.map_filter (\<lambda>(key, t). case key of ProfileAll \<Rightarrow> None | ProfileSpec s \<Rightarrow> Some s) ov"

definition check_package ::
    "string \<Rightarrow> 'u package_id_spec list \<Rightarrow> 'u source_id package_id \<Rightarrow> 'u package_id_spec set \<Rightarrow>
     'u override_error + 'u package_id_spec set" where
  "check_package name specs pid found =
     (case filter (\<lambda>s. spec_matches s pid) specs of
        [] \<Rightarrow> Inr found
      | [s] \<Rightarrow> Inr (insert s found)
      | ss \<Rightarrow> Inl (MultipleOverrides name pid ss))"

text \<open>\<open>min_by_key\<close>: the first of the nearest names.\<close>

fun nearest :: "(nat \<times> string) list \<Rightarrow> (nat \<times> string) option" where
  "nearest [] = None"
| "nearest (x # xs) = (case nearest xs of None \<Rightarrow> Some x | Some y \<Rightarrow> if fst y < fst x then Some y else Some x)"

definition name_distance :: "string \<Rightarrow> string \<Rightarrow> nat option" where
  "name_distance a b = lev_distance (map of_char a) (map of_char b)"

definition suggest_name :: "string \<Rightarrow> 'u source_id package_id list \<Rightarrow> string option option" where
  "suggest_name name ids =
     (let ds = map (\<lambda>p. map_option (\<lambda>d. (d, pid_name p)) (name_distance name (pid_name p))) ids
      in if None \<in> set ds then None
         else Some (map_option snd (nearest (filter (\<lambda>(d, _). d < 4) (map the ds)))))"

definition missing_warning :: "'u source_id package_id list \<Rightarrow> 'u package_id_spec \<Rightarrow> 'u override_warning option" where
  "missing_warning ids spec =
     (case filter (\<lambda>p. pid_name p = spec_name spec) ids of
        [] \<Rightarrow>
          map_option (\<lambda>s. case s of Some n \<Rightarrow> DidYouMean spec n | None \<Rightarrow> NoSuchPackage spec)
            (suggest_name (spec_name spec) ids)
      | ps \<Rightarrow> Some (NoSuchVersion spec ps))"

text \<open>The warnings in the order of the overrides; an outer \<open>None\<close> would be a panic of the edit distance.\<close>

fun missing_warnings :: "'u source_id package_id list \<Rightarrow> 'u package_id_spec list \<Rightarrow> 'u override_warning list option" where
  "missing_warnings ids [] = Some []"
| "missing_warnings ids (s # ss) =
     Option.bind (missing_warning ids s) (\<lambda>w. map_option ((#) w) (missing_warnings ids ss))"

definition validate_packages_toml ::
    "string \<Rightarrow> 'u source_id package_id list \<Rightarrow> 'u toml_profile option \<Rightarrow> bool \<Rightarrow>
     ('u override_error, 'u override_warning list) run" where
  "validate_packages_toml name ids t warn_unmatched =
     (case Option.bind t tp_overrides of
        None \<Rightarrow> Some (Inr [])
      | Some ov \<Rightarrow>
          bindR (Some (foldE (check_package name (specs_of ov)) ids {})) (\<lambda>found.
            if \<not> warn_unmatched then Some (Inr [])
            else map_option Inr (missing_warnings ids (filter (\<lambda>s. s \<notin> found) (specs_of ov)))))"

definition maker_validate_packages ::
    "'u source_id package_id list \<Rightarrow> 'u profile_maker \<Rightarrow> 'u override_warning list \<Rightarrow>
     ('u override_error, 'u override_warning list) run" where
  "maker_validate_packages ids m ws =
     bindR (validate_packages_toml (prof_name (pm_default m)) ids (pm_toml m) True) (\<lambda>a.
     bindR (validate_packages_toml (prof_name (pm_default m)) ids (pm_config m) False) (\<lambda>b.
       Some (Inr (ws @ a @ b))))"

definition validate_packages ::
    "'u profiles \<Rightarrow> 'u source_id package_id list \<Rightarrow> ('u override_error, 'u override_warning list) run" where
  "validate_packages ps ids =
     foldR (maker_validate_packages ids) [prof_dev ps, prof_release ps, prof_test ps, prof_bench ps, prof_doc ps] []"


section \<open>Precedence\<close>

text \<open>The first of a list of layers that sets a value, else the default; and all settings taken that way.\<close>

definition first_set :: "('t \<Rightarrow> 'a option) \<Rightarrow> 't list \<Rightarrow> 'a \<Rightarrow> 'a" where
  "first_set f ls d = (case List.map_filter f ls of [] \<Rightarrow> d | x # _ \<Rightarrow> x)"

lemma first_set_simps [simp]:
  "first_set f [] d = d"
  "first_set f (t # ls) d = (case f t of Some x \<Rightarrow> x | None \<Rightarrow> first_set f ls d)"
  by (simp_all add: first_set_def map_filter_simps split: option.splits)

definition overlay :: "'u toml_profile list \<Rightarrow> profile \<Rightarrow> profile" where
  "overlay ls d =
     \<lparr>prof_name = prof_name d,
      opt_level = first_set tp_opt_level ls (opt_level d),
      prof_lto = first_set (map_option lto_of \<circ> tp_lto) ls (prof_lto d),
      codegen_units = first_set (map_option Some \<circ> tp_codegen_units) ls (codegen_units d),
      debuginfo = first_set (map_option debuginfo_of \<circ> tp_debug) ls (debuginfo d),
      debug_assertions = first_set tp_debug_assertions ls (debug_assertions d),
      overflow_checks = first_set tp_overflow_checks ls (overflow_checks d),
      rpath = first_set tp_rpath ls (rpath d),
      incremental = first_set tp_incremental ls (incremental d),
      panic_strategy = first_set (map_option Some \<circ> tp_panic) ls (panic_strategy d)\<rparr>"

lemma set_if_simps [simp]: "set_if None f p = p" "set_if (Some v) f p = f v p"
  by (simp_all add: set_if_def)

lemma overlay_Nil [simp]: "overlay [] d = d"
  by (simp add: overlay_def)

lemma merge_profile_overlay: "merge_profile (overlay ls d) t = overlay (t # ls) d"
  by (cases "tp_opt_level t"; cases "tp_lto t"; cases "tp_codegen_units t"; cases "tp_debug t";
      cases "tp_debug_assertions t"; cases "tp_rpath t"; cases "tp_panic t"; cases "tp_overflow_checks t";
      cases "tp_incremental t"; simp add: merge_profile_def overlay_def)

text \<open>The layers of one file, the strongest first.\<close>

definition toml_layers ::
    "'u source_id package_id option \<Rightarrow> bool \<Rightarrow> unit_for \<Rightarrow> 'u toml_profile \<Rightarrow> 'u toml_profile list" where
  "toml_layers pid is_member uf t =
     (case tp_overrides t of
        None \<Rightarrow> []
      | Some ov \<Rightarrow>
          (case pid of None \<Rightarrow> [] | Some pid \<Rightarrow> spec_profiles ov pid) @
          (if is_member then [] else (case map_of ov ProfileAll of None \<Rightarrow> [] | Some a \<Rightarrow> [a]))) @
     (if custom_build uf then (case tp_build_override t of None \<Rightarrow> [] | Some b \<Rightarrow> [b]) else []) @ [t]"

definition unambiguous :: "'u toml_profile \<Rightarrow> 'u source_id package_id \<Rightarrow> bool" where
  "unambiguous t pid \<longleftrightarrow> (case tp_overrides t of None \<Rightarrow> True | Some ov \<Rightarrow> length (spec_profiles ov pid) \<le> 1)"

lemma merge_toml_layers:
  "merge_toml (Some pid) is_member uf (overlay ls d) t =
     (if unambiguous t pid then Some (overlay (toml_layers (Some pid) is_member uf t @ ls) d) else None)"
proof -
  have b: "(if custom_build uf then set_if (tp_build_override t) (\<lambda>b p. merge_profile p b) (overlay (t # ls) d)
        else overlay (t # ls) d) =
      overlay ((if custom_build uf then (case tp_build_override t of None \<Rightarrow> [] | Some b \<Rightarrow> [b]) else []) @ t # ls) d"
    by (simp add: merge_profile_overlay split: option.splits)
  have a: "(if \<not> is_member then set_if (map_of ov ProfileAll) (\<lambda>a p. merge_profile p a) (overlay ks d) else overlay ks d) =
      overlay ((if is_member then [] else (case map_of ov ProfileAll of None \<Rightarrow> [] | Some a \<Rightarrow> [a])) @ ks) d" for ov ks
    by (simp add: merge_profile_overlay split: option.splits)
  show ?thesis
    unfolding merge_toml_def Let_def merge_profile_overlay b a toml_layers_def unambiguous_def
    by (auto simp: merge_profile_overlay split: option.splits list.splits)
qed

definition opt_layers ::
    "'u source_id package_id option \<Rightarrow> bool \<Rightarrow> unit_for \<Rightarrow> 'u toml_profile option \<Rightarrow> 'u toml_profile list" where
  "opt_layers pid is_member uf t = (case t of None \<Rightarrow> [] | Some t \<Rightarrow> toml_layers pid is_member uf t)"

definition opt_unambiguous :: "'u toml_profile option \<Rightarrow> 'u source_id package_id \<Rightarrow> bool" where
  "opt_unambiguous t pid \<longleftrightarrow> (case t of None \<Rightarrow> True | Some t \<Rightarrow> unambiguous t pid)"

lemma maker_get_profile_layers:
  "maker_get_profile m (Some pid) is_member uf =
     (if opt_unambiguous (pm_toml m) pid \<and> opt_unambiguous (pm_config m) pid
      then Some (overlay (opt_layers (Some pid) is_member uf (pm_config m) @
                          opt_layers (Some pid) is_member uf (pm_toml m)) (pm_default m))
      else None)"
  using merge_toml_layers [of pid is_member uf "[]" "pm_default m"]
  by (auto simp: maker_get_profile_def opt_unambiguous_def opt_layers_def merge_toml_layers split: option.splits)

section \<open>Validated profiles\<close>

lemma map_filter_length:
  "length (spec_profiles ov pid) = length (filter (\<lambda>s. spec_matches s pid) (specs_of ov))"
  by (induction ov) (auto simp: spec_profiles_def specs_of_def map_filter_simps split: profile_package_spec.splits)

lemma check_packages_unambiguous:
  "foldE (check_package name specs) ids found = Inr found' \<Longrightarrow> pid \<in> set ids \<Longrightarrow>
   length (filter (\<lambda>s. spec_matches s pid) specs) \<le> 1"
  by (induction ids arbitrary: found) (auto simp: check_package_def split: list.splits)

lemma validated_unambiguous:
  assumes "validate_packages_toml name ids t w = Some (Inr ws)" "pid \<in> set ids"
  shows "opt_unambiguous t pid"
  using assms check_packages_unambiguous
  by (auto simp: validate_packages_toml_def opt_unambiguous_def unambiguous_def map_filter_length
      split: option.splits Option.bind_splits)

lemma validated_makers:
  assumes "foldR (maker_validate_packages ids) ms ws0 = Some (Inr ws)" "m \<in> set ms" "pid \<in> set ids"
  shows "opt_unambiguous (pm_toml m) pid \<and> opt_unambiguous (pm_config m) pid"
  using assms
  by (induction ms arbitrary: ws0) (auto simp: maker_validate_packages_def dest: validated_unambiguous)

text \<open>C25: Where the overrides were checked against the packages, every package of the build gets a profile without
  failing an assertion, and the profile is the documented one: each setting is the first given by
  the configuration and then the manifest, in each of them by the override of the package, the override of all
  packages outside the workspace, the override for build scripts and the profile itself, else the default; and the
  panic strategy is never set for tests, or where the unit may not set it.\<close>

theorem profile_precedence:
  assumes "validate_packages ps ids = Some (Inr ws)" "pid \<in> set ids"
  shows "\<exists>p. get_profile ps pid is_member uf mode release = Some p \<and>
    (let m = maker_for ps mode release;
         full = overlay (opt_layers (Some pid) is_member uf (pm_config m) @ opt_layers (Some pid) is_member uf (pm_toml m)) (pm_default m)
     in p = (if \<not> panic_ok uf \<or> is_any_test mode then full\<lparr>panic_strategy := None\<rparr> else full))"
proof -
  have "maker_for ps mode release \<in> set [prof_dev ps, prof_release ps, prof_test ps, prof_bench ps, prof_doc ps]"
    by (cases mode) (auto simp: maker_for_def)
  with assms have "opt_unambiguous (pm_toml (maker_for ps mode release)) pid \<and>
      opt_unambiguous (pm_config (maker_for ps mode release)) pid"
    unfolding validate_packages_def using validated_makers by blast
  then show ?thesis by (simp add: get_profile_def maker_get_profile_layers Let_def)
qed


text \<open>What validation makes sure of: the overrides leave out what must be the same everywhere.\<close>

definition overrides_valid :: "'u toml_profile \<Rightarrow> bool" where
  "overrides_valid t \<longleftrightarrow>
     (\<forall>b. tp_build_override t = Some b \<longrightarrow> validate_override b = Inr ()) \<and>
     (\<forall>ov k u. tp_overrides t = Some ov \<and> (k, u) \<in> set ov \<longrightarrow> validate_override u = Inr ())"

lemma foldE_all: "foldE (\<lambda>p _. f p) xs () = Inr u \<Longrightarrow> x \<in> set xs \<Longrightarrow> f x = Inr ()"
  by (induction xs) auto

lemma validate_profile_valid:
  assumes "validate_profile w name fs t ws = Inr ws'"
  shows "overrides_valid t"
  unfolding overrides_valid_def
proof (intro conjI allI impI)
  fix b
  assume "tp_build_override t = Some b"
  with assms show "validate_override b = Inr ()" by (simp add: validate_profile_def)
next
  fix ov k u
  assume "tp_overrides t = Some ov \<and> (k, u) \<in> set ov"
  moreover from this have "u \<in> set (map snd ov)" by force
  ultimately show "validate_override u = Inr ()"
    using assms foldE_all [of validate_override "map snd ov"] by (auto simp: validate_profile_def)
qed

lemma validate_opt_valid: "validate_opt w name fs t ws = Inr ws' \<Longrightarrow> t = Some x \<Longrightarrow> overrides_valid x"
  by (auto simp: validate_opt_def dest: validate_profile_valid)

lemma toml_layers_overrides:
  assumes "overrides_valid t"
  obtains xs where "toml_layers pid is_member uf t = xs @ [t]" "\<forall>x\<in>set xs. validate_override x = Inr ()"
proof -
  have spec: "x \<in> set (spec_profiles ov p) \<Longrightarrow> \<exists>k. (k, x) \<in> set ov" for x ov p
    by (auto simp: spec_profiles_def List.map_filter_def split: profile_package_spec.splits if_splits)
  define over where "over = (case tp_overrides t of
        None \<Rightarrow> []
      | Some ov \<Rightarrow>
          (case pid of None \<Rightarrow> [] | Some pid \<Rightarrow> spec_profiles ov pid) @
          (if is_member then [] else (case map_of ov ProfileAll of None \<Rightarrow> [] | Some a \<Rightarrow> [a])))"
  define build where "build = (if custom_build uf then (case tp_build_override t of None \<Rightarrow> [] | Some b \<Rightarrow> [b]) else [])"
  have "\<forall>x\<in>set over. validate_override x = Inr ()"
  proof (cases "tp_overrides t")
    case None
    then show ?thesis by (simp add: over_def)
  next
    case (Some ov)
    with assms have ok: "(k, u) \<in> set ov \<Longrightarrow> validate_override u = Inr ()" for k u
      by (simp add: overrides_valid_def)
    have "validate_override x = Inr ()" if "pid = Some p" "x \<in> set (spec_profiles ov p)" for x p
      using spec [OF that(2)] ok by blast
    moreover have "validate_override x = Inr ()" if "map_of ov ProfileAll = Some x" for x
      using map_of_SomeD [OF that] ok by blast
    ultimately show ?thesis using Some
      by (cases pid; cases "map_of ov ProfileAll") (auto simp: over_def)
  qed
  moreover have "\<forall>x\<in>set build. validate_override x = Inr ()"
  proof
    fix x
    assume "x \<in> set build"
    then have "tp_build_override t = Some x" unfolding build_def by (cases "custom_build uf"; cases "tp_build_override t") simp_all
    with assms show "validate_override x = Inr ()" unfolding overrides_valid_def by blast
  qed
  moreover have "toml_layers pid is_member uf t = (over @ build) @ [t]"
    by (simp add: toml_layers_def over_def build_def)
  ultimately show thesis using that [of "over @ build"] by auto
qed

lemma first_set_skip: "\<forall>x\<in>set xs. f x = None \<Longrightarrow> first_set f (xs @ ys) d = first_set f ys d"
  by (induction xs) auto

lemma first_set_layers:
  assumes "\<And>x. t = Some x \<Longrightarrow> overrides_valid x"
    and "\<And>x. validate_override x = Inr () \<Longrightarrow> f x = None"
  shows "first_set f (opt_layers pid is_member uf t @ ls) d =
    first_set f ((case t of None \<Rightarrow> [] | Some x \<Rightarrow> [x]) @ ls) d"
proof (cases t)
  case None
  then show ?thesis by (simp add: opt_layers_def)
next
  case (Some x)
  obtain xs where "toml_layers pid is_member uf x = xs @ [x]" "\<forall>y\<in>set xs. validate_override y = Inr ()"
    using assms(1) [OF Some] by (rule toml_layers_overrides)
  with Some assms(2) first_set_skip [of xs f "[x] @ ls" d] show ?thesis by (simp add: opt_layers_def)
qed

lemma validate_override_unset:
  "validate_override x = Inr () \<Longrightarrow> tp_lto x = None"
  "validate_override x = Inr () \<Longrightarrow> tp_rpath x = None"
  "validate_override x = Inr () \<Longrightarrow> tp_panic x = None"
  by (auto simp: validate_override_def split: if_splits)

lemma new_profiles_valid:
  assumes "new_profiles w fs tps cps ws = Inr (ps, ws')"
  shows "pm_toml (maker_for ps mode release) = Some x \<Longrightarrow> overrides_valid x"
    and "pm_config (maker_for ps mode release) = Some x \<Longrightarrow> overrides_valid x"
  using assms
  by (auto simp: new_profiles_def validate_profiles_def validate_config_profiles_def maker_for_def
      split: option.splits compile_mode.splits if_splits dest: validate_opt_valid)

text \<open>Profiles that were accepted give all units that are built the same way the same setting of \<open>lto\<close> and \<open>rpath\<close>,
  whatever their package, and the same panic strategy where they may have one, however the profiles
  are overridden: an override cannot set them.\<close>

theorem profile_uniform_settings:
  assumes "new_profiles w fs tps cps ws = Inr (ps, ws')"
    and "get_profile ps pid1 m1 uf1 mode release = Some p" "get_profile ps pid2 m2 uf2 mode release = Some q"
  shows "prof_lto p = prof_lto q \<and> rpath p = rpath q \<and>
    (panic_strategy p = None \<or> panic_strategy q = None \<or> panic_strategy p = panic_strategy q)"
proof -
  define m where "m = maker_for ps mode release"
  note valid = new_profiles_valid [OF assms(1), of mode release, folded m_def]
  note skip = first_set_layers [OF valid(1)] first_set_layers [OF valid(2)]
  have same: "first_set f (opt_layers pid k uf (pm_config m) @ opt_layers pid k uf (pm_toml m)) d =
      first_set f ((case pm_config m of None \<Rightarrow> [] | Some x \<Rightarrow> [x]) @ (case pm_toml m of None \<Rightarrow> [] | Some x \<Rightarrow> [x])) d"
    if "\<And>x. validate_override x = Inr () \<Longrightarrow> f x = None" for pid k uf d and f :: "'a toml_profile \<Rightarrow> 'b option"
  proof -
    have "first_set f (opt_layers pid k uf (pm_config m) @ opt_layers pid k uf (pm_toml m)) d =
        first_set f ((case pm_config m of None \<Rightarrow> [] | Some x \<Rightarrow> [x]) @ opt_layers pid k uf (pm_toml m)) d"
      by (rule first_set_layers [OF valid(2) that])
    also have "\<dots> = first_set f ((case pm_config m of None \<Rightarrow> [] | Some x \<Rightarrow> [x]) @ (case pm_toml m of None \<Rightarrow> [] | Some x \<Rightarrow> [x])) d"
      using first_set_layers [where t = "pm_toml m" and ls = "[]" and f = f, OF valid(1) that]
      by (auto split: option.splits)
    finally show ?thesis .
  qed
  show ?thesis
    using assms(2,3)
    by (auto simp: get_profile_def m_def [symmetric] maker_get_profile_layers overlay_def same validate_override_unset
        split: if_splits)
qed


text \<open>The purposes a unit can have are the listed ones.\<close>

lemma unit_for_listed:
  "set [new_normal, new_build, new_compiler, new_test] \<subseteq> set all_unit_for"
  "u \<in> set all_unit_for \<Longrightarrow> with_for_host h u \<in> set all_unit_for"
  by (auto simp: all_unit_for_def new_normal_def new_build_def new_compiler_def new_test_def with_for_host_def)

text \<open>A number for \<open>debug\<close> is cut to 32 bits.\<close>

lemma debug_wraps: "u32_or_bool_of_toml (TomlInteger (2 ^ 32 + k)) = u32_or_bool_of_toml (TomlInteger k)"
  by simp

section \<open>An example\<close>

abbreviation plain_profile :: "string option \<Rightarrow> (string profile_package_spec \<times> string toml_profile) list option \<Rightarrow> string toml_profile" where
  "plain_profile opt ov \<equiv> TomlProfile opt (Some (SBool True)) None None None None (Some ''abort'') None None ov None"

definition demo_override :: "string toml_profile" where
  "demo_override = TomlProfile (Some ''2'') None None None None None None None None None None"

definition demo_toml_profiles :: "string toml_profiles" where
  "demo_toml_profiles =
     \<lparr>tps_test = None, tps_doc = None, tps_bench = None,
      tps_dev = Some (plain_profile (Some ''1'')
        (Some [(ProfileSpec \<lparr>spec_name = ''a'', spec_version = None, spec_url = None\<rparr>, demo_override)])),
      tps_release = None\<rparr>"

definition demo_features :: cargo_features where
  "demo_features = \<lparr>slots = [''profile_overrides''], activated = [''profile-overrides'']\<rparr>"

definition demo_channel :: channel_state where
  "demo_channel = \<lparr>override_channel = None, rustc_bootstrap = None, release_channel = Some ''nightly'',
    nightly_allowed_cell = True, enable_nightly_cell = False\<rparr>"

definition demo_profiles :: "string profiles" where
  "demo_profiles =
     (case new_profiles demo_channel demo_features (Some demo_toml_profiles) \<lparr>cp_dev = None, cp_release = None\<rparr> [] of
        Inr (ps, _) \<Rightarrow> ps)"

lemma demo_profiles_new:
  "new_profiles demo_channel demo_features (Some demo_toml_profiles) \<lparr>cp_dev = None, cp_release = None\<rparr> [] = Inr (demo_profiles, [])"
  unfolding demo_profiles_def
  by (simp add: new_profiles_def demo_toml_profiles_def validate_profiles_def validate_opt_def validate_profile_def
      validate_config_profiles_def require_overrides_def features_require_def feature_enabled_def demo_features_def
      validate_override_def demo_override_def)

theorem profile_precedence_witness:
  "validate_packages demo_profiles [pkg ''a'' (vers 1 0 0), pkg ''b'' (vers 1 0 0)] = Some (Inr []) \<and>
   (\<exists>p. get_profile demo_profiles (pkg ''a'' (vers 1 0 0)) True new_normal ModeBuild False = Some p)"
proof -
  have "case validate_packages demo_profiles [pkg ''a'' (vers 1 0 0), pkg ''b'' (vers 1 0 0)] of
      Some (Inr []) \<Rightarrow> True | _ \<Rightarrow> False"
    by code_simp
  then have v: "validate_packages demo_profiles [pkg ''a'' (vers 1 0 0), pkg ''b'' (vers 1 0 0)] = Some (Inr [])"
    by (auto split: option.splits sum.splits list.splits)
  from profile_precedence [OF v, of "pkg ''a'' (vers 1 0 0)" True new_normal ModeBuild False] v
  show ?thesis by auto
qed

theorem profile_uniform_settings_witness:
  "\<exists>p q. get_profile demo_profiles (pkg ''a'' (vers 1 0 0)) True new_normal ModeBuild False = Some p \<and>
     get_profile demo_profiles (pkg ''b'' (vers 1 0 0)) True new_normal ModeBuild False = Some q \<and>
     opt_level p = ''2'' \<and> opt_level q = ''1'' \<and> prof_lto p = prof_lto q"
proof -
  have "map_option opt_level (get_profile demo_profiles (pkg ''a'' (vers 1 0 0)) True new_normal ModeBuild False) = Some ''2''"
    "map_option opt_level (get_profile demo_profiles (pkg ''b'' (vers 1 0 0)) True new_normal ModeBuild False) = Some ''1''"
    by code_simp+
  then obtain p q where
    pq: "get_profile demo_profiles (pkg ''a'' (vers 1 0 0)) True new_normal ModeBuild False = Some p" "opt_level p = ''2''"
    "get_profile demo_profiles (pkg ''b'' (vers 1 0 0)) True new_normal ModeBuild False = Some q" "opt_level q = ''1''"
    by auto
  from profile_uniform_settings [OF demo_profiles_new pq(1,3)] pq show ?thesis by blast
qed

end
