(* ===== verification/Toml_Targets.thy ===== *)
theory Toml_Targets
  imports Manifest_Targets Profiles
begin

text \<open>
  The targets of a package, \<open>src/cargo/util/toml/targets.rs\<close>: what the manifest says of the library, the
  binaries, examples, tests, benchmarks and the build script, and what the layout of the directory adds to it.
  The file system is an argument.  The warnings and the problems that are collected are lists of values.
\<close>

section \<open>The file system and the manifest\<close>

text \<open>What \<open>read_dir\<close> gives for an entry: its name, unless it is not Unicode, and whether it is a directory.\<close>

record dir_entry =
  de_name :: "string option"
  de_is_dir :: bool

record fs_ops =
  fs_exists :: "path \<Rightarrow> bool"
  fs_is_file :: "path \<Rightarrow> bool"
  fs_read_dir :: "path \<Rightarrow> dir_entry list option"

record toml_target =
  tt_name :: "string option"
  tt_crate_type :: "string list option"
  tt_crate_type2 :: "string list option"
  tt_path :: "path option"
  tt_test :: "bool option"
  tt_doctest :: "bool option"
  tt_bench :: "bool option"
  tt_doc :: "bool option"
  tt_plugin :: "bool option"
  tt_proc_macro :: "bool option"
  tt_proc_macro2 :: "bool option"
  tt_harness :: "bool option"
  tt_required_features :: "string list option"
  tt_edition :: "string option"

definition new_toml_target :: toml_target where
  "new_toml_target =
     \<lparr>tt_name = None, tt_crate_type = None, tt_crate_type2 = None, tt_path = None, tt_test = None, tt_doctest = None,
      tt_bench = None, tt_doc = None, tt_plugin = None, tt_proc_macro = None, tt_proc_macro2 = None, tt_harness = None,
      tt_required_features = None, tt_edition = None\<rparr>"

text \<open>\<open>or\<close> of \<open>Option\<close>, and the accessors; \<open>name\<close> panics on a target without one.\<close>

definition opt_or :: "'a option \<Rightarrow> 'a option \<Rightarrow> 'a option" where
  "opt_or a b = (case a of Some x \<Rightarrow> Some x | None \<Rightarrow> b)"

definition toml_proc_macro :: "toml_target \<Rightarrow> bool option" where
  "toml_proc_macro t = opt_or (tt_proc_macro t) (tt_proc_macro2 t)"

definition toml_crate_types :: "toml_target \<Rightarrow> string list option" where
  "toml_crate_types t = opt_or (tt_crate_type t) (tt_crate_type2 t)"

datatype target_error =
    HyphenInLibName string
  | EmptyTargetName string
  | TargetNameRequired string string
  | NoLibraryFile string
  | PluginAndProcMacro
  | ForbiddenBinName string
  | DuplicateTargetName string string
  | CantFindTarget string string
  | BinCrateTypes string "string list"
  | BinProcMacro string
  | MetabuildAndBuild
  | MetabuildNotBuildDep string
  | NoPackageSection
  | BadTargetEdition cargo_feature_error

datatype target_warning =
    LegacyLibPath path string
  | LegacyBinPath path string
  | LegacyBenchPath path string
  | NotDiscovered string "path list"

section \<open>Inference from the directory\<close>

abbreviation child :: "path \<Rightarrow> string \<Rightarrow> path" where
  "child p n \<equiv> path_join p (path_of_str n)"

text \<open>\<open>file_stem\<close> and \<open>extension\<close> of a file name: a dot in front does not start an extension.\<close>

definition split_at_dot :: "string \<Rightarrow> string \<times> string option" where
  "split_at_dot n =
     (if n = ''..'' \<or> CHR ''.'' \<notin> set n then (n, None)
      else let after = rev (takeWhile (\<lambda>c. c \<noteq> CHR ''.'') (rev n));
               before = rev (tl (dropWhile (\<lambda>c. c \<noteq> CHR ''.'') (rev n)))
           in if before = [] then (n, None) else (before, Some after))"

definition is_not_dotfile :: "dir_entry \<Rightarrow> bool" where
  "is_not_dotfile e = (case de_name e of Some n \<Rightarrow> \<not> starts_with ''.'' n | None \<Rightarrow> False)"

definition infer_file :: "path \<Rightarrow> string \<Rightarrow> string \<times> path" where
  "infer_file dir n = (fst (split_at_dot n), dir @ [NormalComp n])"

definition infer_subdirectory :: "fs_ops \<Rightarrow> path \<Rightarrow> string \<Rightarrow> (string \<times> path) option" where
  "infer_subdirectory F dir n =
     (let main = dir @ [NormalComp n, NormalComp ''main.rs'']
      in if fs_exists F main then Some (n, main) else None)"

definition infer_any :: "fs_ops \<Rightarrow> path \<Rightarrow> dir_entry \<Rightarrow> (string \<times> path) option" where
  "infer_any F dir e =
     (case de_name e of
        None \<Rightarrow> None
      | Some n \<Rightarrow>
          if snd (split_at_dot n) = Some ''rs'' then Some (infer_file dir n)
          else if de_is_dir e then infer_subdirectory F dir n
          else None)"

definition infer_from_directory :: "fs_ops \<Rightarrow> path \<Rightarrow> (string \<times> path) list" where
  "infer_from_directory F dir =
     (case fs_read_dir F dir of
        None \<Rightarrow> []
      | Some es \<Rightarrow> List.map_filter (infer_any F dir) (filter is_not_dotfile es))"

definition inferred_lib :: "fs_ops \<Rightarrow> path \<Rightarrow> path option" where
  "inferred_lib F root =
     (let lib = child (child root ''src'') ''lib.rs'' in if fs_exists F lib then Some lib else None)"

definition inferred_bins :: "fs_ops \<Rightarrow> path \<Rightarrow> string \<Rightarrow> (string \<times> path) list" where
  "inferred_bins F root package_name =
     (let main = child (child root ''src'') ''main.rs''
      in (if fs_exists F main then [(package_name, main)] else []) @
         infer_from_directory F (child (child root ''src'') ''bin''))"

definition inferred_to_toml_targets :: "(string \<times> path) list \<Rightarrow> toml_target list" where
  "inferred_to_toml_targets = map (\<lambda>(n, p). new_toml_target\<lparr>tt_name := Some n, tt_path := Some p\<rparr>)"

section \<open>Explicit and inferred targets together\<close>

definition unlisted :: "path \<Rightarrow> toml_target list \<Rightarrow> toml_target list \<Rightarrow> toml_target list" where
  "unlisted root ts inferred =
     (let full = (\<lambda>t. map_option (path_join root) (tt_path t));
          seen_names = set (map tt_name ts); seen_paths = set (map full ts)
      in filter (\<lambda>t. tt_name t \<notin> seen_names \<and> full t \<notin> seen_paths) inferred)"

definition toml_targets_and_inferred ::
    "toml_target list option \<Rightarrow> (string \<times> path) list \<Rightarrow> path \<Rightarrow> bool option \<Rightarrow> edition \<Rightarrow> string \<Rightarrow>
     toml_target list \<times> target_warning list" where
  "toml_targets_and_inferred toml_targets inferred root autodiscover e target_kind =
     (let inferred_targets = inferred_to_toml_targets inferred
      in case toml_targets of
           None \<Rightarrow> (inferred_targets, [])
         | Some ts \<Rightarrow>
             let rem = unlisted root ts inferred_targets;
                 (auto, warnings) =
                   (case autodiscover of
                      Some b \<Rightarrow> (b, [])
                    | None \<Rightarrow>
                        (case e of
                           Edition2018 \<Rightarrow> (True, [])
                         | Edition2015 \<Rightarrow>
                             (False, if rem \<noteq> [] then [NotDiscovered target_kind (List.map_filter tt_path rem)] else [])))
             in (if auto then ts @ rem else ts, warnings))"

definition is_blank :: "string \<Rightarrow> bool" where
  "is_blank s \<longleftrightarrow> list_all (\<lambda>c. c = CHR '' '' \<or> (9 \<le> (of_char c :: nat) \<and> (of_char c :: nat) \<le> 13)) s"

definition validate_has_name :: "string \<Rightarrow> string \<Rightarrow> toml_target \<Rightarrow> target_error + unit" where
  "validate_has_name human what t =
     (case tt_name t of
        Some n \<Rightarrow> if is_blank n then Inl (EmptyTargetName human) else Inr ()
      | None \<Rightarrow> Inl (TargetNameRequired human what))"

text \<open>The loop of \<open>validate_unique_names\<close>, with the set of the names seen.\<close>

fun unique_names :: "string \<Rightarrow> toml_target list \<Rightarrow> string set \<Rightarrow> (target_error, unit) run" where
  "unique_names what [] taken = Some (Inr ())"
| "unique_names what (t # ts) taken =
     bindR (unwrap (tt_name t)) (\<lambda>n.
       if n \<in> taken then Some (Inl (DuplicateTargetName what n)) else unique_names what ts (insert n taken))"

definition validate_unique_names :: "string \<Rightarrow> toml_target list \<Rightarrow> (target_error, unit) run" where
  "validate_unique_names what ts = unique_names what ts {}"

definition configured_flags :: "toml_target \<Rightarrow> target \<Rightarrow> target" where
  "configured_flags toml t =
     t\<lparr>tg_tested := (case tt_test toml of Some b \<Rightarrow> b | None \<Rightarrow> tg_tested t),
       tg_doc := (case tt_doc toml of Some b \<Rightarrow> b | None \<Rightarrow> tg_doc t),
       tg_doctest := (case tt_doctest toml of Some b \<Rightarrow> b | None \<Rightarrow> tg_doctest t),
       tg_benched := (case tt_bench toml of Some b \<Rightarrow> b | None \<Rightarrow> tg_benched t),
       tg_harness := (case tt_harness toml of Some b \<Rightarrow> b | None \<Rightarrow> tg_harness t),
       tg_for_host := (case (tt_plugin toml, toml_proc_macro toml) of
           (None, None) \<Rightarrow> tg_for_host t
         | (a, b) \<Rightarrow> a = Some True \<or> b = Some True)\<rparr>"

definition configure_target :: "channel_state \<Rightarrow> cargo_features \<Rightarrow> toml_target \<Rightarrow> target \<Rightarrow> target_error + target" where
  "configure_target w fs toml t =
     (case tt_edition toml of
        None \<Rightarrow> Inr (configured_flags toml t)
      | Some e \<Rightarrow>
          (case features_require w ''edition'' fs of
             Inl err \<Rightarrow> Inl (BadTargetEdition err)
           | Inr _ \<Rightarrow>
               (case edition_from_str e of
                  Inl err \<Rightarrow> Inl (BadTargetEdition err)
                | Inr ed \<Rightarrow> Inr ((configured_flags toml t)\<lparr>tg_edition := ed\<rparr>))))"

text \<open>\<open>target_path\<close>; the callback for the layout of older editions gives the path with its warning.\<close>

definition target_path ::
    "toml_target \<Rightarrow> (string \<times> path) list \<Rightarrow> string \<Rightarrow> path \<Rightarrow> edition \<Rightarrow> (toml_target \<Rightarrow> (path \<times> target_warning) option) \<Rightarrow>
     (target_error, path \<times> target_warning list) run" where
  "target_path t inferred what root e legacy =
     (case tt_path t of
        Some p \<Rightarrow> Some (Inr (path_join root p, []))
      | None \<Rightarrow>
          bindR (unwrap (tt_name t)) (\<lambda>name.
            case map snd (filter (\<lambda>(n, _). n = name) inferred) of
              [p] \<Rightarrow> Some (Inr (p, []))
            | _ \<Rightarrow>
                (case (if e = Edition2015 then legacy t else None) of
                   Some (p, w) \<Rightarrow> Some (Inr (p, [w]))
                 | None \<Rightarrow> Some (Inl (CantFindTarget name what)))))"

section \<open>The library\<close>

definition lib_crate_types :: "toml_target \<Rightarrow> target_error + lib_kind list" where
  "lib_crate_types lib =
     (if tt_plugin lib = Some True \<and> toml_proc_macro lib = Some True then Inl PluginAndProcMacro
      else case toml_crate_types lib of
             Some kinds \<Rightarrow> Inr (map lib_kind_of_string kinds)
           | None \<Rightarrow>
               if tt_plugin lib = Some True then Inr [KindDylib]
               else if toml_proc_macro lib = Some True then Inr [KindProcMacro]
               else Inr [KindLib])"

text \<open>The target of the manifest with the name filled in, or the inferred one.\<close>

definition lib_toml :: "toml_target option \<Rightarrow> path option \<Rightarrow> string \<Rightarrow> target_error + toml_target option" where
  "lib_toml toml_lib inferred package_name =
     (case toml_lib of
        Some lib \<Rightarrow>
          (case tt_name lib of
             Some n \<Rightarrow> if CHR ''-'' \<in> set n then Inl (HyphenInLibName n) else Inr (Some lib)
           | None \<Rightarrow> Inr (Some (lib\<lparr>tt_name := Some package_name\<rparr>)))
      | None \<Rightarrow>
          Inr (map_option (\<lambda>p. new_toml_target\<lparr>tt_name := Some package_name, tt_path := Some p\<rparr>) inferred))"

definition lib_path :: "fs_ops \<Rightarrow> path \<Rightarrow> edition \<Rightarrow> toml_target \<Rightarrow> path option \<Rightarrow> string \<Rightarrow> target_error + path \<times> target_warning list" where
  "lib_path F root e lib inferred name =
     (case (tt_path lib, inferred) of
        (Some p, _) \<Rightarrow> Inr (path_join root p, [])
      | (None, Some p) \<Rightarrow> Inr (p, [])
      | (None, None) \<Rightarrow>
          let legacy = child (child root ''src'') (name @ ''.rs'')
          in if e = Edition2015 \<and> fs_exists F legacy then Inr (legacy, [LegacyLibPath legacy name])
             else Inl (NoLibraryFile name))"

definition clean_lib ::
    "channel_state \<Rightarrow> cargo_features \<Rightarrow> fs_ops \<Rightarrow> toml_target option \<Rightarrow> path \<Rightarrow> string \<Rightarrow> edition \<Rightarrow>
     (target_error, target option \<times> target_warning list) run" where
  "clean_lib w fs F toml_lib root package_name e =
     (let inferred = inferred_lib F root
      in bindR (Some (lib_toml toml_lib inferred package_name)) (\<lambda>lib.
           case lib of
             None \<Rightarrow> Some (Inr (None, []))
           | Some lib \<Rightarrow>
               bindR (Some (validate_has_name ''library'' ''lib'' lib)) (\<lambda>_.
               bindR (unwrap (tt_name lib)) (\<lambda>name.
               bindR (Some (lib_path F root e lib inferred name)) (\<lambda>(p, warnings).
               bindR (Some (lib_crate_types lib)) (\<lambda>kinds.
               bindR (unwrap (lib_target name kinds p e)) (\<lambda>t.
               bindR (Some (configure_target w fs lib t)) (\<lambda>t.
                 Some (Inr (Some t, warnings))))))))))"

section \<open>Binaries\<close>

definition is_bad_artifact_name :: "string \<Rightarrow> bool" where
  "is_bad_artifact_name n \<longleftrightarrow> n \<in> set [''deps'', ''examples'', ''build'', ''native'', ''incremental'']"

definition legacy_bin_path :: "fs_ops \<Rightarrow> path \<Rightarrow> string \<Rightarrow> bool \<Rightarrow> path option" where
  "legacy_bin_path F root name has_lib =
     (let src = child root ''src'';
          named = child src (name @ ''.rs''); main = child src ''main.rs''; bin_main = child (child src ''bin'') ''main.rs''
      in if \<not> has_lib \<and> fs_exists F named then Some named
         else if fs_exists F main then Some main
         else if fs_exists F bin_main then Some bin_main
         else None)"

text \<open>The checks of one binary; the first two are collected.\<close>

definition check_bin :: "toml_target \<Rightarrow> target_error list \<Rightarrow> (target_error, target_error list) run" where
  "check_bin bin errors =
     bindR (Some (validate_has_name ''binary'' ''bin'' bin)) (\<lambda>_.
     bindR (unwrap (tt_name bin)) (\<lambda>name.
       let errors = (case toml_crate_types bin of
                       Some kinds \<Rightarrow> if kinds \<noteq> [] then errors @ [BinCrateTypes name kinds] else errors
                     | None \<Rightarrow> errors);
           errors = (if toml_proc_macro bin = Some True then errors @ [BinProcMacro name] else errors)
       in if is_bad_artifact_name name then Some (Inl (ForbiddenBinName name)) else Some (Inr errors)))"

text \<open>The loop that makes the targets, for any kind: the warnings are collected.\<close>

fun make_bins ::
    "channel_state \<Rightarrow> cargo_features \<Rightarrow> fs_ops \<Rightarrow> (string \<times> path) list \<Rightarrow> path \<Rightarrow> edition \<Rightarrow> bool \<Rightarrow> toml_target list \<Rightarrow>
     (target_error, target list \<times> target_warning list) run" where
  "make_bins w fs F inferred root e has_lib [] = Some (Inr ([], []))"
| "make_bins w fs F inferred root e has_lib (bin # bins) =
     bindR (unwrap (tt_name bin)) (\<lambda>name.
     bindR (target_path bin inferred ''bin'' root e
         (\<lambda>_. map_option (\<lambda>p. (p, LegacyBinPath p name)) (legacy_bin_path F root name has_lib))) (\<lambda>(p, ws).
     bindR (unwrap (bin_target name p (tt_required_features bin) e)) (\<lambda>t.
     bindR (Some (configure_target w fs bin t)) (\<lambda>t.
     bindR (make_bins w fs F inferred root e has_lib bins) (\<lambda>(ts, ws').
       Some (Inr (t # ts, ws @ ws')))))))"

definition clean_bins ::
    "channel_state \<Rightarrow> cargo_features \<Rightarrow> fs_ops \<Rightarrow> toml_target list option \<Rightarrow> path \<Rightarrow> string \<Rightarrow> edition \<Rightarrow> bool option \<Rightarrow> bool \<Rightarrow>
     (target_error, target list \<times> target_warning list \<times> target_error list) run" where
  "clean_bins w fs F toml_bins root package_name e autodiscover has_lib =
     (let inferred = inferred_bins F root package_name;
          (bins, warnings) = toml_targets_and_inferred toml_bins inferred root autodiscover e ''bin''
      in bindR (foldR check_bin bins []) (\<lambda>errors.
         bindR (validate_unique_names ''binary'' bins) (\<lambda>_.
         bindR (make_bins w fs F inferred root e has_lib bins) (\<lambda>(ts, ws).
           Some (Inr (ts, warnings @ ws, errors))))))"

section \<open>Examples, tests and benchmarks\<close>

text \<open>The loop of \<open>clean_targets_with_legacy_path\<close>: a target without a path is dropped and reported.\<close>

fun find_paths ::
    "toml_target list \<Rightarrow> (string \<times> path) list \<Rightarrow> string \<Rightarrow> path \<Rightarrow> edition \<Rightarrow> (toml_target \<Rightarrow> (path \<times> target_warning) option) \<Rightarrow>
     ((path \<times> toml_target) list \<times> target_warning list \<times> target_error list) option" where
  "find_paths [] inferred what root e legacy = Some ([], [], [])"
| "find_paths (t # ts) inferred what root e legacy =
     Option.bind (target_path t inferred what root e legacy) (\<lambda>r.
     map_option (\<lambda>(ps, ws, es).
         case r of Inr (p, w) \<Rightarrow> ((p, t) # ps, w @ ws, es) | Inl err \<Rightarrow> (ps, ws, err # es))
       (find_paths ts inferred what root e legacy))"

definition clean_targets_with_legacy_path ::
    "string \<Rightarrow> string \<Rightarrow> toml_target list option \<Rightarrow> (string \<times> path) list \<Rightarrow> path \<Rightarrow> edition \<Rightarrow> bool option \<Rightarrow>
     (toml_target \<Rightarrow> (path \<times> target_warning) option) \<Rightarrow>
     (target_error, (path \<times> toml_target) list \<times> target_warning list \<times> target_error list) run" where
  "clean_targets_with_legacy_path human what toml_targets inferred root e autodiscover legacy =
     (let (ts, warnings) = toml_targets_and_inferred toml_targets inferred root autodiscover e what
      in bindR (Some (foldE (\<lambda>t _. validate_has_name human what t) ts ())) (\<lambda>_.
         bindR (validate_unique_names what ts) (\<lambda>_.
           map_option (\<lambda>(ps, ws, es). Inr (ps, warnings @ ws, es)) (find_paths ts inferred what root e legacy))))"

definition clean_targets ::
    "string \<Rightarrow> string \<Rightarrow> toml_target list option \<Rightarrow> (string \<times> path) list \<Rightarrow> path \<Rightarrow> edition \<Rightarrow> bool option \<Rightarrow>
     (target_error, (path \<times> toml_target) list \<times> target_warning list \<times> target_error list) run" where
  "clean_targets human what toml_targets inferred root e autodiscover =
     clean_targets_with_legacy_path human what toml_targets inferred root e autodiscover (\<lambda>_. None)"

text \<open>The loops that make the targets, with the constructor of the kind.\<close>

fun make_targets ::
    "channel_state \<Rightarrow> cargo_features \<Rightarrow> (string \<Rightarrow> path \<Rightarrow> toml_target \<Rightarrow> target option) \<Rightarrow> (path \<times> toml_target) list \<Rightarrow>
     (target_error, target list) run" where
  "make_targets w fs new [] = Some (Inr [])"
| "make_targets w fs new ((p, toml) # ts) =
     bindR (unwrap (tt_name toml)) (\<lambda>name.
     bindR (unwrap (new name p toml)) (\<lambda>t.
     bindR (Some (configure_target w fs toml t)) (\<lambda>t.
     bindR (make_targets w fs new ts) (\<lambda>ts. Some (Inr (t # ts))))))"

definition clean_examples ::
    "channel_state \<Rightarrow> cargo_features \<Rightarrow> fs_ops \<Rightarrow> toml_target list option \<Rightarrow> path \<Rightarrow> edition \<Rightarrow> bool option \<Rightarrow>
     (target_error, target list \<times> target_warning list \<times> target_error list) run" where
  "clean_examples w fs F toml_examples root e autodiscover =
     bindR (clean_targets ''example'' ''example'' toml_examples (infer_from_directory F (child root ''examples'')) root e autodiscover)
       (\<lambda>(ps, ws, es).
     bindR (make_targets w fs (\<lambda>name p toml. example_target name
         (case toml_crate_types toml of Some kinds \<Rightarrow> map lib_kind_of_string kinds | None \<Rightarrow> []) p (tt_required_features toml) e) ps)
       (\<lambda>ts. Some (Inr (ts, ws, es))))"

definition clean_tests ::
    "channel_state \<Rightarrow> cargo_features \<Rightarrow> fs_ops \<Rightarrow> toml_target list option \<Rightarrow> path \<Rightarrow> edition \<Rightarrow> bool option \<Rightarrow>
     (target_error, target list \<times> target_warning list \<times> target_error list) run" where
  "clean_tests w fs F toml_tests root e autodiscover =
     bindR (clean_targets ''test'' ''test'' toml_tests (infer_from_directory F (child root ''tests'')) root e autodiscover)
       (\<lambda>(ps, ws, es).
     bindR (make_targets w fs (\<lambda>name p toml. test_target name p (tt_required_features toml) e) ps)
       (\<lambda>ts. Some (Inr (ts, ws, es))))"

definition legacy_bench_path :: "fs_ops \<Rightarrow> path \<Rightarrow> toml_target \<Rightarrow> (path \<times> target_warning) option" where
  "legacy_bench_path F root bench =
     (let legacy = child (child root ''src'') ''bench.rs''
      in if tt_name bench = Some ''bench'' \<and> fs_exists F legacy then Some (legacy, LegacyBenchPath legacy ''bench'') else None)"

definition clean_benches ::
    "channel_state \<Rightarrow> cargo_features \<Rightarrow> fs_ops \<Rightarrow> toml_target list option \<Rightarrow> path \<Rightarrow> edition \<Rightarrow> bool option \<Rightarrow>
     (target_error, target list \<times> target_warning list \<times> target_error list) run" where
  "clean_benches w fs F toml_benches root e autodiscover =
     bindR (clean_targets_with_legacy_path ''benchmark'' ''bench'' toml_benches
         (infer_from_directory F (child root ''benches'')) root e autodiscover (legacy_bench_path F root))
       (\<lambda>(ps, ws, es).
     bindR (make_targets w fs (\<lambda>name p toml. bench_target name p (tt_required_features toml) e) ps)
       (\<lambda>ts. Some (Inr (ts, ws, es))))"

section \<open>All targets\<close>

record toml_package =
  pk_name :: string
  pk_autobins :: "bool option"
  pk_autoexamples :: "bool option"
  pk_autotests :: "bool option"
  pk_autobenches :: "bool option"

record toml_sections =
  tm_package :: "toml_package option"
  tm_project :: "toml_package option"
  tm_lib :: "toml_target option"
  tm_bin :: "toml_target list option"
  tm_example :: "toml_target list option"
  tm_test :: "toml_target list option"
  tm_bench :: "toml_target list option"
  tm_build_dependencies :: "string list option"

definition maybe_custom_build :: "fs_ops \<Rightarrow> string_or_bool option \<Rightarrow> path \<Rightarrow> path option" where
  "maybe_custom_build F build root =
     (let build_rs = child root ''build.rs''
      in case build of
           Some (SBool b) \<Rightarrow> if b then Some build_rs else None
         | Some (SString s) \<Rightarrow> Some (path_of_str s)
         | None \<Rightarrow> if fs_is_file F build_rs then Some build_rs else None)"

text \<open>\<open>file_stem\<close> of a path, empty if it ends in no name.\<close>

definition path_file_stem :: "path \<Rightarrow> string" where
  "path_file_stem p =
     (if p = [] then '''' else case last p of NormalComp n \<Rightarrow> fst (split_at_dot n) | _ \<Rightarrow> '''')"

definition custom_build_targets ::
    "fs_ops \<Rightarrow> toml_sections \<Rightarrow> string \<Rightarrow> path \<Rightarrow> edition \<Rightarrow> string_or_bool option \<Rightarrow> string list option \<Rightarrow>
     (target_error, target list) run" where
  "custom_build_targets F m package_name root e build_script metabuild =
     bindR (case maybe_custom_build F build_script root of
              None \<Rightarrow> Some (Inr [])
            | Some p \<Rightarrow>
                if metabuild \<noteq> None then Some (Inl MetabuildAndBuild)
                else bindR (unwrap (custom_build_target (''build-script-'' @ path_file_stem p) (path_join root p) e))
                       (\<lambda>t. Some (Inr [t]))) (\<lambda>ts.
     case metabuild of
       None \<Rightarrow> Some (Inr ts)
     | Some names \<Rightarrow>
         (case find (\<lambda>n. case tm_build_dependencies m of None \<Rightarrow> True | Some bd \<Rightarrow> n \<notin> set bd) names of
            Some n \<Rightarrow> Some (Inl (MetabuildNotBuildDep n))
          | None \<Rightarrow> Some (Inr (ts @ [metabuild_target (''metabuild-'' @ package_name)]))))"

definition toml_targets ::
    "channel_state \<Rightarrow> cargo_features \<Rightarrow> fs_ops \<Rightarrow> toml_sections \<Rightarrow> string \<Rightarrow> path \<Rightarrow> edition \<Rightarrow> string_or_bool option \<Rightarrow>
     string list option \<Rightarrow> (target_error, target list \<times> target_warning list \<times> target_error list) run" where
  "toml_targets w fs F m package_name root e build_script metabuild =
     bindR (clean_lib w fs F (tm_lib m) root package_name e) (\<lambda>(lib, ws1).
     bindR (Some (ok_or NoPackageSection (opt_or (tm_package m) (tm_project m)))) (\<lambda>package.
     bindR (clean_bins w fs F (tm_bin m) root package_name e (pk_autobins package) (lib \<noteq> None)) (\<lambda>(bins, ws2, es2).
     bindR (clean_examples w fs F (tm_example m) root e (pk_autoexamples package)) (\<lambda>(examples, ws3, es3).
     bindR (clean_tests w fs F (tm_test m) root e (pk_autotests package)) (\<lambda>(tests, ws4, es4).
     bindR (clean_benches w fs F (tm_bench m) root e (pk_autobenches package)) (\<lambda>(benches, ws5, es5).
     bindR (custom_build_targets F m (pk_name package) root e build_script metabuild) (\<lambda>scripts.
       Some (Inr ((case lib of Some t \<Rightarrow> [t] | None \<Rightarrow> []) @ bins @ examples @ tests @ benches @ scripts,
         ws1 @ ws2 @ ws3 @ ws4 @ ws5, es2 @ es3 @ es4 @ es5)))))))))"


section \<open>What is inferred is absolute\<close>

lemma is_absolute_append [simp]: "p \<noteq> [] \<Longrightarrow> is_absolute (p @ q) = is_absolute p"
  by (cases p) (auto simp: is_absolute_def)

lemma is_absolute_join [simp]: "is_absolute p \<Longrightarrow> is_absolute (path_join p q)"
  by (cases p) (auto simp: path_join_def is_absolute_def)

lemma is_absolute_not_Nil: "is_absolute p \<Longrightarrow> p \<noteq> []"
  by (auto simp: is_absolute_def)

definition absolute_paths :: "('a \<times> path) list \<Rightarrow> bool" where
  "absolute_paths ps \<longleftrightarrow> (\<forall>(n, p) \<in> set ps. is_absolute p)"

lemma infer_from_directory_absolute:
  assumes "is_absolute dir"
  shows "absolute_paths (infer_from_directory F dir)"
proof -
  have "is_absolute (snd x)" if "infer_any F dir e = Some x" for e x
    using that assms is_absolute_not_Nil [OF assms]
    by (auto simp: infer_any_def infer_file_def infer_subdirectory_def Let_def split: option.splits if_splits)
  then show ?thesis
    by (fastforce simp: absolute_paths_def infer_from_directory_def List.map_filter_def split: option.splits)
qed

lemma inferred_bins_absolute: "is_absolute root \<Longrightarrow> absolute_paths (inferred_bins F root name)"
  using infer_from_directory_absolute [of "child (child root ''src'') ''bin''" F]
  by (auto simp: inferred_bins_def absolute_paths_def Let_def)

lemma inferred_lib_absolute: "is_absolute root \<Longrightarrow> inferred_lib F root = Some p \<Longrightarrow> is_absolute p"
  by (auto simp: inferred_lib_def Let_def split: if_splits)

section \<open>Names\<close>

abbreviation has_name :: "toml_target \<Rightarrow> bool" where
  "has_name t \<equiv> \<exists>n. tt_name t = Some n \<and> \<not> is_blank n"

lemma validate_has_name_Inr [simp]: "validate_has_name human what t = Inr u \<longleftrightarrow> has_name t"
  by (auto simp: validate_has_name_def split: option.splits if_splits)

lemma unique_names_spec:
  assumes "\<forall>t \<in> set ts. tt_name t \<noteq> None"
  shows "unique_names what ts old \<noteq> None \<and>
    (unique_names what ts old = Some (Inr ()) \<longrightarrow> distinct (map tt_name ts) \<and> (\<forall>n \<in> old. Some n \<notin> tt_name ` set ts))"
  using assms
proof (induction ts arbitrary: old)
  case (Cons t ts)
  then obtain n where n: "tt_name t = Some n" by auto
  show ?case
  proof (cases "n \<in> old")
    case True
    with n show ?thesis by simp
  next
    case False
    from Cons have "unique_names what ts (insert n old) \<noteq> None \<and>
        (unique_names what ts (insert n old) = Some (Inr ()) \<longrightarrow>
          distinct (map tt_name ts) \<and> (\<forall>n \<in> insert n old. Some n \<notin> tt_name ` set ts))"
      by simp
    with n False show ?thesis by auto
  qed
qed simp

lemma validate_unique_names_spec:
  assumes "\<forall>t \<in> set ts. has_name t"
  shows "validate_unique_names what ts \<noteq> None"
    and "validate_unique_names what ts = Some (Inr ()) \<Longrightarrow> distinct (map tt_name ts)"
  using unique_names_spec [of ts what "{}"] assms by (fastforce simp: validate_unique_names_def)+

lemma foldE_has_name:
  "foldE (\<lambda>t _. validate_has_name human what t) ts u = Inr v \<Longrightarrow> t \<in> set ts \<Longrightarrow> has_name t"
  by (induction ts) auto

lemma check_bin_spec:
  "check_bin bin es \<noteq> None"
  "check_bin bin es = Some (Inr es') \<Longrightarrow> has_name bin \<and> (\<forall>n. tt_name bin = Some n \<longrightarrow> \<not> is_bad_artifact_name n)"
  by (auto simp: check_bin_def validate_has_name_def Let_def split: option.splits if_splits)

lemma foldR_check_bin:
  "foldR check_bin bins es \<noteq> None"
  "foldR check_bin bins es = Some (Inr es') \<Longrightarrow> bin \<in> set bins \<Longrightarrow>
     has_name bin \<and> (\<forall>n. tt_name bin = Some n \<longrightarrow> \<not> is_bad_artifact_name n)"
proof -
  show "foldR check_bin bins es \<noteq> None"
    by (induction bins arbitrary: es) (auto simp: bindR_def check_bin_spec(1) split: option.splits sum.splits)
  show "has_name bin \<and> (\<forall>n. tt_name bin = Some n \<longrightarrow> \<not> is_bad_artifact_name n)"
    if "foldR check_bin bins es = Some (Inr es')" "bin \<in> set bins"
    using that by (induction bins arbitrary: es) (auto dest: check_bin_spec(2))
qed

section \<open>The targets that are made\<close>

text \<open>A target of the kind \<open>K\<close> with an absolute path, for the entry of the manifest.\<close>

definition target_for :: "(target_kind \<Rightarrow> bool) \<Rightarrow> toml_target \<Rightarrow> target \<Rightarrow> bool" where
  "target_for K toml t \<longleftrightarrow> tt_name toml = Some (tg_name t) \<and> K (tg_kind t) \<and>
     (\<exists>p. tg_src_path t = SourcePath p \<and> is_absolute p)"

lemma configure_target_keeps:
  assumes "configure_target w fs toml t = Inr t'"
  shows "tg_kind t' = tg_kind t" "tg_name t' = tg_name t" "tg_src_path t' = tg_src_path t"
proof -
  have flags: "tg_kind (configured_flags toml t) = tg_kind t" "tg_name (configured_flags toml t) = tg_name t"
    "tg_src_path (configured_flags toml t) = tg_src_path t"
    by (simp_all add: configured_flags_def)
  show "tg_kind t' = tg_kind t" "tg_name t' = tg_name t" "tg_src_path t' = tg_src_path t"
    using assms flags by (auto simp: configure_target_def split: option.splits sum.splits)
qed

lemma target_for_configure:
  "configure_target w fs toml t = Inr t' \<Longrightarrow> target_for K toml t \<Longrightarrow> target_for K toml t'"
  by (auto simp: target_for_def configure_target_keeps)

lemma make_targets_spec:
  assumes "\<forall>(p, toml) \<in> set ps. has_name toml \<and> is_absolute p"
    and new: "\<And>name p toml. tt_name toml = Some name \<Longrightarrow> is_absolute p \<Longrightarrow> \<exists>t. new name p toml = Some t \<and> target_for K toml t"
  shows "make_targets w fs new ps \<noteq> None \<and>
    (\<forall>ts. make_targets w fs new ps = Some (Inr ts) \<longrightarrow> list_all2 (target_for K) (map snd ps) ts)"
  using assms(1)
proof (induction ps)
  case (Cons x ps)
  obtain p toml where x: "x = (p, toml)" by (cases x)
  with Cons.prems obtain name where name: "tt_name toml = Some name" "is_absolute p" by auto
  from new [OF this] obtain t where t: "new name p toml = Some t" "target_for K toml t" by blast
  show ?case
  proof (cases "configure_target w fs toml t")
    case (Inl e)
    with x name t show ?thesis by simp
  next
    case (Inr t')
    have "target_for K toml t'" by (rule target_for_configure [OF Inr t(2)])
    with Cons x name t Inr show ?thesis by (auto simp: bindR_eq_None)
  qed
qed simp

text \<open>The constructors.\<close>

lemma constructors_target_for:
  assumes "tt_name toml = Some name" and "is_absolute p"
  shows "\<exists>t. example_target name kinds p rf e = Some t \<and>
      target_for (\<lambda>k. k = TargetExampleBin \<or> (\<exists>ks. k = TargetExampleLib ks)) toml t"
    and "\<exists>t. test_target name p rf e = Some t \<and> target_for (\<lambda>k. k = TargetTest) toml t"
    and "\<exists>t. bench_target name p rf e = Some t \<and> target_for (\<lambda>k. k = TargetBench) toml t"
    and "\<exists>t. bin_target name p rf e = Some t \<and> target_for (\<lambda>k. k = TargetBin) toml t"
    and "\<exists>t. lib_target name kinds p e = Some t \<and> target_for (\<lambda>k. \<exists>ks. k = TargetLib ks) toml t"
  using assms
  by (auto simp: example_target_def test_target_def bench_target_def bin_target_def lib_target_def with_path_def
      new_target_def target_for_def)

lemma target_path_spec:
  assumes "has_name t" and "absolute_paths inferred" and "is_absolute root"
    and "\<forall>t p x. legacy t = Some (p, x) \<longrightarrow> is_absolute p"
  shows "target_path t inferred what root e legacy \<noteq> None"
    and "target_path t inferred what root e legacy = Some (Inr (p, ws)) \<Longrightarrow> is_absolute p"
proof -
  obtain n where n: "tt_name t = Some n" using assms(1) by auto
  have inf: "is_absolute q" if "map snd (filter (\<lambda>(n', _). n' = n) inferred) = q # qs" for q qs
  proof -
    have "q \<in> snd ` set inferred" using that by (metis filter_is_subset image_mono list.set_intros(1) list.set_map subsetD)
    then show ?thesis using assms(2) by (auto simp: absolute_paths_def)
  qed
  show "target_path t inferred what root e legacy \<noteq> None"
    by (auto simp: target_path_def n split: option.splits list.splits)
  show "is_absolute p" if "target_path t inferred what root e legacy = Some (Inr (p, ws))"
    using that inf assms(3,4)
    by (auto simp: target_path_def n split: option.splits list.splits if_splits)
qed

lemma find_paths_spec:
  assumes "\<forall>t \<in> set ts. has_name t" and "absolute_paths inferred" and "is_absolute root"
    and "\<forall>t p x. legacy t = Some (p, x) \<longrightarrow> is_absolute p"
  shows "\<exists>ps ws es. find_paths ts inferred what root e legacy = Some (ps, ws, es) \<and>
    map snd ps = filter (\<lambda>t. \<exists>x. target_path t inferred what root e legacy = Some (Inr x)) ts \<and>
    (\<forall>(p, t) \<in> set ps. is_absolute p) \<and> (es = [] \<longrightarrow> map snd ps = ts)"
  using assms(1)
proof (induction ts)
  case (Cons t ts)
  have named: "has_name t" using Cons.prems by auto
  from Cons obtain ps ws es where
      IH: "find_paths ts inferred what root e legacy = Some (ps, ws, es)"
        "map snd ps = filter (\<lambda>t. \<exists>x. target_path t inferred what root e legacy = Some (Inr x)) ts"
        "\<forall>(p, t) \<in> set ps. is_absolute p" "es = [] \<longrightarrow> map snd ps = ts"
    by auto
  note tp = target_path_spec [where legacy = legacy and what = what and e = e, OF named assms(2-4)]
  obtain r where r: "target_path t inferred what root e legacy = Some r" using tp(1) by blast
  show ?case
  proof (cases r)
    case (Inl err)
    with r IH show ?thesis by simp
  next
    case (Inr x)
    with r tp(2) have "is_absolute (fst x)" by (cases x) simp
    with r Inr IH show ?thesis by (cases x) simp
  qed
qed simp

lemma clean_targets_spec:
  assumes "absolute_paths inferred" and "is_absolute root" and "\<forall>t p x. legacy t = Some (p, x) \<longrightarrow> is_absolute p"
  shows "clean_targets_with_legacy_path human what listed inferred root e auto legacy \<noteq> None"
    and "clean_targets_with_legacy_path human what listed inferred root e auto legacy = Some (Inr (ps, ws, es)) \<Longrightarrow>
      (\<forall>(p, toml) \<in> set ps. has_name toml \<and> is_absolute p) \<and> distinct (map (tt_name \<circ> snd) ps) \<and>
      (es = [] \<longrightarrow> map snd ps = fst (toml_targets_and_inferred listed inferred root auto e what))"
proof -
  obtain ts ws0 where ts: "toml_targets_and_inferred listed inferred root auto e what = (ts, ws0)" by force
  define v where "v = foldE (\<lambda>t _. validate_has_name human what t) ts ()"
  have eq: "clean_targets_with_legacy_path human what listed inferred root e auto legacy =
      bindR (Some v) (\<lambda>_. bindR (validate_unique_names what ts) (\<lambda>_.
        map_option (\<lambda>(ps, ws, es). Inr (ps, ws0 @ ws, es)) (find_paths ts inferred what root e legacy)))"
    by (simp add: clean_targets_with_legacy_path_def ts v_def)
  have named: "\<forall>t \<in> set ts. has_name t" if "v = Inr ()"
    using that foldE_has_name [of human what ts] by (auto simp: v_def)
  note paths = find_paths_spec [OF _ assms, of ts what e]
  show "clean_targets_with_legacy_path human what listed inferred root e auto legacy \<noteq> None"
    unfolding eq using validate_unique_names_spec(1) [OF named] paths [OF named]
    by (cases v) (auto simp: bindR_eq_None)
  assume res: "clean_targets_with_legacy_path human what listed inferred root e auto legacy = Some (Inr (ps, ws, es))"
  then obtain ws1 where v: "v = Inr ()" and u: "validate_unique_names what ts = Some (Inr ())"
      and f: "find_paths ts inferred what root e legacy = Some (ps, ws1, es)"
    unfolding eq by (auto simp: map_option_eq_Some)
  let ?Q = "\<lambda>t. \<exists>x. target_path t inferred what root e legacy = Some (Inr x)"
  from paths [OF named [OF v]] f have p: "map snd ps = filter ?Q ts" "\<forall>(p, t) \<in> set ps. is_absolute p"
      "es = [] \<longrightarrow> map snd ps = ts" by auto
  have "distinct (map tt_name (map snd ps))"
    unfolding p(1) by (rule distinct_map_filter [OF validate_unique_names_spec(2) [OF named [OF v] u]])
  moreover have "set (map snd ps) \<subseteq> set ts" unfolding p(1) by auto
  ultimately show "(\<forall>(p, toml) \<in> set ps. has_name toml \<and> is_absolute p) \<and> distinct (map (tt_name \<circ> snd) ps) \<and>
      (es = [] \<longrightarrow> map snd ps = fst (toml_targets_and_inferred listed inferred root auto e what))"
    using p(2,3) named [OF v] ts by fastforce
qed

text \<open>The targets of one kind: no panic, names that are not empty and occur once, and nothing dropped without a
  problem being reported.\<close>

definition kind_ok :: "(target_kind \<Rightarrow> bool) \<Rightarrow> toml_target list \<Rightarrow> target list \<Rightarrow> target_error list \<Rightarrow> bool" where
  "kind_ok K tomls ts es \<longleftrightarrow> distinct (map tg_name ts) \<and>
     (\<forall>t \<in> set ts. \<not> is_blank (tg_name t) \<and> K (tg_kind t) \<and> (\<exists>p. tg_src_path t = SourcePath p \<and> is_absolute p)) \<and>
     (es = [] \<longrightarrow> map tt_name tomls = map (Some \<circ> tg_name) ts)"

lemma made_kind_ok:
  assumes "list_all2 (target_for K) (map snd ps) ts"
    and "\<forall>(p, toml) \<in> set ps. has_name toml \<and> is_absolute p" and "distinct (map (tt_name \<circ> snd) ps)"
    and "es = [] \<longrightarrow> map snd ps = tomls"
  shows "kind_ok K tomls ts es"
proof -
  have names: "map tt_name (map snd ps) = map (Some \<circ> tg_name) ts"
    using assms(1) by (induction rule: list_all2_induct) (auto simp: target_for_def)
  have "distinct (map (Some \<circ> tg_name) ts)" using assms(3) by (simp flip: names)
  then have "distinct (map tg_name ts)" by (simp add: distinct_map inj_on_def)
  moreover have "\<not> is_blank (tg_name t) \<and> K (tg_kind t) \<and> (\<exists>p. tg_src_path t = SourcePath p \<and> is_absolute p)"
    if t: "t \<in> set ts" for t
  proof -
    have "\<forall>t \<in> set ts. \<exists>toml \<in> set (map snd ps). target_for K toml t"
      using assms(1) by (induction rule: list_all2_induct) auto
    then obtain toml where "target_for K toml t" "toml \<in> snd ` set ps" using t by fastforce
    then show ?thesis using assms(2) by (fastforce simp: target_for_def)
  qed
  ultimately show ?thesis using assms(4) names by (auto simp: kind_ok_def)
qed


lemma made_targets_ok:
  assumes paths: "r \<noteq> None" "\<And>ps ws es. r = Some (Inr (ps, ws, es)) \<Longrightarrow>
      (\<forall>(p, toml) \<in> set ps. has_name toml \<and> is_absolute p) \<and> distinct (map (tt_name \<circ> snd) ps) \<and>
      (es = [] \<longrightarrow> map snd ps = tomls)"
    and new: "\<And>name p toml. tt_name toml = Some name \<Longrightarrow> is_absolute p \<Longrightarrow> \<exists>t. new name p toml = Some t \<and> target_for K toml t"
  shows "bindR r (\<lambda>(ps, ws, es). bindR (make_targets w fs new ps) (\<lambda>ts. Some (Inr (ts, ws, es)))) \<noteq> None"
    and "bindR r (\<lambda>(ps, ws, es). bindR (make_targets w fs new ps) (\<lambda>ts. Some (Inr (ts, ws, es)))) = Some (Inr (ts, ws, es)) \<Longrightarrow>
      kind_ok K tomls ts es"
proof -
  have make: "make_targets w fs new ps \<noteq> None \<and>
      (\<forall>ts. make_targets w fs new ps = Some (Inr ts) \<longrightarrow> list_all2 (target_for K) (map snd ps) ts)"
    if "r = Some (Inr (ps, ws, es))" for ps ws es
    by (rule make_targets_spec) (use paths(2) [OF that] new in blast)+
  show "bindR r (\<lambda>(ps, ws, es). bindR (make_targets w fs new ps) (\<lambda>ts. Some (Inr (ts, ws, es)))) \<noteq> None"
    using paths(1) make by (auto simp: bindR_eq_None)
  show "kind_ok K tomls ts es"
    if "bindR r (\<lambda>(ps, ws, es). bindR (make_targets w fs new ps) (\<lambda>ts. Some (Inr (ts, ws, es)))) = Some (Inr (ts, ws, es))"
  proof -
    from that obtain ps where r: "r = Some (Inr (ps, ws, es))" and m: "make_targets w fs new ps = Some (Inr ts)" by auto
    have "list_all2 (target_for K) (map snd ps) ts" using make [OF r] m by blast
    then show ?thesis by (rule made_kind_ok) (use paths(2) [OF r] in blast)+
  qed
qed

abbreviation example_kind :: "target_kind \<Rightarrow> bool" where
  "example_kind k \<equiv> k = TargetExampleBin \<or> (\<exists>ks. k = TargetExampleLib ks)"

lemma clean_examples_ok:
  assumes "is_absolute root"
  shows "clean_examples w fs F listed root e auto \<noteq> None"
    and "clean_examples w fs F listed root e auto = Some (Inr (ts, ws, es)) \<Longrightarrow> kind_ok example_kind
      (fst (toml_targets_and_inferred listed (infer_from_directory F (child root ''examples'')) root auto e ''example'')) ts es"
  unfolding clean_examples_def clean_targets_def
  by (rule made_targets_ok [OF clean_targets_spec constructors_target_for(1)];
      simp add: assms infer_from_directory_absolute)+

lemma clean_tests_ok:
  assumes "is_absolute root"
  shows "clean_tests w fs F listed root e auto \<noteq> None"
    and "clean_tests w fs F listed root e auto = Some (Inr (ts, ws, es)) \<Longrightarrow> kind_ok (\<lambda>k. k = TargetTest)
      (fst (toml_targets_and_inferred listed (infer_from_directory F (child root ''tests'')) root auto e ''test'')) ts es"
  unfolding clean_tests_def clean_targets_def
  by (rule made_targets_ok [OF clean_targets_spec constructors_target_for(2)];
      simp add: assms infer_from_directory_absolute)+

lemma legacy_bench_absolute:
  "is_absolute root \<Longrightarrow> legacy_bench_path F root t = Some (p, x) \<Longrightarrow> is_absolute p"
  by (auto simp: legacy_bench_path_def Let_def split: if_splits)

lemma clean_benches_ok:
  assumes "is_absolute root"
  shows "clean_benches w fs F listed root e auto \<noteq> None"
    and "clean_benches w fs F listed root e auto = Some (Inr (ts, ws, es)) \<Longrightarrow> kind_ok (\<lambda>k. k = TargetBench)
      (fst (toml_targets_and_inferred listed (infer_from_directory F (child root ''benches'')) root auto e ''bench'')) ts es"
  unfolding clean_benches_def
  by (rule made_targets_ok [OF clean_targets_spec constructors_target_for(3)];
      auto simp: assms infer_from_directory_absolute intro: legacy_bench_absolute [OF assms])+

lemma make_bins_spec:
  assumes "\<forall>bin \<in> set bins. has_name bin" and "absolute_paths inferred" and "is_absolute root"
  shows "make_bins w fs F inferred root e has_lib bins \<noteq> None \<and>
    (\<forall>ts ws. make_bins w fs F inferred root e has_lib bins = Some (Inr (ts, ws)) \<longrightarrow>
      list_all2 (target_for (\<lambda>k. k = TargetBin)) bins ts)"
  using assms(1)
proof (induction bins)
  case (Cons bin bins)
  then obtain name where name: "tt_name bin = Some name" "has_name bin" by auto
  let ?legacy = "\<lambda>_. map_option (\<lambda>p. (p, LegacyBinPath p name)) (legacy_bin_path F root name has_lib)"
  have "\<forall>(t :: toml_target) p x. ?legacy t = Some (p, x) \<longrightarrow> is_absolute p"
    using assms(3) by (auto simp: legacy_bin_path_def Let_def split: if_splits)
  note tp = target_path_spec [where legacy = ?legacy and what = "''bin''" and e = e, OF name(2) assms(2,3) this]
  have IH: "make_bins w fs F inferred root e has_lib bins \<noteq> None \<and>
    (\<forall>ts ws. make_bins w fs F inferred root e has_lib bins = Some (Inr (ts, ws)) \<longrightarrow>
      list_all2 (target_for (\<lambda>k. k = TargetBin)) bins ts)"
    using Cons by simp
  obtain r where r: "target_path bin inferred ''bin'' root e ?legacy = Some r" using tp(1) by blast
  show ?case
  proof (cases r)
    case (Inl err)
    with name r show ?thesis by simp
  next
    case (Inr x)
    obtain p ws where x: "x = (p, ws)" by (cases x)
    with Inr r tp(2) have "is_absolute p" by simp
    from constructors_target_for(4) [OF name(1) this] obtain t where
        t: "bin_target name p (tt_required_features bin) e = Some t" "target_for (\<lambda>k. k = TargetBin) bin t"
      by blast
    show ?thesis
    proof (cases "configure_target w fs bin t")
      case (Inl err)
      with name r Inr x t show ?thesis by simp
    next
      case conf: (Inr t')
      have "target_for (\<lambda>k. k = TargetBin) bin t'" by (rule target_for_configure [OF conf t(2)])
      with name r Inr x t conf IH show ?thesis by (auto simp: bindR_eq_None)
    qed
  qed
qed simp

text \<open>The entries for binaries, of the manifest and inferred.\<close>

abbreviation listed_bins :: "fs_ops \<Rightarrow> path \<Rightarrow> toml_target list option \<Rightarrow> bool option \<Rightarrow> edition \<Rightarrow> string \<Rightarrow> toml_target list" where
  "listed_bins F root bins auto e name \<equiv>
     fst (toml_targets_and_inferred bins (inferred_bins F root name) root auto e ''bin'')"

lemma clean_bins_ok:
  assumes "is_absolute root"
  shows "clean_bins w fs F bins root name e auto has_lib \<noteq> None"
    and "clean_bins w fs F bins root name e auto has_lib = Some (Inr (ts, ws, es)) \<Longrightarrow>
      kind_ok (\<lambda>k. k = TargetBin) (listed_bins F root bins auto e name) ts [] \<and> (\<forall>t \<in> set ts. \<not> is_bad_artifact_name (tg_name t))"
proof -
  obtain tomls ws0 where tomls: "toml_targets_and_inferred bins (inferred_bins F root name) root auto e ''bin'' = (tomls, ws0)"
    by force
  have eq: "clean_bins w fs F bins root name e auto has_lib =
      bindR (foldR check_bin tomls []) (\<lambda>errors.
      bindR (validate_unique_names ''binary'' tomls) (\<lambda>_.
      bindR (make_bins w fs F (inferred_bins F root name) root e has_lib tomls) (\<lambda>(ts, ws).
        Some (Inr (ts, ws0 @ ws, errors)))))"
    by (simp add: clean_bins_def tomls)
  have named: "\<forall>bin \<in> set tomls. has_name bin \<and> (\<forall>n. tt_name bin = Some n \<longrightarrow> \<not> is_bad_artifact_name n)"
    if "foldR check_bin tomls [] = Some (Inr es')" for es'
    using foldR_check_bin(2) [OF that] by blast
  note make = make_bins_spec [OF _ inferred_bins_absolute [OF assms, of F name] assms,
      of _ w fs F e has_lib]
  show "clean_bins w fs F bins root name e auto has_lib \<noteq> None"
    unfolding eq using foldR_check_bin(1) [of tomls "[]"] named validate_unique_names_spec(1) [of tomls "''binary''"] make [of tomls]
    by (auto simp: bindR_eq_None)
  assume "clean_bins w fs F bins root name e auto has_lib = Some (Inr (ts, ws, es))"
  then obtain ws1 where c: "foldR check_bin tomls [] = Some (Inr es)" and u: "validate_unique_names ''binary'' tomls = Some (Inr ())"
      and m: "make_bins w fs F (inferred_bins F root name) root e has_lib tomls = Some (Inr (ts, ws1))"
    unfolding eq by auto
  have l: "list_all2 (target_for (\<lambda>k. k = TargetBin)) tomls ts" using make [of tomls] named [OF c] m by auto
  have "kind_ok (\<lambda>k. k = TargetBin) tomls ts []"
    by (rule made_kind_ok [where ps = "map (\<lambda>t. ([RootDir], t)) tomls"])
      (use l named [OF c] validate_unique_names_spec(2) [OF _ u] in \<open>auto simp: comp_def is_absolute_def\<close>)
  moreover have "\<forall>t \<in> set ts. \<exists>toml \<in> set tomls. tt_name toml = Some (tg_name t)"
    using l by (induction rule: list_all2_induct) (auto simp: target_for_def)
  ultimately show "kind_ok (\<lambda>k. k = TargetBin) (listed_bins F root bins auto e name) ts [] \<and> (\<forall>t \<in> set ts. \<not> is_bad_artifact_name (tg_name t))"
    using named [OF c] by (auto simp: tomls)
qed


lemma unwrap_eq_Inr: "unwrap x = Some (Inr a) \<longleftrightarrow> x = Some a"
  by (simp add: unwrap_def split: option.splits)

lemma clean_lib_ok:
  assumes "is_absolute root"
  shows "clean_lib w fs F lib root name e \<noteq> None"
    and "clean_lib w fs F lib root name e = Some (Inr (Some t, ws)) \<Longrightarrow>
      \<not> is_blank (tg_name t) \<and> (\<exists>ks. tg_kind t = TargetLib ks) \<and> (\<exists>p. tg_src_path t = SourcePath p \<and> is_absolute p)"
proof -
  have path: "is_absolute p" if "lib_path F root e l (inferred_lib F root) n = Inr (p, x)" for l n p x
    using that assms inferred_lib_absolute [OF assms]
    by (auto simp: lib_path_def Let_def split: option.splits if_splits)
  have new: "lib_target n kinds p e \<noteq> None" if "is_absolute p" for n kinds p
    using that by (simp add: lib_target_def with_path_def)
  have tail: "bindR (Some (lib_path F root e l (inferred_lib F root) n)) (\<lambda>(p, ws). bindR (Some (lib_crate_types l)) (\<lambda>kinds.
      bindR (unwrap (lib_target n kinds p e)) (\<lambda>t. bindR (Some (configure_target w fs l t)) (\<lambda>t. Some (Inr (Some t, ws)))))) \<noteq> None"
    for l n
  proof (cases "lib_path F root e l (inferred_lib F root) n")
    case (Inr x)
    obtain p ws where x: "x = (p, ws)" by (cases x)
    have "is_absolute p" using path Inr x by blast
    then have "unwrap (lib_target n kinds p e) \<noteq> (None :: (target_error, target) run)" for kinds
      using new [of p n kinds] by (auto simp: unwrap_def)
    with Inr x show ?thesis by (cases "lib_crate_types l") (auto simp: bindR_eq_None)
  qed simp
  show "clean_lib w fs F lib root name e \<noteq> None"
  proof (cases "lib_toml lib (inferred_lib F root) name")
    case (Inr l')
    show ?thesis
    proof (cases l')
      case (Some l)
      with Inr tail [of l] show ?thesis
        by (cases "tt_name l") (simp_all add: clean_lib_def Let_def validate_has_name_def)
    qed (simp add: clean_lib_def Inr)
  qed (simp add: clean_lib_def)
  assume "clean_lib w fs F lib root name e = Some (Inr (Some t, ws))"
  then obtain l n p x kinds t0 where "has_name l" "tt_name l = Some n"
      "lib_path F root e l (inferred_lib F root) n = Inr (p, x)" "lib_target n kinds p e = Some t0"
      "configure_target w fs l t0 = Inr t"
    by (auto simp: clean_lib_def Let_def unwrap_eq_Inr split: option.splits)
  moreover from this path have "is_absolute p" by blast
  ultimately show "\<not> is_blank (tg_name t) \<and> (\<exists>ks. tg_kind t = TargetLib ks) \<and>
      (\<exists>p. tg_src_path t = SourcePath p \<and> is_absolute p)"
    by (auto simp: configure_target_keeps lib_target_def with_path_def new_target_def)
qed

lemma custom_build_targets_ok:
  assumes "is_absolute root"
  shows "custom_build_targets F m name root e build meta \<noteq> None"
    and "custom_build_targets F m name root e build meta = Some (Inr ts) \<Longrightarrow>
      length ts \<le> 1 \<and> (\<forall>t \<in> set ts. tg_kind t = TargetCustomBuild)"
  using assms
  by (auto simp: custom_build_targets_def custom_build_target_def metabuild_target_def with_path_def bindR_eq_None
      split: option.splits if_splits)

text \<open>The lists of a kind stand out of the list of all targets.\<close>

definition targets_ok :: "target list \<Rightarrow> bool" where
  "targets_ok ts \<longleftrightarrow>
     length (filter is_lib ts) \<le> 1 \<and> length (filter is_custom_build ts) \<le> 1 \<and>
     distinct (map tg_name (filter is_bin ts)) \<and> distinct (map tg_name (filter is_example ts)) \<and>
     distinct (map tg_name (filter is_test ts)) \<and> distinct (map tg_name (filter is_bench ts)) \<and>
     (\<forall>t \<in> set ts. \<not> is_custom_build t \<longrightarrow> \<not> is_blank (tg_name t)) \<and>
     (\<forall>t \<in> set ts. is_bin t \<longrightarrow> \<not> is_bad_artifact_name (tg_name t))"

lemma kind_ok_D:
  assumes "kind_ok K tomls ts es"
  shows "distinct (map tg_name ts)" "\<forall>t \<in> set ts. \<not> is_blank (tg_name t)" "\<forall>t \<in> set ts. K (tg_kind t)"
    "es = [] \<Longrightarrow> map tt_name tomls = map (Some \<circ> tg_name) ts"
  using assms by (auto simp: kind_ok_def)

fun kind_index :: "target_kind \<Rightarrow> nat" where
  "kind_index (TargetLib _) = 0"
| "kind_index TargetBin = 1"
| "kind_index TargetExampleBin = 2"
| "kind_index (TargetExampleLib _) = 2"
| "kind_index TargetTest = 3"
| "kind_index TargetBench = 4"
| "kind_index TargetCustomBuild = 5"

lemma is_kind_index:
  "is_lib = (\<lambda>t. kind_index (tg_kind t) = 0)" "is_bin = (\<lambda>t. kind_index (tg_kind t) = 1)"
  "is_example = (\<lambda>t. kind_index (tg_kind t) = 2)" "is_test = (\<lambda>t. kind_index (tg_kind t) = 3)"
  "is_bench = (\<lambda>t. kind_index (tg_kind t) = 4)" "is_custom_build = (\<lambda>t. kind_index (tg_kind t) = 5)"
  by (auto simp: target_kind_defs fun_eq_iff elim: kind_index.elims split: target_kind.splits)

lemma filter_kind_index:
  "\<forall>t \<in> set us. kind_index (tg_kind t) = i \<Longrightarrow>
     filter (\<lambda>t. kind_index (tg_kind t) = j) us = (if i = j then us else [])"
  by (induction us) auto

lemma filter_kinds:
  assumes "\<forall>t \<in> set ls. kind_index (tg_kind t) = 0" and "\<forall>t \<in> set bs. kind_index (tg_kind t) = 1"
    and "\<forall>t \<in> set xs. kind_index (tg_kind t) = 2" and "\<forall>t \<in> set ts. kind_index (tg_kind t) = 3"
    and "\<forall>t \<in> set bns. kind_index (tg_kind t) = 4" and "\<forall>t \<in> set ss. kind_index (tg_kind t) = 5"
  shows "filter is_lib (ls @ bs @ xs @ ts @ bns @ ss) = ls" "filter is_bin (ls @ bs @ xs @ ts @ bns @ ss) = bs"
    "filter is_example (ls @ bs @ xs @ ts @ bns @ ss) = xs" "filter is_test (ls @ bs @ xs @ ts @ bns @ ss) = ts"
    "filter is_bench (ls @ bs @ xs @ ts @ bns @ ss) = bns" "filter is_custom_build (ls @ bs @ xs @ ts @ bns @ ss) = ss"
  unfolding is_kind_index filter_append
    filter_kind_index [OF assms(1)] filter_kind_index [OF assms(2)] filter_kind_index [OF assms(3)]
    filter_kind_index [OF assms(4)] filter_kind_index [OF assms(5)] filter_kind_index [OF assms(6)]
  by simp_all

section \<open>What the manifest gives\<close>

text \<open>The names of the targets of each kind are those that were listed or inferred.\<close>

abbreviation listed_in :: "fs_ops \<Rightarrow> path \<Rightarrow> toml_target list option \<Rightarrow> bool option \<Rightarrow> edition \<Rightarrow> string \<Rightarrow> string \<Rightarrow> toml_target list" where
  "listed_in F root listed auto e dir what \<equiv>
     fst (toml_targets_and_inferred listed (infer_from_directory F (child root dir)) root auto e what)"

definition all_listed :: "fs_ops \<Rightarrow> toml_sections \<Rightarrow> toml_package \<Rightarrow> string \<Rightarrow> path \<Rightarrow> edition \<Rightarrow> target list \<Rightarrow> bool" where
  "all_listed F m package name root e ts \<longleftrightarrow>
     map (Some \<circ> tg_name) (filter is_bin ts) = map tt_name (listed_bins F root (tm_bin m) (pk_autobins package) e name) \<and>
     map (Some \<circ> tg_name) (filter is_example ts) =
       map tt_name (listed_in F root (tm_example m) (pk_autoexamples package) e ''examples'' ''example'') \<and>
     map (Some \<circ> tg_name) (filter is_test ts) =
       map tt_name (listed_in F root (tm_test m) (pk_autotests package) e ''tests'' ''test'') \<and>
     map (Some \<circ> tg_name) (filter is_bench ts) =
       map tt_name (listed_in F root (tm_bench m) (pk_autobenches package) e ''benches'' ''bench'')"

lemma toml_targets_cases:
  assumes "toml_targets w fs F m name root e build meta = Some (Inr (ts, ws, es))"
  obtains lib ws1 package bins ws2 es2 examples ws3 es3 tests ws4 es4 benches ws5 es5 scripts
  where "clean_lib w fs F (tm_lib m) root name e = Some (Inr (lib, ws1))"
    "opt_or (tm_package m) (tm_project m) = Some package"
    "clean_bins w fs F (tm_bin m) root name e (pk_autobins package) (lib \<noteq> None) = Some (Inr (bins, ws2, es2))"
    "clean_examples w fs F (tm_example m) root e (pk_autoexamples package) = Some (Inr (examples, ws3, es3))"
    "clean_tests w fs F (tm_test m) root e (pk_autotests package) = Some (Inr (tests, ws4, es4))"
    "clean_benches w fs F (tm_bench m) root e (pk_autobenches package) = Some (Inr (benches, ws5, es5))"
    "custom_build_targets F m (pk_name package) root e build meta = Some (Inr scripts)"
    "ts = (case lib of Some t \<Rightarrow> [t] | None \<Rightarrow> []) @ bins @ examples @ tests @ benches @ scripts"
    "es = es2 @ es3 @ es4 @ es5"
  using assms by (auto simp: toml_targets_def)

lemma toml_targets_no_panic:
  assumes "is_absolute root"
  shows "toml_targets w fs F m name root e build meta \<noteq> None"
  using clean_lib_ok(1) [OF assms] clean_bins_ok(1) [OF assms] clean_examples_ok(1) [OF assms] clean_tests_ok(1) [OF assms]
    clean_benches_ok(1) [OF assms] custom_build_targets_ok(1) [OF assms]
  by (auto simp: toml_targets_def bindR_eq_None simp del: not_None_eq split: option.splits)

text \<open>C26: reading the targets of a package whose directory is absolute never panics: no target without a name is
  asked for it, and no target gets a relative path.  If it succeeds, the package has at most one library
  and one build script, the names of its binaries, examples, tests and benchmarks are not empty and each occurs once in
  its kind, and no binary has the name of a directory of the build.  If no problem was reported, the targets of each
  kind are exactly those of the manifest and, where discovery is on, of the directories.\<close>

theorem toml_targets_valid:
  assumes "is_absolute root"
  shows "toml_targets w fs F m name root e build meta \<noteq> None \<and>
    (\<forall>ts ws es. toml_targets w fs F m name root e build meta = Some (Inr (ts, ws, es)) \<longrightarrow>
      targets_ok ts \<and> (\<exists>package. opt_or (tm_package m) (tm_project m) = Some package \<and>
        (es = [] \<longrightarrow> all_listed F m package name root e ts)))"
proof (intro conjI allI impI)
  show "toml_targets w fs F m name root e build meta \<noteq> None" by (rule toml_targets_no_panic [OF assms])
next
  fix ts ws es
  assume "toml_targets w fs F m name root e build meta = Some (Inr (ts, ws, es))"
  then obtain lib ws1 package bins ws2 es2 examples ws3 es3 tests ws4 es4 benches ws5 es5 scripts where
    l: "clean_lib w fs F (tm_lib m) root name e = Some (Inr (lib, ws1))"
    and p: "opt_or (tm_package m) (tm_project m) = Some package"
    and b: "clean_bins w fs F (tm_bin m) root name e (pk_autobins package) (lib \<noteq> None) = Some (Inr (bins, ws2, es2))"
    and x: "clean_examples w fs F (tm_example m) root e (pk_autoexamples package) = Some (Inr (examples, ws3, es3))"
    and t: "clean_tests w fs F (tm_test m) root e (pk_autotests package) = Some (Inr (tests, ws4, es4))"
    and n: "clean_benches w fs F (tm_bench m) root e (pk_autobenches package) = Some (Inr (benches, ws5, es5))"
    and s: "custom_build_targets F m (pk_name package) root e build meta = Some (Inr scripts)"
    and ts: "ts = (case lib of Some t \<Rightarrow> [t] | None \<Rightarrow> []) @ bins @ examples @ tests @ benches @ scripts"
    and es: "es = es2 @ es3 @ es4 @ es5"
    by (rule toml_targets_cases)
  let ?libs = "case lib of Some t \<Rightarrow> [t] | None \<Rightarrow> []"
  note ok = kind_ok_D [OF clean_bins_ok(2) [OF assms b, THEN conjunct1]] kind_ok_D [OF clean_examples_ok(2) [OF assms x]]
    kind_ok_D [OF clean_tests_ok(2) [OF assms t]] kind_ok_D [OF clean_benches_ok(2) [OF assms n]]
  have libs: "\<forall>t \<in> set ?libs. kind_index (tg_kind t) = 0 \<and> \<not> is_blank (tg_name t)" "length ?libs \<le> 1"
    using l by (auto dest!: clean_lib_ok(2) [OF assms] split: option.splits)
  have index: "\<forall>t \<in> set bins. kind_index (tg_kind t) = 1" "\<forall>t \<in> set examples. kind_index (tg_kind t) = 2"
      "\<forall>t \<in> set tests. kind_index (tg_kind t) = 3" "\<forall>t \<in> set benches. kind_index (tg_kind t) = 4"
      "\<forall>t \<in> set scripts. kind_index (tg_kind t) = 5"
    using ok(3) ok(7) ok(11) ok(15) custom_build_targets_ok(2) [OF assms s] by auto
  have parts: "filter is_lib ts = ?libs" "filter is_bin ts = bins" "filter is_example ts = examples"
      "filter is_test ts = tests" "filter is_bench ts = benches" "filter is_custom_build ts = scripts"
    unfolding ts
    by (rule filter_kinds [OF _ index]; use libs(1) in blast)+
  have "\<not> is_blank (tg_name t)" if "t \<in> set ts" "\<not> is_custom_build t" for t
  proof -
    have "t \<notin> set scripts" using that(2) custom_build_targets_ok(2) [OF assms s] by (auto simp: is_custom_build_def)
    with that(1) have "t \<in> set ?libs \<or> t \<in> set bins \<or> t \<in> set examples \<or> t \<in> set tests \<or> t \<in> set benches"
      unfolding ts by auto
    then show ?thesis using libs ok by blast
  qed
  moreover have "\<not> is_bad_artifact_name (tg_name t)" if "t \<in> set ts" "is_bin t" for t
  proof -
    have "t \<in> set (filter is_bin ts)" using that by simp
    then show ?thesis unfolding parts using clean_bins_ok(2) [OF assms b] by blast
  qed
  ultimately show "targets_ok ts"
    unfolding targets_ok_def parts using libs(2) ok custom_build_targets_ok(2) [OF assms s] by blast
  show "\<exists>package. opt_or (tm_package m) (tm_project m) = Some package \<and> (es = [] \<longrightarrow> all_listed F m package name root e ts)"
    using p ok es by (auto simp: all_listed_def parts)
qed


text \<open>A package with a library, a binary and a test in their usual places, and one more binary in the manifest.\<close>

definition demo_root :: path where
  "demo_root = [RootDir, NormalComp ''app'']"

definition demo_fs :: fs_ops where
  "demo_fs =
     \<lparr>fs_exists = (\<lambda>p. p \<in> set [demo_root @ [NormalComp ''src'', NormalComp ''lib.rs''],
        demo_root @ [NormalComp ''src'', NormalComp ''main.rs'']]),
      fs_is_file = (\<lambda>_. False),
      fs_read_dir = (\<lambda>p. if p = demo_root @ [NormalComp ''tests'']
        then Some [\<lparr>de_name = Some ''smoke.rs'', de_is_dir = False\<rparr>, \<lparr>de_name = Some ''.git'', de_is_dir = True\<rparr>] else None)\<rparr>"

definition demo_sections :: toml_sections where
  "demo_sections =
     \<lparr>tm_package = Some \<lparr>pk_name = ''app'', pk_autobins = None, pk_autoexamples = None, pk_autotests = None, pk_autobenches = None\<rparr>,
      tm_project = None, tm_lib = None,
      tm_bin = Some [new_toml_target\<lparr>tt_name := Some ''tool'', tt_path := Some [NormalComp ''tool.rs'']\<rparr>],
      tm_example = None, tm_test = None, tm_bench = None, tm_build_dependencies = None\<rparr>"

lemma demo_targets:
  "map_option (map_sum id (\<lambda>(ts, ws, es). (map tg_name ts, ws, es)))
     (toml_targets demo_channel demo_features demo_fs demo_sections ''app'' demo_root Edition2018 None None) =
   Some (Inr ([''app'', ''tool'', ''app'', ''smoke''], [], []))"
  by code_simp

theorem toml_targets_valid_witness:
  "\<exists>ts. toml_targets demo_channel demo_features demo_fs demo_sections ''app'' demo_root Edition2018 None None =
     Some (Inr (ts, [], [])) \<and> targets_ok ts"
proof -
  have "is_absolute demo_root" by (simp add: is_absolute_def demo_root_def)
  note valid = toml_targets_valid [OF this, of demo_channel demo_features demo_fs demo_sections "''app''" Edition2018 None None]
  let ?r = "toml_targets demo_channel demo_features demo_fs demo_sections ''app'' demo_root Edition2018 None None"
  obtain y where y: "?r = Some y" using valid by blast
  with demo_targets obtain x where "y = Inr x" by (cases y) auto
  moreover obtain ts ws es where "x = (ts, ws, es)" by (cases x)
  ultimately show ?thesis using y demo_targets valid by simp
qed

end
