(* ===== verification/Job_Queue.thy ===== *)
theory Job_Queue
  imports Scheduler Profiles
begin

text \<open>
  The job queue, \<open>src/cargo/core/compiler/job_queue.rs\<close>: the loop that takes units of work from the
  dependency queue, runs as many of them as the job server gives tokens for, and reacts to
  the messages of the jobs and of the job server.  The order of the messages is up to the threads: a run is any
  sequence of messages that the running jobs and the job server can send.  What a job does is not modelled, nor are
  the progress bar and the errors of the terminal while warnings or status lines are printed; the status lines
  are a list.  A message that is only shown is one \<open>Output\<close>, with the error of showing it if there is one; so is, in a
  dry run, the message that fills in the command of an invocation of the plan (\<open>BuildPlan::update\<close>, which
  looks the unit of the job up by its build key: that it is there is shown where the plan is made, in
  \<open>Compile_Units\<close>).
\<close>

section \<open>State\<close>

text \<open>A key has its package, its mode, and its target, profile and platform, which the queue only compares.\<close>

record ('p, 'i) job_key =
  jk_pkg :: 'p
  jk_mode :: compile_mode
  jk_unit :: 'i

record pending_build =
  pb_amt :: nat
  pb_fresh :: freshness

datatype 'p status_line = Documenting 'p | Checking 'p | Compiling 'p | FreshLine 'p

datatype 'e build_error = BuildFailed | JobError 'e | TokenError 'e | OutputError 'e | JobsLeft

text \<open>\<open>JobQueue\<close> and the locals of \<open>drain_the_queue\<close>: tokens are counted, and so are the requests for them.\<close>

record ('p, 'i, 'j, 'e) job_queue =
  jq_queue :: "(('p, 'i) job_key, ('j \<times> freshness) list) dependency_queue"
  jq_active :: "('p, 'i) job_key list"
  jq_pending :: "(('p, 'i) job_key \<times> pending_build) list"
  jq_compiled :: "'p set"
  jq_documented :: "'p set"
  jq_counts :: "'p \<Rightarrow> nat option"
  jq_tokens :: nat
  jq_requests :: nat
  jq_todo :: "(('p, 'i) job_key \<times> 'j \<times> freshness) list"
  jq_error :: "'e build_error option"
  jq_log :: "'p status_line list"

datatype ('k, 'e) message = Output "'e option" | Token "'e option" | Finish 'k "'e option"

definition new_job_queue :: "('p, 'i, 'j, 'e) job_queue" where
  "new_job_queue =
     \<lparr>jq_queue = new_queue, jq_active = [], jq_pending = [], jq_compiled = {}, jq_documented = {},
      jq_counts = (\<lambda>_. None), jq_tokens = 0, jq_requests = 0, jq_todo = [], jq_error = None, jq_log = []\<rparr>"

section \<open>Enqueueing\<close>

text \<open>The edges of the job graph: a test does not wait for the binaries it will run.\<close>

definition key_dependencies :: "('k \<Rightarrow> bool) \<Rightarrow> ('k \<Rightarrow> bool) \<Rightarrow> ('k \<Rightarrow> 'k list) \<Rightarrow> 'k \<Rightarrow> 'k list" where
  "key_dependencies is_test is_bin dep_targets key =
     filter (\<lambda>d. \<not> (is_test key \<and> is_bin d)) (dep_targets key)"

definition push_job :: "'k \<Rightarrow> 'j \<times> freshness \<Rightarrow> ('k, ('j \<times> freshness) list) dependency_queue \<Rightarrow>
    ('k, ('j \<times> freshness) list) dependency_queue" where
  "push_job key j q =
     (case map_of (dep_map q) key of
        None \<Rightarrow> q
      | Some (ds, jobs) \<Rightarrow> q\<lparr>dep_map := AList.update key (ds, jobs @ [j]) (dep_map q)\<rparr>)"

definition enqueue ::
    "('p, 'i) job_key \<Rightarrow> ('p, 'i) job_key list \<Rightarrow> 'j \<Rightarrow> freshness \<Rightarrow> ('p, 'i, 'j, 'e) job_queue \<Rightarrow> ('p, 'i, 'j, 'e) job_queue" where
  "enqueue key deps job fresh s =
     s\<lparr>jq_queue := push_job key (job, fresh) (fst (queue Fresh key [] deps (jq_queue s))),
       jq_counts := (jq_counts s)(jk_pkg key \<mapsto> (case jq_counts s (jk_pkg key) of None \<Rightarrow> 0 | Some n \<Rightarrow> n) + 1)\<rparr>"

section \<open>One turn of the loop\<close>

text \<open>The body of the loop over \<open>dequeue\<close>.\<close>

definition push_todo ::
    "freshness \<Rightarrow> ('p, 'i) job_key \<Rightarrow> 'j \<times> freshness \<Rightarrow> ('p, 'i, 'j, 'e) job_queue \<Rightarrow> ('p, 'i, 'j, 'e) job_queue" where
  "push_todo fresh key jf s =
     (case jf of (job, f) \<Rightarrow>
        let s = s\<lparr>jq_todo := jq_todo s @ [(key, job, combine f fresh)]\<rparr>
        in if jq_active s \<noteq> [] \<or> jq_todo s \<noteq> [] then s\<lparr>jq_requests := Suc (jq_requests s)\<rparr> else s)"

definition learn ::
    "freshness \<Rightarrow> ('p, 'i) job_key \<Rightarrow> ('j \<times> freshness) list \<Rightarrow> ('p, 'i, 'j, 'e) job_queue \<Rightarrow> ('p, 'i, 'j, 'e) job_queue" where
  "learn fresh key jobs s =
     (let total_fresh = fold (\<lambda>(_, f) fr. combine f fr) jobs fresh;
          s = s\<lparr>jq_pending := AList.update key \<lparr>pb_amt = length jobs, pb_fresh = total_fresh\<rparr> (jq_pending s)\<rparr>
      in fold (push_todo fresh key) jobs s)"

function dequeue_all :: "('p, 'i, 'j, 'e) job_queue \<Rightarrow> ('p, 'i, 'j, 'e) job_queue option" where
  "dequeue_all s =
     (case dequeue (jq_queue s) of
        None \<Rightarrow> None
      | Some (q, None) \<Rightarrow> Some (s\<lparr>jq_queue := q\<rparr>)
      | Some (q, Some (fresh, key, jobs)) \<Rightarrow> dequeue_all (learn fresh key jobs (s\<lparr>jq_queue := q\<rparr>)))"
  by pat_completeness auto

text \<open>A token is requested for every job, the first one included: the job is in the list already when the
  test is made.\<close>

lemma push_todo_fold:
  "fold (push_todo fresh key) jobs s =
     s\<lparr>jq_todo := jq_todo s @ map (\<lambda>(job, f). (key, job, combine f fresh)) jobs,
       jq_requests := jq_requests s + length jobs\<rparr>"
  by (induction jobs arbitrary: s) (auto simp: push_todo_def Let_def)

lemma learn_eq:
  "learn fresh key jobs s =
     s\<lparr>jq_pending := AList.update key
         \<lparr>pb_amt = length jobs, pb_fresh = fold (\<lambda>(_, f) fr. combine f fr) jobs fresh\<rparr> (jq_pending s),
       jq_todo := jq_todo s @ map (\<lambda>(job, f). (key, job, combine f fresh)) jobs,
       jq_requests := jq_requests s + length jobs\<rparr>"
  by (simp add: learn_def push_todo_fold Let_def)

lemma length_delete_less: "map_of m k = Some v \<Longrightarrow> length (AList.delete k m) < length m"
  by (induction m) (auto simp: le_imp_less_Suc length_delete_le)

lemma dequeue_shrinks:
  "dequeue q = Some (q', Some x) \<Longrightarrow> length (dep_map q') < length (dep_map q)"
  by (auto simp: dequeue_def length_delete_less split: if_splits option.splits)

termination dequeue_all
  by (relation "measure (\<lambda>s. length (dep_map (jq_queue s)))") (auto dest: dequeue_shrinks simp: learn_eq)

declare dequeue_all.simps [simp del]

fun is_doc :: "compile_mode \<Rightarrow> bool" where
  "is_doc (ModeDoc _) = True"
| "is_doc ModeDoctest = True"
| "is_doc _ = False"

fun is_check :: "compile_mode \<Rightarrow> bool" where
  "is_check (ModeCheck _) = True"
| "is_check _ = False"

definition note_working_on ::
    "('p, 'i) job_key \<Rightarrow> freshness \<Rightarrow> ('p, 'i, 'j, 'e) job_queue \<Rightarrow> ('p, 'i, 'j, 'e) job_queue option" where
  "note_working_on key fresh s =
     (let p = jk_pkg key; mode = jk_mode key
      in if (p \<in> jq_compiled s \<and> \<not> is_doc mode) \<or> (p \<in> jq_documented s \<and> is_doc mode) then Some s
         else case fresh of
                Dirty \<Rightarrow>
                  if is_doc mode then
                    if \<not> is_any_test mode then
                      Some (s\<lparr>jq_documented := insert p (jq_documented s), jq_log := jq_log s @ [Documenting p]\<rparr>)
                    else Some s
                  else Some (s\<lparr>jq_compiled := insert p (jq_compiled s),
                               jq_log := jq_log s @ [if is_check mode then Checking p else Compiling p]\<rparr>)
              | Fresh \<Rightarrow>
                  (case jq_counts s p of
                     None \<Rightarrow> None
                   | Some n \<Rightarrow>
                       if n = 0 \<and> \<not> (mode = ModeDoctest \<and> p \<in> jq_compiled s) then
                         Some (s\<lparr>jq_compiled := insert p (jq_compiled s), jq_log := jq_log s @ [FreshLine p]\<rparr>)
                       else Some s))"

text \<open>\<open>run\<close>: the job is started, or run on the spot if it is fresh; either way it sends \<open>Finish\<close> later.  The
  count of jobs of a package must be there and not run below zero.\<close>

definition run_job ::
    "bool \<Rightarrow> ('p, 'i) job_key \<Rightarrow> freshness \<Rightarrow> ('p, 'i, 'j, 'e) job_queue \<Rightarrow> ('p, 'i, 'j, 'e) job_queue option" where
  "run_job build_plan key fresh s =
     (case jq_counts s (jk_pkg key) of
        None \<Rightarrow> None
      | Some n \<Rightarrow>
          if n = 0 then None
          else
            let s = s\<lparr>jq_active := jq_active s @ [key], jq_counts := (jq_counts s)(jk_pkg key \<mapsto> n - 1)\<rparr>
            in if build_plan then Some s else note_working_on key fresh s)"

fun spawn_all ::
    "bool \<Rightarrow> (('p, 'i) job_key \<times> 'j \<times> freshness) list \<Rightarrow> ('p, 'i, 'j, 'e) job_queue \<Rightarrow> ('p, 'i, 'j, 'e) job_queue option" where
  "spawn_all build_plan [] s = Some (s\<lparr>jq_todo := []\<rparr>)"
| "spawn_all build_plan ((key, job, fresh) # todo) s =
     (if jq_error s = None \<and> length (jq_active s) < jq_tokens s + 1 then
        Option.bind (run_job build_plan key fresh s) (spawn_all build_plan todo)
      else Some (s\<lparr>jq_todo := (key, job, fresh) # todo\<rparr>))"

text \<open>The part of a turn before the test whether anything is running.\<close>

definition schedule :: "bool \<Rightarrow> ('p, 'i, 'j, 'e) job_queue \<Rightarrow> ('p, 'i, 'j, 'e) job_queue option" where
  "schedule build_plan s =
     Option.bind (dequeue_all s) (\<lambda>s. spawn_all build_plan (jq_todo s) s)"

definition drop_tokens :: "('p, 'i, 'j, 'e) job_queue \<Rightarrow> ('p, 'i, 'j, 'e) job_queue" where
  "drop_tokens s = s\<lparr>jq_tokens := min (jq_tokens s) (length (jq_active s) - 1)\<rparr>"

text \<open>\<open>finish\<close>; the \<open>unwrap\<close>, the subtraction and the assertions of the queue may fail.\<close>

definition finish_key ::
    "('p, 'i) job_key \<Rightarrow> ('p, 'i, 'j, 'e) job_queue \<Rightarrow> ('p, 'i, 'j, 'e) job_queue option" where
  "finish_key key s =
     (case map_of (jq_pending s) key of
        None \<Rightarrow> None
      | Some st \<Rightarrow>
          if pb_amt st = 0 then None
          else
            let st = st\<lparr>pb_amt := pb_amt st - 1\<rparr>;
                s = s\<lparr>jq_pending := AList.update key st (jq_pending s)\<rparr>
            in if pb_amt st = 0 then
                 map_option (\<lambda>q. s\<lparr>jq_queue := q\<rparr>) (finish key (pb_fresh st) (jq_queue s))
               else Some s)"

text \<open>The reaction to a message: a panic is the outer \<open>None\<close>, an error that ends the loop at once is \<open>Inl\<close>.\<close>

definition handle ::
    "(('p, 'i) job_key, 'e) message \<Rightarrow> ('p, 'i, 'j, 'e) job_queue \<Rightarrow> ('e build_error, ('p, 'i, 'j, 'e) job_queue) run" where
  "handle msg s =
     (case msg of
        Output None \<Rightarrow> Some (Inr s)
      | Output (Some e) \<Rightarrow> Some (Inl (OutputError e))
      | Token None \<Rightarrow> Some (Inr (s\<lparr>jq_tokens := Suc (jq_tokens s)\<rparr>))
      | Token (Some e) \<Rightarrow> Some (Inl (TokenError e))
      | Finish key result \<Rightarrow>
          if key \<notin> set (jq_active s) then None
          else
            let s = s\<lparr>jq_active := remove1 key (jq_active s)\<rparr>
            in if jq_active s \<noteq> [] \<and> jq_tokens s = 0 then None
               else
                 let s = (if jq_active s \<noteq> [] then s\<lparr>jq_tokens := jq_tokens s - 1\<rparr> else s)
                 in case result of
                      None \<Rightarrow> map_option Inr (finish_key key s)
                    | Some e \<Rightarrow>
                        Some (Inr (s\<lparr>jq_error := Some (if jq_active s \<noteq> [] then BuildFailed else JobError e)\<rparr>)))"

definition drain_result :: "('p, 'i, 'j, 'e) job_queue \<Rightarrow> 'e build_error + unit" where
  "drain_result s =
     (if is_empty_queue (jq_queue s) then Inr ()
      else (case jq_error s of Some e \<Rightarrow> Inl e | None \<Rightarrow> Inl JobsLeft))"


section \<open>The invariant of the loop\<close>

text \<open>The jobs of a key in the queue, and how many jobs of a key are started or about to be.\<close>

definition jobs_of :: "('k, 'j list) dependency_queue \<Rightarrow> 'k \<Rightarrow> 'j list" where
  "jobs_of q k = (case map_of (dep_map q) k of None \<Rightarrow> [] | Some (_, jobs) \<Rightarrow> jobs)"

definition here :: "('p, 'i, 'j, 'e) job_queue \<Rightarrow> ('p, 'i) job_key \<Rightarrow> nat" where
  "here s k = count_list (jq_active s) k + count_list (map fst (jq_todo s)) k"

definition amt :: "('p, 'i, 'j, 'e) job_queue \<Rightarrow> ('p, 'i) job_key \<Rightarrow> nat" where
  "amt s k = (case map_of (jq_pending s) k of None \<Rightarrow> 0 | Some st \<Rightarrow> pb_amt st)"

text \<open>How many jobs are not started, of the keys with a property.\<close>

definition not_started :: "(('p, 'i) job_key \<Rightarrow> bool) \<Rightarrow> ('p, 'i, 'j, 'e) job_queue \<Rightarrow> nat" where
  "not_started P s =
     (\<Sum>k | k \<in> waiting (jq_queue s) \<and> P k. length (jobs_of (jq_queue s) k)) +
     length (filter P (map fst (jq_todo s)))"

definition count_of :: "('p, 'i, 'j, 'e) job_queue \<Rightarrow> 'p \<Rightarrow> nat" where
  "count_of s p = (case jq_counts s p of None \<Rightarrow> 0 | Some n \<Rightarrow> n)"

definition loop_ok :: "('p, 'i, 'j, 'e) job_queue \<Rightarrow> bool" where
  "loop_ok s \<longleftrightarrow>
     building_ok (jq_queue s) \<and>
     (\<forall>k \<in> waiting (jq_queue s). jobs_of (jq_queue s) k \<noteq> []) \<and>
     (\<forall>k \<in> pending (jq_queue s). 0 < amt s k \<and> here s k \<le> amt s k) \<and>
     (\<forall>k. k \<notin> pending (jq_queue s) \<longrightarrow> here s k = 0) \<and>
     (if jq_error s = None then \<forall>k \<in> pending (jq_queue s). amt s k = here s k
      else \<exists>k \<in> pending (jq_queue s). here s k < amt s k) \<and>
     (\<forall>p. count_of s p = not_started (\<lambda>k. jk_pkg k = p) s) \<and>
     length (jq_active s) \<le> jq_tokens s + 1"

lemma loop_okD:
  assumes "loop_ok s"
  shows "building_ok (jq_queue s)"
    and "k \<in> waiting (jq_queue s) \<Longrightarrow> jobs_of (jq_queue s) k \<noteq> []"
    and "k \<in> pending (jq_queue s) \<Longrightarrow> 0 < amt s k \<and> here s k \<le> amt s k"
    and "k \<notin> pending (jq_queue s) \<Longrightarrow> here s k = 0"
    and "count_of s p = not_started (\<lambda>k. jk_pkg k = p) s"
    and "length (jq_active s) \<le> jq_tokens s + 1"
  using assms by (auto simp: loop_ok_def)

lemma finite_waiting [simp]: "finite (waiting q)"
  by (simp add: waiting_def)

text \<open>A job moves from the queue to the list of jobs to start.\<close>

lemma sum_remove_waiting:
  assumes "key \<in> waiting q"
  shows "(\<Sum>k | k \<in> waiting q \<and> P k. f k) =
    (\<Sum>k | k \<in> waiting q - {key} \<and> P k. f k) + (if P key then f key else (0 :: nat))"
proof -
  have "{k. k \<in> waiting q \<and> P k} =
      (if P key then insert key {k. k \<in> waiting q - {key} \<and> P k} else {k. k \<in> waiting q - {key} \<and> P k})"
    using assms by auto
  then show ?thesis by (simp add: finite_subset)
qed


definition dequeued :: "('k, 'v) dependency_queue \<Rightarrow> 'k \<Rightarrow> ('k, 'v) dependency_queue" where
  "dequeued q key = q\<lparr>dep_map := AList.delete key (dep_map q), pending := insert key (pending q)\<rparr>"

lemma dequeued_simps [simp]:
  "pending (dequeued q key) = insert key (pending q)"
  "waiting (dequeued q key) = waiting q - {key}"
  "k \<noteq> key \<Longrightarrow> jobs_of (dequeued q key) k = jobs_of q k"
  by (simp_all add: dequeued_def waiting_delete jobs_of_def)

lemma not_started_learn:
  assumes "map_of (dep_map (jq_queue s)) key = Some ({}, jobs)"
  shows "not_started P (learn fresh key jobs (s\<lparr>jq_queue := dequeued (jq_queue s) key\<rparr>)) = not_started P s"
proof -
  have key: "key \<in> waiting (jq_queue s)" and jobs: "jobs_of (jq_queue s) key = jobs"
    using assms by (auto simp: waiting_iff jobs_of_def)
  have "(\<Sum>k | k \<in> waiting (jq_queue s) - {key} \<and> P k. length (jobs_of (dequeued (jq_queue s) key) k))
      = (\<Sum>k | k \<in> waiting (jq_queue s) - {key} \<and> P k. length (jobs_of (jq_queue s) k))"
    by (rule sum.cong) auto
  moreover have "map fst (map (\<lambda>(job, f). (key, job, combine f fresh)) jobs) = replicate (length jobs) key"
    by (induction jobs) auto
  ultimately show ?thesis
    using sum_remove_waiting [OF key, where P = P and f = "\<lambda>k. length (jobs_of (jq_queue s) k)"] jobs
    by (simp add: not_started_def learn_eq del: map_map)
qed

lemma loop_ok_learn:
  assumes ok: "loop_ok s" and key: "map_of (dep_map (jq_queue s)) key = Some ({}, jobs)"
  shows "loop_ok (learn fresh key jobs (s\<lparr>jq_queue := dequeued (jq_queue s) key\<rparr>))" (is "loop_ok ?s")
proof -
  have wait: "key \<in> waiting (jq_queue s)" and jobs: "jobs_of (jq_queue s) key = jobs"
    using key by (auto simp: waiting_iff jobs_of_def)
  have fresh: "key \<notin> pending (jq_queue s)"
    using wait loop_okD(1) [OF ok] by (auto simp: building_ok_def)
  have q: "jq_queue ?s = dequeued (jq_queue s) key" "jq_active ?s = jq_active s" "jq_error ?s = jq_error s"
    "jq_counts ?s = jq_counts s" "jq_tokens ?s = jq_tokens s"
    by (simp_all add: learn_eq)
  have rep: "count_list (map fst (map (\<lambda>(job, f). (key, job, combine f fresh)) jobs)) k =
      (if k = key then length jobs else 0)" for k
    by (induction jobs) auto
  have here: "here ?s k = here s k + (if k = key then length jobs else 0)" for k
    using rep [of k] by (simp add: here_def learn_eq del: map_map)
  have amt: "amt ?s k = (if k = key then length jobs else amt s k)" for k
    by (simp add: amt_def learn_eq update_conv')
  have zero: "here s key = 0" by (rule loop_okD(4) [OF ok fresh])
  have some: "jobs \<noteq> []" using loop_okD(2) [OF ok wait] jobs by simp
  have b: "building_ok (jq_queue ?s)"
    using building_ok_dequeue [OF loop_okD(1) [OF ok] key] unfolding q(1) unfolding dequeued_def .
  have w: "jobs_of (jq_queue ?s) k \<noteq> []" if "k \<in> waiting (jq_queue ?s)" for k
    using that loop_okD(2) [OF ok, of k] by (simp add: q)
  have p: "0 < amt ?s k \<and> here ?s k \<le> amt ?s k" if "k \<in> pending (jq_queue ?s)" for k
    using that loop_okD(3) [OF ok, of k] some zero by (auto simp: q here amt)
  have n: "here ?s k = 0" if "k \<notin> pending (jq_queue ?s)" for k
    using that loop_okD(4) [OF ok, of k] by (auto simp: q here)
  have e: "if jq_error ?s = None then \<forall>k \<in> pending (jq_queue ?s). amt ?s k = here ?s k
      else \<exists>k \<in> pending (jq_queue ?s). here ?s k < amt ?s k"
    using ok fresh zero by (auto simp: loop_ok_def q here amt split: if_splits)
  have c: "count_of ?s p = not_started (\<lambda>k. jk_pkg k = p) ?s" for p
    using loop_okD(5) [OF ok, of p] by (simp add: not_started_learn [OF key] count_of_def q)
  have t: "length (jq_active ?s) \<le> jq_tokens ?s + 1" using loop_okD(6) [OF ok] by (simp add: q)
  show ?thesis unfolding loop_ok_def using b w p n e c t by blast
qed

text \<open>The loop over \<open>dequeue\<close> makes only moves of the dependency queue, and leaves nothing that is ready.\<close>

definition left_of :: "('p, 'i, 'j, 'e) job_queue \<Rightarrow> ('p, 'i) job_key \<Rightarrow> nat" where
  "left_of s k = length (jobs_of (jq_queue s) k) + (if k \<in> pending (jq_queue s) then amt s k else 0)"

definition same_jobs :: "('p, 'i, 'j, 'e) job_queue \<Rightarrow> ('p, 'i, 'j, 'e) job_queue \<Rightarrow> bool" where
  "same_jobs s s' \<longleftrightarrow> jq_error s' = jq_error s \<and> left_of s' = left_of s \<and>
     not_started (\<lambda>_. True) s' + length (jq_active s') = not_started (\<lambda>_. True) s + length (jq_active s)"

lemma left_of_learn:
  assumes ok: "loop_ok s" and key: "map_of (dep_map (jq_queue s)) key = Some ({}, jobs)"
  shows "left_of (learn fresh key jobs (s\<lparr>jq_queue := dequeued (jq_queue s) key\<rparr>)) = left_of s"
proof -
  have "key \<in> waiting (jq_queue s)" and jobs: "jobs_of (jq_queue s) key = jobs"
    using key by (auto simp: waiting_iff jobs_of_def)
  then have "key \<notin> pending (jq_queue s)" using loop_okD(1) [OF ok] by (auto simp: building_ok_def)
  moreover have "jobs_of (dequeued (jq_queue s) key) key = []" by (simp add: jobs_of_def dequeued_def)
  ultimately show ?thesis using jobs
    by (auto simp: fun_eq_iff left_of_def learn_eq amt_def update_conv')
qed

lemma dequeue_all_ok:
  assumes "loop_ok s" and "sched_run dequeues finishes q es (jq_queue s)"
  shows "\<exists>s' es'. dequeue_all s = Some s' \<and> loop_ok s' \<and> same_jobs s s' \<and> ready_keys (jq_queue s') = [] \<and>
    sched_run dequeues finishes q es' (jq_queue s') \<and> finished_keys es' = finished_keys es"
  using assms
proof (induction s arbitrary: es rule: dequeue_all.induct)
  case (1 s)
  from loop_okD(1) [OF 1(2)] show ?case
  proof (cases rule: dequeue_cases)
    case idle
    then have "dequeue_all s = Some s" by (subst dequeue_all.simps) simp
    with 1(2,3) idle(2) show ?thesis
      by (intro exI [of _ s] exI [of _ es]) (simp add: same_jobs_def)
  next
    case (ready key jobs)
    let ?fresh = "if key \<in> dirty (jq_queue s) then Dirty else Fresh"
    let ?s = "learn ?fresh key jobs (s\<lparr>jq_queue := dequeued (jq_queue s) key\<rparr>)"
    have d: "dequeue (jq_queue s) = Some (dequeued (jq_queue s) key, Some (?fresh, key, jobs))"
      using ready(2) by (simp add: dequeued_def)
    have eq: "dequeue_all s = dequeue_all ?s" by (subst dequeue_all.simps) (simp add: d)
    have "dequeues (jq_queue s) key (jq_queue ?s)"
      using d by (auto simp: dequeues_def learn_eq)
    with 1(3) have run: "sched_run dequeues finishes q (es @ [Started key]) (jq_queue ?s)"
      by (rule sched_run.started)
    from 1(1) [OF d refl refl refl refl loop_ok_learn [OF 1(2) ready(1)] run]
    obtain s' es' where s': "dequeue_all ?s = Some s'" "loop_ok s'" "same_jobs ?s s'" "ready_keys (jq_queue s') = []"
        "sched_run dequeues finishes q es' (jq_queue s')" "finished_keys es' = finished_keys es"
      by auto
    have "same_jobs s s'"
      using s'(3) unfolding same_jobs_def not_started_learn [OF ready(1)] left_of_learn [OF 1(2) ready(1)]
      by (simp add: learn_eq)
    with s' eq show ?thesis by auto
  qed
qed

section \<open>Starting jobs\<close>

lemma note_working_on_frame:
  assumes "jq_counts s (jk_pkg key) \<noteq> None"
  obtains C D L where "note_working_on key fresh s = Some (s\<lparr>jq_compiled := C, jq_documented := D, jq_log := L\<rparr>)"
proof -
  have "\<exists>s'. note_working_on key fresh s = Some s' \<and>
      s' = s\<lparr>jq_compiled := jq_compiled s', jq_documented := jq_documented s', jq_log := jq_log s'\<rparr>"
    using assms by (cases fresh) (auto simp: note_working_on_def Let_def)
  with that show thesis by metis
qed

lemma loop_ok_frame [simp]:
  "loop_ok (s\<lparr>jq_compiled := C, jq_documented := D, jq_log := L\<rparr>) = loop_ok s"
  "loop_ok (s\<lparr>jq_requests := n\<rparr>) = loop_ok s"
  "not_started P (s\<lparr>jq_compiled := C, jq_documented := D, jq_log := L\<rparr>) = not_started P s"
  "left_of (s\<lparr>jq_compiled := C, jq_documented := D, jq_log := L\<rparr>) = left_of s"
  by (simp_all add: loop_ok_def amt_def here_def count_of_def not_started_def left_of_def fun_eq_iff)

text \<open>A job moves from the list to the running ones; the package count goes down with it.\<close>

definition started_state :: "('p, 'i) job_key \<Rightarrow> (('p, 'i) job_key \<times> 'j \<times> freshness) list \<Rightarrow>
    ('p, 'i, 'j, 'e) job_queue \<Rightarrow> ('p, 'i, 'j, 'e) job_queue" where
  "started_state key todo s =
     s\<lparr>jq_active := jq_active s @ [key], jq_todo := todo,
       jq_counts := (jq_counts s)(jk_pkg key \<mapsto> count_of s (jk_pkg key) - 1)\<rparr>"

lemma loop_ok_started:
  assumes ok: "loop_ok (s\<lparr>jq_todo := (key, job, fresh) # todo\<rparr>)" (is "loop_ok ?s")
    and free: "length (jq_active s) < jq_tokens s + 1"
  shows "jq_counts s (jk_pkg key) = Some (count_of s (jk_pkg key))" "0 < count_of s (jk_pkg key)"
    and "loop_ok (started_state key todo s)"
    and "same_jobs ?s (started_state key todo s)"
proof -
  let ?t = "started_state key todo s"
  have cnt: "count_of s p = not_started (\<lambda>k. jk_pkg k = p) ?s" for p
    using loop_okD(5) [OF ok, of p] by (simp add: count_of_def)
  have ns: "not_started P ?s = not_started P ?t + (if P key then 1 else 0)" for P
    by (simp add: not_started_def started_state_def)
  have here: "here ?t k = here ?s k" for k by (simp add: here_def started_state_def)
  have amt: "amt ?t k = amt ?s k" for k by (simp add: amt_def started_state_def)
  show pos: "0 < count_of s (jk_pkg key)" by (simp add: cnt ns)
  then show "jq_counts s (jk_pkg key) = Some (count_of s (jk_pkg key))"
    by (simp add: count_of_def split: option.splits)
  have q: "jq_queue ?t = jq_queue ?s" "jq_error ?t = jq_error ?s" by (simp_all add: started_state_def)
  have "count_of ?t p = not_started (\<lambda>k. jk_pkg k = p) ?t" for p
    using cnt [of p] pos unfolding ns by (auto simp: count_of_def started_state_def)
  moreover have "length (jq_active ?t) \<le> jq_tokens ?t + 1"
    using free by (simp add: started_state_def)
  ultimately show "loop_ok ?t" using ok unfolding loop_ok_def q here amt by blast
  show "same_jobs ?s ?t"
    by (simp add: same_jobs_def ns left_of_def amt fun_eq_iff) (simp add: started_state_def)
qed

lemma run_job_started:
  assumes "loop_ok (s\<lparr>jq_todo := (key, job, fresh) # todo\<rparr>)" and "length (jq_active s) < jq_tokens s + 1"
  obtains C D L where "run_job build_plan key fresh s =
    Some ((started_state key (jq_todo s) s)\<lparr>jq_compiled := C, jq_documented := D, jq_log := L\<rparr>)"
proof -
  note cnt = loop_ok_started(1,2) [OF assms]
  let ?t = "started_state key (jq_todo s) s"
  have upd: "?t = ?t\<lparr>jq_compiled := jq_compiled s, jq_documented := jq_documented s, jq_log := jq_log s\<rparr>"
    by (simp add: started_state_def)
  have t: "s\<lparr>jq_active := jq_active s @ [key], jq_counts := (jq_counts s)(jk_pkg key \<mapsto> count_of s (jk_pkg key) - 1)\<rparr> = ?t"
    by (simp add: started_state_def)
  have run: "run_job build_plan key fresh s = (if build_plan then Some ?t else note_working_on key fresh ?t)"
    using cnt unfolding run_job_def Let_def by (simp only: option.case less_numeral_extra(3) if_False t) simp
  have "jq_counts ?t (jk_pkg key) \<noteq> None" by (simp add: started_state_def)
  then obtain C D L where "note_working_on key fresh ?t =
      Some (?t\<lparr>jq_compiled := C, jq_documented := D, jq_log := L\<rparr>)"
    by (rule note_working_on_frame)
  with run upd that show thesis by (cases build_plan) metis+
qed

text \<open>The loop that starts jobs stops when there is an error, when nothing is left or when every token is used.\<close>

lemma spawn_all_ok:
  assumes "loop_ok (s\<lparr>jq_todo := todo\<rparr>)"
  shows "\<exists>s'. spawn_all build_plan todo s = Some s' \<and> loop_ok s' \<and> same_jobs (s\<lparr>jq_todo := todo\<rparr>) s' \<and>
    jq_queue s' = jq_queue s \<and> jq_pending s' = jq_pending s \<and>
    (jq_error s' = None \<longrightarrow> jq_todo s' \<noteq> [] \<longrightarrow> jq_active s' \<noteq> [])"
  using assms
proof (induction todo arbitrary: s)
  case Nil
  then show ?case by (simp add: same_jobs_def)
next
  case (Cons t todo)
  obtain key job fresh where t: "t = (key, job, fresh)" by (cases t) auto
  show ?case
  proof (cases "jq_error s = None \<and> length (jq_active s) < jq_tokens s + 1")
    case False
    with Cons.prems t show ?thesis by (auto simp: same_jobs_def)
  next
    case True
    then have free: "length (jq_active s) < jq_tokens s + 1" by simp
    note ok = Cons.prems [unfolded t]
    obtain C D L where run: "run_job build_plan key fresh s =
        Some ((started_state key (jq_todo s) s)\<lparr>jq_compiled := C, jq_documented := D, jq_log := L\<rparr>)"
      by (rule run_job_started [OF ok free])
    let ?s = "(started_state key (jq_todo s) s)\<lparr>jq_compiled := C, jq_documented := D, jq_log := L\<rparr>"
    have s: "?s\<lparr>jq_todo := todo\<rparr> =
        (started_state key todo s)\<lparr>jq_compiled := C, jq_documented := D, jq_log := L\<rparr>"
      by (simp add: started_state_def)
    have "loop_ok (?s\<lparr>jq_todo := todo\<rparr>)"
      unfolding s loop_ok_frame by (rule loop_ok_started(3) [OF ok free])
    moreover have "same_jobs (s\<lparr>jq_todo := t # todo\<rparr>) (?s\<lparr>jq_todo := todo\<rparr>)"
      using loop_ok_started(4) [OF ok free] unfolding s t by (simp add: same_jobs_def)
    ultimately show ?thesis
      using Cons.IH [of ?s] True t run by (auto simp: same_jobs_def started_state_def)
  qed
qed


section \<open>A turn of the loop\<close>

lemma same_jobs_trans: "same_jobs s s' \<Longrightarrow> same_jobs s' s'' \<Longrightarrow> same_jobs s s''"
  unfolding same_jobs_def by metis

lemma schedule_ok:
  assumes ok: "loop_ok s" and run: "sched_run dequeues finishes q es (jq_queue s)"
  obtains s' es' where "schedule build_plan s = Some s'" "loop_ok s'" "same_jobs s s'"
    "ready_keys (jq_queue s') = []" "sched_run dequeues finishes q es' (jq_queue s')"
    "finished_keys es' = finished_keys es" "jq_error s' = None \<longrightarrow> jq_active s' = [] \<longrightarrow> jq_todo s' = []"
proof -
  from dequeue_all_ok [OF ok run] obtain s1 es' where s1: "dequeue_all s = Some s1" "loop_ok s1" "same_jobs s s1"
      "ready_keys (jq_queue s1) = []" "sched_run dequeues finishes q es' (jq_queue s1)"
      "finished_keys es' = finished_keys es"
    by blast
  have id: "s1\<lparr>jq_todo := jq_todo s1\<rparr> = s1" by simp
  note spawn = spawn_all_ok [of "jq_todo s1" s1 build_plan, unfolded id, OF s1(2)]
  then obtain s' where "spawn_all build_plan (jq_todo s1) s1 = Some s'" by (elim exE conjE)
  with spawn have s': "spawn_all build_plan (jq_todo s1) s1 = Some s'" "loop_ok s'" "same_jobs s1 s'"
      "jq_queue s' = jq_queue s1" "jq_error s' = None \<longrightarrow> jq_todo s' \<noteq> [] \<longrightarrow> jq_active s' \<noteq> []"
    by simp_all
  have "schedule build_plan s = Some s'" using s1(1) s'(1) by (simp add: schedule_def)
  moreover have "same_jobs s s'" by (rule same_jobs_trans [OF s1(3) s'(3)])
  ultimately show thesis
    by (rule that [OF _ s'(2), of es']) (use s1(4-6) s'(4,5) in auto)
qed

text \<open>The loop ends with nothing left, unless a job failed.\<close>

lemma loop_end:
  assumes ok: "loop_ok s" and idle: "jq_active s = []" and none: "ready_keys (jq_queue s) = []"
    and todo: "jq_error s = None \<longrightarrow> jq_todo s = []"
  shows "drain_result s = (case jq_error s of None \<Rightarrow> Inr () | Some e \<Rightarrow> Inl e)"
proof (cases "jq_error s")
  case None
  with todo idle have "here s k = 0" for k by (simp add: here_def)
  with ok None have "pending (jq_queue s) = {}" by (force simp: loop_ok_def)
  with ready_exists [OF loop_okD(1) [OF ok]] none have "is_empty_queue (jq_queue s)"
    by (auto simp: is_empty_queue_def)
  with None show ?thesis by (simp add: drain_result_def)
next
  case (Some e)
  with ok have "pending (jq_queue s) \<noteq> {}" by (auto simp: loop_ok_def)
  with Some show ?thesis by (simp add: drain_result_def is_empty_queue_def)
qed

text \<open>The job that finished is no longer running; its token goes back.\<close>

definition stopped_state :: "('p, 'i) job_key \<Rightarrow> ('p, 'i, 'j, 'e) job_queue \<Rightarrow> ('p, 'i, 'j, 'e) job_queue" where
  "stopped_state key s =
     s\<lparr>jq_active := remove1 key (jq_active s),
       jq_tokens := (if remove1 key (jq_active s) = [] then jq_tokens s else jq_tokens s - 1)\<rparr>"

lemma handle_Finish:
  assumes ok: "loop_ok s" and key: "key \<in> set (jq_active s)"
  shows "handle (Finish key None) s = map_option Inr (finish_key key (stopped_state key s))"
    and "handle (Finish key (Some e)) s = Some (Inr ((stopped_state key s)\<lparr>jq_error :=
      Some (if remove1 key (jq_active s) = [] then JobError e else BuildFailed)\<rparr>))"
    and "length (jq_active (stopped_state key s)) \<le> jq_tokens (stopped_state key s) + 1"
proof -
  have len: "length (remove1 key (jq_active s)) = length (jq_active s) - 1" "0 < length (jq_active s)"
    using key by (auto simp: length_remove1 intro: length_pos_if_in_set)
  have tok: "remove1 key (jq_active s) = []" if "jq_tokens s = 0"
  proof -
    have "length (remove1 key (jq_active s)) = 0" using that len loop_okD(6) [OF ok] by linarith
    then show ?thesis by simp
  qed
  show "handle (Finish key None) s = map_option Inr (finish_key key (stopped_state key s))"
    "handle (Finish key (Some e)) s = Some (Inr ((stopped_state key s)\<lparr>jq_error :=
      Some (if remove1 key (jq_active s) = [] then JobError e else BuildFailed)\<rparr>))"
    using key tok by (auto simp: handle_def stopped_state_def Let_def)
  show "length (jq_active (stopped_state key s)) \<le> jq_tokens (stopped_state key s) + 1"
    using len loop_okD(6) [OF ok] by (auto simp: stopped_state_def)
qed

lemma count_list_remove1: "count_list (remove1 x xs) y = count_list xs y - (if x = y then 1 else 0)"
  by (induction xs) auto

lemma here_stopped:
  assumes "key \<in> set (jq_active s)"
  shows "here (stopped_state key s) k + (if k = key then 1 else 0) = here s k"
proof -
  have "count_list (jq_active s) key \<noteq> 0" using assms by (simp add: count_list_0_iff)
  then show ?thesis by (auto simp: here_def stopped_state_def count_list_remove1)
qed

lemma stopped_state_simps [simp]:
  "jq_queue (stopped_state key s) = jq_queue s" "jq_pending (stopped_state key s) = jq_pending s"
  "jq_error (stopped_state key s) = jq_error s" "jq_todo (stopped_state key s) = jq_todo s"
  "jq_counts (stopped_state key s) = jq_counts s" "jq_active (stopped_state key s) = remove1 key (jq_active s)"
  "amt (stopped_state key s) = amt s" "count_of (stopped_state key s) = count_of s"
  "not_started P (stopped_state key s) = not_started P s"
  by (simp_all add: stopped_state_def amt_def count_of_def not_started_def fun_eq_iff)

lemma active_pending:
  assumes "loop_ok s" and "key \<in> set (jq_active s)"
  shows "key \<in> pending (jq_queue s)"
  using loop_okD(4) [OF assms(1), of key] assms(2) by (auto simp: here_def count_list_0_iff)

text \<open>A job failed: its key keeps a job more than are running or to be started.\<close>

lemma loop_ok_failed:
  assumes ok: "loop_ok s" and key: "key \<in> set (jq_active s)"
  shows "loop_ok ((stopped_state key s)\<lparr>jq_error := Some e\<rparr>)" (is "loop_ok ?s")
proof -
  note pend = active_pending [OF ok key]
  have frame: "amt ?s k = amt s k" "count_of ?s p = count_of s p" "not_started P ?s = not_started P s"
    "here ?s k = here (stopped_state key s) k" for k p P
    by (simp_all add: amt_def count_of_def not_started_def here_def)
  have le: "here ?s k \<le> here s k" "here ?s key < here s key" for k
    using here_stopped [OF key, of k] here_stopped [OF key, of key] by (auto simp: frame)
  have p: "0 < amt ?s k \<and> here ?s k \<le> amt ?s k" if "k \<in> pending (jq_queue s)" for k
    using loop_okD(3) [OF ok that] le(1) [of k] by (simp add: frame)
  have n: "here ?s k = 0" if "k \<notin> pending (jq_queue s)" for k
    using loop_okD(4) [OF ok that] le(1) [of k] by simp
  have "here ?s key < amt ?s key" using loop_okD(3) [OF ok pend] le(2) by (simp add: frame)
  with pend have e: "\<exists>k \<in> pending (jq_queue s). here ?s k < amt ?s k" by blast
  have q: "jq_queue ?s = jq_queue s" "jq_error ?s = Some e" by simp_all
  have t: "length (jq_active ?s) \<le> jq_tokens ?s + 1" using handle_Finish(3) [OF ok key] by simp
  show ?thesis
    unfolding loop_ok_def q using loop_okD(1,2) [OF ok] p n e t loop_okD(5) [OF ok] by (auto simp: frame)
qed


text \<open>A job succeeded; with the last job of a key the dependency queue learns of it.\<close>

lemma finish_key_eq:
  assumes ok: "loop_ok s" and key: "key \<in> set (jq_active s)"
  obtains st where "map_of (jq_pending s) key = Some st" "pb_amt st = amt s key" "0 < amt s key"
    "finish_key key (stopped_state key s) =
      (let s' = (stopped_state key s)\<lparr>jq_pending := AList.update key (st\<lparr>pb_amt := pb_amt st - 1\<rparr>) (jq_pending s)\<rparr>
       in if amt s key = 1 then map_option (\<lambda>q. s'\<lparr>jq_queue := q\<rparr>) (finish key (pb_fresh st) (jq_queue s))
          else Some s')"
proof -
  have pos: "0 < amt s key" using loop_okD(3) [OF ok active_pending [OF ok key]] by simp
  then obtain st where st: "map_of (jq_pending s) key = Some st" "pb_amt st = amt s key"
    by (cases "map_of (jq_pending s) key") (auto simp: amt_def)
  show thesis by (rule that [OF st pos]) (use st pos in \<open>auto simp: finish_key_def Let_def\<close>)
qed

text \<open>The state after the success, whatever the queue is then.\<close>

lemma loop_ok_success:
  assumes ok: "loop_ok s" and key: "key \<in> set (jq_active s)"
    and frame: "jq_active s' = remove1 key (jq_active s)" "jq_todo s' = jq_todo s" "jq_error s' = jq_error s"
      "jq_counts s' = jq_counts s" "length (jq_active s') \<le> jq_tokens s' + 1"
    and amt: "\<And>k. amt s' k = amt s k - (if k = key then 1 else 0)"
    and q: "building_ok (jq_queue s')" "waiting (jq_queue s') = waiting (jq_queue s)"
      "\<And>k. jobs_of (jq_queue s') k = jobs_of (jq_queue s) k"
      "pending (jq_queue s') = (if amt s key = 1 then pending (jq_queue s) - {key} else pending (jq_queue s))"
  shows "loop_ok s'" and "not_started P s' = not_started P s"
    and "left_of s' k = left_of s k - (if k = key then 1 else 0)" and "0 < left_of s key"
proof -
  note pend = active_pending [OF ok key]
  have here: "here s' k + (if k = key then 1 else 0) = here s k" for k
    using here_stopped [OF key, of k] by (simp add: here_def frame)
  have ns: "not_started P s' = not_started P s" for P
    by (simp add: not_started_def frame q)
  have key1: "0 < here s key" "0 < amt s key" "here s key \<le> amt s key"
    using here [of key] loop_okD(3) [OF ok pend] by auto
  have p: "0 < amt s' k \<and> here s' k \<le> amt s' k" if "k \<in> pending (jq_queue s')" for k
    using loop_okD(3) [OF ok, of k] here [of k] that key1 unfolding q amt by (auto split: if_splits)
  have n: "here s' k = 0" if "k \<notin> pending (jq_queue s')" for k
    using loop_okD(4) [OF ok, of k] here [of k] that key1 unfolding q by (auto split: if_splits)
  have e: "if jq_error s' = None then \<forall>k \<in> pending (jq_queue s'). amt s' k = here s' k
      else \<exists>k \<in> pending (jq_queue s'). here s' k < amt s' k"
  proof (cases "jq_error s")
    case None
    then have "amt s k = here s k" if "k \<in> pending (jq_queue s)" for k using ok that by (simp add: loop_ok_def)
    then have "amt s' k = here s' k" if "k \<in> pending (jq_queue s')" for k
      using here [of k] that unfolding q amt by (auto split: if_splits)
    with None frame show ?thesis by simp
  next
    case (Some e)
    then obtain k where k: "k \<in> pending (jq_queue s)" "here s k < amt s k" using ok by (auto simp: loop_ok_def)
    have "k \<in> pending (jq_queue s')" using k key1 unfolding q by auto
    moreover have "here s' k < amt s' k" using k here [of k] unfolding amt by (auto split: if_splits)
    ultimately show ?thesis using Some frame by auto
  qed
  have c: "count_of s' p = not_started (\<lambda>k. jk_pkg k = p) s'" for p
    using loop_okD(5) [OF ok, of p] by (simp add: ns) (simp add: count_of_def frame)
  show "loop_ok s'" unfolding loop_ok_def using p n e c frame(5) q(1-3) loop_okD(2) [OF ok] by auto
  show "not_started P s' = not_started P s" by (rule ns)
  have zero: "k \<notin> waiting (jq_queue s)" if "k \<in> pending (jq_queue s)" for k
    using loop_okD(1) [OF ok] that by (auto simp: building_ok_def)
  then have "jobs_of (jq_queue s) key = []" using pend
    by (auto simp: jobs_of_def waiting_iff split: option.splits)
  then have lkey: "left_of s key = amt s key" "left_of s' key = amt s key - 1"
    using pend by (simp_all add: left_of_def q amt)
  moreover have "left_of s' k = left_of s k" if "k \<noteq> key"
    using that by (simp add: left_of_def q(3,4) amt)
  ultimately show "left_of s' k = left_of s k - (if k = key then 1 else 0)" by (cases "k = key") simp_all
  show "0 < left_of s key" using lkey key1 by simp
qed


lemma handle_success:
  assumes ok: "loop_ok s" and key: "key \<in> set (jq_active s)"
    and run: "sched_run dequeues finishes q es (jq_queue s)"
  obtains s' es' where "handle (Finish key None) s = Some (Inr s')" "loop_ok s'"
    "jq_active s' = remove1 key (jq_active s)" "jq_error s' = jq_error s"
    "not_started (\<lambda>_. True) s' = not_started (\<lambda>_. True) s"
    "\<forall>k. left_of s' k + (if k = key then 1 else 0) = left_of s k"
    "sched_run dequeues finishes q es' (jq_queue s')"
proof -
  note pend = active_pending [OF ok key] and b = loop_okD(1) [OF ok]
  obtain st where st: "map_of (jq_pending s) key = Some st" "pb_amt st = amt s key" "0 < amt s key"
      and fin: "finish_key key (stopped_state key s) =
        (let s' = (stopped_state key s)\<lparr>jq_pending := AList.update key (st\<lparr>pb_amt := pb_amt st - 1\<rparr>) (jq_pending s)\<rparr>
         in if amt s key = 1 then map_option (\<lambda>q. s'\<lparr>jq_queue := q\<rparr>) (finish key (pb_fresh st) (jq_queue s))
            else Some s')"
    by (rule finish_key_eq [OF ok key])
  obtain q1 where q1: "finish key (pb_fresh st) (jq_queue s) = Some q1" "building_ok q1"
      "keys (dep_map q1) = keys (dep_map (jq_queue s))" "pending q1 = pending (jq_queue s) - {key}"
      "\<And>k. map_of (dep_map q1) k = map_option (\<lambda>(ds, v). (ds - {key}, v)) (map_of (dep_map (jq_queue s)) k)"
    by (rule finish_spec [OF b pend, of "pb_fresh st"]) blast
  let ?s = "(stopped_state key s)\<lparr>jq_pending := AList.update key (st\<lparr>pb_amt := pb_amt st - 1\<rparr>) (jq_pending s),
    jq_queue := if amt s key = 1 then q1 else jq_queue s\<rparr>"
  have "(stopped_state key s)\<lparr>jq_pending := p, jq_queue := jq_queue s\<rparr> = (stopped_state key s)\<lparr>jq_pending := p\<rparr>" for p
    by (simp add: stopped_state_def)
  then have h: "handle (Finish key None) s = Some (Inr ?s)"
    by (simp add: handle_Finish(1) [OF ok key] fin q1(1) Let_def)
  have jobs: "jobs_of q1 k = jobs_of (jq_queue s) k" for k
    by (simp add: jobs_of_def q1(5) split: option.split)
  have amt: "amt ?s k = amt s k - (if k = key then 1 else 0)" for k
    using st by (simp add: amt_def update_conv')
  have frame: "jq_active ?s = remove1 key (jq_active s)" "jq_todo ?s = jq_todo s" "jq_error ?s = jq_error s"
      "jq_counts ?s = jq_counts s" "length (jq_active ?s) \<le> jq_tokens ?s + 1"
    using handle_Finish(3) [OF ok key] by simp_all
  have q: "building_ok (jq_queue ?s)" "waiting (jq_queue ?s) = waiting (jq_queue s)"
      "\<And>k. jobs_of (jq_queue ?s) k = jobs_of (jq_queue s) k"
      "pending (jq_queue ?s) = (if amt s key = 1 then pending (jq_queue s) - {key} else pending (jq_queue s))"
    using b q1(2,4) waiting_cong [OF q1(3)] jobs by simp_all
  note res = loop_ok_success [OF ok key frame amt q]
  have "\<forall>k. left_of ?s k + (if k = key then 1 else 0) = left_of s k" using res(3,4) by simp
  moreover have "\<exists>es'. sched_run dequeues finishes q es' (jq_queue ?s)"
  proof (cases "amt s key = 1")
    case True
    have "finishes (jq_queue s) key q1" using q1(1) by (auto simp: finishes_def)
    with run True show ?thesis by (auto intro: sched_run.finished)
  qed (use run in auto)
  ultimately show thesis using that [OF h res(1) frame(1,3) res(2)] by blast
qed


section \<open>Runs\<close>

text \<open>Which messages can arrive: a job that runs sends \<open>Finish\<close> once; the others come at any time.\<close>

fun enabled :: "(('p, 'i) job_key, 'e) message \<Rightarrow> ('p, 'i, 'j, 'e) job_queue \<Rightarrow> bool" where
  "enabled (Finish key result) s \<longleftrightarrow> key \<in> set (jq_active s)"
| "enabled (Output result) s \<longleftrightarrow> True"
| "enabled (Token result) s \<longleftrightarrow> True"

inductive drain_run ::
    "bool \<Rightarrow> ('p, 'i, 'j, 'e) job_queue \<Rightarrow> (('p, 'i) job_key, 'e) message list \<Rightarrow> ('p, 'i, 'j, 'e) job_queue \<Rightarrow> bool"
  for build_plan s0 where
  entry: "drain_run build_plan s0 [] s0"
| turn: "drain_run build_plan s0 ms s \<Longrightarrow> schedule build_plan s = Some s' \<Longrightarrow> jq_active s' \<noteq> [] \<Longrightarrow>
     enabled msg s' \<Longrightarrow> handle msg (drop_tokens s') = Some (Inr s'') \<Longrightarrow> drain_run build_plan s0 (ms @ [msg]) s''"

text \<open>What the messages of a run say: the successes of a key, the jobs that ended and the errors of the jobs that failed.\<close>

definition successes :: "('k, 'e) message list \<Rightarrow> 'k \<Rightarrow> nat" where
  "successes ms k = count_list ms (Finish k None)"

fun ended :: "('k, 'e) message list \<Rightarrow> nat" where
  "ended [] = 0"
| "ended (Finish k r # ms) = Suc (ended ms)"
| "ended (m # ms) = ended ms"

definition failures :: "('k, 'e) message list \<Rightarrow> 'e set" where
  "failures ms = {e. \<exists>k. Finish k (Some e) \<in> set ms}"

lemma ended_append [simp]: "ended (ms @ ms') = ended ms + ended ms'"
  by (induction ms rule: ended.induct) auto

lemma loop_ok_tokens:
  assumes "loop_ok s" and "length (jq_active s) \<le> n + 1"
  shows "loop_ok (s\<lparr>jq_tokens := n\<rparr>)"
proof -
  have "here (s\<lparr>jq_tokens := n\<rparr>) = here s" "amt (s\<lparr>jq_tokens := n\<rparr>) = amt s"
    "count_of (s\<lparr>jq_tokens := n\<rparr>) = count_of s" "not_started P (s\<lparr>jq_tokens := n\<rparr>) = not_started P s" for P
    by (simp_all add: here_def amt_def count_of_def not_started_def fun_eq_iff)
  with assms show ?thesis by (simp add: loop_ok_def)
qed

lemma tokens_frame [simp]:
  "left_of (s\<lparr>jq_tokens := n\<rparr>) = left_of s" "not_started P (s\<lparr>jq_tokens := n\<rparr>) = not_started P s"
  by (simp_all add: left_of_def not_started_def amt_def fun_eq_iff)

lemma loop_ok_drop_tokens: "loop_ok s \<Longrightarrow> jq_active s \<noteq> [] \<Longrightarrow> loop_ok (drop_tokens s)"
  unfolding drop_tokens_def by (rule loop_ok_tokens) (auto dest: loop_okD(6) simp: Suc_le_eq)

lemma drop_tokens_simps [simp]:
  "jq_queue (drop_tokens s) = jq_queue s" "jq_active (drop_tokens s) = jq_active s"
  "jq_error (drop_tokens s) = jq_error s" "left_of (drop_tokens s) = left_of s"
  "not_started P (drop_tokens s) = not_started P s" "jq_pending (drop_tokens s) = jq_pending s"
  by (simp_all add: drop_tokens_def)

text \<open>The invariant of a run that began with the queue \<open>q\<close>.\<close>

definition total_jobs :: "('k, 'j list) dependency_queue \<Rightarrow> nat" where
  "total_jobs q = (\<Sum>k \<in> waiting q. length (jobs_of q k))"

definition error_ok :: "'e set \<Rightarrow> 'e build_error option \<Rightarrow> bool" where
  "error_ok F err \<longleftrightarrow>
     (case err of None \<Rightarrow> F = {} | Some e \<Rightarrow> F \<noteq> {} \<and> (e = BuildFailed \<or> (\<exists>x \<in> F. e = JobError x)))"

definition run_ok ::
    "(('p, 'i) job_key, ('j \<times> freshness) list) dependency_queue \<Rightarrow> (('p, 'i) job_key, 'e) message list \<Rightarrow>
     ('p, 'i, 'j, 'e) job_queue \<Rightarrow> bool" where
  "run_ok q ms s \<longleftrightarrow> loop_ok s \<and> (\<exists>es. sched_run dequeues finishes q es (jq_queue s)) \<and>
     (\<forall>k. left_of s k + successes ms k = length (jobs_of q k)) \<and>
     not_started (\<lambda>_. True) s + length (jq_active s) + ended ms = total_jobs q \<and>
     error_ok (failures ms) (jq_error s)"

lemma run_ok_schedule:
  assumes "run_ok q ms s"
  obtains s' where "schedule build_plan s = Some s'" "run_ok q ms s'" "ready_keys (jq_queue s') = []"
    "jq_error s' = None \<longrightarrow> jq_active s' = [] \<longrightarrow> jq_todo s' = []"
proof -
  from assms obtain es where ok: "loop_ok s" and run: "sched_run dequeues finishes q es (jq_queue s)"
    by (auto simp: run_ok_def)
  obtain s' es' where s': "schedule build_plan s = Some s'" "loop_ok s'" "same_jobs s s'"
      "ready_keys (jq_queue s') = []" "sched_run dequeues finishes q es' (jq_queue s')"
      "jq_error s' = None \<longrightarrow> jq_active s' = [] \<longrightarrow> jq_todo s' = []"
    by (rule schedule_ok [OF ok run, where build_plan = build_plan])
  from s'(3) have same: "jq_error s' = jq_error s" "left_of s' = left_of s"
    "not_started (\<lambda>_. True) s' + length (jq_active s') = not_started (\<lambda>_. True) s + length (jq_active s)"
    by (simp_all add: same_jobs_def)
  from assms have inv: "\<forall>k. left_of s k + successes ms k = length (jobs_of q k)"
      "not_started (\<lambda>_. True) s + length (jq_active s) + ended ms = total_jobs q"
      "error_ok (failures ms) (jq_error s)"
    by (simp_all add: run_ok_def)
  have "not_started (\<lambda>_. True) s' + length (jq_active s') + ended ms = total_jobs q"
    using inv(2) same(3) by linarith
  with inv s'(2,5) have "run_ok q ms s'"
    unfolding run_ok_def same(1,2) by (intro conjI exI [of _ es'])
  from that [OF s'(1) this s'(4,6)] show thesis .
qed

lemma successes_snoc: "successes (ms @ [m]) k = successes ms k + (if m = Finish k None then 1 else 0)"
  by (simp add: successes_def)

lemma failures_snoc:
  "failures (ms @ [m]) = failures ms \<union> (case m of Finish k (Some e) \<Rightarrow> {e} | _ \<Rightarrow> {})"
  by (auto simp: failures_def split: message.splits option.splits)

lemma run_ok_handle:
  assumes inv: "run_ok q ms s" and active: "jq_active s \<noteq> []" and msg: "enabled msg s"
  shows "handle msg (drop_tokens s) \<noteq> None"
    and "handle msg (drop_tokens s) = Some (Inr s') \<Longrightarrow> run_ok q (ms @ [msg]) s'"
proof -
  let ?s = "drop_tokens s"
  from inv obtain es where ok: "loop_ok ?s" and run: "sched_run dequeues finishes q es (jq_queue ?s)"
    using loop_ok_drop_tokens [OF _ active] by (auto simp: run_ok_def)
  have inv': "run_ok q ms ?s" using inv ok by (simp add: run_ok_def)
  have "handle msg ?s \<noteq> None \<and> (\<forall>s'. handle msg ?s = Some (Inr s') \<longrightarrow> run_ok q (ms @ [msg]) s')"
  proof (cases msg)
    case (Output r)
    with inv' show ?thesis by (cases r) (auto simp: handle_def run_ok_def successes_snoc failures_snoc)
  next
    case (Token r)
    have "loop_ok (?s\<lparr>jq_tokens := Suc (jq_tokens ?s)\<rparr>)"
      by (rule loop_ok_tokens [OF ok]) (use loop_okD(6) [OF ok] in simp)
    with Token inv' show ?thesis
      by (cases r) (auto simp: handle_def run_ok_def successes_snoc failures_snoc)
  next
    case (Finish key r)
    with msg have key: "key \<in> set (jq_active ?s)" by simp
    then have len: "length (jq_active ?s) = Suc (length (remove1 key (jq_active ?s)))"
      using length_pos_if_in_set [OF key] by (simp add: length_remove1)
    show ?thesis
    proof (cases r)
      case None
      obtain s1 es' where s1: "handle (Finish key None) ?s = Some (Inr s1)" "loop_ok s1"
          "jq_active s1 = remove1 key (jq_active ?s)" "jq_error s1 = jq_error ?s"
          "not_started (\<lambda>_. True) s1 = not_started (\<lambda>_. True) ?s"
          "\<forall>k. left_of s1 k + (if k = key then 1 else 0) = left_of ?s k"
          "sched_run dequeues finishes q es' (jq_queue s1)"
        by (rule handle_success [OF ok key run])
      have "left_of s1 k + successes (ms @ [msg]) k = length (jobs_of q k)" for k
      proof -
        have "left_of ?s k + successes ms k = length (jobs_of q k)" using inv' by (simp add: run_ok_def)
        with s1(6) [rule_format, of k] None Finish show ?thesis by (auto simp: successes_snoc)
      qed
      moreover have "failures (ms @ [msg]) = failures ms" using None Finish by (simp add: failures_snoc)
      ultimately have "run_ok q (ms @ [msg]) s1"
        using inv' s1(2-5,7) len Finish by (auto simp: run_ok_def)
      with s1(1) None Finish show ?thesis by simp
    next
      case (Some e)
      let ?t = "(stopped_state key ?s)\<lparr>jq_error := Some (if remove1 key (jq_active ?s) = [] then JobError e else BuildFailed)\<rparr>"
      have "loop_ok ?t" by (rule loop_ok_failed [OF ok key])
      moreover have "left_of ?t = left_of ?s" by (simp add: left_of_def amt_def fun_eq_iff)
      moreover have "not_started (\<lambda>_. True) ?t = not_started (\<lambda>_. True) ?s" by (simp add: not_started_def)
      moreover have "failures (ms @ [msg]) = insert e (failures ms)" using Some Finish by (simp add: failures_snoc)
      moreover have "successes (ms @ [msg]) k = successes ms k" for k using Some Finish by (simp add: successes_snoc)
      ultimately have "run_ok q (ms @ [msg]) ?t"
        using inv' run len Finish by (auto simp: run_ok_def error_ok_def)
      moreover have "handle msg ?s = Some (Inr ?t)" using handle_Finish(2) [OF ok key] Some Finish by simp
      ultimately show ?thesis by simp
    qed
  qed
  then show "handle msg ?s \<noteq> None" "handle msg ?s = Some (Inr s') \<Longrightarrow> run_ok q (ms @ [msg]) s'" by auto
qed

lemma drain_run_ok:
  assumes "drain_run build_plan s0 ms s" and "run_ok q [] s0"
  shows "run_ok q ms s"
  using assms
proof (induction rule: drain_run.induct)
  case entry
  then show ?case .
next
  case (turn ms s s' msg s'')
  obtain s1 where s1: "schedule build_plan s = Some s1" "run_ok q ms s1"
    by (rule run_ok_schedule [OF turn.IH [OF turn.prems], where build_plan = build_plan])
  then have "run_ok q ms s'" using turn.hyps(2) by simp
  then show ?case by (rule run_ok_handle(2) [OF _ turn.hyps(3-5)])
qed


section \<open>The start of a run\<close>

definition enqueue_all ::
    "(('p, 'i) job_key \<times> ('p, 'i) job_key list \<times> 'j \<times> freshness) list \<Rightarrow> ('p, 'i, 'j, 'e) job_queue" where
  "enqueue_all jobs = fold (\<lambda>(key, deps, job, fresh). enqueue key deps job fresh) jobs new_job_queue"

text \<open>\<open>execute\<close> up to the loop.\<close>

definition execute_start :: "('p, 'i, 'j, 'e) job_queue \<Rightarrow> ('p, 'i, 'j, 'e) job_queue option" where
  "execute_start s = map_option (\<lambda>q. s\<lparr>jq_queue := q\<rparr>) (queue_finished (jq_queue s))"

text \<open>The state of the queue while jobs are added.\<close>

definition enqueued_ok :: "('p, 'i, 'j, 'e) job_queue \<Rightarrow> bool" where
  "enqueued_ok s \<longleftrightarrow> queued_ok (jq_queue s) \<and> depth_map (jq_queue s) = Map.empty \<and>
     (\<forall>k \<in> waiting (jq_queue s). jobs_of (jq_queue s) k \<noteq> []) \<and>
     (\<forall>p. count_of s p = not_started (\<lambda>k. jk_pkg k = p) s) \<and>
     jq_active s = [] \<and> jq_todo s = [] \<and> jq_error s = None"

lemma jobs_of_queue:
  "waiting (fst (queue fresh key [] deps q)) = insert key (waiting q)"
  "jobs_of (fst (queue fresh key [] deps q)) k = jobs_of q k"
  by (auto simp: queue_def waiting_iff jobs_of_def update_conv' split: option.splits if_splits)

lemma push_job_spec:
  assumes "key \<in> waiting q"
  shows "waiting (push_job key j q) = waiting q"
    and "jobs_of (push_job key j q) k = (if k = key then jobs_of q key @ [j] else jobs_of q k)"
    and "queued_ok q \<Longrightarrow> queued_ok (push_job key j q)"
    and "depth_map (push_job key j q) = depth_map q"
    and "length (dep_map (push_job key j q)) = length (dep_map q)"
proof -
  from assms obtain ds jobs where key: "map_of (dep_map q) key = Some (ds, jobs)"
    by (auto simp: waiting_iff)
  then have push: "push_job key j q = q\<lparr>dep_map := AList.update key (ds, jobs @ [j]) (dep_map q)\<rparr>"
    by (simp add: push_job_def)
  show "waiting (push_job key j q) = waiting q"
    using key by (auto simp: push waiting_iff update_conv' split: if_splits)
  show "jobs_of (push_job key j q) k = (if k = key then jobs_of q key @ [j] else jobs_of q k)"
    using key by (simp add: push jobs_of_def update_conv')
  have "waits_for (push_job key j q) k x = waits_for q k x" for k x
    using key by (auto simp: push waits_for_def update_conv')
  then show "queued_ok q \<Longrightarrow> queued_ok (push_job key j q)"
    by (simp add: queued_ok_def) (simp add: push)
  show "depth_map (push_job key j q) = depth_map q" by (simp add: push)
  have "length (keys (AList.update key (ds, jobs @ [j]) (dep_map q))) = length (keys (dep_map q))"
    using key by (simp add: update_keys in_keys_iff)
  then show "length (dep_map (push_job key j q)) = length (dep_map q)" by (simp add: push)
qed

lemma not_started_idle:
  "jq_todo s = [] \<Longrightarrow> not_started P s = (\<Sum>k | k \<in> waiting (jq_queue s) \<and> P k. length (jobs_of (jq_queue s) k))"
  by (simp add: not_started_def)

lemma sum_insert_job:
  fixes f g :: "'k \<Rightarrow> nat"
  assumes "finite W" and "\<And>k. k \<noteq> key \<Longrightarrow> f k = g k" and "f key = Suc (g key)" and "key \<notin> W \<Longrightarrow> g key = 0"
  shows "(\<Sum>k | k \<in> insert key W \<and> P k. f k) = (\<Sum>k | k \<in> W \<and> P k. g k) + (if P key then 1 else 0)"
proof -
  define S where "S = {k. k \<in> W - {key} \<and> P k}"
  have S: "finite S" "key \<notin> S" using assms(1) by (simp_all add: S_def)
  have eq: "sum f S = sum g S" by (rule sum.cong) (auto simp: assms(2) S_def)
  have ins: "{k. k \<in> insert key W \<and> P k} = (if P key then insert key S else S)"
    and old: "{k. k \<in> W \<and> P k} = (if P key \<and> key \<in> W then insert key S else S)"
    by (auto simp: S_def)
  show ?thesis unfolding ins old using S eq assms(3,4) by auto
qed

lemma enqueue_ok:
  assumes ok: "enqueued_ok s"
  shows "enqueued_ok (enqueue key deps job fresh s)" (is "enqueued_ok ?s")
    and "not_started P (enqueue key deps job fresh s) = not_started P s + (if P key then 1 else 0)"
    and "length (dep_map (jq_queue (enqueue key deps job fresh s))) \<le> Suc (length (dep_map (jq_queue s)))"
proof -
  let ?q = "fst (queue Fresh key [] deps (jq_queue s))"
  have q: "jq_queue ?s = push_job key (job, fresh) ?q" by (simp add: enqueue_def)
  have key: "key \<in> waiting ?q" by (simp add: jobs_of_queue)
  note push = push_job_spec [OF key, of "(job, fresh)"]
  have w: "waiting (jq_queue ?s) = insert key (waiting (jq_queue s))"
    and j: "jobs_of (jq_queue ?s) k =
      (if k = key then jobs_of (jq_queue s) key @ [(job, fresh)] else jobs_of (jq_queue s) k)" for k
    by (simp_all add: q push(1,2) jobs_of_queue)
  have idle: "jq_todo s = []" "jq_todo ?s = []" using ok by (simp_all add: enqueued_ok_def enqueue_def)
  have none: "key \<notin> waiting (jq_queue s) \<Longrightarrow> jobs_of (jq_queue s) key = []"
    by (auto simp: jobs_of_def waiting_iff split: option.splits)
  have ns: "not_started P ?s = not_started P s + (if P key then 1 else 0)" for P
    unfolding not_started_idle [OF idle(1)] not_started_idle [OF idle(2)] w
    by (rule sum_insert_job) (auto simp: j none)
  then show "not_started P ?s = not_started P s + (if P key then 1 else 0)" .
  have c: "count_of ?s p = not_started (\<lambda>k. jk_pkg k = p) ?s" for p
    using ok by (simp add: ns enqueued_ok_def) (auto simp: count_of_def enqueue_def split: option.splits)
  have d: "queued_ok (jq_queue ?s)" "depth_map (jq_queue ?s) = Map.empty"
    using ok push(3,4) queued_ok_queue [of "jq_queue s"] by (simp_all add: q enqueued_ok_def)
  have r: "jq_active ?s = []" "jq_error ?s = None" using ok by (simp_all add: enqueued_ok_def enqueue_def)
  have n: "\<forall>k \<in> waiting (jq_queue ?s). jobs_of (jq_queue ?s) k \<noteq> []"
    using ok by (auto simp: w j enqueued_ok_def)
  show "enqueued_ok ?s" unfolding enqueued_ok_def using c d r n idle(2) by blast
  show "length (dep_map (jq_queue ?s)) \<le> Suc (length (dep_map (jq_queue s)))"
    unfolding q push(5) by (auto simp: queue_def length_alist_update split: option.splits)
qed

lemma enqueue_fold_ok:
  assumes "enqueued_ok s"
  shows "let s' = fold (\<lambda>(key, deps, job, fresh). enqueue key deps job fresh) jobs s
    in enqueued_ok s' \<and> not_started (\<lambda>_. True) s' = not_started (\<lambda>_. True) s + length jobs \<and>
      length (dep_map (jq_queue s')) \<le> length (dep_map (jq_queue s)) + length jobs"
  using assms
proof (induction jobs arbitrary: s)
  case Nil
  then show ?case by (simp add: Let_def)
next
  case (Cons job jobs)
  obtain key deps j fresh where job: "job = (key, deps, j, fresh)" by (cases job) auto
  note step = enqueue_ok [OF Cons.prems, where key = key and deps = deps and job = j and fresh = fresh]
  from Cons.IH [OF step(1)] step(2) [of "\<lambda>_. True"] step(3) show ?case by (simp add: Let_def job)
qed

lemma enqueue_all_ok:
  fixes jobs :: "(('p, 'i) job_key \<times> ('p, 'i) job_key list \<times> 'j \<times> freshness) list"
  defines "s \<equiv> enqueue_all jobs :: ('p, 'i, 'j, 'e) job_queue"
  shows "enqueued_ok s" "not_started (\<lambda>_. True) s = length jobs" "length (dep_map (jq_queue s)) \<le> length jobs"
proof -
  let ?new = "new_job_queue :: ('p, 'i, 'j, 'e) job_queue"
  have new: "enqueued_ok ?new" "not_started (\<lambda>_. True) ?new = 0" "dep_map (jq_queue ?new) = []"
    using queued_ok_new
    by (simp_all add: enqueued_ok_def new_job_queue_def not_started_def count_of_def)
      (simp_all add: new_queue_def waiting_def)
  from enqueue_fold_ok [OF new(1), of jobs] new(2,3)
  show "enqueued_ok s" "not_started (\<lambda>_. True) s = length jobs" "length (dep_map (jq_queue s)) \<le> length jobs"
    by (simp_all add: enqueue_all_def Let_def s_def)
qed


lemma run_ok_start:
  assumes enq: "s = enqueue_all jobs" and small: "length jobs < 2 ^ 64 - 1"
    and closed: "deps_queued (jq_queue s)" and start: "execute_start s = Some s0"
  shows "run_ok (jq_queue s0) [] s0"
    and "jobs_of (jq_queue s0) = jobs_of (jq_queue s)"
    and "remaining_deps (jq_queue s0) = remaining_deps (jq_queue s)"
    and "total_jobs (jq_queue s0) = length jobs" and "pending (jq_queue s0) = {}"
proof -
  have all: "enqueued_ok s" "not_started (\<lambda>_. True) s = length jobs" "length (dep_map (jq_queue s)) \<le> length jobs"
    unfolding enq by (rule enqueue_all_ok)+
  from start obtain q where q: "queue_finished (jq_queue s) = Some q" and s0: "s0 = s\<lparr>jq_queue := q\<rparr>"
    by (auto simp: execute_start_def)
  have qd: "q = (jq_queue s)\<lparr>depth_map := depth_map q\<rparr>"
    using q by (auto simp: queue_finished_def split: option.splits)
  then have same: "dep_map q = dep_map (jq_queue s)" "pending q = pending (jq_queue s)"
    by (metis dependency_queue.select_convs dependency_queue.update_convs dependency_queue.surjective)+
  have jobs: "jobs_of q = jobs_of (jq_queue s)" and wait: "waiting q = waiting (jq_queue s)"
    and rem: "remaining_deps q = remaining_deps (jq_queue s)"
    by (simp_all add: fun_eq_iff jobs_of_def waiting_def remaining_deps_def same)
  from all(1) have e: "queued_ok (jq_queue s)" "depth_map (jq_queue s) = Map.empty"
      "jq_active s = []" "jq_todo s = []" "jq_error s = None"
      "\<And>k. k \<in> waiting (jq_queue s) \<Longrightarrow> jobs_of (jq_queue s) k \<noteq> []"
      "\<And>p. count_of s p = not_started (\<lambda>k. jk_pkg k = p) s"
    by (simp_all add: enqueued_ok_def)
  have small': "length (dep_map (jq_queue s)) < IN_PROGRESS"
    using all(3) small by (simp add: IN_PROGRESS_def)
  have b: "building_ok q" by (rule building_ok_start [OF e(1) closed e(2) small' q])
  have none: "pending q = {}" using e(1) by (simp add: same queued_ok_def)
  have ns: "not_started P s0 = not_started P s" for P by (simp add: not_started_def s0 jobs wait)
  have loop: "loop_ok s0"
    using b e none ns by (simp add: loop_ok_def s0 here_def jobs wait count_of_def)
  have total: "total_jobs q = length jobs"
    using all(2) e(4) by (simp add: total_jobs_def jobs wait not_started_def)
  have "run_ok q [] s0"
    unfolding run_ok_def using loop total all(2) e(3,5) none
    by (auto simp: s0 left_of_def successes_def failures_def error_ok_def ns [unfolded s0] intro: sched_run.none)
  then show "run_ok (jq_queue s0) [] s0" by (simp add: s0)
  show "jobs_of (jq_queue s0) = jobs_of (jq_queue s)" "remaining_deps (jq_queue s0) = remaining_deps (jq_queue s)"
    "total_jobs (jq_queue s0) = length jobs" "pending (jq_queue s0) = {}"
    using jobs rem total none by (simp_all add: s0)
qed


lemma started_dep_finished:
  assumes "deps_first D es" and "k \<in> set (started_keys es)"
  shows "D k \<subseteq> set (finished_keys es)"
proof -
  have "Started k \<in> set es"
    using assms(2) by (auto simp: started_keys_def List.map_filter_def split: event.splits)
  then obtain es1 es2 where es: "es = es1 @ Started k # es2" by (auto simp: in_set_conv_decomp)
  then have "D k \<subseteq> set (finished_keys es1)" using assms(1) by (auto simp: deps_first_def)
  also have "\<dots> \<subseteq> set (finished_keys es)" by (auto simp: es finished_keys_def List.map_filter_def)
  finally show ?thesis .
qed

section \<open>A concrete run\<close>

lemma dequeue_all_done: "dequeue (jq_queue s) = Some (q, None) \<Longrightarrow> dequeue_all s = Some (s\<lparr>jq_queue := q\<rparr>)"
  by (subst dequeue_all.simps) simp

lemma dequeue_all_more:
  "dequeue (jq_queue s) = Some (q, Some (fresh, key, jobs)) \<Longrightarrow>
     dequeue_all s = dequeue_all (learn fresh key jobs (s\<lparr>jq_queue := q\<rparr>))"
  by (subst dequeue_all.simps) simp

lemmas job_queue_eval = enqueue_all_def enqueue_def new_job_queue_def push_job_def execute_start_def
  schedule_def dequeue_all_done dequeue_all_more learn_eq run_job_def note_working_on_def drop_tokens_def
  handle_def finish_key_def drain_result_def is_empty_queue_def Let_def

text \<open>Two packages; the second depends on the first.\<close>

definition ex_key :: "nat \<Rightarrow> (nat, unit) job_key" where
  "ex_key p = \<lparr>jk_pkg = p, jk_mode = ModeBuild, jk_unit = ()\<rparr>"

lemma ex_key_simps [simp]:
  "ex_key p = ex_key p' \<longleftrightarrow> p = p'" "jk_pkg (ex_key p) = p" "jk_mode (ex_key p) = ModeBuild"
  by (simp_all add: ex_key_def)

definition ex_jobs :: "((nat, unit) job_key \<times> (nat, unit) job_key list \<times> unit \<times> freshness) list" where
  "ex_jobs = [(ex_key 1, [], (), Dirty), (ex_key 2, [ex_key 1], (), Fresh)]"

definition ex0 :: "(nat, unit, unit, unit) job_queue" where
  "ex0 = \<lparr>jq_queue = \<lparr>dep_map = [(ex_key 1, {}, [((), Dirty)]), (ex_key 2, {ex_key 1}, [((), Fresh)])],
     reverse_dep_map = [(ex_key 1, [ex_key 2])], dirty = {}, pending = {}, depth_map = [ex_key 1 \<mapsto> 2, ex_key 2 \<mapsto> 1]\<rparr>,
     jq_active = [], jq_pending = [], jq_compiled = {}, jq_documented = {}, jq_counts = [1 \<mapsto> 1, 2 \<mapsto> 1],
     jq_tokens = 0, jq_requests = 0, jq_todo = [], jq_error = None, jq_log = []\<rparr>"

definition ex1 :: "(nat, unit, unit, unit) job_queue" where
  "ex1 = ex0\<lparr>jq_queue := (jq_queue ex0)\<lparr>dep_map := [(ex_key 2, {ex_key 1}, [((), Fresh)])], pending := {ex_key 1}\<rparr>,
     jq_active := [ex_key 1], jq_pending := [(ex_key 1, \<lparr>pb_amt = 1, pb_fresh = Dirty\<rparr>)], jq_compiled := {1},
     jq_counts := [1 \<mapsto> 0, 2 \<mapsto> 1], jq_requests := 1, jq_log := [Compiling 1]\<rparr>"

definition ex2 :: "(nat, unit, unit, unit) job_queue" where
  "ex2 = ex1\<lparr>jq_queue := (jq_queue ex0)\<lparr>dep_map := [(ex_key 2, {}, [((), Fresh)])], dirty := {ex_key 2}\<rparr>,
     jq_active := [], jq_pending := [(ex_key 1, \<lparr>pb_amt = 0, pb_fresh = Dirty\<rparr>)]\<rparr>"

definition ex3 :: "(nat, unit, unit, unit) job_queue" where
  "ex3 = ex2\<lparr>jq_queue := (jq_queue ex0)\<lparr>dep_map := [], dirty := {ex_key 2}, pending := {ex_key 2}\<rparr>,
     jq_active := [ex_key 2],
     jq_pending := [(ex_key 1, \<lparr>pb_amt = 0, pb_fresh = Dirty\<rparr>), (ex_key 2, \<lparr>pb_amt = 1, pb_fresh = Dirty\<rparr>)],
     jq_compiled := {1, 2}, jq_counts := [1 \<mapsto> 0, 2 \<mapsto> 0], jq_requests := 2, jq_log := [Compiling 1, Compiling 2]\<rparr>"

lemma ex_start: "execute_start (enqueue_all ex_jobs) = Some ex0"
  by (simp add: ex_jobs_def job_queue_eval queue_eval ex0_def fun_eq_iff)

lemma ex_schedule0: "schedule False ex0 = Some ex1"
  by (simp add: job_queue_eval queue_eval ex0_def ex1_def fun_eq_iff)

lemma ex_finish1: "handle (Finish (ex_key 1) None) (drop_tokens ex1) = Some (Inr ex2)"
  by (simp add: job_queue_eval queue_eval ex0_def ex1_def ex2_def fun_eq_iff)

lemma ex_schedule1: "schedule False ex2 = Some ex3"
  by (simp add: job_queue_eval queue_eval ex0_def ex1_def ex2_def ex3_def fun_eq_iff insert_commute)

definition ex4 :: "(nat, unit, unit, unit) job_queue" where
  "ex4 = ex3\<lparr>jq_queue := (jq_queue ex0)\<lparr>dep_map := [], dirty := {ex_key 2}\<rparr>, jq_active := [],
     jq_pending := [(ex_key 1, \<lparr>pb_amt = 0, pb_fresh = Dirty\<rparr>), (ex_key 2, \<lparr>pb_amt = 0, pb_fresh = Dirty\<rparr>)]\<rparr>"

lemma ex_finish2: "handle (Finish (ex_key 2) None) (drop_tokens ex3) = Some (Inr ex4)"
  by (simp add: job_queue_eval queue_eval ex0_def ex1_def ex2_def ex3_def ex4_def fun_eq_iff)

lemma ex_schedule2: "schedule False ex4 = Some ex4"
  by (simp add: job_queue_eval queue_eval ex0_def ex1_def ex2_def ex3_def ex4_def)

lemma ex_run: "drain_run False ex0 [Finish (ex_key 1) None] ex2"
  "drain_run False ex0 [Finish (ex_key 1) None, Finish (ex_key 2) None] ex4"
proof -
  have "drain_run False ex0 ([] @ [Finish (ex_key 1) None]) ex2"
    by (rule drain_run.turn [OF drain_run.entry ex_schedule0 _ _ ex_finish1]) (simp_all add: ex1_def)
  then show run: "drain_run False ex0 [Finish (ex_key 1) None] ex2" by simp
  have "drain_run False ex0 ([Finish (ex_key 1) None] @ [Finish (ex_key 2) None]) ex4"
    by (rule drain_run.turn [OF run ex_schedule1 _ _ ex_finish2]) (simp_all add: ex3_def)
  then show "drain_run False ex0 [Finish (ex_key 1) None, Finish (ex_key 2) None] ex4" by simp
qed

lemma ex_dep_map: "dep_map (jq_queue (enqueue_all ex_jobs :: (nat, unit, unit, unit) job_queue)) =
    [(ex_key 1, {}, [((), Dirty)]), (ex_key 2, {ex_key 1}, [((), Fresh)])]"
  by (simp add: ex_jobs_def job_queue_eval queue_eval)

lemma ex_deps_queued: "deps_queued (jq_queue (enqueue_all ex_jobs :: (nat, unit, unit, unit) job_queue))"
  by (auto simp: deps_queued_def waits_for_def waiting_def ex_dep_map split: if_splits)

lemma ex_small: "length ex_jobs < 2 ^ 64 - 1"
  by (simp add: ex_jobs_def)

section \<open>Properties of the loop\<close>

text \<open>C33: the loop of the job queue never panics and never runs more jobs than it has tokens for: for every list of
  enqueued jobs whose dependencies are enqueued without a cycle, and every sequence of messages, the next turn
  is defined, at most one job more runs than tokens are held, and every message a running job or the job
  server can send is handled: the finished package is recorded as active, a token is held to release, and its
  count of unfinished jobs and the state of the dependency queue are as the code asserts.\<close>

theorem drain_never_panics:
  assumes "s = enqueue_all jobs" and "length jobs < 2 ^ 64 - 1" and "deps_queued (jq_queue s)"
    and "execute_start s = Some s0" and "drain_run build_plan s0 ms s1"
  shows "\<exists>s2. schedule build_plan s1 = Some s2 \<and> length (jq_active s2) \<le> jq_tokens s2 + 1 \<and>
    (jq_active s2 \<noteq> [] \<longrightarrow> (\<forall>msg. enabled msg s2 \<longrightarrow> handle msg (drop_tokens s2) \<noteq> None))"
proof -
  have "run_ok (jq_queue s0) ms s1" by (rule drain_run_ok [OF assms(5) run_ok_start(1) [OF assms(1-4)]])
  then obtain s2 where s2: "schedule build_plan s1 = Some s2" "run_ok (jq_queue s0) ms s2"
    by (rule run_ok_schedule)
  moreover from s2(2) have "length (jq_active s2) \<le> jq_tokens s2 + 1" by (simp add: run_ok_def loop_ok_def)
  ultimately show ?thesis using run_ok_handle(1) [OF s2(2)] by blast
qed

theorem drain_never_panics_witness:
  "\<exists>s2. schedule False ex2 = Some s2 \<and> length (jq_active s2) \<le> jq_tokens s2 + 1 \<and>
    (jq_active s2 \<noteq> [] \<longrightarrow> (\<forall>msg. enabled msg s2 \<longrightarrow> handle msg (drop_tokens s2) \<noteq> None))"
  by (rule drain_never_panics [OF refl ex_small ex_deps_queued ex_start ex_run(1)])

text \<open>C34: how the loop ends.  It gets at most as many \<open>Finish\<close> messages as jobs were enqueued.  When nothing
  runs any more it returns \<open>Ok\<close> if no job failed, and then every job of every package has finished; if one
  failed it returns ``build failed'' or the error of a failed job.  It never returns ``finished with
  jobs still left in the queue''.\<close>

theorem drain_outcome:
  assumes "s = enqueue_all jobs" and "length jobs < 2 ^ 64 - 1" and "deps_queued (jq_queue s)"
    and "execute_start s = Some s0" and "drain_run build_plan s0 ms s1"
  shows "ended ms \<le> length jobs \<and> (\<forall>s2. schedule build_plan s1 = Some s2 \<longrightarrow> jq_active s2 = [] \<longrightarrow>
    (if failures ms = {} then drain_result s2 = Inr () \<and> (\<forall>k. successes ms k = length (jobs_of (jq_queue s) k))
     else drain_result s2 \<in> insert (Inl BuildFailed) (Inl ` JobError ` failures ms)))"
proof (intro conjI allI impI)
  note start = run_ok_start [OF assms(1-4)]
  have inv1: "run_ok (jq_queue s0) ms s1" by (rule drain_run_ok [OF assms(5) start(1)])
  then show "ended ms \<le> length jobs" using start(4) by (simp add: run_ok_def)
  fix s2
  assume s2: "schedule build_plan s1 = Some s2" and idle: "jq_active s2 = []"
  obtain inv: "run_ok (jq_queue s0) ms s2" and none: "ready_keys (jq_queue s2) = []"
      and todo: "jq_error s2 = None \<longrightarrow> jq_todo s2 = []"
    by (rule run_ok_schedule [OF inv1, where build_plan = build_plan]) (use s2 idle in auto)
  have ok: "loop_ok s2" and err: "error_ok (failures ms) (jq_error s2)" using inv by (simp_all add: run_ok_def)
  have res: "drain_result s2 = (case jq_error s2 of None \<Rightarrow> Inr () | Some e \<Rightarrow> Inl e)"
    by (rule loop_end [OF ok idle none todo])
  show "if failures ms = {} then drain_result s2 = Inr () \<and> (\<forall>k. successes ms k = length (jobs_of (jq_queue s) k))
     else drain_result s2 \<in> insert (Inl BuildFailed) (Inl ` JobError ` failures ms)"
  proof (cases "jq_error s2")
    case None
    then have "drain_result s2 = Inr ()" using res by simp
    then have "is_empty_queue (jq_queue s2)" by (auto simp: drain_result_def split: if_splits option.splits)
    then have "left_of s2 k = 0" for k by (simp add: is_empty_queue_def left_of_def jobs_of_def)
    with inv have "\<forall>k. successes ms k = length (jobs_of (jq_queue s) k)" by (simp add: run_ok_def start(2))
    with None err res show ?thesis by (simp add: error_ok_def)
  next
    case (Some e)
    with err res show ?thesis by (auto simp: error_ok_def)
  qed
qed

theorem drain_outcome_witness:
  "drain_result ex4 = Inr () \<and> successes [Finish (ex_key 1) (None :: unit option), Finish (ex_key 2) None] (ex_key 2) = 1"
proof -
  note out = drain_outcome [OF refl ex_small ex_deps_queued ex_start ex_run(2)]
  have "failures [Finish (ex_key 1) (None :: unit option), Finish (ex_key 2) None] = {}" by (simp add: failures_def)
  moreover have "jq_active ex4 = []" by (simp add: ex4_def)
  ultimately have "drain_result ex4 = Inr () \<and>
      successes [Finish (ex_key 1) (None :: unit option), Finish (ex_key 2) None] (ex_key 2) =
      length (jobs_of (jq_queue (enqueue_all ex_jobs :: (nat, unit, unit, unit) job_queue)) (ex_key 2))"
    using out ex_schedule2 by auto
  then show ?thesis by (simp add: jobs_of_def ex_dep_map)
qed

text \<open>C35: a job runs only after every job of every key it depends on has finished with success.\<close>

theorem drain_deps_first:
  assumes "s = enqueue_all jobs" and "length jobs < 2 ^ 64 - 1" and "deps_queued (jq_queue s)"
    and "execute_start s = Some s0" and "drain_run build_plan s0 ms s1"
    and "schedule build_plan s1 = Some s2" and "key \<in> set (jq_active s2)" and "waits_for (jq_queue s) key dep"
  shows "successes ms dep = length (jobs_of (jq_queue s) dep)"
proof -
  note start = run_ok_start [OF assms(1-4)]
  have "run_ok (jq_queue s0) ms s1" by (rule drain_run_ok [OF assms(5) start(1)])
  then have inv: "run_ok (jq_queue s0) ms s2"
    by (rule run_ok_schedule [where build_plan = build_plan]) (use assms(6) in simp)
  then obtain es where ok: "loop_ok s2" and run: "sched_run dequeues finishes (jq_queue s0) es (jq_queue s2)"
    by (auto simp: run_ok_def)
  have b: "building_ok (jq_queue s0)" using start(1) by (simp add: run_ok_def loop_ok_def)
  note part = dq.run_partition [OF run b start(5)]
  have "key \<in> set (started_keys es)" using part active_pending [OF ok assms(7)] by blast
  from started_dep_finished [OF dq.run_deps_first [OF run b] this]
  have fin: "dep \<in> set (finished_keys es)"
    using assms(8) by (auto simp: start(3) remaining_deps_def waits_for_def split: option.splits)
  then have "dep \<notin> pending (jq_queue s2)" "dep \<notin> waiting (jq_queue s2)"
    using part by (auto simp: dom_remaining_deps)
  then have "left_of s2 dep = 0"
    by (auto simp: left_of_def jobs_of_def waiting_iff split: option.splits)
  moreover have "left_of s2 dep + successes ms dep = length (jobs_of (jq_queue s0) dep)"
    using inv by (simp add: run_ok_def)
  ultimately show ?thesis by (simp add: start(2))
qed

theorem drain_deps_first_witness:
  "successes [Finish (ex_key 1) (None :: unit option)] (ex_key 1) = 1"
proof -
  have "waits_for (jq_queue (enqueue_all ex_jobs :: (nat, unit, unit, unit) job_queue)) (ex_key 2) (ex_key 1)"
    by (simp add: waits_for_def ex_dep_map)
  moreover have "ex_key 2 \<in> set (jq_active ex3)" by (simp add: ex3_def)
  ultimately show ?thesis
    using drain_deps_first [OF refl ex_small ex_deps_queued ex_start ex_run(1) ex_schedule1]
    by (simp add: jobs_of_def ex_dep_map)
qed

end
