(* ===== verification/Unit_Graph.thy ===== *)
theory Unit_Graph
  imports Manifest_Targets Job_Queue Resolve_Result
begin

text \<open>
  The graph of units, \<open>src/cargo/core/compiler/context/unit_dependencies.rs\<close>: from the units a command
  asks for, the units they depend on, with packages that are downloaded while the graph is built.  Of
  \<open>Downloads\<close> in \<open>src/cargo/core/package.rs\<close> the theory has what the graph sees: which packages are ready, which are
  pending, and that waiting delivers a pending one.  The order in which downloads finish is an argument.
\<close>

section \<open>Units and the context of a build\<close>

datatype build_kind = HostKind | TargetKind

definition for_target :: "target \<Rightarrow> build_kind \<Rightarrow> build_kind" where
  "for_target t k = (case k of HostKind \<Rightarrow> HostKind | TargetKind \<Rightarrow> if tg_for_host t then HostKind else TargetKind)"

text \<open>A package as the graph reads it.\<close>

record 'u graph_package =
  pg_id :: "'u source_id package_id"
  pg_targets :: "target list"
  pg_links :: "string option"

text \<open>The name of a profile is not part of its equality and no unit reads it: the profile of a unit has none.\<close>

record 'u build_unit =
  bu_pkg :: "'u graph_package"
  bu_target :: target
  bu_profile :: profile
  bu_kind :: build_kind
  bu_mode :: compile_mode

record ('u, 'r) build_context =
  bc_resolve :: "('u source_id, 'r) resolve"
  bc_profiles :: "'u profiles"
  bc_release :: bool
  bc_build_mode :: compile_mode
  bc_members :: "'u source_id package_id list"
  bc_host :: "string \<times> cfg list option"
  bc_target :: "string \<times> cfg list option"

definition bc_test :: "('u, 'r) build_context \<Rightarrow> bool" where
  "bc_test bcx \<longleftrightarrow> bc_build_mode bcx = ModeTest \<or> bc_build_mode bcx = ModeBench"

definition is_member :: "('u, 'r) build_context \<Rightarrow> 'u graph_package \<Rightarrow> bool" where
  "is_member bcx pk \<longleftrightarrow> pg_id pk \<in> set (bc_members bcx)"

definition dep_platform_activated :: "('u, 'r) build_context \<Rightarrow> ('u source_id, 'r) dependency \<Rightarrow> build_kind \<Rightarrow> bool" where
  "dep_platform_activated bcx dep k =
     (case dep_platform dep of
        None \<Rightarrow> True
      | Some p \<Rightarrow>
          let (name, info) = (case k of HostKind \<Rightarrow> bc_host bcx | TargetKind \<Rightarrow> bc_target bcx)
          in platform_matches p name info)"

text \<open>\<open>new_unit\<close> and the choice of a mode; \<open>None\<close> is a failed assertion of \<open>get_profile\<close>.\<close>

definition unnamed :: "profile \<Rightarrow> profile" where
  "unnamed p = p\<lparr>prof_name := ''''\<rparr>"

definition new_unit ::
    "('u, 'r) build_context \<Rightarrow> 'u graph_package \<Rightarrow> target \<Rightarrow> unit_for \<Rightarrow> build_kind \<Rightarrow> compile_mode \<Rightarrow> 'u build_unit option" where
  "new_unit bcx pk t uf k mode =
     map_option (\<lambda>p. \<lparr>bu_pkg = pk, bu_target = t, bu_profile = unnamed p, bu_kind = k, bu_mode = mode\<rparr>)
       (get_profile (bc_profiles bcx) (pg_id pk) (is_member bcx pk) uf mode (bc_release bcx))"

definition check_or_build_mode :: "compile_mode \<Rightarrow> target \<Rightarrow> compile_mode" where
  "check_or_build_mode mode t =
     (case mode of
        ModeCheck _ \<Rightarrow> if tg_for_host t then ModeBuild else ModeCheck False
      | ModeDoc _ \<Rightarrow> if tg_for_host t then ModeBuild else ModeCheck False
      | _ \<Rightarrow> ModeBuild)"

text \<open>The unit that runs the build script of the package of a unit.\<close>

definition dep_build_script :: "'u build_unit \<Rightarrow> ('u build_unit \<times> unit_for) option" where
  "dep_build_script u =
     map_option (\<lambda>t.
         (\<lparr>bu_pkg = bu_pkg u, bu_target = t, bu_profile = unnamed (get_profile_run_custom_build (bu_profile u)),
           bu_kind = bu_kind u, bu_mode = ModeRunCustomBuild\<rparr>, new_build))
       (find is_custom_build (pg_targets (bu_pkg u)))"

definition maybe_lib ::
    "('u, 'r) build_context \<Rightarrow> 'u build_unit \<Rightarrow> unit_for \<Rightarrow> ('u build_unit \<times> unit_for) list option" where
  "maybe_lib bcx u uf =
     (case find linkable (pg_targets (bu_pkg u)) of
        None \<Rightarrow> Some []
      | Some t \<Rightarrow>
          map_option (\<lambda>v. [(v, uf)])
            (new_unit bcx (bu_pkg u) t uf (for_target t (bu_kind u)) (check_or_build_mode (bu_mode u) t)))"

section \<open>Packages that are downloaded\<close>

text \<open>What a source answers to \<open>download\<close>, and what it makes of the data.\<close>

datatype 'u download = Ready "'u graph_package" | NeedsDownload

record ('u, 'e) package_set =
  ps_ids :: "'u source_id package_id list"
  ps_download :: "'u source_id package_id \<Rightarrow> 'e + 'u download"
  ps_finish_download :: "'u source_id package_id \<Rightarrow> 'e + 'u graph_package"

datatype ('u, 'e) unit_error = NotInPackageSet "'u source_id package_id" | SourceError 'e

text \<open>\<open>Downloads\<close>: the packages that are there, and the ids that are pending.\<close>

record 'u downloads =
  dl_slots :: "('u source_id package_id \<times> 'u graph_package) list"
  dl_pending :: "'u source_id package_id list"

definition dl_start ::
    "('u, 'e) package_set \<Rightarrow> 'u source_id package_id \<Rightarrow> 'u downloads \<Rightarrow>
     (('u, 'e) unit_error, 'u graph_package option \<times> 'u downloads) run" where
  "dl_start S i d =
     (if i \<notin> set (ps_ids S) then Some (Inl (NotInPackageSet i))
      else case map_of (dl_slots d) i of
             Some pk \<Rightarrow> Some (Inr (Some pk, d))
           | None \<Rightarrow>
               (case ps_download S i of
                  Inl e \<Rightarrow> Some (Inl (SourceError e))
                | Inr (Ready pk) \<Rightarrow> Some (Inr (Some pk, d\<lparr>dl_slots := AList.update i pk (dl_slots d)\<rparr>))
                | Inr NeedsDownload \<Rightarrow>
                    if i \<in> set (dl_pending d) then None
                    else Some (Inr (None, d\<lparr>dl_pending := dl_pending d @ [i]\<rparr>))))"

text \<open>\<open>wait\<close> gives a pending package, the one that \<open>pick\<close> says; it panics if there is none.\<close>

definition dl_wait ::
    "('u, 'e) package_set \<Rightarrow> (nat \<Rightarrow> 'u source_id package_id list \<Rightarrow> nat) \<Rightarrow> 'u downloads \<Rightarrow>
     (('u, 'e) unit_error, 'u source_id package_id \<times> 'u graph_package \<times> 'u downloads) run" where
  "dl_wait S pick d =
     (if dl_pending d = [] then None
      else let i = dl_pending d ! (pick (length (dl_slots d)) (dl_pending d) mod length (dl_pending d))
           in case ps_finish_download S i of
                Inl e \<Rightarrow> Some (Inl (SourceError e))
              | Inr pk \<Rightarrow>
                  if map_of (dl_slots d) i \<noteq> None then None
                  else Some (Inr (i, pk, d\<lparr>dl_pending := removeAll i (dl_pending d),
                         dl_slots := AList.update i pk (dl_slots d)\<rparr>)))"

record 'u dep_state =
  ds_deps :: "('u build_unit \<times> 'u build_unit list) list"
  ds_pkgs :: "('u source_id package_id \<times> 'u graph_package) list"
  ds_waiting :: "'u source_id package_id set"
  ds_downloads :: "'u downloads"

definition state_get ::
    "('u, 'e) package_set \<Rightarrow> 'u source_id package_id \<Rightarrow> 'u dep_state \<Rightarrow>
     (('u, 'e) unit_error, 'u graph_package option \<times> 'u dep_state) run" where
  "state_get S i s =
     (case map_of (ds_pkgs s) i of
        Some pk \<Rightarrow> Some (Inr (Some pk, s))
      | None \<Rightarrow>
          if i \<in> ds_waiting s then Some (Inr (None, s))
          else bindR (dl_start S i (ds_downloads s)) (\<lambda>(r, d).
                 case r of
                   Some pk \<Rightarrow> Some (Inr (Some pk, s\<lparr>ds_pkgs := AList.update i pk (ds_pkgs s), ds_downloads := d\<rparr>))
                 | None \<Rightarrow> Some (Inr (None, s\<lparr>ds_waiting := insert i (ds_waiting s), ds_downloads := d\<rparr>))))"

text \<open>The loop of \<open>finish_some_downloads\<close>: it goes on while five or more are pending.\<close>

function finish_some ::
    "('u, 'e) package_set \<Rightarrow> (nat \<Rightarrow> 'u source_id package_id list \<Rightarrow> nat) \<Rightarrow> 'u dep_state \<Rightarrow>
     (('u, 'e) unit_error, 'u dep_state) run" where
  "finish_some S pick s =
     (case dl_wait S pick (ds_downloads s) of
        None \<Rightarrow> None
      | Some (Inl e) \<Rightarrow> Some (Inl e)
      | Some (Inr (i, pk, d)) \<Rightarrow>
          let s' = s\<lparr>ds_waiting := ds_waiting s - {i}, ds_pkgs := AList.update i pk (ds_pkgs s), ds_downloads := d\<rparr>
          in if length (dl_pending d) < 5 then Some (Inr s') else finish_some S pick s')"
  by pat_completeness auto

lemma length_removeAll_nth:
  assumes "xs \<noteq> []"
  shows "length (removeAll (xs ! (n mod length xs)) xs) < length xs"
  using assms by (intro length_removeAll_less nth_mem) simp

termination finish_some
proof (relation "measure (\<lambda>(S, pick, s). length (dl_pending (ds_downloads s)))", goal_cases)
  case 1
  show ?case by simp
next
  case (2 S pick s r x i y pk d s')
  then show ?case
    by (auto simp: dl_wait_def Let_def length_removeAll_nth split: if_splits sum.splits)
qed

declare finish_some.simps [simp del]

definition finish_some_downloads ::
    "('u, 'e) package_set \<Rightarrow> (nat \<Rightarrow> 'u source_id package_id list \<Rightarrow> nat) \<Rightarrow> 'u dep_state \<Rightarrow>
     (('u, 'e) unit_error, 'u dep_state) run" where
  "finish_some_downloads S pick s =
     (if dl_pending (ds_downloads s) = [] then None else finish_some S pick s)"

section \<open>The dependencies of a unit\<close>

definition dep_used :: "('u, 'r) build_context \<Rightarrow> 'u build_unit \<Rightarrow> ('u source_id, 'r) dependency \<Rightarrow> bool" where
  "dep_used bcx u dep \<longleftrightarrow>
     is_custom_build (bu_target u) = is_build dep \<and>
     (is_transitive dep \<or> is_test (bu_target u) \<or> is_example (bu_target u) \<or> is_any_test (bu_mode u)) \<and>
     dep_platform_activated bcx dep (bu_kind u) \<and>
     (optional dep \<longrightarrow> name_in_toml dep \<in> rs_features_of (bc_resolve bcx) (pg_id (bu_pkg u)))"

text \<open>The loop over the dependencies of the package; the filter before it asserts that an edge has a dependency.\<close>

fun lib_deps ::
    "('u, 'e) package_set \<Rightarrow> ('u, 'r) build_context \<Rightarrow> 'u build_unit \<Rightarrow> unit_for \<Rightarrow>
     ('u source_id package_id \<times> ('u source_id, 'r) dependency list) list \<Rightarrow> 'u dep_state \<Rightarrow>
     (('u, 'e) unit_error, ('u build_unit \<times> unit_for) list \<times> 'u dep_state) run" where
  "lib_deps S bcx u uf [] s = Some (Inr ([], s))"
| "lib_deps S bcx u uf ((i, ds) # es) s =
     (if ds = [] then None
      else if \<not> list_ex (dep_used bcx u) ds then lib_deps S bcx u uf es s
      else bindR (state_get S i s) (\<lambda>(r, s).
             case r of
               None \<Rightarrow> lib_deps S bcx u uf es s
             | Some pk \<Rightarrow>
                 (case find is_lib (pg_targets pk) of
                    None \<Rightarrow> lib_deps S bcx u uf es s
                  | Some lib \<Rightarrow>
                      let duf = with_for_host (tg_for_host lib) uf
                      in bindR (unwrap (new_unit bcx pk lib duf (for_target lib (bu_kind u))
                           (check_or_build_mode (bu_mode u) lib))) (\<lambda>v.
                         bindR (lib_deps S bcx u uf es s) (\<lambda>(vs, s). Some (Inr ((v, duf) # vs, s)))))))"

definition compute_deps_custom_build ::
    "('u, 'r) build_context \<Rightarrow> 'u build_unit \<Rightarrow> ('u build_unit \<times> unit_for) list option" where
  "compute_deps_custom_build bcx u =
     map_option (\<lambda>v. [(v, new_build)]) (new_unit bcx (bu_pkg u) (bu_target u) new_build HostKind ModeBuild)"

text \<open>The loop of \<open>compute_deps_doc\<close>.\<close>

definition doc_dep_used :: "('u, 'r) build_context \<Rightarrow> 'u build_unit \<Rightarrow> ('u source_id, 'r) dependency \<Rightarrow> bool" where
  "doc_dep_used bcx u dep \<longleftrightarrow> dep_kind dep = Normal \<and> dep_platform_activated bcx dep (bu_kind u)"

fun doc_deps ::
    "('u, 'e) package_set \<Rightarrow> ('u, 'r) build_context \<Rightarrow> 'u build_unit \<Rightarrow>
     ('u source_id package_id \<times> ('u source_id, 'r) dependency list) list \<Rightarrow> 'u dep_state \<Rightarrow>
     (('u, 'e) unit_error, ('u build_unit \<times> unit_for) list \<times> 'u dep_state) run" where
  "doc_deps S bcx u [] s = Some (Inr ([], s))"
| "doc_deps S bcx u ((i, ds) # es) s =
     (if \<not> list_ex (doc_dep_used bcx u) ds then doc_deps S bcx u es s
      else bindR (state_get S i s) (\<lambda>(r, s).
             case r of
               None \<Rightarrow> doc_deps S bcx u es s
             | Some pk \<Rightarrow>
                 (case find is_lib (pg_targets pk) of
                    None \<Rightarrow> doc_deps S bcx u es s
                  | Some lib \<Rightarrow>
                      let duf = with_for_host (tg_for_host lib) new_normal; k = for_target lib (bu_kind u)
                      in bindR (unwrap (new_unit bcx pk lib duf k (check_or_build_mode (bu_mode u) lib))) (\<lambda>v.
                         bindR (if bu_mode u = ModeDoc True
                                then bindR (unwrap (new_unit bcx pk lib duf k (bu_mode u))) (\<lambda>w. Some (Inr [(w, duf)]))
                                else Some (Inr [])) (\<lambda>docs.
                         bindR (doc_deps S bcx u es s) (\<lambda>(vs, s). Some (Inr ((v, duf) # docs @ vs, s))))))))"

definition compute_deps_doc ::
    "('u, 'e) package_set \<Rightarrow> ('u, 'r) build_context \<Rightarrow> 'u build_unit \<Rightarrow> 'u dep_state \<Rightarrow>
     (('u, 'e) unit_error, ('u build_unit \<times> unit_for) list \<times> 'u dep_state) run" where
  "compute_deps_doc S bcx u s =
     bindR (doc_deps S bcx u (deps (bc_resolve bcx) (pg_id (bu_pkg u))) s) (\<lambda>(vs, s).
     bindR (if is_bin (bu_target u) then unwrap (maybe_lib bcx u new_normal) else Some (Inr [])) (\<lambda>ls.
       Some (Inr (vs @ (case dep_build_script u of None \<Rightarrow> [] | Some b \<Rightarrow> [b]) @ ls, s))))"

text \<open>The binaries that the integration tests and benchmarks of a package need.\<close>

definition test_bins :: "('u, 'r) build_context \<Rightarrow> 'u build_unit \<Rightarrow> ('u build_unit \<times> unit_for) list option" where
  "test_bins bcx u =
     (if \<not> is_check (bu_mode u) \<and> is_any_test (bu_mode u) \<and> (is_test (bu_target u) \<or> is_bench (bu_target u)) then
        those (map (\<lambda>t. map_option (\<lambda>v. (v, new_normal))
            (new_unit bcx (bu_pkg u) t new_normal (for_target t (bu_kind u)) ModeBuild))
          (filter (\<lambda>t. is_bin t \<and>
              set (case tg_required_features t of None \<Rightarrow> [] | Some fs \<Rightarrow> fs)
                \<subseteq> rs_features_of (bc_resolve bcx) (pg_id (bu_pkg u)))
            (pg_targets (bu_pkg u))))
      else Some [])"

definition compute_deps ::
    "('u, 'e) package_set \<Rightarrow> ('u, 'r) build_context \<Rightarrow> 'u build_unit \<Rightarrow> unit_for \<Rightarrow> 'u dep_state \<Rightarrow>
     (('u, 'e) unit_error, ('u build_unit \<times> unit_for) list \<times> 'u dep_state) run" where
  "compute_deps S bcx u uf s =
     (if bu_mode u = ModeRunCustomBuild then
        bindR (unwrap (compute_deps_custom_build bcx u)) (\<lambda>vs. Some (Inr (vs, s)))
      else if is_doc (bu_mode u) \<and> \<not> is_any_test (bu_mode u) then compute_deps_doc S bcx u s
      else
        bindR (lib_deps S bcx u uf (deps (bc_resolve bcx) (pg_id (bu_pkg u))) s) (\<lambda>(vs, s).
          if is_custom_build (bu_target u) then Some (Inr (vs, s))
          else
            let vs = vs @ (case dep_build_script u of None \<Rightarrow> [] | Some b \<Rightarrow> [b])
            in if is_lib (bu_target u) \<and> bu_mode u \<noteq> ModeDoctest then Some (Inr (vs, s))
               else bindR (unwrap (maybe_lib bcx u uf)) (\<lambda>ls.
                    bindR (unwrap (test_bins bcx u)) (\<lambda>bs. Some (Inr (vs @ ls @ bs, s))))))"

section \<open>The search\<close>

text \<open>
  \<open>deps_of\<close> with the units still to be visited as a stack: the dependencies of a unit come before what was left.  The
  outer \<open>None\<close> is a search that does not end.
\<close>

partial_function (option) deps_of ::
    "('u, 'e) package_set \<Rightarrow> ('u, 'r) build_context \<Rightarrow> ('u build_unit \<times> unit_for) list \<Rightarrow> 'u dep_state \<Rightarrow>
     (('u, 'e) unit_error, 'u dep_state) run option" where
  "deps_of S bcx todo s =
     (case todo of
        [] \<Rightarrow> Some (Some (Inr s))
      | (u, uf) # todo \<Rightarrow>
          if map_of (ds_deps s) u \<noteq> None then deps_of S bcx todo s
          else (case compute_deps S bcx u uf s of
                  None \<Rightarrow> Some None
                | Some (Inl e) \<Rightarrow> Some (Some (Inl e))
                | Some (Inr (vs, s)) \<Rightarrow>
                    deps_of S bcx (vs @ todo) (s\<lparr>ds_deps := AList.update u (map fst vs) (ds_deps s)\<rparr>)))"

definition root_unit_for :: "('u, 'r) build_context \<Rightarrow> 'u build_unit \<Rightarrow> unit_for" where
  "root_unit_for bcx u =
     (if is_any_test (bu_mode u) \<or> bc_test bcx then new_test
      else if is_custom_build (bu_target u) then new_build
      else if tg_for_host (bu_target u) then new_compiler
      else new_normal)"

text \<open>One round over the roots.\<close>

fun visit_roots ::
    "('u, 'e) package_set \<Rightarrow> ('u, 'r) build_context \<Rightarrow> 'u build_unit list \<Rightarrow> 'u dep_state \<Rightarrow>
     (('u, 'e) unit_error, 'u dep_state) run option" where
  "visit_roots S bcx [] s = Some (Some (Inr s))"
| "visit_roots S bcx (u # us) s =
     (case state_get S (pg_id (bu_pkg u)) s of
        None \<Rightarrow> Some None
      | Some (Inl e) \<Rightarrow> Some (Some (Inl e))
      | Some (Inr (_, s)) \<Rightarrow>
          (case deps_of S bcx [(u, root_unit_for bcx u)] s of
             None \<Rightarrow> None
           | Some None \<Rightarrow> Some None
           | Some (Some (Inl e)) \<Rightarrow> Some (Some (Inl e))
           | Some (Some (Inr s)) \<Rightarrow> visit_roots S bcx us s))"

partial_function (option) unit_rounds ::
    "('u, 'e) package_set \<Rightarrow> (nat \<Rightarrow> 'u source_id package_id list \<Rightarrow> nat) \<Rightarrow> ('u, 'r) build_context \<Rightarrow>
     'u build_unit list \<Rightarrow> 'u dep_state \<Rightarrow> (('u, 'e) unit_error, 'u dep_state) run option" where
  "unit_rounds S pick bcx roots s =
     (case visit_roots S bcx roots s of
        None \<Rightarrow> None
      | Some None \<Rightarrow> Some None
      | Some (Some (Inl e)) \<Rightarrow> Some (Some (Inl e))
      | Some (Some (Inr s)) \<Rightarrow>
          if ds_waiting s = {} then Some (Some (Inr s))
          else (case finish_some_downloads S pick s of
                  None \<Rightarrow> Some None
                | Some (Inl e) \<Rightarrow> Some (Some (Inl e))
                | Some (Inr s) \<Rightarrow> unit_rounds S pick bcx roots (s\<lparr>ds_deps := []\<rparr>)))"

declare deps_of.simps [code] unit_rounds.simps [code]

section \<open>Build scripts of linked packages\<close>

text \<open>The units that depend on the run of a build script, and the runs that have to come before it.\<close>

definition script_parents :: "('u build_unit \<times> 'u build_unit list) list \<Rightarrow> 'u build_unit \<Rightarrow> 'u build_unit list" where
  "script_parents m u = map fst (filter (\<lambda>(_, ds). u \<in> set ds) m)"

definition script_deps :: "('u build_unit \<times> 'u build_unit list) list \<Rightarrow> 'u build_unit \<Rightarrow> 'u build_unit list" where
  "script_deps m u =
     remdups (List.map_filter (\<lambda>other. map_option fst (dep_build_script other))
       (filter (\<lambda>other. pg_id (bu_pkg other) \<noteq> pg_id (bu_pkg u) \<and> linkable (bu_target other) \<and> pg_links (bu_pkg other) \<noteq> None)
         (concat (map (\<lambda>p. case map_of m p of Some ds \<Rightarrow> ds | None \<Rightarrow> []) (script_parents m u)))))"

definition connect_run_custom_build_deps ::
    "('u build_unit \<times> 'u build_unit list) list \<Rightarrow> ('u build_unit \<times> 'u build_unit list) list" where
  "connect_run_custom_build_deps m =
     map (\<lambda>(u, ds). (u, if bu_mode u = ModeRunCustomBuild then ds @ script_deps m u else ds)) m"

definition new_dep_state ::
    "('u source_id package_id \<times> 'u graph_package) list \<Rightarrow> ('u source_id package_id \<times> 'u graph_package) list \<Rightarrow> 'u dep_state" where
  "new_dep_state pkgs filled =
     \<lparr>ds_deps = [], ds_pkgs = pkgs, ds_waiting = {}, ds_downloads = \<lparr>dl_slots = filled, dl_pending = []\<rparr>\<rparr>"

definition build_unit_dependencies ::
    "('u, 'e) package_set \<Rightarrow> (nat \<Rightarrow> 'u source_id package_id list \<Rightarrow> nat) \<Rightarrow> ('u, 'r) build_context \<Rightarrow>
     'u build_unit list \<Rightarrow> 'u dep_state \<Rightarrow> (('u, 'e) unit_error, 'u dep_state) run option" where
  "build_unit_dependencies S pick bcx roots s =
     (if ds_deps s \<noteq> [] then Some None
      else map_option (map_option (map_sum id (\<lambda>s. s\<lparr>ds_deps := connect_run_custom_build_deps (ds_deps s)\<rparr>)))
             (unit_rounds S pick bcx roots s))"


section \<open>Downloads keep their books\<close>

text \<open>The packages behind the ids: what a source gives is the package of the id, or an error.\<close>

definition sources_ok :: "('u, 'e) package_set \<Rightarrow> ('u source_id package_id \<Rightarrow> 'u graph_package) \<Rightarrow> bool" where
  "sources_ok S L \<longleftrightarrow>
     (\<forall>i \<in> set (ps_ids S). pg_id (L i) = i \<and>
        (case ps_download S i of Inr (Ready p) \<Rightarrow> p = L i | _ \<Rightarrow> True) \<and>
        (case ps_finish_download S i of Inr p \<Rightarrow> p = L i | _ \<Rightarrow> True))"

definition holds :: "('u, 'e) package_set \<Rightarrow> ('u source_id package_id \<Rightarrow> 'u graph_package) \<Rightarrow>
    ('u source_id package_id \<times> 'u graph_package) list \<Rightarrow> bool" where
  "holds S L m \<longleftrightarrow> (\<forall>i p. map_of m i = Some p \<longrightarrow> i \<in> set (ps_ids S) \<and> p = L i)"

definition state_ok :: "('u, 'e) package_set \<Rightarrow> ('u source_id package_id \<Rightarrow> 'u graph_package) \<Rightarrow> 'u dep_state \<Rightarrow> bool" where
  "state_ok S L s \<longleftrightarrow> holds S L (ds_pkgs s) \<and> holds S L (dl_slots (ds_downloads s)) \<and>
     set (dl_pending (ds_downloads s)) = ds_waiting s \<and> ds_waiting s \<subseteq> set (ps_ids S) \<and>
     (\<forall>i \<in> ds_waiting s. map_of (dl_slots (ds_downloads s)) i = None \<and> map_of (ds_pkgs s) i = None)"

lemma holds_update: "holds S L m \<Longrightarrow> i \<in> set (ps_ids S) \<Longrightarrow> holds S L (AList.update i (L i) m)"
  by (simp add: holds_def update_conv')

text \<open>While units are visited the graph waits for more packages and has more of them.\<close>

definition goes_on :: "'u dep_state \<Rightarrow> 'u dep_state \<Rightarrow> bool" where
  "goes_on s s' \<longleftrightarrow> ds_waiting s \<subseteq> ds_waiting s' \<and> dom (map_of (ds_pkgs s)) \<subseteq> dom (map_of (ds_pkgs s'))"

lemma goes_on_refl [simp]: "goes_on s s" and goes_on_deps [simp]: "goes_on s (s'\<lparr>ds_deps := m\<rparr>) = goes_on s s'"
  by (simp_all add: goes_on_def)

lemma goes_onD: "goes_on s s' \<Longrightarrow> ds_waiting s \<subseteq> ds_waiting s'"
  by (simp add: goes_on_def)

lemma goes_on_trans: "goes_on s s' \<Longrightarrow> goes_on s' s'' \<Longrightarrow> goes_on s s''"
  unfolding goes_on_def by blast

text \<open>What a request for a package does: it fails, gives the package, or notes that it waits for it.\<close>

lemma state_get_cases:
  assumes src: "sources_ok S L" and ok: "state_ok S L s"
  obtains (error) e where "state_get S i s = Some (Inl e)" "i \<in> set (ps_ids S) \<Longrightarrow> \<exists>x. e = SourceError x"
  | (there) s' where "state_get S i s = Some (Inr (Some (L i), s'))" "state_ok S L s'" "i \<in> set (ps_ids S)"
      "ds_deps s' = ds_deps s" "ds_waiting s' = ds_waiting s" "goes_on s s'"
  | (later) s' where "state_get S i s = Some (Inr (None, s'))" "state_ok S L s'" "i \<in> ds_waiting s'"
      "ds_deps s' = ds_deps s" "goes_on s s'"
proof (cases "map_of (ds_pkgs s) i")
  case (Some p)
  with ok have "i \<in> set (ps_ids S)" "p = L i" by (auto simp: state_ok_def holds_def)
  with Some ok show thesis by (intro there [of s]) (simp_all add: state_get_def)
next
  case pkgs: None
  show thesis
  proof (cases "i \<in> ds_waiting s")
    case True
    with pkgs ok show thesis by (intro later [of s]) (simp_all add: state_get_def)
  next
    case fresh: False
    let ?d = "ds_downloads s"
    show thesis
    proof (cases "i \<in> set (ps_ids S)")
      case False
      with pkgs fresh show thesis by (intro error) (simp_all add: state_get_def dl_start_def)
    next
      case ids: True
      show thesis
      proof (cases "map_of (dl_slots ?d) i")
        case (Some p)
        with ok have "p = L i" by (auto simp: state_ok_def holds_def)
        with Some pkgs fresh ids have get: "state_get S i s = Some (Inr (Some (L i), s\<lparr>ds_pkgs := AList.update i (L i) (ds_pkgs s)\<rparr>))"
          by (simp add: state_get_def dl_start_def)
        have "state_ok S L (s\<lparr>ds_pkgs := AList.update i (L i) (ds_pkgs s)\<rparr>)"
          using ok ids fresh by (auto simp: state_ok_def holds_update update_conv')
        with get ids show thesis by (intro there [OF get]) (auto simp: goes_on_def update_conv')
      next
        case slot: None
        show thesis
        proof (cases "ps_download S i")
          case (Inl e)
          with pkgs fresh ids slot show thesis by (intro error [of "SourceError e"]) (simp_all add: state_get_def dl_start_def)
        next
          case (Inr r)
          show thesis
          proof (cases r)
            case (Ready p)
            with src ids Inr have "p = L i" by (auto simp: sources_ok_def)
            let ?s = "s\<lparr>ds_pkgs := AList.update i (L i) (ds_pkgs s),
              ds_downloads := ?d\<lparr>dl_slots := AList.update i (L i) (dl_slots ?d)\<rparr>\<rparr>"
            have get: "state_get S i s = Some (Inr (Some (L i), ?s))"
              using pkgs fresh ids slot Inr Ready \<open>p = L i\<close> by (simp add: state_get_def dl_start_def)
            have "state_ok S L ?s"
              using ok ids fresh by (auto simp: state_ok_def holds_update update_conv')
            with ids show thesis by (intro there [OF get]) (auto simp: goes_on_def update_conv')
          next
            case NeedsDownload
            let ?s = "s\<lparr>ds_waiting := insert i (ds_waiting s), ds_downloads := ?d\<lparr>dl_pending := dl_pending ?d @ [i]\<rparr>\<rparr>"
            have "i \<notin> set (dl_pending ?d)" using ok fresh by (simp add: state_ok_def)
            then have get: "state_get S i s = Some (Inr (None, ?s))"
              using pkgs fresh ids slot Inr NeedsDownload by (simp add: state_get_def dl_start_def)
            have "state_ok S L ?s" using ok ids slot pkgs by (auto simp: state_ok_def)
            then show thesis by (intro later [OF get]) (auto simp: goes_on_def)
          qed
        qed
      qed
    qed
  qed
qed

lemma state_ok_deps [simp]: "state_ok S L (s\<lparr>ds_deps := m\<rparr>) = state_ok S L s"
  by (simp add: state_ok_def)



section \<open>Units of the graph\<close>

text \<open>What the graph relies on: sources that give the package of an id, a resolution within the set, profiles that were validated.\<close>

definition graph_ok :: "('u, 'e) package_set \<Rightarrow> ('u source_id package_id \<Rightarrow> 'u graph_package) \<Rightarrow> ('u, 'r) build_context \<Rightarrow> bool" where
  "graph_ok S L bcx \<longleftrightarrow> sources_ok S L \<and>
     (\<forall>i \<in> set (ps_ids S).
        (\<forall>(j, ds) \<in> set (deps (bc_resolve bcx) i). j \<in> set (ps_ids S) \<and> ds \<noteq> []) \<and>
        (\<forall>mem uf mode. get_profile (bc_profiles bcx) i mem uf mode (bc_release bcx) \<noteq> None))"

definition profiles_closed :: "('u, 'e) package_set \<Rightarrow> ('u, 'r) build_context \<Rightarrow> profile set \<Rightarrow> bool" where
  "profiles_closed S bcx P \<longleftrightarrow>
     (\<forall>i \<in> set (ps_ids S). \<forall>mem uf mode p.
        get_profile (bc_profiles bcx) i mem uf mode (bc_release bcx) = Some p \<longrightarrow> unnamed p \<in> P) \<and>
     (\<forall>p \<in> P. unnamed (get_profile_run_custom_build p) \<in> P)"

definition unit_ok ::
    "('u, 'e) package_set \<Rightarrow> ('u source_id package_id \<Rightarrow> 'u graph_package) \<Rightarrow> profile set \<Rightarrow> 'u build_unit \<Rightarrow> bool" where
  "unit_ok S L P u \<longleftrightarrow> pg_id (bu_pkg u) \<in> set (ps_ids S) \<and> bu_pkg u = L (pg_id (bu_pkg u)) \<and>
     bu_target u \<in> set (pg_targets (bu_pkg u)) \<and> bu_profile u \<in> P \<and>
     (bu_mode u = ModeRunCustomBuild \<longrightarrow> is_custom_build (bu_target u))"

lemma new_unit_ok:
  assumes "graph_ok S L bcx" "profiles_closed S bcx P" "i \<in> set (ps_ids S)" "t \<in> set (pg_targets (L i))"
    "mode \<noteq> ModeRunCustomBuild"
  obtains v where "new_unit bcx (L i) t uf k mode = Some v" "unit_ok S L P v"
proof -
  have id: "pg_id (L i) = i" using assms(1,3) by (simp add: graph_ok_def sources_ok_def)
  obtain p where "get_profile (bc_profiles bcx) i (is_member bcx (L i)) uf mode (bc_release bcx) = Some p"
    using assms(1,3) by (fastforce simp: graph_ok_def)
  moreover from this have "unnamed p \<in> P" using assms(2,3) by (auto simp: profiles_closed_def)
  ultimately show thesis
    using assms(3-5)
    by (intro that [of "\<lparr>bu_pkg = L i, bu_target = t, bu_profile = unnamed p, bu_kind = k, bu_mode = mode\<rparr>"])
      (simp_all add: new_unit_def unit_ok_def id)
qed

lemma dep_build_script_ok:
  assumes "profiles_closed S bcx P" "unit_ok S L P u" "dep_build_script u = Some b"
  shows "unit_ok S L P (fst b)"
  using assms by (auto simp: dep_build_script_def unit_ok_def profiles_closed_def find_Some_iff)

lemma check_or_build_mode_not_run [simp]: "check_or_build_mode mode t \<noteq> ModeRunCustomBuild"
  by (simp add: check_or_build_mode_def split: compile_mode.splits)

lemma maybe_lib_ok:
  assumes "graph_ok S L bcx" "profiles_closed S bcx P" "unit_ok S L P u"
  obtains vs where "maybe_lib bcx u uf = Some vs" "\<forall>v \<in> set vs. unit_ok S L P (fst v)"
proof (cases "find linkable (pg_targets (bu_pkg u))")
  case None
  then show thesis by (intro that [of "[]"]) (simp_all add: maybe_lib_def)
next
  case (Some t)
  obtain i where i: "i \<in> set (ps_ids S)" "bu_pkg u = L i" using assms(3) by (auto simp: unit_ok_def)
  have "t \<in> set (pg_targets (L i))" using Some by (auto simp: find_Some_iff i)
  then obtain v where v: "new_unit bcx (L i) t uf (for_target t (bu_kind u)) (check_or_build_mode (bu_mode u) t) = Some v"
      "unit_ok S L P v"
    using new_unit_ok [OF assms(1,2) i(1)] check_or_build_mode_not_run by metis
  show thesis using v Some i by (intro that [of "[(v, uf)]"]) (simp_all add: maybe_lib_def)
qed

lemma those_total: "\<forall>x \<in> set xs. \<exists>v. f x = Some v \<and> P v \<Longrightarrow> \<exists>vs. those (map f xs) = Some vs \<and> (\<forall>v \<in> set vs. P v)"
  by (induction xs) auto

lemma test_bins_ok:
  assumes "graph_ok S L bcx" "profiles_closed S bcx P" "unit_ok S L P u"
  obtains vs where "test_bins bcx u = Some vs" "\<forall>v \<in> set vs. unit_ok S L P (fst v)"
proof -
  obtain i where i: "i \<in> set (ps_ids S)" "bu_pkg u = L i" using assms(3) by (auto simp: unit_ok_def)
  have one: "\<exists>v. map_option (\<lambda>v. (v, new_normal)) (new_unit bcx (bu_pkg u) t new_normal (for_target t (bu_kind u)) ModeBuild) = Some v
      \<and> unit_ok S L P (fst v)" if "t \<in> set (pg_targets (L i))" for t
    by (rule new_unit_ok [OF assms(1,2) i(1) that, of ModeBuild new_normal "for_target t (bu_kind u)"]) (auto simp: i(2))
  let ?ts = "filter (\<lambda>t. is_bin t \<and> set (case tg_required_features t of None \<Rightarrow> [] | Some fs \<Rightarrow> fs)
      \<subseteq> rs_features_of (bc_resolve bcx) (pg_id (bu_pkg u))) (pg_targets (bu_pkg u))"
  let ?new = "\<lambda>t. map_option (\<lambda>v. (v, new_normal)) (new_unit bcx (bu_pkg u) t new_normal (for_target t (bu_kind u)) ModeBuild)"
  have "\<forall>t \<in> set ?ts. \<exists>v. ?new t = Some v \<and> unit_ok S L P (fst v)" using one i(2) by simp
  from those_total [OF this] obtain vs where vs: "those (map ?new ?ts) = Some vs" "\<forall>v \<in> set vs. unit_ok S L P (fst v)" by blast
  show thesis
  proof (cases "\<not> is_check (bu_mode u) \<and> is_any_test (bu_mode u) \<and> (is_test (bu_target u) \<or> is_bench (bu_target u))")
    case True
    with vs show thesis by (intro that [of vs]) (simp_all add: test_bins_def split_beta del: option.case_distrib)
  next
    case False
    then show thesis by (intro that [of "[]"]) (auto simp: test_bins_def)
  qed
qed

section \<open>Requests for packages\<close>

text \<open>
  A step of the graph: it fails with an error of a source, or leaves a state in order that waits for no less and
  satisfies a postcondition.
\<close>

definition got :: "('u, 'e) package_set \<Rightarrow> ('u source_id package_id \<Rightarrow> 'u graph_package) \<Rightarrow> 'u dep_state \<Rightarrow>
    (('u, 'e) unit_error, 'a \<times> 'u dep_state) run \<Rightarrow> ('a \<Rightarrow> 'u dep_state \<Rightarrow> bool) \<Rightarrow> bool" where
  "got S L s r Q \<longleftrightarrow>
     (case r of
        None \<Rightarrow> False
      | Some (Inl e) \<Rightarrow> \<exists>x. e = SourceError x
      | Some (Inr (a, s')) \<Rightarrow> state_ok S L s' \<and> ds_deps s' = ds_deps s \<and> goes_on s s' \<and> Q a s')"

lemma got_return [simp]: "got S L s (Some (Inr (a, s))) Q \<longleftrightarrow> state_ok S L s \<and> Q a s"
  by (simp add: got_def)

lemma got_bind:
  assumes "got S L s m Q"
    and "\<And>a s'. state_ok S L s' \<Longrightarrow> goes_on s s' \<Longrightarrow> Q a s' \<Longrightarrow> got S L s' (f (a, s')) R"
  shows "got S L s (bindR m f) R"
proof -
  have "got S L s (f (a, s')) R" if "m = Some (Inr (a, s'))" for a s'
  proof -
    from assms(1) that have s': "state_ok S L s'" "ds_deps s' = ds_deps s" "goes_on s s'" "Q a s'"
      by (simp_all add: got_def)
    show ?thesis
      using assms(2) [OF s'(1,3,4)] s'(2) by (auto simp: got_def split: option.splits sum.splits intro: goes_on_trans [OF s'(3)])
  qed
  with assms(1) show ?thesis by (auto simp: got_def split: option.splits sum.splits)
qed

lemma got_weaken:
  assumes "got S L s m Q" "\<And>a s'. state_ok S L s' \<Longrightarrow> goes_on s s' \<Longrightarrow> Q a s' \<Longrightarrow> R a s'"
  shows "got S L s m R"
  using assms by (auto simp: got_def split: option.splits sum.splits)

lemma got_state_get:
  assumes "graph_ok S L bcx" "state_ok S L s" "i \<in> set (ps_ids S)"
  shows "got S L s (state_get S i s) (\<lambda>r s'. r = Some (L i) \<or> r = None \<and> i \<in> ds_waiting s')"
proof -
  have src: "sources_ok S L" using assms(1) by (simp add: graph_ok_def)
  show ?thesis
    by (cases rule: state_get_cases [OF src assms(2), of i]) (use assms in \<open>auto simp: got_def\<close>)
qed


section \<open>The dependencies of a unit, whatever is ready\<close>

text \<open>The same set with every package at hand; a step agrees with it if it does there what it did here.\<close>

definition all_ready ::
    "('u source_id package_id \<Rightarrow> 'u graph_package) \<Rightarrow> ('u, 'e) package_set \<Rightarrow> ('u, 'e) package_set" where
  "all_ready L S = S\<lparr>ps_download := (\<lambda>i. Inr (Ready (L i)))\<rparr>"

definition full :: "('u, 'e) package_set \<Rightarrow> ('u source_id package_id \<Rightarrow> 'u graph_package) \<Rightarrow> 'u dep_state \<Rightarrow> bool" where
  "full S L t \<longleftrightarrow> state_ok (all_ready L S) L t \<and> ds_waiting t = {}"

definition agrees :: "('u, 'e) package_set \<Rightarrow> ('u source_id package_id \<Rightarrow> 'u graph_package) \<Rightarrow>
    ('u dep_state \<Rightarrow> (('u, 'e) unit_error, 'a \<times> 'u dep_state) run) \<Rightarrow> 'a \<Rightarrow> bool" where
  "agrees S L f a \<longleftrightarrow> (\<forall>t. full S L t \<longrightarrow> (\<exists>t'. f t = Some (Inr (a, t')) \<and> full S L t' \<and> ds_deps t' = ds_deps t))"

lemma graph_ok_all_ready: "graph_ok S L bcx \<Longrightarrow> graph_ok (all_ready L S) L bcx"
  by (simp add: graph_ok_def sources_ok_def all_ready_def)

lemma agrees_return: "agrees S L (\<lambda>t. Some (Inr (a, t))) a"
  by (simp add: agrees_def)

lemma agrees_bind:
  assumes "agrees S L m a" "agrees S L (\<lambda>t. f (a, t)) b"
  shows "agrees S L (\<lambda>t. bindR (m t) f) b"
  unfolding agrees_def
proof (intro allI impI)
  fix t :: "'a dep_state"
  assume "full S L t"
  then obtain t1 where t1: "m t = Some (Inr (a, t1))" "full S L t1" "ds_deps t1 = ds_deps t"
    using assms(1) by (auto simp: agrees_def)
  obtain t2 where "f (a, t1) = Some (Inr (b, t2))" "full S L t2" "ds_deps t2 = ds_deps t1"
    using assms(2) t1(2) by (auto simp: agrees_def)
  with t1 show "\<exists>t'. bindR (m t) f = Some (Inr (b, t')) \<and> full S L t' \<and> ds_deps t' = ds_deps t" by simp
qed

lemma agrees_state_get:
  assumes "graph_ok S L bcx" "i \<in> set (ps_ids S)"
  shows "agrees S L (state_get (all_ready L S) i) (Some (L i))"
  unfolding agrees_def
proof (intro allI impI)
  fix t :: "'a dep_state"
  assume t: "full S L t"
  let ?R = "all_ready L S"
  have src: "sources_ok ?R L" using graph_ok_all_ready [OF assms(1)] by (simp add: graph_ok_def)
  have ok: "state_ok ?R L t" and none: "ds_waiting t = {}" using t by (simp_all add: full_def)
  have "i \<in> set (ps_ids ?R)" using assms(2) by (simp add: all_ready_def)
  then have "\<exists>r s'. state_get ?R i t = Some (Inr (Some r, s'))"
    using none by (auto simp: state_get_def dl_start_def all_ready_def split: option.splits)
  then show "\<exists>t'. state_get ?R i t = Some (Inr (Some (L i), t')) \<and> full S L t' \<and> ds_deps t' = ds_deps t"
    by (cases rule: state_get_cases [OF src ok, of i]) (use none in \<open>auto simp: full_def\<close>)
qed

text \<open>The dependencies that a list of edges gives.\<close>

definition units_got ::
    "('u, 'e) package_set \<Rightarrow> ('u source_id package_id \<Rightarrow> 'u graph_package) \<Rightarrow> profile set \<Rightarrow>
     ('u dep_state \<Rightarrow> (('u, 'e) unit_error, ('u build_unit \<times> unit_for) list \<times> 'u dep_state) run) \<Rightarrow>
     ('u build_unit \<times> unit_for) list \<Rightarrow> 'u dep_state \<Rightarrow> bool" where
  "units_got S L P f vs s \<longleftrightarrow> (\<forall>v \<in> set vs. unit_ok S L P (fst v)) \<and> (ds_waiting s = {} \<longrightarrow> agrees S L f vs)"

lemma agrees_cong: "(\<And>t. f t = g t) \<Longrightarrow> agrees S L g a \<Longrightarrow> agrees S L f a"
  by (simp add: agrees_def)

lemma got_lib_deps:
  assumes g: "graph_ok S L bcx" and p: "profiles_closed S bcx P"
  shows "state_ok S L s \<Longrightarrow> \<forall>(j, ds) \<in> set es. j \<in> set (ps_ids S) \<and> ds \<noteq> [] \<Longrightarrow>
    got S L s (lib_deps S bcx u uf es s) (units_got S L P (lib_deps (all_ready L S) bcx u uf es))"
proof (induction es arbitrary: s)
  case Nil
  then show ?case by (simp add: units_got_def agrees_return)
next
  case (Cons e es)
  obtain i ds where e: "e = (i, ds)" by (cases e)
  with Cons.prems have i: "i \<in> set (ps_ids S)" and ds: "ds \<noteq> []" and
    es: "\<forall>(j, ds) \<in> set es. j \<in> set (ps_ids S) \<and> ds \<noteq> []" by auto
  let ?R = "all_ready L S"
  define F where "F = lib_deps ?R bcx u uf es"
  define F' where "F' = lib_deps ?R bcx u uf (e # es)"
  note IH = Cons.IH [OF _ es, folded F_def]
  have unfold: "agrees S L F' vs" if "agrees S L (\<lambda>t. lib_deps ?R bcx u uf (e # es) t) vs" for vs
    using that by (simp only: F'_def)
  note get = got_state_get [OF g Cons.prems(1) i] agrees_state_get [OF g i]
  have "got S L s (lib_deps S bcx u uf (e # es) s) (units_got S L P F')"
  proof (cases "list_ex (dep_used bcx u) ds")
    case False
    have "agrees S L F' vs" if "agrees S L F vs" for vs
      by (rule unfold) (use False ds that in \<open>simp add: e F_def\<close>)
    then show ?thesis
      using False ds by (auto simp: e units_got_def intro!: got_weaken [OF IH [OF Cons.prems(1)]])
  next
    case used: True
    show ?thesis
    proof (cases "find is_lib (pg_targets (L i))")
      case None
      have "agrees S L F' vs" if "agrees S L F vs" for vs
        by (rule unfold) (use used ds that None in \<open>auto simp: e F_def intro!: agrees_bind [OF get(2)]\<close>)
      then show ?thesis
        using used ds None
        by (auto simp: e units_got_def intro!: got_bind [OF get(1)] got_weaken [OF IH] dest!: goes_onD)
    next
      case (Some lib)
      let ?duf = "with_for_host (tg_for_host lib) uf"
      have "lib \<in> set (pg_targets (L i))" using Some by (auto simp: find_Some_iff)
      then obtain v where v: "new_unit bcx (L i) lib ?duf (for_target lib (bu_kind u)) (check_or_build_mode (bu_mode u) lib) = Some v"
        "unit_ok S L P v"
        using new_unit_ok [OF g p i] check_or_build_mode_not_run by metis
      have "agrees S L F' ((v, ?duf) # vs)" if "agrees S L F vs" for vs
        by (rule unfold)
          (use used ds Some v in \<open>auto simp: e Let_def intro!: agrees_bind [OF get(2)] agrees_bind [OF that [unfolded F_def]] agrees_return\<close>)
      then have more: "units_got S L P F' ((v, ?duf) # vs) s'" if "units_got S L P F vs s'" for vs s'
        using that v(2) by (auto simp: units_got_def)
      have fewer: "units_got S L P F' vs s'" if "units_got S L P F vs s'" "i \<in> ds_waiting s'" for vs s'
        using that by (auto simp: units_got_def)
      show ?thesis
        using used ds Some v
        by (auto simp: e Let_def intro!: got_bind [OF get(1)] got_bind [OF IH] got_weaken [OF IH] more fewer dest!: goes_onD)
    qed
  qed
  then show ?case by (simp only: F'_def)
qed


text \<open>The same for the documentation of a unit.\<close>

lemma got_doc_deps:
  assumes g: "graph_ok S L bcx" and p: "profiles_closed S bcx P"
  shows "state_ok S L s \<Longrightarrow> \<forall>(j, ds) \<in> set es. j \<in> set (ps_ids S) \<and> ds \<noteq> [] \<Longrightarrow>
    got S L s (doc_deps S bcx u es s) (units_got S L P (doc_deps (all_ready L S) bcx u es))"
proof (induction es arbitrary: s)
  case Nil
  then show ?case by (simp add: units_got_def agrees_return)
next
  case (Cons e es)
  obtain i ds where e: "e = (i, ds)" by (cases e)
  with Cons.prems have i: "i \<in> set (ps_ids S)" and
    es: "\<forall>(j, ds) \<in> set es. j \<in> set (ps_ids S) \<and> ds \<noteq> []" by auto
  let ?R = "all_ready L S"
  define F where "F = doc_deps ?R bcx u es"
  define F' where "F' = doc_deps ?R bcx u (e # es)"
  note IH = Cons.IH [OF _ es, folded F_def]
  have unfold: "agrees S L F' vs" if "agrees S L (\<lambda>t. doc_deps ?R bcx u (e # es) t) vs" for vs
    using that by (simp only: F'_def)
  note get = got_state_get [OF g Cons.prems(1) i] agrees_state_get [OF g i]
  have "got S L s (doc_deps S bcx u (e # es) s) (units_got S L P F')"
  proof (cases "list_ex (doc_dep_used bcx u) ds")
    case False
    have "agrees S L F' vs" if "agrees S L F vs" for vs
      by (rule unfold) (use False that in \<open>simp add: e F_def\<close>)
    then show ?thesis
      using False by (auto simp: e units_got_def intro!: got_weaken [OF IH [OF Cons.prems(1)]])
  next
    case used: True
    show ?thesis
    proof (cases "find is_lib (pg_targets (L i))")
      case None
      have "agrees S L F' vs" if "agrees S L F vs" for vs
        by (rule unfold) (use used that None in \<open>auto simp: e F_def intro!: agrees_bind [OF get(2)]\<close>)
      then show ?thesis
        using used None
        by (auto simp: e units_got_def intro!: got_bind [OF get(1)] got_weaken [OF IH] dest!: goes_onD)
    next
      case (Some lib)
      let ?duf = "with_for_host (tg_for_host lib) new_normal"
      have lib: "lib \<in> set (pg_targets (L i))" using Some by (auto simp: find_Some_iff)
      obtain v where v: "new_unit bcx (L i) lib ?duf (for_target lib (bu_kind u)) (check_or_build_mode (bu_mode u) lib) = Some v"
        "unit_ok S L P v"
        using new_unit_ok [OF g p i lib] check_or_build_mode_not_run by metis
      obtain w where w: "new_unit bcx (L i) lib ?duf (for_target lib (bu_kind u)) (ModeDoc True) = Some w" "unit_ok S L P w"
        using new_unit_ok [OF g p i lib, of "ModeDoc True"] by blast
      define docs where "docs = (if bu_mode u = ModeDoc True then [(w, ?duf)] else [])"
      have docs: "(if bu_mode u = ModeDoc True
          then bindR (unwrap (new_unit bcx (L i) lib ?duf (for_target lib (bu_kind u)) (bu_mode u))) (\<lambda>w. Some (Inr [(w, ?duf)]))
          else Some (Inr [])) = (Some (Inr docs) :: (('a, 'b) unit_error, _) run)"
        using w by (simp add: docs_def)
      have "agrees S L F' ((v, ?duf) # docs @ vs)" if "agrees S L F vs" for vs
        by (rule unfold)
          (use used Some v docs in \<open>auto simp: e Let_def intro!: agrees_bind [OF get(2)] agrees_bind [OF that [unfolded F_def]] agrees_return\<close>)
      then have more: "units_got S L P F' ((v, ?duf) # docs @ vs) s'" if "units_got S L P F vs s'" for vs s'
        using that v(2) w(2) by (auto simp: units_got_def docs_def)
      have fewer: "units_got S L P F' vs s'" if "units_got S L P F vs s'" "i \<in> ds_waiting s'" for vs s'
        using that by (auto simp: units_got_def)
      show ?thesis
        using used Some v docs
        by (auto simp: e Let_def intro!: got_bind [OF get(1)] got_bind [OF IH] got_weaken [OF IH] more fewer dest!: goes_onD)
    qed
  qed
  then show ?case by (simp only: F'_def)
qed

text \<open>The dependencies of a unit; those of a library hold the run of its build script.\<close>

definition script_listed :: "'u build_unit \<Rightarrow> 'u build_unit list \<Rightarrow> bool" where
  "script_listed u vs \<longleftrightarrow>
     (bu_mode u \<noteq> ModeRunCustomBuild \<and> \<not> is_custom_build (bu_target u) \<longrightarrow>
       (case dep_build_script u of None \<Rightarrow> True | Some b \<Rightarrow> fst b \<in> set vs))"

lemma units_got_more:
  assumes "units_got S L P F vs s" "\<forall>v \<in> set ws. unit_ok S L P (fst v)" "agrees S L F vs \<Longrightarrow> agrees S L F' (vs @ ws)"
  shows "units_got S L P F' (vs @ ws) s"
  using assms by (auto simp: units_got_def)

lemma got_compute_deps:
  assumes g: "graph_ok S L bcx" and p: "profiles_closed S bcx P" and u: "unit_ok S L P u" and s: "state_ok S L s"
  shows "got S L s (compute_deps S bcx u uf s)
    (\<lambda>vs s'. units_got S L P (compute_deps (all_ready L S) bcx u uf) vs s' \<and> script_listed u (map fst vs))"
proof -
  let ?R = "all_ready L S"
  define F where "F = compute_deps ?R bcx u uf"
  have unfold: "agrees S L F vs" if "agrees S L (\<lambda>t. compute_deps ?R bcx u uf t) vs" for vs
    using that by (simp only: F_def)
  obtain i where i: "i \<in> set (ps_ids S)" "bu_pkg u = L i" "pg_id (L i) = i"
    using u by (metis unit_ok_def)
  let ?es = "deps (bc_resolve bcx) i"
  have es: "\<forall>(j, ds) \<in> set ?es. j \<in> set (ps_ids S) \<and> ds \<noteq> []" using g i(1) by (simp add: graph_ok_def)
  define bs where "bs = (case dep_build_script u of None \<Rightarrow> [] | Some b \<Rightarrow> [b])"
  have bs: "\<forall>v \<in> set bs. unit_ok S L P (fst v)"
    using dep_build_script_ok [OF p u] by (cases "dep_build_script u") (auto simp: bs_def)
  have listed: "script_listed u vs" if "set (map fst bs) \<subseteq> set vs" for vs
    using that by (cases "dep_build_script u") (auto simp: script_listed_def bs_def)
  obtain ls where ls: "maybe_lib bcx u uf = Some ls" "\<forall>v \<in> set ls. unit_ok S L P (fst v)"
    by (rule maybe_lib_ok [OF g p u])
  obtain ds where ds: "maybe_lib bcx u new_normal = Some ds" "\<forall>v \<in> set ds. unit_ok S L P (fst v)"
    by (rule maybe_lib_ok [OF g p u])
  obtain ts where ts: "test_bins bcx u = Some ts" "\<forall>v \<in> set ts. unit_ok S L P (fst v)"
    by (rule test_bins_ok [OF g p u])
  consider (run) "bu_mode u = ModeRunCustomBuild"
    | (doc) "bu_mode u \<noteq> ModeRunCustomBuild" "is_doc (bu_mode u) \<and> \<not> is_any_test (bu_mode u)"
    | (build) "bu_mode u \<noteq> ModeRunCustomBuild" "\<not> (is_doc (bu_mode u) \<and> \<not> is_any_test (bu_mode u))" by blast
  then have "got S L s (compute_deps S bcx u uf s) (\<lambda>vs s'. units_got S L P F vs s' \<and> script_listed u (map fst vs))"
  proof cases
    case run
    have "bu_target u \<in> set (pg_targets (L i))" using u i by (simp add: unit_ok_def)
    then obtain v where v: "new_unit bcx (L i) (bu_target u) new_build HostKind ModeBuild = Some v" "unit_ok S L P v"
      using new_unit_ok [OF g p i(1), of "bu_target u" ModeBuild] by blast
    have "agrees S L F [(v, new_build)]"
      by (rule unfold) (use run v i in \<open>auto simp: compute_deps_def compute_deps_custom_build_def intro!: agrees_return\<close>)
    with run v i s show ?thesis
      by (simp add: compute_deps_def compute_deps_custom_build_def units_got_def script_listed_def)
  next
    case doc
    let ?ds = "if is_bin (bu_target u) then ds else []"
    have "agrees S L F (vs @ bs @ ?ds)" if "agrees S L (doc_deps ?R bcx u ?es) vs" for vs
      by (rule unfold)
        (use doc ds i in \<open>auto simp: compute_deps_def compute_deps_doc_def bs_def intro!: agrees_bind [OF that] agrees_return\<close>)
    then have "units_got S L P F (vs @ bs @ ?ds) s'" if "units_got S L P (doc_deps ?R bcx u ?es) vs s'" for vs s'
      using that bs ds(2) by (intro units_got_more [OF that]) auto
    with doc ds i show ?thesis
      by (auto simp: compute_deps_def compute_deps_doc_def bs_def [symmetric] intro!: got_bind [OF got_doc_deps [OF g p s es]] listed)
  next
    case build
    define rest where "rest = (if is_custom_build (bu_target u) then []
        else bs @ (if is_lib (bu_target u) \<and> bu_mode u \<noteq> ModeDoctest then [] else ls @ ts))"
    have rest: "\<forall>v \<in> set rest. unit_ok S L P (fst v)" using bs ls(2) ts(2) by (auto simp: rest_def)
    have tail: "(if is_custom_build (bu_target u) then Some (Inr (vs, s))
          else
            let vs = vs @ bs
            in if is_lib (bu_target u) \<and> bu_mode u \<noteq> ModeDoctest then Some (Inr (vs, s))
               else bindR (unwrap (maybe_lib bcx u uf)) (\<lambda>ls.
                    bindR (unwrap (test_bins bcx u)) (\<lambda>bs. Some (Inr (vs @ ls @ bs, s))))) =
        (Some (Inr (vs @ rest, s)) :: (('a, 'b) unit_error, _) run)" for vs :: "('a build_unit \<times> unit_for) list" and s :: "'a dep_state"
      using ls(1) ts(1) by (simp add: rest_def Let_def)
    have eq: "compute_deps T bcx u uf s = bindR (lib_deps T bcx u uf ?es s) (\<lambda>(vs, s). Some (Inr (vs @ rest, s)))"
      for T :: "('a, 'b) package_set" and s
      using build i(2,3) by (simp only: compute_deps_def bs_def [symmetric] tail if_False)
    have "agrees S L F (vs @ rest)" if "agrees S L (lib_deps ?R bcx u uf ?es) vs" for vs
      by (rule unfold) (use that in \<open>auto simp: eq intro!: agrees_bind [OF that] agrees_return\<close>)
    then have "units_got S L P F (vs @ rest) s'" if "units_got S L P (lib_deps ?R bcx u uf ?es) vs s'" for vs s'
      using that rest by (intro units_got_more [OF that]) auto
    moreover have "script_listed u (map fst (vs @ rest))" for vs
      by (cases "is_custom_build (bu_target u)") (simp add: script_listed_def, rule listed, auto simp: rest_def)
    ultimately show ?thesis
      by (auto simp: eq intro!: got_bind [OF got_lib_deps [OF g p s es]])
  qed
  then show ?thesis by (simp only: F_def)
qed


section \<open>The search returns\<close>

text \<open>What the map of dependencies has while the units of a set are still to be visited.\<close>

definition map_ok ::
    "('u, 'e) package_set \<Rightarrow> ('u source_id package_id \<Rightarrow> 'u graph_package) \<Rightarrow> profile set \<Rightarrow>
     ('u build_unit \<times> 'u build_unit list) list \<Rightarrow> 'u build_unit set \<Rightarrow> bool" where
  "map_ok S L P m todo \<longleftrightarrow>
     (\<forall>u vs. map_of m u = Some vs \<longrightarrow>
        unit_ok S L P u \<and> set vs \<subseteq> dom (map_of m) \<union> todo \<and> script_listed u vs)"

text \<open>A search from a state that ends well: with every package at hand it gives the same map.\<close>

definition visit_ok ::
    "('u, 'e) package_set \<Rightarrow> ('u source_id package_id \<Rightarrow> 'u graph_package) \<Rightarrow> profile set \<Rightarrow> 'u build_unit set \<Rightarrow>
     (('u, 'e) package_set \<Rightarrow> 'u dep_state \<Rightarrow> (('u, 'e) unit_error, 'u dep_state) run option) \<Rightarrow> 'u dep_state \<Rightarrow> bool" where
  "visit_ok S L P us f s \<longleftrightarrow>
     (\<exists>e. f S s = Some (Some (Inl (SourceError e)))) \<or>
     (\<exists>s'. f S s = Some (Some (Inr s')) \<and> state_ok S L s' \<and> goes_on s s' \<and>
        map_ok S L P (ds_deps s') {} \<and> dom (map_of (ds_deps s)) \<union> us \<subseteq> dom (map_of (ds_deps s')) \<and>
        (ds_waiting s' = {} \<longrightarrow> (\<forall>t. full S L t \<and> ds_deps t = ds_deps s \<longrightarrow>
           (\<exists>t'. f (all_ready L S) t = Some (Some (Inr t')) \<and> full S L t' \<and> ds_deps t' = ds_deps s'))))"

lemma full_deps [simp]: "full S L (t\<lparr>ds_deps := m\<rparr>) = full S L t"
  by (simp add: full_def)

lemma visit_ok_step:
  assumes new: "visit_ok S L P us' f s1"
    and run: "f0 S s = f S s1"
    and s1: "goes_on s s1"
      "dom (map_of (ds_deps s)) \<union> us \<subseteq> dom (map_of (ds_deps s1)) \<union> us'"
    and same: "\<And>t. ds_waiting s1 = {} \<Longrightarrow> full S L t \<Longrightarrow> ds_deps t = ds_deps s \<Longrightarrow>
      \<exists>t1. f0 (all_ready L S) t = f (all_ready L S) t1 \<and> full S L t1 \<and> ds_deps t1 = ds_deps s1"
  shows "visit_ok S L P us f0 s"
proof -
  consider (error) e where "f S s1 = Some (Some (Inl (SourceError e)))"
    | (ok) s' where "f S s1 = Some (Some (Inr s'))" "state_ok S L s'" "goes_on s1 s'"
      "map_ok S L P (ds_deps s') {}" "dom (map_of (ds_deps s1)) \<union> us' \<subseteq> dom (map_of (ds_deps s'))"
      "ds_waiting s' = {} \<longrightarrow> (\<forall>t. full S L t \<and> ds_deps t = ds_deps s1 \<longrightarrow>
           (\<exists>t'. f (all_ready L S) t = Some (Some (Inr t')) \<and> full S L t' \<and> ds_deps t' = ds_deps s'))"
    using new unfolding visit_ok_def by blast
  then show ?thesis
  proof cases
    case error
    with run show ?thesis by (auto simp: visit_ok_def)
  next
    case ok
    have "\<exists>t'. f0 (all_ready L S) t = Some (Some (Inr t')) \<and> full S L t' \<and> ds_deps t' = ds_deps s'"
      if w: "ds_waiting s' = {}" and t: "full S L t" "ds_deps t = ds_deps s" for t
    proof -
      have "ds_waiting s1 = {}" using w ok(3) by (simp add: goes_on_def)
      then obtain t1 where t1: "f0 (all_ready L S) t = f (all_ready L S) t1" "full S L t1" "ds_deps t1 = ds_deps s1"
        using same t by blast
      with ok(6) w show ?thesis by metis
    qed
    moreover have "goes_on s s'" using s1(1) ok(3) by (rule goes_on_trans)
    moreover have "dom (map_of (ds_deps s)) \<union> us \<subseteq> dom (map_of (ds_deps s'))" using s1(2) ok(5) by (rule order_trans)
    ultimately show ?thesis using ok(1,2,4) run unfolding visit_ok_def by (intro disjI2 exI [of _ s']) simp
  qed
qed

lemma map_ok_update:
  assumes "map_ok S L P m (insert u T)" "unit_ok S L P u" "script_listed u vs"
  shows "map_ok S L P (AList.update u vs m) (set vs \<union> T)"
  unfolding map_ok_def
proof (intro allI impI)
  fix v ws
  assume v: "map_of (AList.update u vs m) v = Some ws"
  have dom: "dom (map_of (AList.update u vs m)) = insert u (dom (map_of m))" by (simp add: update_conv')
  show "unit_ok S L P v \<and> set ws \<subseteq> dom (map_of (AList.update u vs m)) \<union> (set vs \<union> T) \<and> script_listed v ws"
  proof (cases "v = u")
    case True
    with v assms(2,3) show ?thesis by (auto simp: update_conv')
  next
    case False
    with v have "map_of m v = Some ws" by (simp add: update_conv')
    with assms(1) have "unit_ok S L P v" "set ws \<subseteq> dom (map_of m) \<union> insert u T" "script_listed v ws"
      unfolding map_ok_def by blast+
    then show ?thesis unfolding dom by blast
  qed
qed

lemma deps_of_ok:
  assumes g: "graph_ok S L bcx" and p: "profiles_closed S bcx P" and fin: "finite {u. unit_ok S L P u}"
  shows "state_ok S L s \<Longrightarrow> \<forall>v \<in> set todo. unit_ok S L P (fst v) \<Longrightarrow> map_ok S L P (ds_deps s) (fst ` set todo) \<Longrightarrow>
    visit_ok S L P (fst ` set todo) (\<lambda>T. deps_of T bcx todo) s"
proof (induction "card ({u. unit_ok S L P u} - dom (map_of (ds_deps s)))" arbitrary: s todo rule: less_induct)
  case less
  let ?U = "{u. unit_ok S L P u}"
  let ?R = "all_ready L S"
  show ?case using less.prems
  proof (induction todo)
    case Nil
    then show ?case by (auto simp: visit_ok_def deps_of.simps)
  next
    case (Cons v todo)
    obtain u uf where v: "v = (u, uf)" by (cases v)
    have u: "unit_ok S L P u" using Cons.prems(2) v by simp
    have s: "state_ok S L s" by fact
    show ?case
    proof (cases "map_of (ds_deps s) u")
      case (Some vs)
      have "visit_ok S L P (fst ` set todo) (\<lambda>T. deps_of T bcx todo) s"
      proof (rule Cons.IH)
        have "dom (map_of (ds_deps s)) \<union> fst ` set (v # todo) = dom (map_of (ds_deps s)) \<union> fst ` set todo"
          using Some v by auto
        then show "map_ok S L P (ds_deps s) (fst ` set todo)" using Cons.prems(3) by (simp only: map_ok_def)
      qed (use Cons.prems in auto)
      then show ?thesis
        by (rule visit_ok_step) (use Some v in \<open>auto simp: deps_of.simps [of _ _ "(u, uf) # todo"]\<close>)
    next
      case None
      note got = got_compute_deps [OF g p u s, of uf]
      show ?thesis
      proof (cases "compute_deps S bcx u uf s")
        case None
        with got show ?thesis by (simp add: got_def)
      next
        case (Some r)
        show ?thesis
        proof (cases r)
          case (Inl e)
          with Some got \<open>map_of (ds_deps s) u = None\<close> v show ?thesis
            by (auto simp: visit_ok_def got_def deps_of.simps [of _ _ "(u, uf) # todo"])
        next
          case (Inr x)
          obtain vs s1 where x: "x = (vs, s1)" by (cases x)
          from Some Inr x got have s1: "state_ok S L s1" "ds_deps s1 = ds_deps s" "goes_on s s1"
            and vs: "units_got S L P (compute_deps ?R bcx u uf) vs s1" "script_listed u (map fst vs)"
            by (simp_all add: got_def)
          let ?m = "AList.update u (map fst vs) (ds_deps s1)"
          have dom: "dom (map_of ?m) = insert u (dom (map_of (ds_deps s)))" by (simp add: update_conv' s1(2))
          have rec: "visit_ok S L P (fst ` set (vs @ todo)) (\<lambda>T. deps_of T bcx (vs @ todo)) (s1\<lparr>ds_deps := ?m\<rparr>)"
          proof (rule less.hyps)
            have "?U - insert u (dom (map_of (ds_deps s))) \<subset> ?U - dom (map_of (ds_deps s))"
              using u None by auto
            then show "card (?U - dom (map_of (ds_deps (s1\<lparr>ds_deps := ?m\<rparr>)))) < card (?U - dom (map_of (ds_deps s)))"
              using fin by (simp add: dom psubset_card_mono)
            show "\<forall>v \<in> set (vs @ todo). unit_ok S L P (fst v)" using Cons.prems(2) vs(1) by (auto simp: units_got_def)
            show "map_ok S L P (ds_deps (s1\<lparr>ds_deps := ?m\<rparr>)) (fst ` set (vs @ todo))"
              using map_ok_update [of S L P "ds_deps s" u "fst ` set todo" "map fst vs"] Cons.prems(3) vs(2) u v s1(2)
              by (simp add: image_Un)
          qed (use s1(1) in simp)
          show ?thesis
          proof (rule visit_ok_step [OF rec])
            show "deps_of S bcx (v # todo) s = deps_of S bcx (vs @ todo) (s1\<lparr>ds_deps := ?m\<rparr>)"
              using None Some Inr x v by (simp add: deps_of.simps [of _ _ "(u, uf) # todo"])
            show "goes_on s (s1\<lparr>ds_deps := ?m\<rparr>)" using s1(3) by simp
            show "dom (map_of (ds_deps s)) \<union> fst ` set (v # todo)
                \<subseteq> dom (map_of (ds_deps (s1\<lparr>ds_deps := ?m\<rparr>))) \<union> fst ` set (vs @ todo)"
              using dom v by auto
            fix t
            assume w: "ds_waiting (s1\<lparr>ds_deps := ?m\<rparr>) = {}" and t: "full S L t" "ds_deps t = ds_deps s"
            obtain t1 where "compute_deps ?R bcx u uf t = Some (Inr (vs, t1))" "full S L t1" "ds_deps t1 = ds_deps t"
              using vs(1) w t by (auto simp: units_got_def agrees_def)
            then show "\<exists>t1. deps_of ?R bcx (v # todo) t = deps_of ?R bcx (vs @ todo) t1 \<and> full S L t1 \<and>
                ds_deps t1 = ds_deps (s1\<lparr>ds_deps := ?m\<rparr>)"
              using None t v s1(2)
              by (intro exI [of _ "t1\<lparr>ds_deps := ?m\<rparr>"]) (simp add: deps_of.simps [of _ _ "(u, uf) # todo"])
          qed
        qed
      qed
    qed
  qed
qed


section \<open>Rounds\<close>

lemma visit_ok_then:
  assumes first: "visit_ok S L P us f s"
    and second: "\<And>s'. state_ok S L s' \<Longrightarrow> map_ok S L P (ds_deps s') {} \<Longrightarrow> visit_ok S L P us' h s'"
    and f0: "\<And>T s. f0 T s =
      (case f T s of
         None \<Rightarrow> None | Some None \<Rightarrow> Some None | Some (Some (Inl e)) \<Rightarrow> Some (Some (Inl e)) | Some (Some (Inr s')) \<Rightarrow> h T s')"
  shows "visit_ok S L P (us \<union> us') f0 s"
proof -
  consider (error) e where "f S s = Some (Some (Inl (SourceError e)))"
    | (ok) s1 where "f S s = Some (Some (Inr s1))" "state_ok S L s1" "goes_on s s1"
      "map_ok S L P (ds_deps s1) {}" "dom (map_of (ds_deps s)) \<union> us \<subseteq> dom (map_of (ds_deps s1))"
      "ds_waiting s1 = {} \<longrightarrow> (\<forall>t. full S L t \<and> ds_deps t = ds_deps s \<longrightarrow>
           (\<exists>t'. f (all_ready L S) t = Some (Some (Inr t')) \<and> full S L t' \<and> ds_deps t' = ds_deps s1))"
    using first unfolding visit_ok_def by blast
  then show ?thesis
  proof cases
    case error
    then show ?thesis by (auto simp: visit_ok_def f0)
  next
    case ok
    show ?thesis
    proof (rule visit_ok_step [OF second [OF ok(2,4)]])
      show "f0 S s = h S s1" using ok(1) by (simp add: f0)
      show "dom (map_of (ds_deps s)) \<union> (us \<union> us') \<subseteq> dom (map_of (ds_deps s1)) \<union> us'" using ok(5) by blast
      fix t
      assume "ds_waiting s1 = {}" "full S L t" "ds_deps t = ds_deps s"
      then obtain t1 where "f (all_ready L S) t = Some (Some (Inr t1))" "full S L t1" "ds_deps t1 = ds_deps s1"
        using ok(6) by blast
      then show "\<exists>t1. f0 (all_ready L S) t = h (all_ready L S) t1 \<and> full S L t1 \<and> ds_deps t1 = ds_deps s1"
        by (intro exI [of _ t1]) (simp add: f0)
    qed (rule ok(3))
  qed
qed

lemma visit_roots_ok:
  assumes g: "graph_ok S L bcx" and p: "profiles_closed S bcx P" and fin: "finite {u. unit_ok S L P u}"
  shows "state_ok S L s \<Longrightarrow> \<forall>u \<in> set us. unit_ok S L P u \<Longrightarrow> map_ok S L P (ds_deps s) {} \<Longrightarrow>
    visit_ok S L P (set us) (\<lambda>T. visit_roots T bcx us) s"
proof (induction us arbitrary: s)
  case Nil
  then show ?case by (auto simp: visit_ok_def)
next
  case (Cons u us)
  let ?i = "pg_id (bu_pkg u)"
  have u: "unit_ok S L P u" and i: "?i \<in> set (ps_ids S)" using Cons.prems(2) by (auto simp: unit_ok_def)
  define visit where "visit T s = (case deps_of T bcx [(u, root_unit_for bcx u)] s of
      None \<Rightarrow> None | Some None \<Rightarrow> Some None | Some (Some (Inl e)) \<Rightarrow> Some (Some (Inl e))
    | Some (Some (Inr s)) \<Rightarrow> visit_roots T bcx us s)" for T :: "('a, 'b) package_set" and s
  have rest: "visit_ok S L P ({u} \<union> set us) visit s'" if "state_ok S L s'" "map_ok S L P (ds_deps s') {}" for s'
  proof (rule visit_ok_then)
    show "visit_ok S L P {u} (\<lambda>T. deps_of T bcx [(u, root_unit_for bcx u)]) s'"
      using deps_of_ok [OF g p fin that(1), of "[(u, root_unit_for bcx u)]"] u that(2) by (auto simp: map_ok_def)
  qed (use Cons in \<open>auto simp: visit_def\<close>)
  have unfold: "visit_roots T bcx (u # us) s =
      (case state_get T ?i s of None \<Rightarrow> Some None | Some (Inl e) \<Rightarrow> Some (Some (Inl e)) | Some (Inr (_, s)) \<Rightarrow> visit T s)" for T s
    by (simp add: visit_def split: option.splits sum.splits prod.splits)
  note got = got_state_get [OF g Cons.prems(1) i] and agree = agrees_state_get [OF g i]
  show ?case
  proof (cases "\<exists>x. state_get S ?i s = Some (Inl (SourceError x))")
    case True
    then show ?thesis by (auto simp: visit_ok_def)
  next
    case False
    with got obtain r s1 where s1: "state_get S ?i s = Some (Inr (r, s1))" "state_ok S L s1" "goes_on s s1" "ds_deps s1 = ds_deps s"
      by (auto simp: got_def split: option.splits sum.splits)
    show ?thesis
    proof (rule visit_ok_step [OF rest [OF s1(2)]])
      show "visit_roots S bcx (u # us) s = visit S s1" using s1(1) by (simp add: unfold del: visit_roots.simps)
      fix t
      assume "full S L t" "ds_deps t = ds_deps s"
      then show "\<exists>t1. visit_roots (all_ready L S) bcx (u # us) t = visit (all_ready L S) t1 \<and> full S L t1 \<and> ds_deps t1 = ds_deps s1"
      proof -
        obtain t1 where "state_get (all_ready L S) ?i t = Some (Inr (Some (L ?i), t1))" "full S L t1" "ds_deps t1 = ds_deps t"
          using agree \<open>full S L t\<close> unfolding agrees_def by blast
        then show ?thesis
          using s1(4) \<open>ds_deps t = ds_deps s\<close> by (intro exI [of _ t1]) (simp add: unfold del: visit_roots.simps)
      qed
    qed (use s1 Cons.prems(3) in auto)
  qed
qed

text \<open>A wait for downloads gives packages that were not there.\<close>

lemma dl_wait_cases:
  assumes src: "sources_ok S L" and ok: "state_ok S L s" and "ds_waiting s \<noteq> {}"
  obtains (error) e where "dl_wait S pick (ds_downloads s) = Some (Inl (SourceError e))"
  | (delivered) i d where "dl_wait S pick (ds_downloads s) = Some (Inr (i, L i, d))" "i \<in> ds_waiting s" "dl_pending d = removeAll i (dl_pending (ds_downloads s))"
      "dl_slots d = AList.update i (L i) (dl_slots (ds_downloads s))"
proof -
  let ?d = "ds_downloads s"
  define i where "i = dl_pending ?d ! (pick (length (dl_slots ?d)) (dl_pending ?d) mod length (dl_pending ?d))"
  have ne: "dl_pending ?d \<noteq> []" using ok assms(3) by (auto simp: state_ok_def)
  then have "i \<in> set (dl_pending ?d)" unfolding i_def by (intro nth_mem) simp
  then have i: "i \<in> ds_waiting s" "i \<in> set (ps_ids S)" "map_of (dl_slots ?d) i = None" using ok by (auto simp: state_ok_def)
  show thesis
  proof (cases "ps_finish_download S i")
    case (Inl e)
    then show thesis using ne by (intro error) (simp add: dl_wait_def Let_def i_def)
  next
    case (Inr p)
    have "p = L i" using src i(2) Inr by (auto simp: sources_ok_def)
    then show thesis
      using ne Inr i
      by (intro delivered [of i "?d\<lparr>dl_pending := removeAll i (dl_pending ?d), dl_slots := AList.update i (L i) (dl_slots ?d)\<rparr>"])
        (simp_all add: dl_wait_def Let_def i_def [symmetric])
  qed
qed

lemma finish_some_ok:
  assumes src: "sources_ok S L"
  shows "state_ok S L s \<Longrightarrow> ds_waiting s \<noteq> {} \<Longrightarrow>
    (\<exists>e. finish_some S pick s = Some (Inl (SourceError e))) \<or>
    (\<exists>s'. finish_some S pick s = Some (Inr s') \<and> state_ok S L s' \<and> ds_deps s' = ds_deps s \<and>
       dom (map_of (ds_pkgs s)) \<subset> dom (map_of (ds_pkgs s')))"
proof (induction "length (dl_pending (ds_downloads s))" arbitrary: s rule: less_induct)
  case less
  from src less.prems show ?case
  proof (cases rule: dl_wait_cases [where pick = pick])
    case (error e)
    then show ?thesis by (simp add: finish_some.simps [of S pick s])
  next
    case (delivered i d)
    let ?s = "s\<lparr>ds_waiting := ds_waiting s - {i}, ds_pkgs := AList.update i (L i) (ds_pkgs s), ds_downloads := d\<rparr>"
    have i: "map_of (ds_pkgs s) i = None" "i \<in> set (ps_ids S)" "i \<in> set (dl_pending (ds_downloads s))"
      using less.prems(1) delivered(2) by (auto simp: state_ok_def)
    have ok: "state_ok S L ?s"
      using less.prems(1) i(2) delivered(3,4) by (auto simp: state_ok_def holds_update update_conv')
    have grow: "dom (map_of (ds_pkgs s)) \<subset> dom (map_of (ds_pkgs ?s))" using i(1) by (auto simp: update_conv')
    show ?thesis
    proof (cases "length (dl_pending d) < 5")
      case True
      then show ?thesis using delivered(1) ok grow by (simp add: finish_some.simps [of S pick s])
    next
      case False
      have "length (dl_pending (ds_downloads ?s)) < length (dl_pending (ds_downloads s))"
        using i(3) delivered(3) by (simp add: length_removeAll_less)
      moreover have "ds_waiting ?s \<noteq> {}" using False ok by (force simp: state_ok_def)
      ultimately have "(\<exists>e. finish_some S pick ?s = Some (Inl (SourceError e))) \<or>
          (\<exists>s'. finish_some S pick ?s = Some (Inr s') \<and> state_ok S L s' \<and> ds_deps s' = ds_deps ?s \<and>
            dom (map_of (ds_pkgs ?s)) \<subset> dom (map_of (ds_pkgs s')))"
        using less.hyps ok by blast
      moreover have "finish_some S pick s = finish_some S pick ?s"
        using False delivered(1) by (simp add: finish_some.simps [of S pick s])
      ultimately show ?thesis using psubset_trans [OF grow] by (elim disjE exE conjE) (simp_all add: dep_state.simps)
    qed
  qed
qed


text \<open>The result of the rounds: a failure of a source, or the map that all packages at hand would have given.\<close>

definition rounds_ok ::
    "('u, 'e) package_set \<Rightarrow> ('u source_id package_id \<Rightarrow> 'u graph_package) \<Rightarrow> profile set \<Rightarrow> ('u, 'r) build_context \<Rightarrow>
     'u build_unit list \<Rightarrow> (('u, 'e) unit_error, 'u dep_state) run option \<Rightarrow> bool" where
  "rounds_ok S L P bcx roots r \<longleftrightarrow>
     (\<exists>e. r = Some (Some (Inl (SourceError e)))) \<or>
     (\<exists>s. r = Some (Some (Inr s)) \<and> state_ok S L s \<and> ds_waiting s = {} \<and> map_ok S L P (ds_deps s) {} \<and>
        set roots \<subseteq> dom (map_of (ds_deps s)) \<and>
        (\<forall>t. full S L t \<and> ds_deps t = [] \<longrightarrow>
           (\<exists>t'. visit_roots (all_ready L S) bcx roots t = Some (Some (Inr t')) \<and> full S L t' \<and> ds_deps t' = ds_deps s)))"

lemma unit_rounds_ok:
  assumes g: "graph_ok S L bcx" and p: "profiles_closed S bcx P" and fin: "finite {u. unit_ok S L P u}"
    and roots: "\<forall>u \<in> set roots. unit_ok S L P u"
  shows "state_ok S L s \<Longrightarrow> ds_deps s = [] \<Longrightarrow> rounds_ok S L P bcx roots (unit_rounds S pick bcx roots s)"
proof (induction "card (set (ps_ids S) - dom (map_of (ds_pkgs s)))" arbitrary: s rule: less_induct)
  case less
  have "visit_ok S L P (set roots) (\<lambda>T. visit_roots T bcx roots) s"
    by (rule visit_roots_ok [OF g p fin less.prems(1) roots]) (simp add: less.prems(2) map_ok_def)
  then consider (error) e where "visit_roots S bcx roots s = Some (Some (Inl (SourceError e)))"
    | (ok) s1 where "visit_roots S bcx roots s = Some (Some (Inr s1))" "state_ok S L s1" "goes_on s s1"
      "map_ok S L P (ds_deps s1) {}" "set roots \<subseteq> dom (map_of (ds_deps s1))"
      "ds_waiting s1 = {} \<longrightarrow> (\<forall>t. full S L t \<and> ds_deps t = ds_deps s \<longrightarrow>
           (\<exists>t'. visit_roots (all_ready L S) bcx roots t = Some (Some (Inr t')) \<and> full S L t' \<and> ds_deps t' = ds_deps s1))"
    unfolding visit_ok_def by blast
  then show ?case
  proof cases
    case error
    then show ?thesis by (simp add: rounds_ok_def unit_rounds.simps [of S pick bcx roots s])
  next
    case ok
    show ?thesis
    proof (cases "ds_waiting s1 = {}")
      case True
      with ok less.prems(2) show ?thesis
        unfolding rounds_ok_def
        by (intro disjI2 exI [of _ s1]) (simp add: unit_rounds.simps [of S pick bcx roots s])
    next
      case False
      have "dl_pending (ds_downloads s1) \<noteq> []" using False ok(2) by (auto simp: state_ok_def)
      then have some: "finish_some_downloads S pick s1 = finish_some S pick s1" by (simp add: finish_some_downloads_def)
      have "sources_ok S L" using g by (simp add: graph_ok_def)
      from finish_some_ok [OF this ok(2) False, of pick] consider (failed) e where "finish_some S pick s1 = Some (Inl (SourceError e))"
        | (more) s2 where "finish_some S pick s1 = Some (Inr s2)" "state_ok S L s2" "dom (map_of (ds_pkgs s1)) \<subset> dom (map_of (ds_pkgs s2))"
        by blast
      then show ?thesis
      proof cases
        case failed
        with ok(1) False some show ?thesis by (simp add: rounds_ok_def unit_rounds.simps [of S pick bcx roots s])
      next
        case more
        have "dom (map_of (ds_pkgs s)) \<subset> dom (map_of (ds_pkgs s2))"
          using ok(3) more(3) unfolding goes_on_def by (blast intro: subset_psubset_trans)
        moreover have "dom (map_of (ds_pkgs s2)) \<subseteq> set (ps_ids S)" using more(2) by (auto simp: state_ok_def holds_def)
        ultimately have "card (set (ps_ids S) - dom (map_of (ds_pkgs s2))) < card (set (ps_ids S) - dom (map_of (ds_pkgs s)))"
          by (intro psubset_card_mono) (simp, blast)
        then have "rounds_ok S L P bcx roots (unit_rounds S pick bcx roots (s2\<lparr>ds_deps := []\<rparr>))"
          by (intro less.hyps) (simp_all add: more(2))
        moreover have "unit_rounds S pick bcx roots s = unit_rounds S pick bcx roots (s2\<lparr>ds_deps := []\<rparr>)"
          using ok(1) False some more(1) by (simp add: unit_rounds.simps [of S pick bcx roots s])
        ultimately show ?thesis by simp
      qed
    qed
  qed
qed

text \<open>The profiles that can occur are finitely many, and so are the units.\<close>

definition unit_profiles :: "('u, 'e) package_set \<Rightarrow> ('u, 'r) build_context \<Rightarrow> 'u build_unit list \<Rightarrow> profile set" where
  "unit_profiles S bcx roots =
     (let A = {unnamed p | p i mem uf mode. i \<in> set (ps_ids S) \<and>
                 get_profile (bc_profiles bcx) i mem uf mode (bc_release bcx) = Some p} \<union> bu_profile ` set roots
      in A \<union> (\<lambda>p. unnamed (get_profile_run_custom_build p)) ` A)"

lemma UNIV_unit_for: "(UNIV :: unit_for set) = (\<lambda>(a, b). \<lparr>custom_build = a, panic_ok = b\<rparr>) ` UNIV"
proof -
  have "u \<in> (\<lambda>(a, b). \<lparr>custom_build = a, panic_ok = b\<rparr>) ` UNIV" for u :: unit_for
    by (cases u) auto
  then show ?thesis by auto
qed

lemma finite_compile_mode: "finite (UNIV :: compile_mode set)"
proof -
  have all: "UNIV = {ModeTest, ModeBuild, ModeBench, ModeDoctest, ModeRunCustomBuild} \<union> range ModeCheck \<union> range ModeDoc"
  proof -
    have "m \<in> {ModeTest, ModeBuild, ModeBench, ModeDoctest, ModeRunCustomBuild} \<union> range ModeCheck \<union> range ModeDoc" for m
      by (cases m) auto
    then show ?thesis by blast
  qed
  show ?thesis by (subst all) simp
qed

lemma finite_unit_profiles: "finite (unit_profiles S bcx roots)"
proof -
  let ?get = "\<lambda>(i, mem, uf, mode). unnamed (the (get_profile (bc_profiles bcx) i mem uf mode (bc_release bcx)))"
  have fin: "finite (set (ps_ids S) \<times> (UNIV :: bool set) \<times> (UNIV :: unit_for set) \<times> (UNIV :: compile_mode set))"
    by (intro finite_cartesian_product finite_compile_mode) (simp_all add: UNIV_unit_for)
  have "{unnamed p | p i mem uf mode. i \<in> set (ps_ids S) \<and>
      get_profile (bc_profiles bcx) i mem uf mode (bc_release bcx) = Some p} \<subseteq> ?get ` (set (ps_ids S) \<times> UNIV \<times> UNIV \<times> UNIV)"
  proof (rule subsetI)
    fix q
    assume "q \<in> {unnamed p | p i mem uf mode. i \<in> set (ps_ids S) \<and>
      get_profile (bc_profiles bcx) i mem uf mode (bc_release bcx) = Some p}"
    then obtain p i mem uf mode where "q = unnamed p" "i \<in> set (ps_ids S)"
      "get_profile (bc_profiles bcx) i mem uf mode (bc_release bcx) = Some p" by blast
    then show "q \<in> ?get ` (set (ps_ids S) \<times> UNIV \<times> UNIV \<times> UNIV)"
      by (intro image_eqI [of _ _ "(i, mem, uf, mode)"]) simp_all
  qed
  from finite_subset [OF this finite_imageI [OF fin]] show ?thesis by (simp add: unit_profiles_def Let_def)
qed

lemma unit_profiles_closed: "profiles_closed S bcx (unit_profiles S bcx roots)"
proof -
  have twice: "unnamed (get_profile_run_custom_build (unnamed (get_profile_run_custom_build p))) =
      unnamed (get_profile_run_custom_build p)" for p
    by (simp add: unnamed_def get_profile_run_custom_build_def)
  define A where "A = {unnamed p | p i mem uf mode. i \<in> set (ps_ids S) \<and>
    get_profile (bc_profiles bcx) i mem uf mode (bc_release bcx) = Some p} \<union> bu_profile ` set roots"
  have "unnamed p \<in> A" if "i \<in> set (ps_ids S)" "get_profile (bc_profiles bcx) i mem uf mode (bc_release bcx) = Some p"
    for i mem uf mode p
    using that unfolding A_def by blast
  moreover have "unit_profiles S bcx roots = A \<union> (\<lambda>p. unnamed (get_profile_run_custom_build p)) ` A"
    by (simp only: unit_profiles_def A_def Let_def)
  ultimately show ?thesis unfolding profiles_closed_def by (auto simp: twice)
qed

lemma finite_units:
  assumes "finite P"
  shows "finite {u. unit_ok S L P u}"
proof -
  let ?make = "\<lambda>(i, t, p, k, m). \<lparr>bu_pkg = L i, bu_target = t, bu_profile = p, bu_kind = k, bu_mode = m\<rparr>"
  have kinds: "(UNIV :: build_kind set) = {HostKind, TargetKind}" using build_kind.exhaust by blast
  have "u \<in> ?make ` (set (ps_ids S) \<times> (\<Union>i \<in> set (ps_ids S). set (pg_targets (L i))) \<times> P \<times> UNIV \<times> UNIV)"
    if u: "unit_ok S L P u" for u
  proof -
    obtain i where "i \<in> set (ps_ids S)" "bu_pkg u = L i" "bu_target u \<in> set (pg_targets (L i))" "bu_profile u \<in> P"
      using u by (metis unit_ok_def)
    then show ?thesis
      by (intro image_eqI [of _ _ "(i, bu_target u, bu_profile u, bu_kind u, bu_mode u)"]) auto
  qed
  then have "{u. unit_ok S L P u} \<subseteq>
      ?make ` (set (ps_ids S) \<times> (\<Union>i \<in> set (ps_ids S). set (pg_targets (L i))) \<times> P \<times> UNIV \<times> UNIV)" by blast
  moreover have "finite (set (ps_ids S) \<times> (\<Union>i \<in> set (ps_ids S). set (pg_targets (L i))) \<times> P \<times> (UNIV :: build_kind set) \<times> (UNIV :: compile_mode set))"
    by (intro finite_cartesian_product finite_compile_mode) (simp_all add: assms kinds)
  ultimately show ?thesis by (rule finite_subset [OF _ finite_imageI])
qed


section \<open>The connected build scripts\<close>

definition units_closed :: "('u build_unit \<times> 'u build_unit list) list \<Rightarrow> bool" where
  "units_closed m \<longleftrightarrow> (\<forall>u vs. map_of m u = Some vs \<longrightarrow> set vs \<subseteq> dom (map_of m))"

lemma map_of_connect:
  "map_of (connect_run_custom_build_deps m) u =
     map_option (\<lambda>ds. if bu_mode u = ModeRunCustomBuild then ds @ script_deps m u else ds) (map_of m u)"
proof -
  have "map_of (map (\<lambda>(u, ds). (u, f u ds)) xs) u = map_option (f u) (map_of xs u)"
    for f :: "'a build_unit \<Rightarrow> 'a build_unit list \<Rightarrow> 'a build_unit list" and xs
    by (induction xs) auto
  then show ?thesis by (simp add: connect_run_custom_build_deps_def)
qed

lemma script_deps_known:
  assumes m: "map_ok S L P m {}" and x: "x \<in> set (script_deps m u)"
  shows "x \<in> dom (map_of m)"
proof -
  obtain other p ds b where other: "map_of m p = Some ds" "other \<in> set ds" "linkable (bu_target other)"
      "dep_build_script other = Some b" "x = fst b"
  proof -
    obtain other p ds where "map_of m p = Some ds" "other \<in> set ds" "linkable (bu_target other)"
        "\<exists>b. dep_build_script other = Some (x, b)"
      using x by (force simp: script_deps_def map_filter_def split: option.splits)
    then show thesis by (metis fst_conv that)
  qed
  then have "other \<in> dom (map_of m)" using m unfolding map_ok_def by blast
  then obtain vs where vs: "map_of m other = Some vs" by blast
  have o: "unit_ok S L P other" "set vs \<subseteq> dom (map_of m)" "script_listed other vs"
    using m vs unfolding map_ok_def by blast+
  have "\<not> is_custom_build (bu_target other)" using other(3) linkable_is_lib is_lib_not by blast
  with o(1,3) other(4,5) have "x \<in> set vs" by (auto simp: unit_ok_def script_listed_def)
  with o(2) show ?thesis by blast
qed

lemma connect_closed:
  assumes "map_ok S L P m {}"
  shows "units_closed (connect_run_custom_build_deps m)"
  unfolding units_closed_def
proof (intro allI impI)
  fix u vs
  assume "map_of (connect_run_custom_build_deps m) u = Some vs"
  then obtain ds where ds: "map_of m u = Some ds" "set vs \<subseteq> set ds \<union> set (script_deps m u)"
    by (auto simp: map_of_connect split: if_splits)
  have "set ds \<subseteq> dom (map_of m)" using assms ds(1) unfolding map_ok_def by blast
  moreover have "set (script_deps m u) \<subseteq> dom (map_of m)" using script_deps_known [OF assms] by blast
  ultimately have "set vs \<subseteq> dom (map_of m)" using ds(2) by blast
  moreover have "dom (map_of (connect_run_custom_build_deps m)) = dom (map_of m)" by (auto simp: map_of_connect)
  ultimately show "set vs \<subseteq> dom (map_of (connect_run_custom_build_deps m))" by simp
qed

lemma unit_ok_profiles:
  "u \<in> set roots \<Longrightarrow> unit_ok S L UNIV u \<Longrightarrow> unit_ok S L (unit_profiles S bcx roots) u"
  by (simp add: unit_ok_def unit_profiles_def Let_def)

lemma build_unit_dependencies_ok:
  assumes "graph_ok S L bcx" "state_ok S L s" "ds_deps s = []" "\<forall>u \<in> set roots. unit_ok S L UNIV u"
  shows "rounds_ok S L (unit_profiles S bcx roots) bcx roots (unit_rounds S pick bcx roots s)"
  using assms(2,3,4) unit_ok_profiles [of _ roots S L bcx]
  by (intro unit_rounds_ok [OF assms(1) unit_profiles_closed finite_units [OF finite_unit_profiles]]) simp_all

section \<open>An example\<close>

text \<open>Two packages with build scripts and \<open>links\<close>: the second uses the first, which uses the second in its tests.\<close>

definition pair_uid :: "string \<Rightarrow> string source_id package_id" where
  "pair_uid n = pkg n (vers 1 0 0)"

definition pair_target :: "target_kind \<Rightarrow> target" where
  "pair_target k = (new_target (SourcePath []) Edition2015)\<lparr>tg_kind := k\<rparr>"

definition pair_package :: "string source_id package_id \<Rightarrow> string graph_package" where
  "pair_package i = \<lparr>pg_id = i, pg_targets = [pair_target (TargetLib [KindLib]), pair_target TargetCustomBuild], pg_links = Some (pid_name i)\<rparr>"

definition pair_dep :: "string \<Rightarrow> dep_kind \<Rightarrow> (string source_id, unit) dependency" where
  "pair_dep n k = \<lparr>dep_name = n, dep_source_id = pid_source (pair_uid n), registry_id = None, dep_req = (), specified_req = True,
     dep_kind = k, only_match_name = False, explicit_name_in_toml = None, optional = False, default_features = True,
     dep_features = [], dep_platform = None\<rparr>"

definition default_profiles :: "string profiles" where
  "default_profiles =
     (let maker = \<lambda>p. \<lparr>pm_default = p, pm_toml = None, pm_config = None\<rparr>
      in \<lparr>prof_dev = maker default_dev, prof_release = maker default_release, prof_test = maker default_test,
          prof_bench = maker default_bench, prof_doc = maker default_doc\<rparr>)"

definition pair_context :: "(string, unit) build_context" where
  "pair_context =
     \<lparr>bc_resolve = new_resolve
         \<lparr>nodes = [(pair_uid ''a'', [(pair_uid ''b'', [pair_dep ''b'' Development])]),
                   (pair_uid ''b'', [(pair_uid ''a'', [pair_dep ''a'' Normal])])]\<rparr> [] [] [] [] [],
      bc_profiles = default_profiles, bc_release = False, bc_build_mode = ModeTest, bc_members = [pair_uid ''a''],
      bc_host = (''x86_64'', None), bc_target = (''x86_64'', None)\<rparr>"

definition pair_set :: "(string, unit) package_set" where
  "pair_set =
     \<lparr>ps_ids = [pair_uid ''a'', pair_uid ''b''],
      ps_download = (\<lambda>i. if i = pair_uid ''a'' then Inr (Ready (pair_package i)) else Inr NeedsDownload),
      ps_finish_download = (\<lambda>i. Inr (pair_package i))\<rparr>"

definition pair_root :: "string build_unit" where
  "pair_root = \<lparr>bu_pkg = pair_package (pair_uid ''a''), bu_target = pair_target (TargetLib [KindLib]),
     bu_profile = unnamed default_test, bu_kind = HostKind, bu_mode = ModeTest\<rparr>"

lemma pair_edges:
  "deps (bc_resolve pair_context) i =
     (if i = pair_uid ''a'' then [(pair_uid ''b'', [pair_dep ''b'' Development])]
      else if i = pair_uid ''b'' then [(pair_uid ''a'', [pair_dep ''a'' Normal])] else [])"
  by (simp add: pair_context_def deps_def new_resolve_def edges_def replacement_def)

lemma pair_profile: "get_profile default_profiles i mem uf mode rel \<noteq> None"
  by (cases mode) (simp_all add: get_profile_def maker_get_profile_def maker_for_def default_profiles_def Let_def)

lemma pair_graph_ok: "graph_ok pair_set pair_package pair_context"
proof -
  have "sources_ok pair_set pair_package" by (simp add: sources_ok_def pair_set_def pair_package_def)
  moreover have "bc_profiles pair_context = default_profiles" by (simp add: pair_context_def)
  ultimately show ?thesis by (auto simp: graph_ok_def pair_edges pair_profile pair_set_def)
qed

lemma pair_start:
  "state_ok pair_set pair_package (new_dep_state [] [])" "ds_deps (new_dep_state [] [] :: string dep_state) = []"
  "\<forall>u \<in> set [pair_root]. unit_ok pair_set pair_package UNIV u"
  by (simp_all add: state_ok_def new_dep_state_def holds_def unit_ok_def pair_root_def pair_set_def pair_package_def)

text \<open>The units of a map by the name of their package, their being a library and their mode.\<close>

definition unit_names :: "(('u, 'e) unit_error, 'u dep_state) run option \<Rightarrow> (string \<times> bool \<times> compile_mode) list list" where
  "unit_names r =
     (case r of
        Some (Some (Inr s)) \<Rightarrow>
          map (\<lambda>(u, ds). map (\<lambda>u. (pid_name (pg_id (bu_pkg u)), is_lib (bu_target u), bu_mode u)) (u # ds)) (ds_deps s)
      | _ \<Rightarrow> [])"

lemma pair_names:
  "unit_names (build_unit_dependencies pair_set (\<lambda>_ _. 0) pair_context [pair_root] (new_dep_state [] [])) =
     [[(''a'', True, ModeTest), (''b'', True, ModeBuild), (''a'', False, ModeRunCustomBuild)],
      [(''b'', True, ModeBuild), (''a'', True, ModeBuild), (''b'', False, ModeRunCustomBuild)],
      [(''a'', True, ModeBuild), (''a'', False, ModeRunCustomBuild)],
      [(''a'', False, ModeRunCustomBuild), (''a'', False, ModeBuild), (''b'', False, ModeRunCustomBuild)],
      [(''a'', False, ModeBuild)],
      [(''b'', False, ModeRunCustomBuild), (''b'', False, ModeBuild), (''a'', False, ModeRunCustomBuild)],
      [(''b'', False, ModeBuild)]]"
  by code_simp

lemma pair_built:
  obtains s where "build_unit_dependencies pair_set (\<lambda>_ _. 0) pair_context [pair_root] (new_dep_state [] []) = Some (Some (Inr s))"
    "length (ds_deps s) = 7"
proof -
  have "length (unit_names (build_unit_dependencies pair_set (\<lambda>_ _. 0) pair_context [pair_root] (new_dep_state [] []))) = 7"
    by (simp add: pair_names)
  with that show thesis by (auto simp: unit_names_def split: option.splits sum.splits)
qed

section \<open>Properties of the graph\<close>



text \<open>C30: downloads do not change the graph.  Whichever packages are there when the graph is started and in whichever order the
  others arrive, either a source fails or the map is the one of a run in which every package is at hand: the rounds over partly known
  graphs leave nothing behind.\<close>

theorem downloads_do_not_matter:
  assumes "graph_ok S L bcx" "state_ok S L s" "ds_deps s = []" "\<forall>u \<in> set roots. unit_ok S L UNIV u"
  shows "(\<exists>e. build_unit_dependencies S pick bcx roots s = Some (Some (Inl (SourceError e)))) \<or>
    (\<exists>s' t'. build_unit_dependencies S pick bcx roots s = Some (Some (Inr s')) \<and>
       build_unit_dependencies (all_ready L S) pick' bcx roots (new_dep_state [] []) = Some (Some (Inr t')) \<and>
       ds_deps t' = ds_deps s')"
proof -
  note rounds = build_unit_dependencies_ok [OF assms, of pick, unfolded rounds_ok_def]
  have start: "full S L (new_dep_state [] [])" "ds_deps (new_dep_state [] [] :: 'a dep_state) = []"
    by (simp_all add: full_def state_ok_def new_dep_state_def holds_def)
  from rounds show ?thesis
  proof (elim disjE exE conjE)
    fix s'
    assume s': "unit_rounds S pick bcx roots s = Some (Some (Inr s'))"
      and same: "\<forall>t. full S L t \<and> ds_deps t = [] \<longrightarrow>
        (\<exists>t'. visit_roots (all_ready L S) bcx roots t = Some (Some (Inr t')) \<and> full S L t' \<and> ds_deps t' = ds_deps s')"
    obtain t' where t': "visit_roots (all_ready L S) bcx roots (new_dep_state [] []) = Some (Some (Inr t'))" "full S L t'" "ds_deps t' = ds_deps s'"
      using same start by blast
    then have "unit_rounds (all_ready L S) pick' bcx roots (new_dep_state [] []) = Some (Some (Inr t'))"
      by (simp add: unit_rounds.simps [of "all_ready L S" pick'] full_def)
    then show ?thesis
      using s' t'(3) by (intro disjI2) (simp add: build_unit_dependencies_def assms(3) start(2))
  qed (simp add: build_unit_dependencies_def assms(3))
qed

theorem downloads_do_not_matter_witness:
  "\<exists>s t. build_unit_dependencies pair_set (\<lambda>_ _. 0) pair_context [pair_root] (new_dep_state [] []) = Some (Some (Inr s)) \<and>
     build_unit_dependencies (all_ready pair_package pair_set) (\<lambda>_ _. 1) pair_context [pair_root] (new_dep_state [] []) = Some (Some (Inr t)) \<and>
     ds_deps t = ds_deps s \<and> length (ds_deps s) = 7"
proof -
  obtain s where s: "build_unit_dependencies pair_set (\<lambda>_ _. 0) pair_context [pair_root] (new_dep_state [] []) = Some (Some (Inr s))"
    "length (ds_deps s) = 7" by (rule pair_built)
  then show ?thesis using downloads_do_not_matter [OF pair_graph_ok pair_start, of "\<lambda>_ _. 0" "\<lambda>_ _. 1"] by auto
qed

end
