(* ===== verification/Compile_Units.thy ===== *)
theory Compile_Units
  imports Unit_Graph
begin

text \<open>
  From the graph of units to the job queue: \<open>compile\<close> of \<open>src/cargo/core/compiler/mod.rs\<close>, the loop over the units in
  \<open>Context::compile\<close>, \<open>dep_targets\<close>, \<open>get_package\<close> and \<open>Links\<close> of \<open>src/cargo/core/compiler/context/mod.rs\<close>, and the keys of
  \<open>job_queue.rs\<close>, and the plan of a dry run, \<open>BuildPlan::add\<close> of \<open>src/cargo/core/compiler/build_plan.rs\<close>.  The work a job
  does is an argument: what preparing a unit gives, or its error; so is the text a unit is called by in a plan
  (\<open>buildkey\<close>, the name of the package and a hash of the unit).
\<close>

section \<open>Native libraries\<close>

record 'u link_table =
  lt_validated :: "'u source_id package_id set"
  lt_links :: "(string \<times> 'u source_id package_id) list"

datatype ('u, 'e) compile_error =
    MultipleLinks string "'u source_id package_id list" "'u source_id package_id list"
  | LinksWithoutScript "'u source_id package_id" string
  | FailedToFind "'u source_id package_id"
  | PrepareError 'e

definition new_link_table :: "'u link_table" where
  "new_link_table = \<lparr>lt_validated = {}, lt_links = []\<rparr>"

definition validate_links ::
    "('u source_id, 'r) resolve \<Rightarrow> 'u build_unit \<Rightarrow> 'u link_table \<Rightarrow> ('u, 'e) compile_error + 'u link_table" where
  "validate_links R u lt =
     (let i = pg_id (bu_pkg u)
      in if i \<in> lt_validated lt then Inr lt
         else let lt = lt\<lparr>lt_validated := insert i (lt_validated lt)\<rparr>
              in case pg_links (bu_pkg u) of
                   None \<Rightarrow> Inr lt
                 | Some lib \<Rightarrow>
                     (case map_of (lt_links lt) lib of
                        Some prev \<Rightarrow> Inl (MultipleLinks lib (rs_path_to_top R prev) (rs_path_to_top R i))
                      | None \<Rightarrow>
                          if \<not> list_ex is_custom_build (pg_targets (bu_pkg u)) then Inl (LinksWithoutScript i lib)
                          else Inr (lt\<lparr>lt_links := AList.update lib i (lt_links lt)\<rparr>)))"

section \<open>Keys and their dependencies\<close>

type_synonym 'u unit_key = "('u source_id package_id, target \<times> profile \<times> build_kind) job_key"

definition new_key :: "'u build_unit \<Rightarrow> 'u unit_key" where
  "new_key u = \<lparr>jk_pkg = pg_id (bu_pkg u), jk_mode = bu_mode u, jk_unit = (bu_target u, bu_profile u, bu_kind u)\<rparr>"

text \<open>The parts of \<open>Context\<close> that are read: the graph, the package cache, the overridden build scripts, the order of units and
  their build keys.\<close>

record 'u compile_cx =
  cx_deps :: "('u build_unit \<times> 'u build_unit list) list"
  cx_packages :: "('u source_id package_id \<times> 'u graph_package) list"
  cx_overridden :: "('u source_id package_id \<times> build_kind) list"
  cx_sort :: "'u build_unit list \<Rightarrow> 'u build_unit list"
  cx_buildkey :: "'u build_unit \<Rightarrow> string"

definition dep_targets :: "'u compile_cx \<Rightarrow> 'u build_unit \<Rightarrow> 'u build_unit list option" where
  "dep_targets cx u =
     (if is_custom_build (bu_target u) \<and> (pg_id (bu_pkg u), bu_kind u) \<in> set (cx_overridden cx) then Some []
      else map_option (cx_sort cx) (map_of (cx_deps cx) u))"

definition get_package :: "'u compile_cx \<Rightarrow> 'u source_id package_id \<Rightarrow> ('u, 'e) compile_error + 'u graph_package" where
  "get_package cx i = (case map_of (cx_packages cx) i of None \<Rightarrow> Inl (FailedToFind i) | Some p \<Rightarrow> Inr p)"

text \<open>\<open>Key::dependencies\<close>: the unit of a key is made again from the package cache.\<close>

definition unit_key_dependencies :: "'u compile_cx \<Rightarrow> 'u unit_key \<Rightarrow> (('u, 'e) compile_error, 'u unit_key list) run" where
  "unit_key_dependencies cx key =
     (case get_package cx (jk_pkg key) of
        Inl e \<Rightarrow> Some (Inl e)
      | Inr p \<Rightarrow>
          (case jk_unit key of (t, pr, k) \<Rightarrow>
             bindR (unwrap (dep_targets cx \<lparr>bu_pkg = p, bu_target = t, bu_profile = pr, bu_kind = k, bu_mode = jk_mode key\<rparr>))
               (\<lambda>us. Some (Inr (map new_key (filter (\<lambda>d. \<not> (is_test t \<and> is_bin (bu_target d))) us))))))"

section \<open>Compiling a unit and what it needs\<close>

text \<open>What prepares the work of a unit: its fingerprint, its build script, its call of the compiler, and the executor.\<close>

record ('u, 'j, 'e) job_makers =
  jm_init :: "'u build_unit \<Rightarrow> 'e + unit"
  jm_script :: "'u build_unit \<Rightarrow> 'e + ('j \<times> freshness)"
  jm_rustc :: "'u build_unit \<Rightarrow> 'e + 'j"
  jm_target :: "'u build_unit \<Rightarrow> 'e + ('j \<times> freshness)"
  jm_noop :: 'j
  jm_force_rebuild :: "'u build_unit \<Rightarrow> bool"

definition prepare_job ::
    "('u, 'j, 'e) job_makers \<Rightarrow> bool \<Rightarrow> 'u build_unit \<Rightarrow> bool \<Rightarrow> 'e + ('j \<times> freshness)" where
  "prepare_job M build_plan u force_rebuild =
     (if bu_mode u = ModeRunCustomBuild then jm_script M u
      else if bu_mode u = ModeDoctest then Inr (jm_noop M, Fresh)
      else if build_plan then map_sum id (\<lambda>j. (j, Dirty)) (jm_rustc M u)
      else map_sum id (\<lambda>(j, fresh). (j, if jm_force_rebuild M u \<or> force_rebuild then Dirty else fresh)) (jm_target M u))"

text \<open>The plan of a dry run.  An invocation is added with the numbers of those it depends on; its command and outputs are
  filled in when the jobs run.  \<open>None\<close> is the panic on a dependency that has no number yet.\<close>

record invocation =
  inv_package_name :: string
  inv_package_version :: version
  inv_target_kind :: target_kind
  inv_kind :: build_kind
  inv_deps :: "nat list"

record build_plan =
  bp_invocation_map :: "(string \<times> nat) list"
  bp_invocations :: "invocation list"

definition new_build_plan :: build_plan where
  "new_build_plan = \<lparr>bp_invocation_map = [], bp_invocations = []\<rparr>"

definition new_invocation :: "'u build_unit \<Rightarrow> nat list \<Rightarrow> invocation" where
  "new_invocation u ds =
     \<lparr>inv_package_name = pid_name (pg_id (bu_pkg u)), inv_package_version = pid_version (pg_id (bu_pkg u)),
      inv_target_kind = tg_kind (bu_target u), inv_kind = bu_kind u, inv_deps = ds\<rparr>"

definition plan_add :: "'u compile_cx \<Rightarrow> 'u build_unit \<Rightarrow> build_plan \<Rightarrow> build_plan option" where
  "plan_add cx u plan =
     (let m = AList.update (cx_buildkey cx u) (length (bp_invocations plan)) (bp_invocation_map plan)
      in case dep_targets cx u of
           None \<Rightarrow> None
         | Some us \<Rightarrow>
             (case those (map (\<lambda>d. map_of m (cx_buildkey cx d)) us) of
                None \<Rightarrow> None
              | Some ds \<Rightarrow> Some \<lparr>bp_invocation_map = m, bp_invocations = bp_invocations plan @ [new_invocation u ds]\<rparr>))"

record ('u, 'j, 'e) compile_state =
  cs_compiled :: "'u build_unit set"
  cs_links :: "'u link_table"
  cs_plan :: build_plan
  cs_jobs :: "('u source_id package_id, target \<times> profile \<times> build_kind, 'j, 'e) job_queue"

text \<open>The part of \<open>compile\<close> before the recursive calls: what it enqueues for a unit that is new.\<close>

definition compile_one ::
    "('u source_id, 'r) resolve \<Rightarrow> ('u, 'j, 'e) job_makers \<Rightarrow> 'u compile_cx \<Rightarrow> bool \<Rightarrow> 'u build_unit \<Rightarrow> bool \<Rightarrow>
     ('u, 'j, 'e) compile_state \<Rightarrow> (('u, 'e) compile_error, ('u, 'j, 'e) compile_state) run" where
  "compile_one R M cx build_plan u force_rebuild st =
     (let st = st\<lparr>cs_compiled := insert u (cs_compiled st)\<rparr>
      in bindR (Some (map_sum PrepareError id (jm_init M u))) (\<lambda>_.
         bindR (Some (validate_links R u (cs_links st))) (\<lambda>lt.
         bindR (Some (map_sum PrepareError id (prepare_job M build_plan u force_rebuild))) (\<lambda>(job, fresh).
         bindR (unit_key_dependencies cx (new_key u)) (\<lambda>ds.
           Some (Inr (st\<lparr>cs_links := lt, cs_jobs := enqueue (new_key u) ds job fresh (cs_jobs st)\<rparr>)))))))"

text \<open>\<open>compile\<close> with a stack of what is still to be done: the calls for units, and, behind those for its dependencies, the end
  of the call for a unit, where it is added to the plan of a dry run.  Only the units of the command are rebuilt by
  force.\<close>

datatype 'u compile_task = Visit "'u build_unit" bool | Leave "'u build_unit"

partial_function (option) compile_all ::
    "('u source_id, 'r) resolve \<Rightarrow> ('u, 'j, 'e) job_makers \<Rightarrow> 'u compile_cx \<Rightarrow> bool \<Rightarrow> 'u compile_task list \<Rightarrow>
     ('u, 'j, 'e) compile_state \<Rightarrow> (('u, 'e) compile_error, ('u, 'j, 'e) compile_state) run option" where
  "compile_all R M cx build_plan todo st =
     (case todo of
        [] \<Rightarrow> Some (Some (Inr st))
      | Visit u force_rebuild # todo \<Rightarrow>
          if u \<in> cs_compiled st then compile_all R M cx build_plan todo st
          else (case compile_one R M cx build_plan u force_rebuild st of
                  None \<Rightarrow> Some None
                | Some (Inl e) \<Rightarrow> Some (Some (Inl e))
                | Some (Inr st) \<Rightarrow>
                    (case dep_targets cx u of
                       None \<Rightarrow> Some None
                     | Some ds \<Rightarrow> compile_all R M cx build_plan (map (\<lambda>d. Visit d False) ds @ Leave u # todo) st))
      | Leave u # todo \<Rightarrow>
          if build_plan then
            (case plan_add cx u (cs_plan st) of
               None \<Rightarrow> Some None
             | Some plan \<Rightarrow> compile_all R M cx build_plan todo (st\<lparr>cs_plan := plan\<rparr>))
          else compile_all R M cx build_plan todo st)"

declare compile_all.simps [code]

text \<open>The loop of \<open>Context::compile\<close> over the units of the command.\<close>

definition compile_roots ::
    "('u source_id, 'r) resolve \<Rightarrow> ('u, 'j, 'e) job_makers \<Rightarrow> 'u compile_cx \<Rightarrow> bool \<Rightarrow> bool \<Rightarrow> 'u build_unit list \<Rightarrow>
     (('u, 'e) compile_error, ('u, 'j, 'e) compile_state) run option" where
  "compile_roots R M cx build_plan force_rebuild roots =
     compile_all R M cx build_plan (map (\<lambda>u. Visit u force_rebuild) roots)
       \<lparr>cs_compiled = {}, cs_links = new_link_table, cs_plan = new_build_plan, cs_jobs = new_job_queue\<rparr>"

section \<open>Jobs and the queue\<close>

lemma enqueue_all_snoc:
  "enqueue_all (jobs @ [(key, ds, job, fresh)]) = enqueue key ds job fresh (enqueue_all jobs)"
  by (simp add: enqueue_all_def)

lemma waits_for_enqueue:
  "waits_for (jq_queue (enqueue key ds job fresh s)) k x \<Longrightarrow> waits_for (jq_queue s) k x \<or> k = key \<and> x \<in> set ds"
  "waiting (jq_queue (enqueue key ds job fresh s)) = insert key (waiting (jq_queue s))"
proof -
  let ?q = "fst (queue Fresh key [] ds (jq_queue s))"
  have key: "key \<in> waiting ?q" by (simp add: jobs_of_queue)
  show "waiting (jq_queue (enqueue key ds job fresh s)) = insert key (waiting (jq_queue s))"
    by (simp add: enqueue_def push_job_spec(1) [OF key] jobs_of_queue)
  show "waits_for (jq_queue (enqueue key ds job fresh s)) k x \<Longrightarrow> waits_for (jq_queue s) k x \<or> k = key \<and> x \<in> set ds"
    by (auto simp: enqueue_def push_job_def waits_for_def queue_def update_conv' split: option.splits if_splits)
qed

lemma enqueue_all_waits:
  "waiting (jq_queue (enqueue_all jobs)) = fst ` set jobs"
  "waits_for (jq_queue (enqueue_all jobs)) k x \<Longrightarrow> \<exists>ds job. (k, ds, job) \<in> set jobs \<and> x \<in> set ds"
proof (induction jobs rule: rev_induct)
  case Nil
  { case 1 show ?case by (simp add: enqueue_all_def new_job_queue_def new_queue_def waiting_def) }
  { case 2 then show ?case by (simp add: enqueue_all_def new_job_queue_def new_queue_def waits_for_def) }
next
  case (snoc j jobs)
  obtain key ds job fresh where j: "j = (key, ds, job, fresh)" by (cases j) auto
  { case 1 show ?case using snoc.IH(1) by (simp add: j enqueue_all_snoc waits_for_enqueue(2)) }
  { case 2 then show ?case using snoc.IH(2) by (fastforce simp: j enqueue_all_snoc dest!: waits_for_enqueue(1)) }
qed


section \<open>The invariant of the compilation\<close>

definition cx_ok :: "'u compile_cx \<Rightarrow> bool" where
  "cx_ok cx \<longleftrightarrow> units_closed (cx_deps cx) \<and> (\<forall>us. set (cx_sort cx us) = set us) \<and>
     (\<forall>u \<in> dom (map_of (cx_deps cx)). map_of (cx_packages cx) (pg_id (bu_pkg u)) \<in> {None, Some (bu_pkg u)})"

text \<open>Every compiled unit has one job, and a job waits for keys of units that are compiled or still to come.\<close>

definition jobs_ok ::
    "'u compile_cx \<Rightarrow> 'u build_unit set \<Rightarrow> ('u, 'j, 'e) compile_state \<Rightarrow> bool" where
  "jobs_ok cx todo st \<longleftrightarrow> cs_compiled st \<subseteq> dom (map_of (cx_deps cx)) \<and>
     (\<exists>jobs. cs_jobs st = enqueue_all jobs \<and> length jobs = card (cs_compiled st) \<and>
        fst ` set jobs = new_key ` cs_compiled st \<and>
        (\<forall>(k, ds, j) \<in> set jobs. set ds \<subseteq> new_key ` (cs_compiled st \<union> todo)))"

text \<open>The package of a compiled unit is validated: its library is its own, and it has a build script.\<close>

definition compile_links_ok :: "('u, 'j, 'e) compile_state \<Rightarrow> bool" where
  "compile_links_ok st \<longleftrightarrow>
     (\<forall>i \<in> lt_validated (cs_links st). \<exists>u \<in> cs_compiled st. pg_id (bu_pkg u) = i \<and>
        (\<forall>lib. pg_links (bu_pkg u) = Some lib \<longrightarrow>
           map_of (lt_links (cs_links st)) lib = Some i \<and> list_ex is_custom_build (pg_targets (bu_pkg u)))) \<and>
     (\<forall>u \<in> cs_compiled st. pg_id (bu_pkg u) \<in> lt_validated (cs_links st))"

lemma compile_links_ok_validated: "compile_links_ok st \<Longrightarrow> w \<in> cs_compiled st \<Longrightarrow> pg_id (bu_pkg w) \<in> lt_validated (cs_links st)"
  unfolding compile_links_ok_def by (drule conjunct2) (rule bspec)

lemma compile_links_ok_owner:
  "compile_links_ok st \<Longrightarrow> i \<in> lt_validated (cs_links st) \<Longrightarrow>
     \<exists>u \<in> cs_compiled st. pg_id (bu_pkg u) = i \<and> (\<forall>lib. pg_links (bu_pkg u) = Some lib \<longrightarrow>
       map_of (lt_links (cs_links st)) lib = Some i \<and> list_ex is_custom_build (pg_targets (bu_pkg u)))"
  unfolding compile_links_ok_def by (drule conjunct1) (rule bspec)

lemma unit_again:
  "\<lparr>bu_pkg = bu_pkg u, bu_target = bu_target u, bu_profile = bu_profile u, bu_kind = bu_kind u, bu_mode = bu_mode u\<rparr> = u"
  by simp

lemma unit_key_dependencies_ok:
  assumes cx: "cx_ok cx" and u: "u \<in> dom (map_of (cx_deps cx))" and f: "unit_key_dependencies cx (new_key u) = Some (Inr ds)"
  shows "\<exists>us. dep_targets cx u = Some us \<and> set ds \<subseteq> new_key ` set us \<and> set us \<subseteq> dom (map_of (cx_deps cx))"
proof -
  have pkg: "map_of (cx_packages cx) (pg_id (bu_pkg u)) = Some (bu_pkg u)"
  proof -
    have "map_of (cx_packages cx) (pg_id (bu_pkg u)) \<noteq> None"
      using f by (auto simp: unit_key_dependencies_def get_package_def new_key_def split: option.splits)
    moreover have "map_of (cx_packages cx) (pg_id (bu_pkg u)) \<in> {None, Some (bu_pkg u)}" using cx u unfolding cx_ok_def by blast
    ultimately show ?thesis by auto
  qed
  obtain us where us: "dep_targets cx u = Some us" "set ds \<subseteq> new_key ` set us"
  proof -
    from f pkg obtain us where "dep_targets cx u = Some us"
        "ds = map new_key (filter (\<lambda>d. \<not> (is_test (bu_target u) \<and> is_bin (bu_target d))) us)"
      by (auto simp: unit_key_dependencies_def get_package_def new_key_def unwrap_def unit_again split: option.splits)
    then show thesis by (intro that [of us]) auto
  qed
  moreover have "set us \<subseteq> dom (map_of (cx_deps cx))"
  proof -
    have "set us = {} \<or> (\<exists>vs. map_of (cx_deps cx) u = Some vs \<and> set us = set vs)"
      using us(1) cx by (auto simp: dep_targets_def cx_ok_def split: if_splits)
    moreover have "set vs \<subseteq> dom (map_of (cx_deps cx))" if "map_of (cx_deps cx) u = Some vs" for vs
      using cx that unfolding cx_ok_def units_closed_def by blast
    ultimately show ?thesis by (elim disjE exE conjE) simp_all
  qed
  ultimately show ?thesis by blast
qed

lemma unit_key_dependencies_defined:
  assumes cx: "cx_ok cx" and u: "u \<in> dom (map_of (cx_deps cx))"
  shows "unit_key_dependencies cx (new_key u) \<noteq> None"
proof -
  have "dep_targets cx u \<noteq> None" using u by (auto simp: dep_targets_def)
  moreover have "map_of (cx_packages cx) (pg_id (bu_pkg u)) \<in> {None, Some (bu_pkg u)}" using cx u unfolding cx_ok_def by blast
  ultimately show ?thesis
    by (auto simp: unit_key_dependencies_def get_package_def new_key_def bindR_def unwrap_def unit_again split: option.splits)
qed

lemma validate_links_ok:
  assumes "compile_links_ok st" "validate_links R u (cs_links st) = Inr lt"
    and "\<forall>v \<in> cs_compiled st. pg_id (bu_pkg v) = pg_id (bu_pkg u) \<longrightarrow> bu_pkg v = bu_pkg u"
  shows "compile_links_ok (st\<lparr>cs_compiled := insert u (cs_compiled st), cs_links := lt, cs_jobs := q\<rparr>)"
proof (cases "pg_id (bu_pkg u) \<in> lt_validated (cs_links st)")
  case True
  then show ?thesis using assms(1,2) by (auto simp: compile_links_ok_def validate_links_def Let_def)
next
  case False
  let ?i = "pg_id (bu_pkg u)"
  have lt: "lt_validated lt = insert ?i (lt_validated (cs_links st))"
    and new: "\<And>lib. pg_links (bu_pkg u) = Some lib \<Longrightarrow>
      map_of (lt_links lt) lib = Some ?i \<and> list_ex is_custom_build (pg_targets (bu_pkg u))"
    and old: "\<And>lib j. map_of (lt_links (cs_links st)) lib = Some j \<Longrightarrow> map_of (lt_links lt) lib = Some j"
    using False assms(2) by (auto simp: validate_links_def Let_def update_conv' split: option.splits if_splits)
  show ?thesis
    using assms(1) new old unfolding compile_links_ok_def by (simp add: lt) (metis (no_types, lifting))
qed

lemma compile_one_ok:
  fixes st :: "('u, 'j, 'e) compile_state"
  assumes cx: "cx_ok cx" and u: "u \<in> dom (map_of (cx_deps cx))" "u \<notin> cs_compiled st"
    and jobs: "jobs_ok cx (insert u todo) st" and links: "compile_links_ok st"
    and same: "\<forall>v \<in> dom (map_of (cx_deps cx)). pg_id (bu_pkg v) = pg_id (bu_pkg u) \<longrightarrow> bu_pkg v = bu_pkg u"
  obtains (error) e where "compile_one R M cx plan u force st = Some (Inl e)"
  | (ok) st' us where "compile_one R M cx plan u force st = Some (Inr st')" "dep_targets cx u = Some us"
      "cs_compiled st' = insert u (cs_compiled st)" "set us \<subseteq> dom (map_of (cx_deps cx))"
      "jobs_ok cx (set us \<union> todo) st'" "compile_links_ok st'" "cs_plan st' = cs_plan st"
proof (cases "compile_one R M cx plan u force st")
  case None
  then show thesis
    by (auto simp: compile_one_def Let_def bindR_eq_None unit_key_dependencies_defined [OF cx u(1)])
next
  case (Some r)
  show thesis
  proof (cases r)
    case (Inl e)
    with Some show thesis by (intro error) simp
  next
    case (Inr st')
    with Some obtain lt job fresh ds where lt: "validate_links R u (cs_links st) = (Inr lt :: ('u, 'e) compile_error + _)"
        and ds: "unit_key_dependencies cx (new_key u) = (Some (Inr ds) :: (('u, 'e) compile_error, _) run)"
        and st': "st' = st\<lparr>cs_compiled := insert u (cs_compiled st), cs_links := lt,
          cs_jobs := enqueue (new_key u) ds job fresh (cs_jobs st)\<rparr>"
      by (auto simp: compile_one_def Let_def)
    obtain us where us: "dep_targets cx u = Some us" "set ds \<subseteq> new_key ` set us" "set us \<subseteq> dom (map_of (cx_deps cx))"
      using unit_key_dependencies_ok [OF cx u(1) ds] by blast
    from jobs obtain js where js: "cs_jobs st = enqueue_all js" "length js = card (cs_compiled st)"
        "fst ` set js = new_key ` cs_compiled st" "\<forall>(k, ds, j) \<in> set js. set ds \<subseteq> new_key ` (cs_compiled st \<union> insert u todo)"
      and sub: "cs_compiled st \<subseteq> dom (map_of (cx_deps cx))"
      unfolding jobs_ok_def by blast
    have fin: "finite (cs_compiled st)" using sub by (rule finite_subset) (rule finite_dom_map_of)
    have "jobs_ok cx (set us \<union> todo) st'"
      unfolding jobs_ok_def
    proof (intro conjI exI [of _ "js @ [(new_key u, ds, job, fresh)]"])
      show "cs_compiled st' \<subseteq> dom (map_of (cx_deps cx))" using sub u(1) by (simp add: st')
      show "cs_jobs st' = enqueue_all (js @ [(new_key u, ds, job, fresh)])" by (simp add: st' js(1) enqueue_all_snoc)
      show "length (js @ [(new_key u, ds, job, fresh)]) = card (cs_compiled st')" using js(2) u(2) fin by (simp add: st')
      show "fst ` set (js @ [(new_key u, ds, job, fresh)]) = new_key ` cs_compiled st'" using js(3) by (simp add: st')
      let ?keys = "new_key ` (cs_compiled st' \<union> (set us \<union> todo))"
      have mono: "new_key ` (cs_compiled st \<union> insert u todo) \<subseteq> new_key ` (cs_compiled st' \<union> (set us \<union> todo))"
        by (rule image_mono) (auto simp: st')
      have old: "set (fst (snd x)) \<subseteq> ?keys" if "x \<in> set js" for x
        by (rule order_trans [OF _ mono]) (use js(4) that in \<open>auto simp: split_beta\<close>)
      have new: "set ds \<subseteq> ?keys" using us(2) by blast
      show "\<forall>(k, ds, j) \<in> set (js @ [(new_key u, ds, job, fresh)]). set ds \<subseteq> ?keys"
        unfolding split_beta set_append ball_Un using old new by simp
    qed
    moreover have "compile_links_ok st'" unfolding st' by (rule validate_links_ok [OF links lt]) (use sub same in blast)
    ultimately show thesis using Some Inr us by (intro ok [of st' us]) (simp_all add: st')
  qed
qed

section \<open>The plan of a dry run\<close>

definition dep_rel :: "'u compile_cx \<Rightarrow> ('u build_unit \<times> 'u build_unit) set" where
  "dep_rel cx = {(u, d). \<exists>us. dep_targets cx u = Some us \<and> d \<in> set us}"

definition visits :: "'u compile_task list \<Rightarrow> 'u build_unit set" where
  "visits todo = {u. \<exists>f. Visit u f \<in> set todo}"

fun task_unit :: "'u compile_task \<Rightarrow> 'u build_unit" where
  "task_unit (Visit u _) = u"
| "task_unit (Leave u) = u"

fun finishing :: "'u compile_task list \<Rightarrow> 'u build_unit list" where
  "finishing [] = []"
| "finishing (Visit _ _ # todo) = finishing todo"
| "finishing (Leave u # todo) = u # finishing todo"

lemma visits_simps [simp]:
  "visits [] = {}" "visits (Visit u f # todo) = insert u (visits todo)" "visits (Leave u # todo) = visits todo"
  "visits (map (\<lambda>d. Visit d f) us @ todo) = set us \<union> visits todo"
  by (auto simp: visits_def)

lemma finishing_simps [simp]:
  "finishing (map (\<lambda>d. Visit d f) us @ todo) = finishing todo"
  by (induction us) auto

lemma finishing_iff: "u \<in> set (finishing todo) \<longleftrightarrow> Leave u \<in> set todo"
  by (induction todo rule: finishing.induct) auto

text \<open>Above the end of a call are tasks for units it needs, among them those of its dependencies that are new.\<close>

definition stack_ok :: "'u compile_cx \<Rightarrow> 'u build_unit set \<Rightarrow> 'u compile_task list \<Rightarrow> bool" where
  "stack_ok cx compiled todo \<longleftrightarrow>
     (\<forall>xs a ys. todo = xs @ Leave a # ys \<longrightarrow>
        (\<forall>x\<in>set xs. (a, task_unit x) \<in> (dep_rel cx)\<^sup>+) \<and> (\<forall>d. (a, d) \<in> dep_rel cx \<longrightarrow> d \<in> compiled \<union> visits xs))"

lemma stack_okD:
  assumes "stack_ok cx compiled todo" "todo = xs @ Leave a # ys"
  shows "x \<in> set xs \<Longrightarrow> (a, task_unit x) \<in> (dep_rel cx)\<^sup>+" and "(a, d) \<in> dep_rel cx \<Longrightarrow> d \<in> compiled \<union> visits xs"
  using assms unfolding stack_ok_def by blast+

lemma stack_ok_old:
  assumes "stack_ok cx compiled (Visit u f # todo)" "u \<in> compiled"
  shows "stack_ok cx compiled todo"
  unfolding stack_ok_def
proof (intro allI impI)
  fix xs a ys
  assume "todo = xs @ Leave a # ys"
  then have "Visit u f # todo = (Visit u f # xs) @ Leave a # ys" by simp
  from stack_okD [OF assms(1) this] assms(2)
  show "(\<forall>x\<in>set xs. (a, task_unit x) \<in> (dep_rel cx)\<^sup>+) \<and> (\<forall>d. (a, d) \<in> dep_rel cx \<longrightarrow> d \<in> compiled \<union> visits xs)" by auto
qed

lemma stack_ok_finish:
  assumes "stack_ok cx compiled (Leave u # todo)"
  shows "stack_ok cx compiled todo"
  unfolding stack_ok_def
proof (intro allI impI)
  fix xs a ys
  assume "todo = xs @ Leave a # ys"
  then have "Leave u # todo = (Leave u # xs) @ Leave a # ys" by simp
  from stack_okD [OF assms this]
  show "(\<forall>x\<in>set xs. (a, task_unit x) \<in> (dep_rel cx)\<^sup>+) \<and> (\<forall>d. (a, d) \<in> dep_rel cx \<longrightarrow> d \<in> compiled \<union> visits xs)" by auto
qed

lemma visits_then_finish:
  assumes "map (\<lambda>d. Visit d f) us @ Leave u # todo = xs @ Leave a # ys"
  shows "(xs = map (\<lambda>d. Visit d f) us \<and> a = u) \<or> (\<exists>zs. xs = map (\<lambda>d. Visit d f) us @ Leave u # zs \<and> todo = zs @ Leave a # ys)"
  using assms
proof (induction us arbitrary: xs)
  case Nil
  then show ?case by (cases xs) auto
next
  case (Cons d us)
  then obtain xs' where "xs = Visit d f # xs'" "map (\<lambda>d. Visit d f) us @ Leave u # todo = xs' @ Leave a # ys" by (cases xs) auto
  with Cons.IH [of xs'] show ?case by auto
qed

lemma stack_ok_visit:
  assumes ok: "stack_ok cx compiled (Visit u f # todo)" and us: "dep_targets cx u = Some us"
  shows "stack_ok cx (insert u compiled) (map (\<lambda>d. Visit d False) us @ Leave u # todo)"
  unfolding stack_ok_def
proof (intro allI impI)
  have dep: "(u, d) \<in> dep_rel cx \<longleftrightarrow> d \<in> set us" for d using us by (simp add: dep_rel_def)
  fix xs a ys
  assume "map (\<lambda>d. Visit d False) us @ Leave u # todo = xs @ Leave a # ys"
  from visits_then_finish [OF this]
  show "(\<forall>x\<in>set xs. (a, task_unit x) \<in> (dep_rel cx)\<^sup>+) \<and>
      (\<forall>d. (a, d) \<in> dep_rel cx \<longrightarrow> d \<in> insert u compiled \<union> visits xs)"
  proof (elim disjE conjE exE)
    assume "xs = map (\<lambda>d. Visit d False) us" "a = u"
    then show ?thesis using dep visits_simps(4) [of False us "[]"] by auto
  next
    fix zs
    assume xs: "xs = map (\<lambda>d. Visit d False) us @ Leave u # zs" and todo: "todo = zs @ Leave a # ys"
    have "Visit u f # todo = (Visit u f # zs) @ Leave a # ys" by (simp add: todo)
    note a = stack_okD [OF ok this]
    have "(a, u) \<in> (dep_rel cx)\<^sup>+" using a(1) [of "Visit u f"] by simp
    then have "(a, d) \<in> (dep_rel cx)\<^sup>+" if "d \<in> set us" for d using dep that by (meson trancl.intros(2))
    then show ?thesis using a \<open>(a, u) \<in> (dep_rel cx)\<^sup>+\<close> by (auto simp: xs)
  qed
qed

text \<open>In a graph without a cycle the dependencies of a unit have ended their calls when its own call ends.\<close>

lemma stack_ok_top:
  assumes ok: "stack_ok cx compiled (Leave u # todo)" and ac: "acyclic (dep_rel cx)" and d: "(u, d) \<in> dep_rel cx"
  shows "d \<in> compiled \<and> Leave d \<notin> set (Leave u # todo)"
proof -
  have "d \<in> compiled" using stack_okD(2) [OF ok, of "[]"] d by simp
  moreover have "d \<noteq> u" using ac d unfolding acyclic_def by blast
  moreover have "Leave d \<notin> set todo"
  proof
    assume "Leave d \<in> set todo"
    then obtain zs ys where "todo = zs @ Leave d # ys" by (meson split_list)
    then have "Leave u # todo = (Leave u # zs) @ Leave d # ys" by simp
    from stack_okD(1) [OF ok this, of "Leave u"] have "(d, u) \<in> (dep_rel cx)\<^sup>+" by simp
    from this d have "(d, d) \<in> (dep_rel cx)\<^sup>+" by (rule trancl.intros(2))
    with ac show False unfolding acyclic_def by blast
  qed
  ultimately show ?thesis by simp
qed

definition plan_ok :: "'u compile_cx \<Rightarrow> 'u compile_task list \<Rightarrow> ('u, 'j, 'e) compile_state \<Rightarrow> bool" where
  "plan_ok cx todo st \<longleftrightarrow>
     length (bp_invocations (cs_plan st)) + length (finishing todo) = card (cs_compiled st) \<and>
     (\<forall>u\<in>cs_compiled st. Leave u \<in> set todo \<or> cx_buildkey cx u \<in> fst ` set (bp_invocation_map (cs_plan st))) \<and>
     stack_ok cx (cs_compiled st) todo"

lemma those_Some: "\<forall>x\<in>set xs. f x \<noteq> None \<Longrightarrow> \<exists>ys. those (map f xs) = Some ys"
  by (induction xs) auto

lemma plan_add_ok:
  assumes ok: "plan_ok cx (Leave u # todo) st" and ac: "acyclic (dep_rel cx)" and us: "dep_targets cx u = Some us"
  shows "\<exists>plan. plan_add cx u (cs_plan st) = Some plan \<and> plan_ok cx todo (st\<lparr>cs_plan := plan\<rparr>)"
proof -
  let ?m = "AList.update (cx_buildkey cx u) (length (bp_invocations (cs_plan st))) (bp_invocation_map (cs_plan st))"
  have "map_of ?m (cx_buildkey cx d) \<noteq> None" if "d \<in> set us" for d
  proof -
    have "(u, d) \<in> dep_rel cx" using us that by (simp add: dep_rel_def)
    with ok ac have "d \<in> cs_compiled st" "Leave d \<notin> set (Leave u # todo)"
      using stack_ok_top unfolding plan_ok_def by blast+
    with ok have "cx_buildkey cx d \<in> fst ` set (bp_invocation_map (cs_plan st))" unfolding plan_ok_def by blast
    then show ?thesis by (auto simp: in_keys_iff)
  qed
  with those_Some [of us "\<lambda>d. map_of ?m (cx_buildkey cx d)"] obtain ds where
    "those (map (\<lambda>d. map_of ?m (cx_buildkey cx d)) us) = Some ds" by blast
  then have "plan_add cx u (cs_plan st) =
      Some \<lparr>bp_invocation_map = ?m, bp_invocations = bp_invocations (cs_plan st) @ [new_invocation u ds]\<rparr>"
    by (simp add: plan_add_def us Let_def)
  moreover have "stack_ok cx (cs_compiled st) todo" using ok stack_ok_finish unfolding plan_ok_def by blast
  ultimately show ?thesis using ok by (auto simp: plan_ok_def)
qed


section \<open>The traversal\<close>

text \<open>What a run of \<open>compile\<close> comes to: an error, the end state, or, in a dry run over a cyclic graph only, the panic.\<close>

definition compiled_ok ::
    "'u compile_cx \<Rightarrow> bool \<Rightarrow> 'u build_unit set \<Rightarrow> (('u, 'e) compile_error, ('u, 'j, 'e) compile_state) run option \<Rightarrow> bool" where
  "compiled_ok cx build_plan us res \<longleftrightarrow>
     (\<exists>e. res = Some (Some (Inl e))) \<or> (build_plan \<and> \<not> acyclic (dep_rel cx) \<and> res = Some None) \<or>
     (\<exists>st. res = Some (Some (Inr st)) \<and> jobs_ok cx {} st \<and> compile_links_ok st \<and> us \<subseteq> cs_compiled st \<and>
        (build_plan \<and> acyclic (dep_rel cx) \<longrightarrow> plan_ok cx [] st))"

lemma compiled_ok_mono: "compiled_ok cx build_plan us res \<Longrightarrow> vs \<subseteq> us \<Longrightarrow> compiled_ok cx build_plan vs res"
  unfolding compiled_ok_def by blast

lemma compile_all_simps:
  "compile_all R M cx plan [] st = Some (Some (Inr st))"
  "u \<in> cs_compiled st \<Longrightarrow> compile_all R M cx plan (Visit u force # todo) st = compile_all R M cx plan todo st"
  "u \<notin> cs_compiled st \<Longrightarrow> compile_one R M cx plan u force st = Some (Inl e) \<Longrightarrow>
     compile_all R M cx plan (Visit u force # todo) st = Some (Some (Inl e))"
  "u \<notin> cs_compiled st \<Longrightarrow> compile_one R M cx plan u force st = Some (Inr st') \<Longrightarrow> dep_targets cx u = Some us \<Longrightarrow>
     compile_all R M cx plan (Visit u force # todo) st =
     compile_all R M cx plan (map (\<lambda>d. Visit d False) us @ Leave u # todo) st'"
  by (simp_all add: compile_all.simps [of _ _ _ _ "_ # _"] compile_all.simps [of _ _ _ _ "[]"])

lemma compile_all_leave:
  "compile_all R M cx plan (Leave u # todo) st =
     (if plan then (case plan_add cx u (cs_plan st) of None \<Rightarrow> Some None | Some p \<Rightarrow> compile_all R M cx plan todo (st\<lparr>cs_plan := p\<rparr>))
      else compile_all R M cx plan todo st)"
  by (subst compile_all.simps) simp

lemma state_ok_plan [simp]:
  "jobs_ok cx todo (st\<lparr>cs_plan := p\<rparr>) = jobs_ok cx todo st" "compile_links_ok (st\<lparr>cs_plan := p\<rparr>) = compile_links_ok st"
  by (simp_all add: jobs_ok_def compile_links_ok_def)

lemma plan_ok_old: "plan_ok cx (Visit u f # todo) st \<Longrightarrow> u \<in> cs_compiled st \<Longrightarrow> plan_ok cx todo st"
  using stack_ok_old by (auto simp: plan_ok_def)

lemma plan_ok_visit:
  assumes "plan_ok cx (Visit u f # todo) st" "u \<notin> cs_compiled st" "finite (cs_compiled st)" "dep_targets cx u = Some us"
    and "cs_compiled st' = insert u (cs_compiled st)" "cs_plan st' = cs_plan st"
  shows "plan_ok cx (map (\<lambda>d. Visit d False) us @ Leave u # todo) st'"
  using assms stack_ok_visit [of cx "cs_compiled st" u f todo us] by (auto simp: plan_ok_def)

definition todo_ok :: "'u compile_cx \<Rightarrow> bool \<Rightarrow> 'u compile_task list \<Rightarrow> ('u, 'j, 'e) compile_state \<Rightarrow> bool" where
  "todo_ok cx build_plan todo st \<longleftrightarrow>
     task_unit ` set todo \<subseteq> dom (map_of (cx_deps cx)) \<and> jobs_ok cx (visits todo) st \<and> compile_links_ok st \<and>
     (build_plan \<and> acyclic (dep_rel cx) \<longrightarrow> plan_ok cx todo st)"

definition packages_same :: "'u compile_cx \<Rightarrow> bool" where
  "packages_same cx \<longleftrightarrow> (\<forall>u \<in> dom (map_of (cx_deps cx)). \<forall>v \<in> dom (map_of (cx_deps cx)).
     pg_id (bu_pkg v) = pg_id (bu_pkg u) \<longrightarrow> bu_pkg v = bu_pkg u)"

lemma leave_ok:
  assumes "todo_ok cx plan (Leave u # todo) st"
  shows "(plan \<and> \<not> acyclic (dep_rel cx) \<and> compile_all R M cx plan (Leave u # todo) st = Some None) \<or>
    (\<exists>st'. compile_all R M cx plan (Leave u # todo) st = compile_all R M cx plan todo st' \<and>
       cs_compiled st' = cs_compiled st \<and> todo_ok cx plan todo st')"
proof (cases plan)
  case False
  with assms show ?thesis by (intro disjI2 exI [of _ st]) (simp add: compile_all_leave todo_ok_def)
next
  case True
  have "dep_targets cx u \<noteq> None" using assms by (auto simp: todo_ok_def dep_targets_def)
  then obtain us where us: "dep_targets cx u = Some us" by blast
  have rest: "task_unit ` set todo \<subseteq> dom (map_of (cx_deps cx))" "jobs_ok cx (visits todo) st" "compile_links_ok st"
    using assms by (simp_all add: todo_ok_def)
  show ?thesis
  proof (cases "acyclic (dep_rel cx)")
    case ac: True
    with True assms have "plan_ok cx (Leave u # todo) st" by (simp add: todo_ok_def)
    from plan_add_ok [OF this ac us] obtain p where p: "plan_add cx u (cs_plan st) = Some p" "plan_ok cx todo (st\<lparr>cs_plan := p\<rparr>)"
      by blast
    with True rest show ?thesis
      by (intro disjI2 exI [of _ "st\<lparr>cs_plan := p\<rparr>"]) (simp add: compile_all_leave todo_ok_def)
  next
    case cyclic: False
    with True rest show ?thesis
      by (cases "plan_add cx u (cs_plan st)") (auto simp: compile_all_leave todo_ok_def intro!: exI [of _ "st\<lparr>cs_plan := _\<rparr>"])
  qed
qed

lemma visit_old_ok:
  assumes "todo_ok cx plan (Visit u f # todo) st" "u \<in> cs_compiled st"
  shows "todo_ok cx plan todo st"
proof -
  have "jobs_ok cx (insert u (visits todo)) st" using assms(1) by (simp add: todo_ok_def)
  then have "jobs_ok cx (visits todo) st" using assms(2) unfolding jobs_ok_def by (simp add: insert_absorb)
  with assms plan_ok_old [of cx u f todo st] show ?thesis by (simp add: todo_ok_def)
qed

lemma visit_new_ok:
  fixes st :: "('u, 'j, 'e) compile_state"
  assumes cx: "cx_ok cx" "packages_same cx" and todo: "todo_ok cx plan (Visit u force # todo) st" and new: "u \<notin> cs_compiled st"
  shows "(\<exists>e. compile_all R M cx plan (Visit u force # todo) st = Some (Some (Inl e))) \<or>
    (\<exists>st' us. compile_all R M cx plan (Visit u force # todo) st =
         compile_all R M cx plan (map (\<lambda>d. Visit d False) us @ Leave u # todo) st' \<and>
       cs_compiled st' = insert u (cs_compiled st) \<and> todo_ok cx plan (map (\<lambda>d. Visit d False) us @ Leave u # todo) st')"
proof -
  have u: "u \<in> dom (map_of (cx_deps cx))" and rest: "task_unit ` set todo \<subseteq> dom (map_of (cx_deps cx))"
    and jobs: "jobs_ok cx (insert u (visits todo)) st" and links: "compile_links_ok st"
    using todo by (simp_all add: todo_ok_def)
  have same: "\<forall>v \<in> dom (map_of (cx_deps cx)). pg_id (bu_pkg v) = pg_id (bu_pkg u) \<longrightarrow> bu_pkg v = bu_pkg u"
    using cx(2) u unfolding packages_same_def by blast
  show ?thesis
  proof (cases rule: compile_one_ok [OF cx(1) u new jobs links same, of R M plan force, case_names error ok])
    case (error e)
    with new show ?thesis by (simp add: compile_all_simps(3))
  next
    case (ok st' us)
    let ?todo = "map (\<lambda>d. Visit d False) us @ Leave u # todo"
    have "cs_compiled st \<subseteq> dom (map_of (cx_deps cx))" using jobs unfolding jobs_ok_def by (rule conjunct1)
    then have fin: "finite (cs_compiled st)" by (rule finite_subset) (rule finite_dom_map_of)
    have "plan_ok cx ?todo st'" if "plan" "acyclic (dep_rel cx)"
      by (rule plan_ok_visit [OF _ new fin ok(2,3,7), of force]) (use todo that in \<open>simp add: todo_ok_def\<close>)
    moreover have "task_unit ` set ?todo \<subseteq> dom (map_of (cx_deps cx))"
      using ok(4) u rest unfolding set_append image_Un by (simp add: image_image)
    ultimately have "todo_ok cx plan ?todo st'" using ok(5,6) by (simp add: todo_ok_def)
    with compile_all_simps(4) [OF new ok(1,2)] ok(3) show ?thesis by blast
  qed
qed

lemma compile_all_ok:
  fixes st :: "('u, 'j, 'e) compile_state"
  assumes cx: "cx_ok cx" "packages_same cx"
  shows "todo_ok cx plan todo st \<Longrightarrow> compiled_ok cx plan (cs_compiled st \<union> visits todo) (compile_all R M cx plan todo st)"
proof (induction "card (dom (map_of (cx_deps cx)) - cs_compiled st)" arbitrary: st todo rule: less_induct)
  case less
  let ?U = "dom (map_of (cx_deps cx))"
  have "compiled_ok cx plan (cs_compiled st' \<union> visits todo) (compile_all R M cx plan todo st')"
    if "cs_compiled st' = cs_compiled st" "todo_ok cx plan todo st'" for todo and st' :: "('u, 'j, 'e) compile_state"
    using that
  proof (induction todo arbitrary: st')
    case Nil
    then show ?case by (simp add: compile_all_simps compiled_ok_def todo_ok_def)
  next
    case (Cons t todo)
    show ?case
    proof (cases t)
      case (Leave u)
      have "todo_ok cx plan (Leave u # todo) st'" using Cons.prems(2) Leave by simp
      from leave_ok [OF this, of R M] show ?thesis
      proof (elim disjE exE conjE)
        fix st1
        assume st1: "compile_all R M cx plan (Leave u # todo) st' = compile_all R M cx plan todo st1"
          "cs_compiled st1 = cs_compiled st'" "todo_ok cx plan todo st1"
        from Cons.IH [OF _ st1(3)] st1(2) Cons.prems(1) show ?thesis unfolding Leave st1(1) by simp
      qed (auto simp: compiled_ok_def Leave)
    next
      case (Visit u force)
      show ?thesis
      proof (cases "u \<in> cs_compiled st'")
        case True
        with Cons.IH [of st'] Cons.prems Visit visit_old_ok [of cx plan u force todo st'] show ?thesis
          by (simp add: compile_all_simps(2) insert_absorb)
      next
        case new: False
        have "todo_ok cx plan (Visit u force # todo) st'" using Cons.prems(2) Visit by simp
        from visit_new_ok [OF cx this new, of R M] show ?thesis
        proof (elim disjE exE conjE)
          fix st1 us
          let ?todo = "map (\<lambda>d. Visit d False) us @ Leave u # todo"
          assume st1: "compile_all R M cx plan (Visit u force # todo) st' = compile_all R M cx plan ?todo st1"
            "cs_compiled st1 = insert u (cs_compiled st')" "todo_ok cx plan ?todo st1"
          have "u \<in> ?U" using Cons.prems(2) Visit by (simp add: todo_ok_def)
          then have "?U - cs_compiled st1 \<subset> ?U - cs_compiled st" using new st1(2) Cons.prems(1) by auto
          then have "card (?U - cs_compiled st1) < card (?U - cs_compiled st)"
            by (intro psubset_card_mono) (simp_all add: finite_dom_map_of)
          from less.hyps [OF this st1(3)] show ?thesis unfolding Visit st1(1) by (rule compiled_ok_mono) (auto simp: st1(2))
        qed (auto simp: compiled_ok_def Visit)
      qed
    qed
  qed
  from this [OF refl less.prems] show ?case .
qed

section \<open>The queue of a build\<close>

lemma dom_map_ok:
  assumes "map_ok S L P m {}"
  shows "u \<in> dom (map_of m) \<Longrightarrow> unit_ok S L P u"
  using assms unfolding map_ok_def by blast

lemma built_cx_ok:
  assumes g: "graph_ok S L bcx" "state_ok S L s" "ds_deps s = []" "\<forall>u \<in> set roots. unit_ok S L UNIV u"
    and built: "build_unit_dependencies S pick bcx roots s = Some (Some (Inr s'))"
    and cx: "cx_deps cx = ds_deps s'" "cx_packages cx = ds_pkgs s'" "\<forall>us. set (cx_sort cx us) = set us"
  shows "cx_ok cx" "\<forall>u \<in> dom (map_of (cx_deps cx)). bu_pkg u = L (pg_id (bu_pkg u))"
    "set roots \<subseteq> dom (map_of (cx_deps cx))"
proof -
  let ?P = "unit_profiles S bcx roots"
  from build_unit_dependencies_ok [OF g, of pick] built obtain s1 where s1: "s' = s1\<lparr>ds_deps := connect_run_custom_build_deps (ds_deps s1)\<rparr>"
      "map_ok S L ?P (ds_deps s1) {}" "state_ok S L s1" "set roots \<subseteq> dom (map_of (ds_deps s1))"
    using g(3) by (auto simp: rounds_ok_def build_unit_dependencies_def)
  have dom: "dom (map_of (cx_deps cx)) = dom (map_of (ds_deps s1))" by (auto simp: cx(1) s1(1) map_of_connect)
  show L: "\<forall>u \<in> dom (map_of (cx_deps cx)). bu_pkg u = L (pg_id (bu_pkg u))"
    unfolding dom using dom_map_ok [OF s1(2)] by (auto simp: unit_ok_def)
  show "set roots \<subseteq> dom (map_of (cx_deps cx))" unfolding dom by (rule s1(4))
  have "map_of (cx_packages cx) (pg_id (bu_pkg u)) \<in> {None, Some (bu_pkg u)}" if "u \<in> dom (map_of (cx_deps cx))" for u
  proof (cases "map_of (cx_packages cx) (pg_id (bu_pkg u))")
    case (Some p)
    then have "p = L (pg_id (bu_pkg u))" using s1(3) by (auto simp: cx(2) s1(1) state_ok_def holds_def)
    with Some L that show ?thesis by simp
  qed simp
  moreover have "units_closed (cx_deps cx)" by (simp add: cx(1) s1(1) connect_closed [OF s1(2)])
  ultimately show "cx_ok cx" using cx(3) by (simp add: cx_ok_def)
qed

lemma jobs_ok_queue:
  assumes "jobs_ok cx {} st"
  obtains jobs where "cs_jobs st = enqueue_all jobs" "length jobs \<le> length (cx_deps cx)"
    "deps_queued (jq_queue (cs_jobs st))" "waiting (jq_queue (cs_jobs st)) = new_key ` cs_compiled st"
proof -
  from assms obtain jobs where jobs: "cs_jobs st = enqueue_all jobs" "length jobs = card (cs_compiled st)"
      "fst ` set jobs = new_key ` cs_compiled st" "\<forall>(k, ds, j) \<in> set jobs. set ds \<subseteq> new_key ` cs_compiled st"
      and sub: "cs_compiled st \<subseteq> dom (map_of (cx_deps cx))"
    by (auto simp: jobs_ok_def)
  have w: "waiting (jq_queue (cs_jobs st)) = new_key ` cs_compiled st" by (simp add: jobs(1,3) enqueue_all_waits(1))
  have "deps_queued (jq_queue (cs_jobs st))"
    unfolding deps_queued_def
  proof (intro allI impI)
    fix k x
    assume "waits_for (jq_queue (cs_jobs st)) k x"
    then obtain ds j where "(k, ds, j) \<in> set jobs" "x \<in> set ds" unfolding jobs(1) by (blast dest: enqueue_all_waits(2))
    with jobs(4) have "x \<in> new_key ` cs_compiled st" by blast
    then show "x \<in> waiting (jq_queue (cs_jobs st))" by (simp only: w)
  qed
  moreover have "length jobs \<le> length (cx_deps cx)"
  proof -
    have "card (cs_compiled st) \<le> card (dom (map_of (cx_deps cx)))" by (rule card_mono [OF finite_dom_map_of sub])
    also have "\<dots> \<le> length (cx_deps cx)" by (metis card_length dom_map_of_conv_image_fst length_map set_map)
    finally show ?thesis using jobs(2) by simp
  qed
  ultimately show thesis using that jobs(1) w by blast
qed


section \<open>An example\<close>

definition pair_makers :: "(string, unit, unit) job_makers" where
  "pair_makers = \<lparr>jm_init = (\<lambda>_. Inr ()), jm_script = (\<lambda>_. Inr ((), Dirty)), jm_rustc = (\<lambda>_. Inr ()),
     jm_target = (\<lambda>_. Inr ((), Dirty)), jm_noop = (), jm_force_rebuild = (\<lambda>_. False)\<rparr>"

definition pair_state :: "string dep_state" where
  "pair_state = (case build_unit_dependencies pair_set (\<lambda>_ _. 0) pair_context [pair_root] (new_dep_state [] []) of
     Some (Some (Inr s)) \<Rightarrow> s)"

definition pair_cx :: "string compile_cx" where
  "pair_cx = \<lparr>cx_deps = ds_deps pair_state, cx_packages = ds_pkgs pair_state, cx_overridden = [], cx_sort = (\<lambda>us. us),
     cx_buildkey = (\<lambda>u. pid_name (pg_id (bu_pkg u)) @ tg_name (bu_target u) @
       (if bu_mode u = ModeRunCustomBuild then ''-run'' else if is_any_test (bu_mode u) then ''-test'' else []))\<rparr>"

definition pair_compiled :: "(string, unit, unit) compile_state" where
  "pair_compiled = (case compile_roots (bc_resolve pair_context) pair_makers pair_cx False False [pair_root] of
     Some (Some (Inr st)) \<Rightarrow> st)"

lemma pair_state_built:
  "build_unit_dependencies pair_set (\<lambda>_ _. 0) pair_context [pair_root] (new_dep_state [] []) = Some (Some (Inr pair_state))"
  by (rule pair_built) (simp add: pair_state_def)

lemma pair_compile:
  "compile_roots (bc_resolve pair_context) pair_makers pair_cx False False [pair_root] = Some (Some (Inr pair_compiled))"
proof -
  have "case compile_roots (bc_resolve pair_context) pair_makers pair_cx False False [pair_root] of
      Some (Some (Inr st)) \<Rightarrow> True | _ \<Rightarrow> False"
    by code_simp
  then show ?thesis by (auto simp: pair_compiled_def split: option.splits sum.splits)
qed



definition pair_script :: "string \<Rightarrow> string unit_key" where
  "pair_script n = new_key \<lparr>bu_pkg = pair_package (pair_uid n), bu_target = pair_target TargetCustomBuild,
     bu_profile = unnamed (get_profile_run_custom_build default_dev), bu_kind = HostKind, bu_mode = ModeRunCustomBuild\<rparr>"

lemma pair_waits:
  "waits_for (jq_queue (cs_jobs pair_compiled)) (pair_script ''a'') (pair_script ''b'')"
  "waits_for (jq_queue (cs_jobs pair_compiled)) (pair_script ''b'') (pair_script ''a'')"
proof -
  have "case map_of (dep_map (jq_queue (cs_jobs pair_compiled))) (pair_script ''a'') of
      None \<Rightarrow> False | Some (ds, _) \<Rightarrow> pair_script ''b'' \<in> ds"
    "case map_of (dep_map (jq_queue (cs_jobs pair_compiled))) (pair_script ''b'') of
      None \<Rightarrow> False | Some (ds, _) \<Rightarrow> pair_script ''a'' \<in> ds"
    by code_simp+
  then show "waits_for (jq_queue (cs_jobs pair_compiled)) (pair_script ''a'') (pair_script ''b'')"
    "waits_for (jq_queue (cs_jobs pair_compiled)) (pair_script ''b'') (pair_script ''a'')"
    by (auto simp: waits_for_def split: option.splits)
qed

text \<open>A queue in which two keys wait for each other does not start.\<close>

lemma cyclic_queue_panics:
  assumes "enqueued_ok s" "length (dep_map (jq_queue s)) < IN_PROGRESS" "waits_for (jq_queue s) k x" "waits_for (jq_queue s) x k"
  shows "execute_start s = None"
proof -
  let ?q = "jq_queue s"
  have "(x, k) \<in> rev_edges (reverse_dep_map ?q)" "(k, x) \<in> rev_edges (reverse_dep_map ?q)"
    using assms(1,3,4) by (auto simp: enqueued_ok_def queued_ok_def rev_edges_def)
  then have "(x, x) \<in> (rev_edges (reverse_dep_map ?q))\<^sup>+" by (meson trancl.intros)
  then have "\<not> acyclic (rev_edges (reverse_dep_map ?q))" unfolding acyclic_def by blast
  with queue_finished_cases [of ?q] assms(1,2) have "queue_finished ?q = None"
    by (auto simp: enqueued_ok_def split: option.splits)
  then show ?thesis by (simp add: execute_start_def)
qed

lemma compile_roots_ok:
  fixes M :: "('u, 'j, 'e) job_makers"
  assumes cx: "cx_ok cx" and pkgs: "\<forall>u \<in> dom (map_of (cx_deps cx)). bu_pkg u = L (pg_id (bu_pkg u))"
    and roots: "set roots \<subseteq> dom (map_of (cx_deps cx))"
  shows "compiled_ok cx plan (set roots) (compile_roots R M cx plan force roots)"
proof -
  have same: "packages_same cx" unfolding packages_same_def using pkgs by metis
  let ?st = "\<lparr>cs_compiled = {}, cs_links = new_link_table, cs_plan = new_build_plan, cs_jobs = new_job_queue\<rparr> :: ('u, 'j, 'e) compile_state"
  let ?todo = "map (\<lambda>u. Visit u force) roots"
  have fin: "finishing ?todo = []" and vis: "visits ?todo = set roots"
    using finishing_simps [of force roots "[]"] visits_simps(4) [of force roots "[]"] by simp_all
  have "stack_ok cx {} ?todo" unfolding stack_ok_def by (auto dest!: arg_cong [of _ _ set])
  then have "plan_ok cx ?todo ?st" using fin by (simp add: plan_ok_def new_build_plan_def)
  moreover have "jobs_ok cx (set roots) ?st" unfolding jobs_ok_def by (auto intro!: exI [of _ "[]"] simp: enqueue_all_def)
  moreover have "compile_links_ok ?st" by (simp add: compile_links_ok_def new_link_table_def)
  moreover have "task_unit ` set ?todo \<subseteq> dom (map_of (cx_deps cx))" using roots by (simp add: image_image)
  ultimately have "todo_ok cx plan ?todo ?st" by (simp add: todo_ok_def vis)
  from compile_all_ok [OF cx same this, of R M] show ?thesis by (simp add: compile_roots_def vis)
qed

section \<open>Properties of the compilation\<close>

text \<open>C31: the graph reaches the job queue whole.  After \<open>build_unit_dependencies\<close> has returned a graph, the compilation of the
  units of the command returns without a panic, for every way to prepare jobs, to order units and to override build
  scripts, unless it is a dry run (\<open>build_plan\<close>) over a graph with a cycle, where the plan lacks the number of a
  dependency: with an error, or with a queue in which every dependency of a queued key is queued as well, every unit of
  the command is queued, and that has no more jobs than the graph has units.  This is what the loop of the job queue
  relies on.  The plan of a dry run over a graph without a cycle has one invocation for every compiled unit, and every
  compiled unit is found in it by its build key.\<close>

theorem compile_queues_graph:
  assumes "graph_ok S L bcx" "state_ok S L s" "ds_deps s = []" "\<forall>u \<in> set roots. unit_ok S L UNIV u"
    and "build_unit_dependencies S pick bcx roots s = Some (Some (Inr s'))"
    and "cx = \<lparr>cx_deps = ds_deps s', cx_packages = ds_pkgs s', cx_overridden = overridden, cx_sort = sort_units,
        cx_buildkey = buildkey\<rparr>"
    and "\<forall>us. set (sort_units us) = set us" and "build_plan \<longrightarrow> acyclic (dep_rel cx)"
  shows "(\<exists>e. compile_roots (bc_resolve bcx) M cx build_plan force_rebuild roots = Some (Some (Inl e))) \<or>
    (\<exists>st jobs. compile_roots (bc_resolve bcx) M cx build_plan force_rebuild roots = Some (Some (Inr st)) \<and>
       cs_jobs st = enqueue_all jobs \<and> length jobs \<le> length (ds_deps s') \<and>
       deps_queued (jq_queue (cs_jobs st)) \<and> new_key ` set roots \<subseteq> waiting (jq_queue (cs_jobs st)) \<and>
       (build_plan \<longrightarrow> length (bp_invocations (cs_plan st)) = card (cs_compiled st) \<and>
          buildkey ` cs_compiled st \<subseteq> fst ` set (bp_invocation_map (cs_plan st))))"
proof -
  have "cx_deps cx = ds_deps s'" "cx_packages cx = ds_pkgs s'" "\<forall>us. set (cx_sort cx us) = set us" using assms(6,7) by simp_all
  note cx = built_cx_ok [OF assms(1-5) this]
  from compile_roots_ok [OF cx, of build_plan "bc_resolve bcx" M force_rebuild] assms(8) show ?thesis
    unfolding compiled_ok_def
  proof (elim disjE exE conjE)
    fix st
    assume st: "compile_roots (bc_resolve bcx) M cx build_plan force_rebuild roots = Some (Some (Inr st))"
      "jobs_ok cx {} st" "set roots \<subseteq> cs_compiled st" and plan: "build_plan \<and> acyclic (dep_rel cx) \<longrightarrow> plan_ok cx [] st"
    obtain jobs where "cs_jobs st = enqueue_all jobs" "length jobs \<le> length (cx_deps cx)"
      "deps_queued (jq_queue (cs_jobs st))" "waiting (jq_queue (cs_jobs st)) = new_key ` cs_compiled st"
      by (rule jobs_ok_queue [OF st(2)])
    moreover have "build_plan \<longrightarrow> length (bp_invocations (cs_plan st)) = card (cs_compiled st) \<and>
        buildkey ` cs_compiled st \<subseteq> fst ` set (bp_invocation_map (cs_plan st))"
      using plan assms(6,8) by (auto simp: plan_ok_def)
    ultimately show ?thesis using st(1,3) assms(6) by (intro disjI2 exI [of _ st] exI [of _ jobs]) auto
  qed simp_all
qed

theorem compile_queues_graph_witness:
  "deps_queued (jq_queue (cs_jobs pair_compiled)) \<and> new_key pair_root \<in> waiting (jq_queue (cs_jobs pair_compiled))"
  using compile_queues_graph [OF pair_graph_ok pair_start pair_state_built pair_cx_def, of False pair_makers False] pair_compile
  by auto

text \<open>C32: a native library is linked at most once.  If the compilation succeeds, two compiled units whose packages declare the
  same \<open>links\<close> are of the same package, and that package has a build script.\<close>

theorem native_library_linked_once:
  assumes "graph_ok S L bcx" "state_ok S L s" "ds_deps s = []" "\<forall>u \<in> set roots. unit_ok S L UNIV u"
    and "build_unit_dependencies S pick bcx roots s = Some (Some (Inr s'))"
    and "cx = \<lparr>cx_deps = ds_deps s', cx_packages = ds_pkgs s', cx_overridden = overridden, cx_sort = sort_units,
        cx_buildkey = buildkey\<rparr>"
    and "\<forall>us. set (sort_units us) = set us"
    and "compile_roots (bc_resolve bcx) M cx build_plan force_rebuild roots = Some (Some (Inr st))"
    and "u \<in> cs_compiled st" "v \<in> cs_compiled st" "pg_links (bu_pkg u) = Some lib" "pg_links (bu_pkg v) = Some lib"
  shows "bu_pkg u = bu_pkg v \<and> (\<exists>t \<in> set (pg_targets (bu_pkg u)). is_custom_build t)"
proof -
  have "cx_deps cx = ds_deps s'" "cx_packages cx = ds_pkgs s'" "\<forall>us. set (cx_sort cx us) = set us" using assms(6,7) by simp_all
  note cx = built_cx_ok [OF assms(1-5) this]
  have ok: "jobs_ok cx {} st" "compile_links_ok st"
    using compile_roots_ok [OF cx, of build_plan "bc_resolve bcx" M force_rebuild] assms(8) by (auto simp: compiled_ok_def)
  have L: "bu_pkg w = L (pg_id (bu_pkg w))" if "w \<in> cs_compiled st" for w
    using cx(2) ok(1) that unfolding jobs_ok_def by blast
  have own: "map_of (lt_links (cs_links st)) lib = Some (pg_id (bu_pkg w)) \<and> list_ex is_custom_build (pg_targets (bu_pkg w))"
    if "w \<in> cs_compiled st" "pg_links (bu_pkg w) = Some lib" for w
  proof -
    from compile_links_ok_owner [OF ok(2) compile_links_ok_validated [OF ok(2) that(1)]] obtain w' where
        w': "w' \<in> cs_compiled st" "pg_id (bu_pkg w') = pg_id (bu_pkg w)"
      and lib: "\<forall>lib. pg_links (bu_pkg w') = Some lib \<longrightarrow>
         map_of (lt_links (cs_links st)) lib = Some (pg_id (bu_pkg w)) \<and> list_ex is_custom_build (pg_targets (bu_pkg w'))"
      by (elim bexE conjE)
    have "bu_pkg w' = bu_pkg w" using L [OF w'(1)] L [OF that(1)] w'(2) by simp
    with lib that(2) show ?thesis by simp
  qed
  have "pg_id (bu_pkg u) = pg_id (bu_pkg v)"
    using own [OF assms(9,11)] own [OF assms(10,12)] by simp
  then have "bu_pkg u = bu_pkg v" using L assms(9,10) by metis
  with own [OF assms(9,11)] show ?thesis by (simp add: list_ex_iff)
qed

theorem native_library_linked_once_witness:
  "pair_root \<in> cs_compiled pair_compiled \<and> pg_links (bu_pkg pair_root) = Some ''a'' \<and>
   (\<exists>t \<in> set (pg_targets (bu_pkg pair_root)). is_custom_build t)"
proof -
  have root: "pair_root \<in> cs_compiled pair_compiled" by code_simp
  have links: "pg_links (bu_pkg pair_root) = Some ''a''"
    by (simp add: pair_root_def pair_package_def pair_uid_def pkg_def)
  show ?thesis
    using native_library_linked_once [OF pair_graph_ok pair_start pair_state_built pair_cx_def _ pair_compile root root links links]
      root links by simp
qed

text \<open>\<open>links\<close> and a dev-dependency can make a build panic.  Package \<open>a\<close> has \<open>b\<close> as a dev-dependency, \<open>b\<close> uses \<open>a\<close>, and both have
  \<open>links\<close> and a build script.  The tests of \<open>a\<close> need both libraries, so \<open>connect_run_custom_build_deps\<close> makes
  each run of a build script wait for the other.  The graph is built and compiled without an error, and the
  start of the queue fails its assertion that there is no cycle; a dry run fails already when the plan asks for the number
  of an invocation that it does not have yet.\<close>

theorem links_dev_cycle_panics:
  "build_unit_dependencies pair_set (\<lambda>_ _. 0) pair_context [pair_root] (new_dep_state [] []) = Some (Some (Inr pair_state)) \<and>
   compile_roots (bc_resolve pair_context) pair_makers pair_cx False False [pair_root] = Some (Some (Inr pair_compiled)) \<and>
   execute_start (cs_jobs pair_compiled) = None \<and>
   compile_roots (bc_resolve pair_context) pair_makers pair_cx True False [pair_root] = Some None"
proof (intro conjI pair_state_built pair_compile)
  have "case compile_roots (bc_resolve pair_context) pair_makers pair_cx True False [pair_root] of Some None \<Rightarrow> True | _ \<Rightarrow> False"
    by code_simp
  then show "compile_roots (bc_resolve pair_context) pair_makers pair_cx True False [pair_root] = Some None"
    by (auto split: option.splits sum.splits)
  have "\<forall>us. set (cx_sort pair_cx us) = set us" "cx_deps pair_cx = ds_deps pair_state" "cx_packages pair_cx = ds_pkgs pair_state"
    by (simp_all add: pair_cx_def)
  note cx = built_cx_ok [OF pair_graph_ok pair_start pair_state_built this(2,3,1)]
  have "jobs_ok pair_cx {} pair_compiled"
    using compile_roots_ok [OF cx, of False "bc_resolve pair_context" pair_makers False] pair_compile by (auto simp: compiled_ok_def)
  then obtain jobs where jobs: "cs_jobs pair_compiled = enqueue_all jobs" "length jobs \<le> length (cx_deps pair_cx)"
    by (rule jobs_ok_queue)
  have "length (ds_deps pair_state) = 7" by (rule pair_built) (use pair_state_built in simp)
  moreover have "length (dep_map (jq_queue (cs_jobs pair_compiled))) \<le> length jobs" "enqueued_ok (cs_jobs pair_compiled)"
    unfolding jobs(1) by (rule enqueue_all_ok)+
  ultimately have ok: "length (dep_map (jq_queue (cs_jobs pair_compiled))) \<le> 7" "enqueued_ok (cs_jobs pair_compiled)"
    using jobs(2) by (simp_all add: pair_cx_def)
  then have "length (dep_map (jq_queue (cs_jobs pair_compiled))) < IN_PROGRESS" using ok(1) by (simp add: IN_PROGRESS_def)
  then show "execute_start (cs_jobs pair_compiled) = None"
    by (rule cyclic_queue_panics [OF ok(2) _ pair_waits])
qed

end
