(* ===== verification/Spec2Isabelle.thy ===== *)
theory Spec2Isabelle
  imports Scheduler Lev_Distance Resolve_Top Path_Deps Resolver_Terminates Registry_Correct Hex Interning
    Config_Correct Replaced_Source Toml_Targets Compile_Units
begin

text \<open>
  A verification library for Cargo, the package manager of Rust (version 0.32).  It models the code that
  decides what a build consists of: configuration and sources, ids, dependencies and feature maps, the registry that
  answers queries, the resolver with its backtracking search, the resolution and its lock file, the targets and profiles of
  packages, the graph of the units to compile, and the queue that runs their jobs.  File names below are relative to
  \<open>src/src/cargo\<close>.

  \<^bold>\<open>How the parts interact.\<close>  The \<^emph>\<open>configuration\<close> is read from files and the environment, and says which
  \<^emph>\<open>sources\<close> replace which.  A manifest becomes a \<^emph>\<open>summary\<close> (a package id, dependencies and a feature map), a
  list of \<^emph>\<open>targets\<close> and a table of \<^emph>\<open>profiles\<close>.  The \<^emph>\<open>package registry\<close> answers a dependency with the summaries of the
  loaded sources, with patches and overrides applied and rewritten to the versions of the lock file.  The
  \<^emph>\<open>resolver\<close> repeatedly takes the most constrained open dependency, tries its candidates in order, activates one in
  its \<^emph>\<open>context\<close>, and backtracks on conflicts, which the \<^emph>\<open>conflict cache\<close> remembers.  Its context becomes a
  \<^emph>\<open>resolution\<close>, which is checked for cycles and for ids a lock file cannot tell apart, merged with the previous one
  and written to the \<^emph>\<open>lock file\<close>.  From the resolution and the units of a command the \<^emph>\<open>unit graph\<close> is built, in rounds
  that wait for the packages to be downloaded.  \<open>compile\<close> walks the graph and fills the \<^emph>\<open>job queue\<close> (and the
  plan of a dry run), which takes the jobs from the \<^emph>\<open>dependency queue\<close> in an order that respects their
  dependencies and runs as many of them as it has tokens for.

  \<^bold>\<open>Theories and sources.\<close>
  \<^item> \<open>Prelude\<close>: results, panics, loops over them, association lists, orderings, string splitting.
  \<^item> \<open>Source_Id\<close> (\<open>core/source/source_id.rs\<close>, \<open>canonicalize_url\<close> of \<open>sources/git/source.rs\<close>): source ids, their
    constructors, equality, order, hash, printing and parsing.
  \<^item> \<open>Package_Id\<close> (\<open>core/package_id.rs\<close>, \<open>core/package_id_spec.rs\<close>): package ids and the specifications that
    select them on the command line.
  \<^item> \<open>Cfg\<close> (\<open>util/cfg.rs\<close>, \<open>Platform\<close> of \<open>core/dependency.rs\<close>): tokenizer, parser, printer and evaluation
    of \<open>cfg\<close> expressions.
  \<^item> \<open>Dependency_Model\<close> (\<open>core/dependency.rs\<close>) and \<open>Summary_Model\<close> (\<open>core/summary.rs\<close>): dependencies, and
    summaries with the construction and the checks of the feature map.
  \<^item> \<open>Interning\<close> (\<open>core/interning.rs\<close>): interned strings compared by address.
  \<^item> \<open>Registry\<close>, \<open>Registry_Correct\<close> (\<open>core/registry.rs\<close>): the package registry and the locking of summaries.
  \<^item> \<open>Config_Value\<close>, \<open>Config_Load\<close>, \<open>Config_Correct\<close> (\<open>util/config.rs\<close>): the tree of values, the files and their order,
    lookups through the environment, and saved credentials.
  \<^item> \<open>Source_Config\<close> (\<open>sources/config.rs\<close>), \<open>Replaced_Source\<close> (\<open>sources/replaced.rs\<close>, \<open>sources/directory.rs\<close>): source
    replacement, vendored directories, and the source that answers under another id.
  \<^item> \<open>Paths\<close> (\<open>util/paths.rs\<close>): lexical normalization of paths.
  \<^item> \<open>Cargo_Features\<close> (\<open>core/features.rs\<close>): editions, feature gates and unstable flags.
  \<^item> \<open>Profiles\<close> (\<open>core/profiles.rs\<close> and the validation in \<open>util/toml/mod.rs\<close>): the profile of a unit.
  \<^item> \<open>Manifest_Targets\<close> (\<open>core/manifest.rs\<close>), \<open>Toml_Targets\<close> (\<open>util/toml/targets.rs\<close>): targets, their inference from the
    files of a package, and the checks on them.
  \<^item> \<open>Requirements\<close>, \<open>Resolver_Context\<close>, \<open>Remaining_Deps\<close> (\<open>core/resolver/context.rs\<close>,
    \<open>core/resolver/types.rs\<close>): feature requirements, the context of the search, the cache of queries, the
    heap of open dependencies.
  \<^item> \<open>Conflict_Cache\<close> (\<open>core/resolver/conflict_cache.rs\<close>).
  \<^item> \<open>Resolver_Loop\<close> (\<open>core/resolver/mod.rs\<close>, \<open>ResolverProgress\<close> of \<open>core/resolver/types.rs\<close>): candidates, activation,
    backtracking and the main loop, which is a machine with the state of the two nested loops.
  \<^item> \<open>Resolver_Invariant\<close>, \<open>Resolver_Correct\<close>, \<open>Resolver_Terminates\<close>: invariants of that machine, what a
    successful search guarantees, and when the search ends.
  \<^item> \<open>Resolve_Result\<close> (\<open>core/resolver/resolve.rs\<close>), \<open>Cycle_Check\<close> and \<open>Resolve_Top\<close> (\<open>resolve\<close>,
    \<open>check_cycles\<close>, \<open>check_duplicate_pkgs_in_lockfile\<close> of \<open>core/resolver/mod.rs\<close>).
  \<^item> \<open>Lockfile\<close>, \<open>Path_Deps\<close> (\<open>core/resolver/encode.rs\<close>, the tables of \<open>ops/lockfile.rs\<close>): the lock file, the texts of its
    ids, and the path packages it leaves out.
  \<^item> \<open>Unit_Graph\<close> (\<open>core/compiler/context/unit_dependencies.rs\<close>, the books of \<open>Downloads\<close> in \<open>core/package.rs\<close>),
    \<open>Compile_Units\<close> (\<open>compile\<close> of \<open>core/compiler/mod.rs\<close>, \<open>Links\<close> and \<open>dep_targets\<close> of \<open>core/compiler/context/mod.rs\<close>,
    \<open>BuildPlan::add\<close> of \<open>core/compiler/build_plan.rs\<close>).
  \<^item> \<open>Job_Queue\<close> (\<open>core/compiler/job_queue.rs\<close>), \<open>Dep_Queue\<close> and \<open>Scheduler\<close> (\<open>util/dependency_queue.rs\<close>).
  \<^item> \<open>Pkg_Graph\<close> (\<open>util/graph.rs\<close>), \<open>Lev_Distance\<close> (\<open>util/lev_distance.rs\<close>), \<open>Hex\<close> (\<open>util/hex.rs\<close>).

  \<^bold>\<open>How code is represented.\<close>
  \<^item> A struct is a record, an enum a datatype, a function a definition with its arguments in the order
    that suits partial application; a method that changes \<open>self\<close> returns the changed record.
  \<^item> \<open>Result\<close> is a sum with \<open>Inl\<close> the error; a panic is an outer \<open>None\<close>.  Every \<open>unwrap\<close>, \<open>expect\<close>,
    \<open>assert!\<close> and index out of range of the modelled code is such a branch.
  \<^item> A \<open>HashMap\<close> is an association list whose order stands for the unspecified iteration order; a
    theorem on every list holds for every order.  An unstable sort is a stable one.
  \<^item> A callback is the list of the values it was called with.
  \<^item> Source ids carry a precise version and a name that \<open>==\<close> ignores.  The resolver theories are generic in the
    type of sources and use equality of that type for \<open>==\<close>, and \<open>resolve\<close> takes source ids in the form
    \<open>==\<close> compares; the lock file and the registry, where the precise version matters, compare \<open>sid_key\<close>, which
    is \<open>==\<close> on every id the constructors make (\<open>Source_Id.source_ids_well_formed\<close>).
  \<^item> Versions have no build metadata, which \<open>semver\<close>'s equality ignores as well.
  \<^item> Messages of threads are events whose order is free: a run of the job queue is any sequence of messages that the
    running jobs and the job server can send.
  \<^item> The crates \<open>semver\<close>, \<open>url\<close>, \<open>toml\<close> and \<open>hex\<close>, the file system, the trait \<open>Source\<close>, the clock, the terminal and the hasher are
    arguments; theorems state what they need of them as hypotheses, and each such theorem has a witness with a
    concrete instance.

  \<^bold>\<open>Fuel and loops that may not end.\<close>  Structural recursion and measures where the code allows.  \<open>require_feature\<close> recurses with
  one unit of fuel more than there are features, and \<open>Requirements\<close> shows that it never runs out, since a feature is
  entered once.  \<open>visit\<close> of the cycle check has one unit more than there are summaries, the path it is on being free of
  repetition, and \<open>build_dep\<close> one more than there are loadable path packages.  The main loop of the resolver takes
  its fuel as an argument.  It is shown to return, in a build without debug assertions, for a finite registry without
  replacements, namespaced features and empty feature names; that the last condition is needed is shown by a search
  that makes any number of steps.  The theorems on resolutions hold of every result.  \<open>follow\<close> (source replacement), \<open>deps_of\<close> and
  \<open>unit_rounds\<close> (unit graph) and \<open>compile_all\<close> are partial functions whose outermost \<open>None\<close> is that the loop does not
  end: the first is characterized exactly, the others are shown to return.  \<open>path_to_top\<close> and the run of
  the dependency queue are shown to end, and a run of the job queue gets at most one end message per job.

  \<^bold>\<open>What is shown.\<close>
  \<^item> \<^emph>\<open>Resolver\<close>: a resolution activates at most one package per \<open>links\<close> key, no two semver-compatible versions of a
    package that does not patch another source, and a candidate from the registry for every required dependency of an
    activated package; the graph is exactly what the log of the search records; after the search \<open>resolve\<close> ends without a
    panic, with the activated packages, a real cycle or two packages that really collide.  The search returns under
    the conditions above.  The cycle check is exact on graphs without development dependencies, sound on all, and can
    miss a cycle otherwise.
  \<^item> \<^emph>\<open>Conflict cache and heap\<close>: locales \<open>conflict_store\<close> and \<open>max_heap\<close> state what the search relies on, and are
    interpreted on the trie and on the heap of the code; \<open>search_invariant\<close> carries an invariant through
    the search, and is interpreted once per property.
  \<^item> \<^emph>\<open>Features\<close>: a feature map that was accepted is closed, and requirements built from it, for packages without
    namespaced features, are closed under the features they name.
  \<^item> \<^emph>\<open>Registry\<close>: locking only narrows, pins what was recorded, is idempotent and refines a search in the list
    of recorded packages; queries on a reachable registry whose patches are locked and have different names do not
    panic, and answer each version once.
  \<^item> \<^emph>\<open>Lock file\<close>: a resolution written as text and read back is the same as far as a lock file holds it, with ids
    that are \<open>==\<close>; merging checks exactly the shared checksums; all path packages are found.
  \<^item> \<^emph>\<open>Configuration and sources\<close>: layers and their order, the value at every key path of a merge, what saving credentials
    keeps and loses; the source that replaces another is the end of a chain of names, or the chain never ends;
    the locale \<open>source_contract\<close>, interpreted on the vendored directory and on the source in front of it, gives
    that every answer can be downloaded under the id it has.
  \<^item> \<^emph>\<open>Targets and profiles\<close>: the targets of a manifest are unique, complete and named, and none of the assertions
    fails; every setting of a profile comes from the first of its layers that has it.
  \<^item> \<^emph>\<open>Ids\<close>: well-formedness, agreement of equality with hashing, what is kept of an id through text; a panic on
    an empty fragment.
  \<^item> \<^emph>\<open>Unit graph and compilation\<close>: the graph is built whole, independently of downloads; its traversal enqueues every unit once
    with everything it waits for, and enters it in the plan of a dry run; a native library is linked by one package.
  \<^item> \<^emph>\<open>Queues\<close>: the locale \<open>scheduler\<close>, interpreted on the dependency queue, gives that runs start jobs after their
    dependencies and end with all of them; the assertion against cycles fails exactly on cycles; in every
    order of messages the job queue keeps its count of tokens and jobs, and its result tells whether a job failed.
  \<^item> \<^emph>\<open>Utilities\<close>: the edit distance is the least number of edits, \<open>cfg\<close> expressions print and parse back, normalized
    paths denote the same file, interned strings compare as their texts, short hashes determine the 64-bit hash.

  \<^bold>\<open>Not modelled.\<close>  The syntax of toml and the deserialization of manifests, the sources behind the trait \<open>Source\<close>
  other than directories (network, git, registry index), downloads beyond their books, running compilers and build
  scripts, fingerprints (file times), the commands that drive these parts, and the wording of
  error messages: the model keeps the error values and their data.  Of the terminal only the progress line of the
  resolver is modelled, because it can stop the search; warnings are lists, and errors of printing them are left out, as is
  the update of the plan of a dry run when a job reports its command.
\<close>

end
